(* ===== verification/Prelude.thy ===== *)
theory Prelude
  imports Main "HOL-Library.Word" "HOL-Library.Multiset" "HOL-Library.Monad_Syntax"
begin

text \<open>
  Shared material of the development: names for the machine types of the Rust code, the
  collections of rewrite rules the components use, and generic lemmas on lists, options and
  words that the component theories need and the library does not have in this form.

  A Rust function that can panic (an \<open>assert!\<close>, an \<open>expect\<close>, an \<open>unreachable!\<close>, an index out
  of range) is a function into \<open>option\<close>, with \<open>None\<close> for the panic, composed with the option
  monad. A Rust function that returns a \<open>Result\<close> is a function into a sum, with \<open>Inl\<close> for the
  error.
\<close>

type_synonym u32 = "32 word"
type_synonym u64 = "64 word"

named_theorems list_view_simps \<open>how an operation changes the list a container stands for\<close>
named_theorems inv_intros \<open>operations keep their invariant\<close>

text \<open>The largest value of \<open>usize\<close> and of \<open>isize\<close> on the 64-bit targets.\<close>

definition usize_max :: nat where
  "usize_max = 2 ^ 64 - 1"

definition isize_max :: nat where
  "isize_max = 2 ^ 63 - 1"

subsection \<open>Deleting and inserting list elements by position\<close>

definition remove_nth :: "nat \<Rightarrow> 'a list \<Rightarrow> 'a list" where
  "remove_nth i xs = take i xs @ drop (Suc i) xs"

lemma length_remove_nth [simp]: "i < length xs \<Longrightarrow> length (remove_nth i xs) = length xs - 1"
  by (simp add: remove_nth_def)

lemma remove_nth_Cons_0 [simp]: "remove_nth 0 (x # xs) = xs"
  by (simp add: remove_nth_def)

lemma remove_nth_Cons_Suc [simp]: "remove_nth (Suc i) (x # xs) = x # remove_nth i xs"
  by (simp add: remove_nth_def)

lemma nth_remove_nth:
  "i < length xs \<Longrightarrow> j < length xs - 1 \<Longrightarrow>
   remove_nth i xs ! j = (if j < i then xs ! j else xs ! Suc j)"
  by (auto simp: remove_nth_def nth_append min_def)

lemma map_remove_nth [simp]: "map f (remove_nth i xs) = remove_nth i (map f xs)"
  by (simp add: remove_nth_def take_map drop_map)

lemma set_remove_nth_subset: "set (remove_nth i xs) \<subseteq> set xs"
  using set_take_subset set_drop_subset by (fastforce simp: remove_nth_def)

lemma distinct_remove_nth: "distinct xs \<Longrightarrow> distinct (remove_nth i xs)"
  by (auto simp: remove_nth_def set_take_disj_set_drop_if_distinct)

lemma remove_nth_last: "remove_nth (length xs) (xs @ [x]) = xs"
  by (simp add: remove_nth_def)

lemma zip_remove_nth: "length xs = length ys \<Longrightarrow>
  zip (remove_nth i xs) (remove_nth i ys) = remove_nth i (zip xs ys)"
  by (simp add: remove_nth_def take_zip drop_zip)

lemma set_remove_nth_distinct:
  "distinct xs \<Longrightarrow> i < length xs \<Longrightarrow> set (remove_nth i xs) = set xs - {xs ! i}"
proof (induction xs arbitrary: i)
  case Nil
  then show ?case by simp
next
  case (Cons x xs)
  then show ?case by (cases i) auto
qed

subsection \<open>Moving memory\<close>

text \<open>
  \<open>ptr_copy buf src dst n\<close> is \<open>ptr::copy(p + src, p + dst, n)\<close> inside one buffer: \<open>n\<close> cells are
  copied as if through an intermediate buffer, so the two ranges may overlap.
\<close>

definition ptr_copy :: "'a list \<Rightarrow> nat \<Rightarrow> nat \<Rightarrow> nat \<Rightarrow> 'a list" where
  "ptr_copy buf src dst n = take dst buf @ take n (drop src buf) @ drop (dst + n) buf"

lemma length_ptr_copy [simp]:
  "src + n \<le> length buf \<Longrightarrow> dst + n \<le> length buf \<Longrightarrow> length (ptr_copy buf src dst n) = length buf"
  by (simp add: ptr_copy_def)

lemma ptr_copy_zero [simp]: "ptr_copy buf src dst 0 = buf"
  by (simp add: ptr_copy_def)

text \<open>Moving the element at \<open>b\<close> down to \<open>a\<close>, with the elements in between one place up.\<close>

definition move_down :: "nat \<Rightarrow> nat \<Rightarrow> 'a list \<Rightarrow> 'a list" where
  "move_down a b xs = take a xs @ xs ! b # take (b - a) (drop a xs) @ drop (Suc b) xs"

lemma length_move_down [simp]: "a < b \<Longrightarrow> b < length xs \<Longrightarrow> length (move_down a b xs) = length xs"
  by (simp add: move_down_def)

lemma move_down_append:
  assumes "a < length ys"
  shows "move_down a (length ys) (ys @ x # zs) = take a ys @ x # drop a ys @ zs"
  using assms by (simp add: move_down_def)

lemma zip_move_down:
  assumes "length xs = length ys" and "a < b" and "b < length xs"
  shows "zip (move_down a b xs) (move_down a b ys) = move_down a b (zip xs ys)"
  using assms by (simp add: move_down_def take_zip drop_zip)

lemma move_down_prefix:
  "a < b \<Longrightarrow> b < length ys \<Longrightarrow> move_down a b (ys @ zs) = move_down a b ys @ zs"
  by (simp add: move_down_def nth_append)

lemma take_move_down:
  assumes "a < b" and "b < n" and "n \<le> length xs"
  shows "take n (move_down a b xs) = move_down a b (take n xs)"
proof -
  have "move_down a b xs = move_down a b (take n xs @ drop n xs)" by simp
  also have "\<dots> = move_down a b (take n xs) @ drop n xs"
    using assms by (intro move_down_prefix) auto
  finally show ?thesis using assms by simp
qed

lemma map_move_down [simp]:
  "b < length xs \<Longrightarrow> map f (move_down a b xs) = move_down a b (map f xs)"
  by (simp add: move_down_def take_map drop_map)

subsection \<open>Strict weak orders given by a comparison\<close>

text \<open>What Rust asks of the \<open>less\<close> a sort is called with.\<close>

definition strict_weak :: "('a \<Rightarrow> 'a \<Rightarrow> bool) \<Rightarrow> bool" where
  "strict_weak lt \<longleftrightarrow> (\<forall>x y. lt x y \<longrightarrow> \<not> lt y x) \<and> (\<forall>x y z. \<not> lt x y \<longrightarrow> \<not> lt y z \<longrightarrow> \<not> lt x z)"

abbreviation sorted_by :: "('a \<Rightarrow> 'a \<Rightarrow> bool) \<Rightarrow> 'a list \<Rightarrow> bool" where
  "sorted_by lt \<equiv> sorted_wrt (\<lambda>x y. \<not> lt y x)"

abbreviation same_rank :: "('a \<Rightarrow> 'a \<Rightarrow> bool) \<Rightarrow> 'a \<Rightarrow> 'a \<Rightarrow> bool" where
  "same_rank lt x y \<equiv> \<not> lt x y \<and> \<not> lt y x"

text \<open>\<open>ys\<close> is the stable sort of \<open>xs\<close>: sorted, and elements of equal rank in their old order.\<close>

definition stable_sort_of :: "('a \<Rightarrow> 'a \<Rightarrow> bool) \<Rightarrow> 'a list \<Rightarrow> 'a list \<Rightarrow> bool" where
  "stable_sort_of lt xs ys \<longleftrightarrow>
     mset ys = mset xs \<and> sorted_by lt ys \<and>
     (\<forall>x. filter (same_rank lt x) ys = filter (same_rank lt x) xs)"

lemma strict_weakD:
  "strict_weak lt \<Longrightarrow> lt x y \<Longrightarrow> \<not> lt y x"
  "strict_weak lt \<Longrightarrow> \<not> lt x y \<Longrightarrow> \<not> lt y z \<Longrightarrow> \<not> lt x z"
  unfolding strict_weak_def by blast+

lemma strict_weak_key: "strict_weak (\<lambda>x y. f x < (f y :: 'b::linorder))"
  by (auto simp: strict_weak_def)

lemma stable_sort_of_key:
  fixes f :: "'a \<Rightarrow> 'b::linorder"
  assumes "stable_sort_of (\<lambda>x y. f x < f y) xs ys"
  shows "ys = sort_key f xs"
proof (rule sym, rule properties_for_sort_key)
  show "mset ys = mset xs" and "sorted (map f ys)"
    using assms by (auto simp: stable_sort_of_def sorted_map not_less)
  fix k assume "k \<in> set ys"
  have "(\<lambda>y. f k = f y) = same_rank (\<lambda>x y. f x < f y) k"
    by (auto simp: fun_eq_iff)
  with assms show "filter (\<lambda>y. f k = f y) ys = filter (\<lambda>y. f k = f y) xs"
    by (simp add: stable_sort_of_def)
qed

subsection \<open>The stable sort of the standard library\<close>

text \<open>The result of Rust's \<open>Ord::cmp\<close>.\<close>

datatype ordering = Less | Equal | Greater

definition cmp_key :: "'a::linorder \<Rightarrow> 'a \<Rightarrow> ordering" where
  "cmp_key x y = (if x < y then Less else if x = y then Equal else Greater)"

abbreviation cmp_less :: "('a \<Rightarrow> 'a \<Rightarrow> ordering) \<Rightarrow> 'a \<Rightarrow> 'a \<Rightarrow> bool" where
  "cmp_less compare \<equiv> (\<lambda>x y. compare x y = Less)"

text \<open>
  \<open>slice::sort_by\<close> is documented as a stable sort; the list it leaves is the one a stable insertion
  from the right computes.
\<close>

fun insort_by :: "('a \<Rightarrow> 'a \<Rightarrow> bool) \<Rightarrow> 'a \<Rightarrow> 'a list \<Rightarrow> 'a list" where
  "insort_by lt x [] = [x]"
| "insort_by lt x (y # ys) = (if lt y x then y # insort_by lt x ys else x # y # ys)"

definition std_sort_by :: "('a \<Rightarrow> 'a \<Rightarrow> ordering) \<Rightarrow> 'a list \<Rightarrow> 'a list" where
  "std_sort_by compare xs = foldr (insort_by (cmp_less compare)) xs []"

lemma cmp_key_Less [simp]: "cmp_key x y = Less \<longleftrightarrow> x < y"
  by (simp add: cmp_key_def)

lemma mset_insort_by [simp]: "mset (insort_by lt x ys) = add_mset x (mset ys)"
  by (induction ys) auto

lemma set_insort_by [simp]: "set (insort_by lt x ys) = insert x (set ys)"
  by (induction ys) auto

lemma sorted_insort_by:
  assumes "strict_weak lt"
  shows "sorted_by lt ys \<Longrightarrow> sorted_by lt (insort_by lt x ys)"
proof (induction ys)
  case (Cons y ys)
  show ?case
  proof (cases "lt y x")
    case True
    then have "\<not> lt x y" by (rule strict_weakD(1) [OF assms])
    with True Cons show ?thesis by simp
  next
    case False
    have "\<not> lt z x" if "z \<in> set ys" for z
      using Cons.prems that strict_weakD(2) [OF assms _ False, of z] by simp
    with False Cons.prems show ?thesis by simp
  qed
qed simp

lemma filter_insort_by:
  assumes swo: "strict_weak lt"
  shows "filter (same_rank lt z) (insort_by lt x ys) = filter (same_rank lt z) (x # ys)"
proof (induction ys)
  case (Cons y ys)
  have "\<not> same_rank lt z y" if "lt y x" "same_rank lt z x"
    using that strict_weakD(2) [OF swo, of y z x] by blast
  with Cons show ?case by auto
qed simp

lemma std_sort_by_stable:
  assumes "strict_weak (cmp_less compare)"
  shows "stable_sort_of (cmp_less compare) xs (std_sort_by compare xs)"
proof (induction xs)
  case Nil
  show ?case by (simp add: std_sort_by_def stable_sort_of_def)
next
  case (Cons x xs)
  let ?lt = "cmp_less compare"
  have "std_sort_by compare (x # xs) = insort_by ?lt x (std_sort_by compare xs)"
    by (simp add: std_sort_by_def)
  with Cons sorted_insort_by [OF assms] filter_insort_by [OF assms] show ?case
    by (simp add: stable_sort_of_def)
qed

lemma std_sort_by_cmp_key: "std_sort_by cmp_key xs = sort xs"
  using std_sort_by_stable [of cmp_key xs] strict_weak_key [of "\<lambda>x. x"]
  by (intro stable_sort_of_key) simp

subsection \<open>The first position that satisfies a predicate\<close>

fun find_index :: "('a \<Rightarrow> bool) \<Rightarrow> 'a list \<Rightarrow> nat option" where
  "find_index P [] = None"
| "find_index P (x # xs) = (if P x then Some 0 else map_option Suc (find_index P xs))"

lemma find_index_None_iff: "find_index P xs = None \<longleftrightarrow> (\<forall>x\<in>set xs. \<not> P x)"
  by (induction xs) auto

lemma find_index_Some_iff:
  "find_index P xs = Some i \<longleftrightarrow> i < length xs \<and> P (xs ! i) \<and> (\<forall>j<i. \<not> P (xs ! j))"
proof (induction xs arbitrary: i)
  case (Cons x xs)
  show ?case by (cases i) (auto simp: Cons less_Suc_eq_0_disj nth_Cons')
qed simp

lemma find_index_append:
  "find_index P (xs @ ys) =
     (case find_index P xs of Some i \<Rightarrow> Some i
      | None \<Rightarrow> map_option (\<lambda>j. length xs + j) (find_index P ys))"
  by (induction xs; cases "find_index P ys") (auto split: option.splits)

lemma find_index_drop:
  assumes "\<And>j. j < i \<Longrightarrow> j < length xs \<Longrightarrow> \<not> P (xs ! j)" and "i \<le> length xs"
  shows "find_index P xs = map_option (\<lambda>j. i + j) (find_index P (drop i xs))"
proof -
  have "find_index P (take i xs) = None"
    using assms by (auto simp: find_index_None_iff in_set_conv_nth)
  then show ?thesis
    using find_index_append [of P "take i xs" "drop i xs"] assms(2) by (simp add: min_def)
qed

lemma find_index_map: "find_index P (map f xs) = find_index (\<lambda>x. P (f x)) xs"
  by (induction xs) auto

lemma find_index_unique:
  assumes "i < length xs" and "P (xs ! i)" and "\<And>j. j < length xs \<Longrightarrow> P (xs ! j) \<Longrightarrow> j = i"
  shows "find_index P xs = Some i"
  using assms(1,2) assms(3) [OF less_trans [OF _ assms(1)]] by (auto simp: find_index_Some_iff)

lemma find_index_map_of:
  "map_option (\<lambda>i. snd (xs ! i)) (find_index (\<lambda>kv. fst kv = k) xs) = map_of xs k"
  by (induction xs) (auto simp: option.map_comp comp_def)

text \<open>Searching for \<open>P\<close> through the candidates of a weaker test \<open>Q\<close>.\<close>

lemma find_index_refine:
  assumes "\<And>x. P x \<Longrightarrow> Q x"
  shows "find_index P xs =
    (case find_index Q xs of None \<Rightarrow> None
     | Some d \<Rightarrow> if P (xs ! d) then Some d
                else map_option (\<lambda>j. Suc (d + j)) (find_index P (drop (Suc d) xs)))"
proof (cases "find_index Q xs")
  case None
  then have "find_index P xs = None" using assms unfolding find_index_None_iff by blast
  with None show ?thesis by simp
next
  case (Some d)
  then have d: "d < length xs" "\<And>j. j < d \<Longrightarrow> \<not> P (xs ! j)"
    using assms by (auto simp: find_index_Some_iff)
  show ?thesis
  proof (cases "P (xs ! d)")
    case True
    with d have "find_index P xs = Some d" by (simp add: find_index_Some_iff)
    with True Some show ?thesis by simp
  next
    case False
    with d have "\<not> P (xs ! j)" if "j < Suc d" for j using that by (cases "j = d") auto
    with find_index_drop [of "Suc d" xs P] d(1) Some False show ?thesis by simp
  qed
qed

lemma map_fst_update_same:
  "i < length xs \<Longrightarrow> fst x = fst (xs ! i) \<Longrightarrow> map fst (xs[i := x]) = map fst xs"
  by (metis list_update_id map_update nth_map length_map)

end
