(* ===== verification/Insertion_Sort.thy ===== *)
theory Insertion_Sort
  imports Prelude
begin

text \<open>
  The generic insertion sort of \<^verbatim>\<open>starlark_map/src/sorting/insertion.rs\<close>. It sorts any collection
  that offers a comparison of two positions (\<open>less\<close>) and a \<open>swap_shift\<close> that moves one element
  down; the library calls it on slices and on \<open>Vec2\<close>. That interface is the locale \<open>swap_array\<close>,
  in which the sort is proved stable and total; \<open>slice_swap_shift\<close> is its first provider.
\<close>

subsection \<open>The code\<close>

text \<open>The \<open>while\<close> loop of \<open>find_insertion_point\<close>, at loop variable \<open>i\<close>.\<close>

fun find_insertion_loop :: "('arr \<Rightarrow> nat \<Rightarrow> nat \<Rightarrow> bool) \<Rightarrow> 'arr \<Rightarrow> nat \<Rightarrow> nat \<Rightarrow> nat" where
  "find_insertion_loop less_fn arr next_unsorted 0 = 0"
| "find_insertion_loop less_fn arr next_unsorted (Suc i) =
     (if less_fn arr next_unsorted i then find_insertion_loop less_fn arr next_unsorted i else Suc i)"

definition find_insertion_point :: "'arr \<Rightarrow> nat \<Rightarrow> ('arr \<Rightarrow> nat \<Rightarrow> nat \<Rightarrow> bool) \<Rightarrow> nat" where
  "find_insertion_point arr next_unsorted less_fn =
     find_insertion_loop less_fn arr next_unsorted next_unsorted"

text \<open>Both \<open>assert!\<close>s of \<open>slice_swap_shift\<close> panic when they fail.\<close>

definition slice_swap_shift :: "'a list \<Rightarrow> nat \<Rightarrow> nat \<Rightarrow> 'a list option" where
  "slice_swap_shift sl a b =
     (if a < b \<and> b < length sl
      then (let tmp = sl ! b; moved = ptr_copy sl a (a + 1) (b - a)
            in Some (moved[a := tmp]))
      else None)"

text \<open>The \<open>for\<close> loop of \<open>insertion_sort\<close> over the positions still to insert.\<close>

fun insertion_sort_loop ::
  "('arr \<Rightarrow> nat \<Rightarrow> nat \<Rightarrow> bool) \<Rightarrow> ('arr \<Rightarrow> nat \<Rightarrow> nat \<Rightarrow> 'arr option) \<Rightarrow> nat list \<Rightarrow> 'arr \<Rightarrow> 'arr option"
where
  "insertion_sort_loop less_fn swap_shift [] arr = Some arr"
| "insertion_sort_loop less_fn swap_shift (i # is) arr =
     (let insertion_point = find_insertion_point arr i less_fn
      in if insertion_point \<noteq> i
         then (case swap_shift arr insertion_point i of
                 None \<Rightarrow> None
               | Some arr' \<Rightarrow> insertion_sort_loop less_fn swap_shift is arr')
         else insertion_sort_loop less_fn swap_shift is arr)"

definition insertion_sort ::
  "'arr \<Rightarrow> nat \<Rightarrow> ('arr \<Rightarrow> nat \<Rightarrow> nat \<Rightarrow> bool) \<Rightarrow> ('arr \<Rightarrow> nat \<Rightarrow> nat \<Rightarrow> 'arr option) \<Rightarrow> 'arr option"
where
  "insertion_sort arr len less_fn swap_shift = insertion_sort_loop less_fn swap_shift [1..<len] arr"

subsection \<open>The insertion point\<close>

lemma find_insertion_loop_le: "find_insertion_loop less_fn arr n i \<le> i"
  by (induction i) (auto intro: le_SucI)

lemma find_insertion_loop_below:
  "find_insertion_loop less_fn arr n i \<le> j \<Longrightarrow> j < i \<Longrightarrow> less_fn arr n j"
  by (induction i) (auto split: if_splits simp: less_Suc_eq)

lemma find_insertion_loop_stop:
  "find_insertion_loop less_fn arr n i = Suc k \<Longrightarrow> \<not> less_fn arr n k"
  by (induction i) (auto split: if_splits)

lemmas find_insertion_facts =
  find_insertion_loop_le find_insertion_loop_below find_insertion_loop_stop

lemma slice_swap_shift_move_down:
  assumes "a < b" and "b < length sl"
  shows "slice_swap_shift sl a b = Some (move_down a b sl)"
proof -
  have "drop a sl = sl ! a # drop (Suc a) sl"
    using assms by (simp add: Cons_nth_drop_Suc)
  moreover have "(take (Suc a) sl @ ys)[a := sl ! b] = take a sl @ sl ! b # ys" for ys
    using assms by (simp add: take_Suc_conv_app_nth list_update_append)
  ultimately show ?thesis
    using assms by (simp add: slice_swap_shift_def move_down_def ptr_copy_def Let_def)
qed

subsection \<open>Inserting one element keeps a stable sort\<close>

lemma insert_sorted_by:
  assumes swo: "strict_weak lt" and sorted: "sorted_by lt ys"
    and le: "k \<le> length ys"
    and above: "\<And>j. k \<le> j \<Longrightarrow> j < length ys \<Longrightarrow> lt x (ys ! j)"
    and stop: "\<And>m. k = Suc m \<Longrightarrow> \<not> lt x (ys ! m)"
  shows "sorted_by lt (take k ys @ x # drop k ys)"
proof -
  have app: "ys = take k ys @ drop k ys" by simp
  with sorted have parts: "sorted_by lt (take k ys)" "sorted_by lt (drop k ys)"
      "\<forall>y\<in>set (take k ys). \<forall>z\<in>set (drop k ys). \<not> lt z y"
    by (metis sorted_wrt_append)+
  have "\<not> lt z x" if "z \<in> set (drop k ys)" for z
  proof -
    from that obtain j where "j < length ys" "k \<le> j" "z = ys ! j"
      by (auto simp: in_set_conv_nth) (metis add.commute le_add1 less_diff_conv)
    with above strict_weakD(1) [OF swo] show ?thesis by blast
  qed
  moreover have "\<not> lt x y" if y: "y \<in> set (take k ys)" for y
  proof (cases k)
    case 0
    with y show ?thesis by simp
  next
    case (Suc m)
    from y obtain i where i: "i < k" "y = ys ! i" "i < length ys"
      by (auto simp: in_set_conv_nth)
    have "i = m \<or> \<not> lt (ys ! m) (ys ! i)"
      using sorted i Suc le by (cases "i < m") (auto simp: sorted_wrt_iff_nth_less)
    with stop [OF Suc] strict_weakD(2) [OF swo] i show ?thesis by blast
  qed
  ultimately show ?thesis
    using parts by (auto simp: sorted_wrt_append)
qed

lemma insert_stable:
  assumes swo: "strict_weak lt"
    and above: "\<And>j. k \<le> j \<Longrightarrow> j < length ys \<Longrightarrow> lt x (ys ! j)"
  shows "filter (same_rank lt z) (take k ys @ x # drop k ys) = filter (same_rank lt z) (ys @ [x])"
proof (cases "same_rank lt z x")
  case True
  have none: "filter (same_rank lt z) (drop k ys) = []"
  proof (rule filter_False, rule ballI)
    fix y assume "y \<in> set (drop k ys)"
    then obtain j where "j < length ys" "k \<le> j" "y = ys ! j"
      by (auto simp: in_set_conv_nth) (metis add.commute le_add1 less_diff_conv)
    then have "lt x y" using above by blast
    then have "lt z y" using strict_weakD(2) [OF swo, of x z y] True by blast
    then show "\<not> same_rank lt z y" by simp
  qed
  have "filter (same_rank lt z) ys = filter (same_rank lt z) (take k ys @ drop k ys)" by simp
  also have "\<dots> = filter (same_rank lt z) (take k ys)"
    using none by (simp only: filter_append append_Nil2)
  finally show ?thesis using True none by simp
next
  case False
  have "filter (same_rank lt z) ys = filter (same_rank lt z) (take k ys @ drop k ys)" by simp
  then show ?thesis using False by (simp only: filter_append) auto
qed

lemma insert_keeps_stable_sort:
  assumes "strict_weak lt" and "stable_sort_of lt xs ys" and "k \<le> length ys"
    and "\<And>j. k \<le> j \<Longrightarrow> j < length ys \<Longrightarrow> lt x (ys ! j)"
    and "\<And>m. k = Suc m \<Longrightarrow> \<not> lt x (ys ! m)"
  shows "stable_sort_of lt (xs @ [x]) (take k ys @ x # drop k ys)"
proof -
  have "mset (take k ys) + mset (drop k ys) = mset ys"
    by (metis append_take_drop_id mset_append)
  then have "mset (take k ys @ x # drop k ys) = mset (xs @ [x])"
    using assms(2) by (simp add: stable_sort_of_def)
  moreover have "sorted_by lt (take k ys @ x # drop k ys)"
    using assms by (intro insert_sorted_by) (auto simp: stable_sort_of_def)
  moreover have "filter (same_rank lt z) (take k ys @ x # drop k ys) =
      filter (same_rank lt z) (xs @ [x])" for z
    using assms(2) insert_stable [OF assms(1,4)] by (simp add: stable_sort_of_def)
  ultimately show ?thesis unfolding stable_sort_of_def by blast
qed

subsection \<open>The interface of the sort\<close>

text \<open>
  A collection that can be sorted in place: the list it stands for, a comparison of two
  positions, and a \<open>swap_shift\<close> that does not panic on positions in range.
\<close>

locale swap_array =
  fixes inv :: "'arr \<Rightarrow> bool"
    and view :: "'arr \<Rightarrow> 'e list"
    and lt :: "'e \<Rightarrow> 'e \<Rightarrow> bool"
    and less_fn :: "'arr \<Rightarrow> nat \<Rightarrow> nat \<Rightarrow> bool"
    and swap_shift :: "'arr \<Rightarrow> nat \<Rightarrow> nat \<Rightarrow> 'arr option"
  assumes order: "strict_weak lt"
    and less_view: "inv arr \<Longrightarrow> i < length (view arr) \<Longrightarrow> j < length (view arr) \<Longrightarrow>
      less_fn arr i j \<longleftrightarrow> lt (view arr ! i) (view arr ! j)"
    and swap_view: "inv arr \<Longrightarrow> a < b \<Longrightarrow> b < length (view arr) \<Longrightarrow>
      \<exists>arr'. swap_shift arr a b = Some arr' \<and> inv arr' \<and> view arr' = move_down a b (view arr)"
begin

lemma insertion_step:
  assumes inv: "inv arr" and view: "view arr = ys @ x # zs"
    and stable: "stable_sort_of lt xs ys"
  shows "\<exists>arr' ys'. inv arr' \<and> view arr' = ys' @ zs \<and> stable_sort_of lt (xs @ [x]) ys' \<and>
    length ys' = Suc (length ys) \<and>
    insertion_sort_loop less_fn swap_shift (length ys # is) arr =
      insertion_sort_loop less_fn swap_shift is arr'"
proof -
  define k where "k = find_insertion_point arr (length ys) less_fn"
  have k: "k \<le> length ys" "\<And>j. k \<le> j \<Longrightarrow> j < length ys \<Longrightarrow> lt x (ys ! j)"
      "\<And>m. k = Suc m \<Longrightarrow> \<not> lt x (ys ! m)"
    using find_insertion_facts [of less_fn arr "length ys" "length ys"] less_view [OF inv] view
    by (auto simp: k_def find_insertion_point_def nth_append Suc_le_eq)
  let ?ys = "take k ys @ x # drop k ys"
  have st: "stable_sort_of lt (xs @ [x]) ?ys"
    using insert_keeps_stable_sort [OF order stable k] .
  have len: "length ?ys = Suc (length ys)" using k(1) by simp
  show ?thesis
  proof (cases "k = length ys")
    case True
    then have "insertion_sort_loop less_fn swap_shift (length ys # is) arr =
        insertion_sort_loop less_fn swap_shift is arr"
      by (simp add: k_def Let_def)
    moreover have "view arr = ?ys @ zs" using True view by simp
    ultimately show ?thesis using inv st len by blast
  next
    case False
    with k(1) have "k < length ys" by simp
    then obtain arr' where arr': "swap_shift arr k (length ys) = Some arr'" "inv arr'"
        "view arr' = move_down k (length ys) (view arr)"
      using swap_view [OF inv, of k "length ys"] view by auto
    then have "view arr' = ?ys @ zs"
      using view \<open>k < length ys\<close> by (simp add: move_down_append)
    moreover have "insertion_sort_loop less_fn swap_shift (length ys # is) arr =
        insertion_sort_loop less_fn swap_shift is arr'"
      using False arr'(1) by (simp add: k_def Let_def)
    ultimately show ?thesis using arr'(2) st len by blast
  qed
qed

lemma insertion_loop_sorts:
  "inv arr \<Longrightarrow> view arr = ys @ zs \<Longrightarrow> stable_sort_of lt xs ys \<Longrightarrow>
   \<exists>arr'. insertion_sort_loop less_fn swap_shift [length ys..<length ys + length zs] arr = Some arr' \<and>
     inv arr' \<and> stable_sort_of lt (xs @ zs) (view arr')"
proof (induction zs arbitrary: arr ys xs)
  case Nil
  then show ?case by simp
next
  case (Cons z zs)
  from insertion_step [OF Cons.prems]
  obtain arr' ys' where step: "inv arr'" "view arr' = ys' @ zs" "stable_sort_of lt (xs @ [z]) ys'"
      "length ys' = Suc (length ys)"
      "insertion_sort_loop less_fn swap_shift
         (length ys # [Suc (length ys)..<length ys + length (z # zs)]) arr =
       insertion_sort_loop less_fn swap_shift [Suc (length ys)..<length ys + length (z # zs)] arr'"
    by blast
  have "[length ys..<length ys + length (z # zs)] =
      length ys # [Suc (length ys)..<length ys + length (z # zs)]"
    by (rule upt_conv_Cons) simp
  with step Cons.IH [OF step(1-3)] show ?case by simp
qed

lemma insertion_sort_sorts:
  assumes "inv arr"
  shows "\<exists>arr'. insertion_sort arr (length (view arr)) less_fn swap_shift = Some arr' \<and>
    inv arr' \<and> stable_sort_of lt (view arr) (view arr')"
proof (cases "view arr")
  case Nil
  with assms show ?thesis by (simp add: insertion_sort_def stable_sort_of_def)
next
  case (Cons x zs)
  have "stable_sort_of lt [x] [x]" by (simp add: stable_sort_of_def)
  with insertion_loop_sorts [OF assms, of "[x]" zs "[x]"] Cons show ?thesis
    by (simp add: insertion_sort_def)
qed

end

text \<open>Slices are the first provider of the interface.\<close>

interpretation slice_sort: swap_array "\<lambda>_. True" "\<lambda>sl. sl" "\<lambda>x y. f x < f y"
  "\<lambda>sl i j. f (sl ! i) < f (sl ! j)" slice_swap_shift
  for f :: "'a \<Rightarrow> 'k::linorder"
  by unfold_locales (auto simp: strict_weak_key slice_swap_shift_move_down)

text \<open>
  Insertion sort of a slice by a key never panics, sorts by that key and is stable: its result
  is the stable sort of the input.
\<close>

theorem insertion_sort_slice_sort_key:
  fixes f :: "'a \<Rightarrow> 'k::linorder"
  shows "insertion_sort xs (length xs) (\<lambda>sl i j. f (sl ! i) < f (sl ! j)) slice_swap_shift =
    Some (sort_key f xs)"
  using slice_sort.insertion_sort_sorts [of xs f] stable_sort_of_key by fastforce

end
