(* ===== verification/Vec2.thy ===== *)
theory Vec2
  imports Insertion_Sort
begin

text \<open>
  \<^verbatim>\<open>starlark_map/src/vec2.rs\<close>: a growable array of pairs whose two halves live in one allocation,
  first all the \<open>A\<close>s, then all the \<open>B\<close>s. The model keeps the two halves as buffers of \<open>cap\<close> cells
  (an uninitialised cell is \<open>None\<close>), so that the unsafe reads, writes and \<open>ptr::copy\<close>s of the code
  are list operations on the buffers, and a capacity overflow or an impossible layout is the panic
  the code raises. The invariant \<open>v2_inv\<close> says that exactly the code's claim holds: the first
  \<open>len\<close> cells of both halves are initialised. The list the vector stands for is \<open>v2_list\<close>.

  The addresses of the halves are computed by \<open>Vec2Layout\<close>; the layout part is modelled on its
  own and shown to place both halves aligned, disjoint and inside the allocation.
\<close>

subsection \<open>Layout of the allocation\<close>

text \<open>Compile-time constants of the element types: \<open>size_of\<close>, \<open>align_of\<close>, \<open>size_of::<(A, B)>\<close>.\<close>

record vec2_ty =
  size_a :: nat
  align_a :: nat
  size_b :: nat
  align_b :: nat
  size_ab :: nat

record layout =
  l_size :: nat
  l_align :: nat

record vec2_layout =
  vl_layout :: layout
  offset_of_bbb :: nat

datatype layout_error = LayoutError

text \<open>\<open>Layout::array\<close>, \<open>Layout::padding_needed_for\<close> and \<open>Layout::extend\<close> of the standard library.\<close>

definition max_size_for_align :: "nat \<Rightarrow> nat" where
  "max_size_for_align align = isize_max - (align - 1)"

definition layout_array :: "nat \<Rightarrow> nat \<Rightarrow> nat \<Rightarrow> layout_error + layout" where
  "layout_array sz align n =
     (if sz * n \<le> max_size_for_align align then Inr \<lparr>l_size = sz * n, l_align = align\<rparr>
      else Inl LayoutError)"

definition round_up :: "nat \<Rightarrow> nat \<Rightarrow> nat" where
  "round_up n align = ((n + align - 1) div align) * align"

definition layout_extend :: "layout \<Rightarrow> layout \<Rightarrow> layout_error + (layout \<times> nat)" where
  "layout_extend self nxt =
     (let new_align = max (l_align self) (l_align nxt);
          offset = round_up (l_size self) (l_align nxt);
          new_size = offset + l_size nxt
      in if new_size \<le> max_size_for_align new_align
         then Inr (\<lparr>l_size = new_size, l_align = new_align\<rparr>, offset)
         else Inl LayoutError)"

definition vec2_layout_new_checked :: "vec2_ty \<Rightarrow> nat \<Rightarrow> layout_error + vec2_layout" where
  "vec2_layout_new_checked ty cap =
     (case layout_array (size_a ty) (align_a ty) cap of
        Inl e \<Rightarrow> Inl e
      | Inr a \<Rightarrow>
          (case layout_array (size_b ty) (align_b ty) cap of
             Inl e \<Rightarrow> Inl e
           | Inr b \<Rightarrow>
               (case layout_extend a b of
                  Inl e \<Rightarrow> Inl e
                | Inr (lay, offset) \<Rightarrow> Inr \<lparr>vl_layout = lay, offset_of_bbb = offset\<rparr>)))"

definition vec2_layout_new :: "vec2_ty \<Rightarrow> nat \<Rightarrow> vec2_layout option" where
  "vec2_layout_new ty cap =
     (case vec2_layout_new_checked ty cap of Inl _ \<Rightarrow> None | Inr l \<Rightarrow> Some l)"

text \<open>
  Byte offset of \<open>aaa_ptr\<close> from the start of the allocation: \<open>cap\<close> elements of \<open>A\<close> below \<open>bbb_ptr\<close>.
\<close>

definition aaa_offset :: "vec2_ty \<Rightarrow> vec2_layout \<Rightarrow> nat \<Rightarrow> nat" where
  "aaa_offset ty l cap = offset_of_bbb l - cap * size_a ty"

subsection \<open>The vector\<close>

record ('a, 'b) vec2 =
  v2_ty :: vec2_ty
  aaa_buf :: "'a option list"
  bbb_buf :: "'b option list"
  v2_len :: nat
  v2_cap :: nat

definition v2_new :: "vec2_ty \<Rightarrow> ('a, 'b) vec2" where
  "v2_new ty = \<lparr>v2_ty = ty, aaa_buf = [], bbb_buf = [], v2_len = 0, v2_cap = 0\<rparr>"

definition v2_with_capacity :: "vec2_ty \<Rightarrow> nat \<Rightarrow> ('a, 'b) vec2 option" where
  "v2_with_capacity ty cap =
     (if cap = 0 then Some (v2_new ty)
      else (case vec2_layout_new ty cap of
              None \<Rightarrow> None
            | Some _ \<Rightarrow>
                Some \<lparr>v2_ty = ty, aaa_buf = replicate cap None, bbb_buf = replicate cap None,
                      v2_len = 0, v2_cap = cap\<rparr>))"

definition v2_is_empty :: "('a, 'b) vec2 \<Rightarrow> bool" where
  "v2_is_empty v = (v2_len v = 0)"

definition aaa :: "('a, 'b) vec2 \<Rightarrow> 'a list" where
  "aaa v = map the (take (v2_len v) (aaa_buf v))"

definition bbb :: "('a, 'b) vec2 \<Rightarrow> 'b list" where
  "bbb v = map the (take (v2_len v) (bbb_buf v))"

definition min_non_zero_cap :: "vec2_ty \<Rightarrow> nat" where
  "min_non_zero_cap ty = (if size_ab ty = 1 then 8 else if size_ab ty \<le> 1024 then 4 else 1)"

definition v2_reserve_slow :: "('a, 'b) vec2 \<Rightarrow> nat \<Rightarrow> ('a, 'b) vec2 option" where
  "v2_reserve_slow v additional =
     (let required_cap = v2_len v + additional
      in if required_cap > usize_max then None
         else let new_cap = max required_cap (min_non_zero_cap (v2_ty v));
                  new_cap = max new_cap ((v2_cap v * 2) mod 2 ^ 64)
              in (case v2_with_capacity (v2_ty v) new_cap of
                    None \<Rightarrow> None
                  | Some new \<Rightarrow>
                      Some (v\<lparr>aaa_buf := take (v2_len v) (aaa_buf v) @ drop (v2_len v) (aaa_buf new),
                              bbb_buf := take (v2_len v) (bbb_buf v) @ drop (v2_len v) (bbb_buf new),
                              v2_cap := new_cap\<rparr>)))"

definition v2_reserve :: "('a, 'b) vec2 \<Rightarrow> nat \<Rightarrow> ('a, 'b) vec2 option" where
  "v2_reserve v additional =
     (if v2_cap v - v2_len v < additional then v2_reserve_slow v additional else Some v)"

text \<open>Writing a pair of cells, as \<open>MaybeUninit::write\<close>, \<open>ptr::write\<close> and a mutable reference do.\<close>

definition v2_write :: "('a, 'b) vec2 \<Rightarrow> nat \<Rightarrow> 'a \<Rightarrow> 'b \<Rightarrow> ('a, 'b) vec2" where
  "v2_write v i a b =
     v\<lparr>aaa_buf := (aaa_buf v)[i := Some a], bbb_buf := (bbb_buf v)[i := Some b]\<rparr>"

definition v2_push :: "('a, 'b) vec2 \<Rightarrow> 'a \<Rightarrow> 'b \<Rightarrow> ('a, 'b) vec2 option" where
  "v2_push v a b =
     (case v2_reserve v 1 of
        None \<Rightarrow> None
      | Some v' \<Rightarrow> Some ((v2_write v' (v2_len v') a b)\<lparr>v2_len := v2_len v' + 1\<rparr>))"

definition v2_get_unchecked :: "('a, 'b) vec2 \<Rightarrow> nat \<Rightarrow> 'a \<times> 'b" where
  "v2_get_unchecked v index = (aaa v ! index, bbb v ! index)"

definition v2_get :: "('a, 'b) vec2 \<Rightarrow> nat \<Rightarrow> ('a \<times> 'b) option" where
  "v2_get v index = (if index < v2_len v then Some (v2_get_unchecked v index) else None)"

definition v2_remove :: "('a, 'b) vec2 \<Rightarrow> nat \<Rightarrow> (('a \<times> 'b) \<times> ('a, 'b) vec2) option" where
  "v2_remove v index =
     (if index < v2_len v
      then Some (v2_get_unchecked v index,
                 v\<lparr>aaa_buf := ptr_copy (aaa_buf v) (index + 1) index (v2_len v - index - 1),
                   bbb_buf := ptr_copy (bbb_buf v) (index + 1) index (v2_len v - index - 1),
                   v2_len := v2_len v - 1\<rparr>)
      else None)"

definition v2_clear :: "('a, 'b) vec2 \<Rightarrow> ('a, 'b) vec2" where
  "v2_clear v = v\<lparr>v2_len := 0\<rparr>"

text \<open>\<open>pop\<close> returns Rust's \<open>Option\<close>; it cannot panic.\<close>

definition v2_pop :: "('a, 'b) vec2 \<Rightarrow> ('a \<times> 'b) option \<times> ('a, 'b) vec2" where
  "v2_pop v =
     (if v2_len v = 0 then (None, v)
      else let new_len = v2_len v - 1
           in (Some (v2_get_unchecked v new_len), v\<lparr>v2_len := new_len\<rparr>))"

definition v2_first :: "('a, 'b) vec2 \<Rightarrow> ('a \<times> 'b) option" where
  "v2_first v = v2_get v 0"

definition v2_last :: "('a, 'b) vec2 \<Rightarrow> ('a \<times> 'b) option" where
  "v2_last v = (if v2_len v = 0 then None else v2_get v (v2_len v - 1))"

definition v2_iter :: "('a, 'b) vec2 \<Rightarrow> ('a \<times> 'b) list" where
  "v2_iter v = zip (aaa v) (bbb v)"

text \<open>The loops that push every pair of an iterator.\<close>

fun v2_push_all :: "('a, 'b) vec2 \<Rightarrow> ('a \<times> 'b) list \<Rightarrow> ('a, 'b) vec2 option" where
  "v2_push_all v [] = Some v"
| "v2_push_all v ((a, b) # xs) =
     (case v2_push v a b of None \<Rightarrow> None | Some v' \<Rightarrow> v2_push_all v' xs)"

definition v2_clone :: "('a, 'b) vec2 \<Rightarrow> ('a, 'b) vec2 option" where
  "v2_clone v =
     (case v2_with_capacity (v2_ty v) (v2_len v) of
        None \<Rightarrow> None
      | Some r \<Rightarrow> v2_push_all r (v2_iter v))"

definition v2_shrink_to_fit :: "('a, 'b) vec2 \<Rightarrow> ('a, 'b) vec2 option" where
  "v2_shrink_to_fit v =
     (if v2_len v < v2_cap v
      then (case v2_with_capacity (v2_ty v) (v2_len v) of
              None \<Rightarrow> None
            | Some new_vec \<Rightarrow> v2_push_all new_vec (v2_iter v))
      else Some v)"

definition v2_truncate :: "('a, 'b) vec2 \<Rightarrow> nat \<Rightarrow> ('a, 'b) vec2" where
  "v2_truncate v len = (if v2_len v < len then v else v\<lparr>v2_len := len\<rparr>)"

text \<open>
  \<open>retain\<close>. The closure gets mutable access to the pair, may change state of its own (\<open>'s\<close>) and may
  panic (\<open>None\<close>). The loop carries the number of kept elements (\<open>written\<close>) and the next element to
  look at; the \<open>Drop\<close> of the guard runs on both exits and moves what was not looked at. The last
  component of the result is the closure's state, or \<open>None\<close> when it panicked.
\<close>

type_synonym ('s, 'a, 'b) retain_fn = "'s \<Rightarrow> 'a \<Rightarrow> 'b \<Rightarrow> (('a \<times> 'b \<times> bool) \<times> 's) option"

function v2_retain_loop ::
  "('s, 'a, 'b) retain_fn \<Rightarrow> 's \<Rightarrow> ('a, 'b) vec2 \<Rightarrow> nat \<Rightarrow> nat \<Rightarrow>
   ('a, 'b) vec2 \<times> nat \<times> nat \<times> 's option"
where
  "v2_retain_loop f s v written nxt =
     (if nxt < v2_len v
      then (case f s (fst (v2_get_unchecked v nxt)) (snd (v2_get_unchecked v nxt)) of
              None \<Rightarrow> (v, written, nxt, None)
            | Some ((a, b, retain_elem), s') \<Rightarrow>
                let v' = v2_write v nxt a b
                in if retain_elem
                   then v2_retain_loop f s' (v2_write v' written a b) (written + 1) (nxt + 1)
                   else v2_retain_loop f s' v' written (nxt + 1))
      else (v, written, nxt, Some s))"
  by pat_completeness auto
termination
  by (relation "measure (\<lambda>(f, s, v, written, nxt). v2_len v - nxt)") (auto simp: v2_write_def)

declare v2_retain_loop.simps [simp del]

definition v2_retain_drop :: "('a, 'b) vec2 \<Rightarrow> nat \<Rightarrow> nat \<Rightarrow> ('a, 'b) vec2" where
  "v2_retain_drop v written nxt =
     v\<lparr>aaa_buf := ptr_copy (aaa_buf v) nxt written (v2_len v - nxt),
       bbb_buf := ptr_copy (bbb_buf v) nxt written (v2_len v - nxt),
       v2_len := written + v2_len v - nxt\<rparr>"

definition v2_retain :: "('s, 'a, 'b) retain_fn \<Rightarrow> 's \<Rightarrow> ('a, 'b) vec2 \<Rightarrow> ('a, 'b) vec2 \<times> 's option" where
  "v2_retain f s v =
     (case v2_retain_loop f s v 0 0 of
        (v', written, nxt, r) \<Rightarrow> (v2_retain_drop v' written nxt, r))"

text \<open>Sorting. Up to 20 elements are sorted in place, more through a vector of pairs.\<close>

definition v2_less_at :: "('a \<times> 'b \<Rightarrow> 'a \<times> 'b \<Rightarrow> ordering) \<Rightarrow> ('a, 'b) vec2 \<Rightarrow> nat \<Rightarrow> nat \<Rightarrow> bool" where
  "v2_less_at compare v i j =
     (compare (v2_get_unchecked v i) (v2_get_unchecked v j) = Less)"

definition v2_swap_shift :: "('a, 'b) vec2 \<Rightarrow> nat \<Rightarrow> nat \<Rightarrow> ('a, 'b) vec2 option" where
  "v2_swap_shift v a b =
     (case slice_swap_shift (take (v2_len v) (aaa_buf v)) a b of
        None \<Rightarrow> None
      | Some as \<Rightarrow>
          (case slice_swap_shift (take (v2_len v) (bbb_buf v)) a b of
             None \<Rightarrow> None
           | Some bs \<Rightarrow>
               Some (v\<lparr>aaa_buf := as @ drop (v2_len v) (aaa_buf v),
                       bbb_buf := bs @ drop (v2_len v) (bbb_buf v)\<rparr>)))"

definition v2_sort_insertion_by ::
  "('a \<times> 'b \<Rightarrow> 'a \<times> 'b \<Rightarrow> ordering) \<Rightarrow> ('a, 'b) vec2 \<Rightarrow> ('a, 'b) vec2 option" where
  "v2_sort_insertion_by compare v =
     insertion_sort v (v2_len v) (v2_less_at compare) v2_swap_shift"

definition max_insertion :: nat where
  "max_insertion = 20"

definition v2_sort_by ::
  "('a \<times> 'b \<Rightarrow> 'a \<times> 'b \<Rightarrow> ordering) \<Rightarrow> ('a, 'b) vec2 \<Rightarrow> ('a, 'b) vec2 option" where
  "v2_sort_by compare v =
     (if v2_len v \<le> max_insertion then v2_sort_insertion_by compare v
      else v2_push_all (v2_new (v2_ty v)) (std_sort_by compare (v2_iter v)))"

definition v2_eq :: "('a, 'b) vec2 \<Rightarrow> ('a, 'b) vec2 \<Rightarrow> bool" where
  "v2_eq v w = (v2_len v = v2_len w \<and> v2_iter v = v2_iter w)"

subsection \<open>Both halves are placed soundly\<close>

definition ty_ok :: "vec2_ty \<Rightarrow> bool" where
  "ty_ok ty \<longleftrightarrow> (\<exists>i. align_a ty = 2 ^ i) \<and> (\<exists>j. align_b ty = 2 ^ j) \<and>
     align_a ty dvd size_a ty \<and> align_b ty dvd size_b ty"

lemma round_up_ge: "0 < al \<Longrightarrow> n \<le> round_up n al"
proof -
  assume al: "0 < al"
  have "n + al - 1 = round_up n al + (n + al - 1) mod al"
    by (simp add: round_up_def)
  moreover have "(n + al - 1) mod al \<le> al - 1" using al by (simp add: Suc_leI less_Suc_eq_le [symmetric])
  ultimately show ?thesis using al by linarith
qed

lemma round_up_dvd: "al dvd round_up n al"
  by (simp add: round_up_def)

lemma round_up_mono: "m \<le> n \<Longrightarrow> round_up m al \<le> round_up n al"
  by (simp add: round_up_def div_le_mono diff_le_mono)

lemma round_up_id: "al dvd n \<Longrightarrow> 0 < al \<Longrightarrow> round_up n al = n"
proof -
  assume "al dvd n" and al: "0 < al"
  then obtain k where k: "n = al * k" by (auto elim: dvdE)
  have "n + al - 1 = (al - 1) + al * k" using k al by simp
  moreover have "((al - 1) + al * k) div al = k" using al by (simp only: div_mult_self2) simp
  ultimately show ?thesis using k by (simp add: round_up_def)
qed

lemma pow2_dvd_linear: "(2::nat) ^ i dvd 2 ^ j \<or> (2::nat) ^ j dvd 2 ^ i"
  by (metis le_imp_power_dvd nat_le_linear)

lemma new_checked_facts:
  assumes "vec2_layout_new_checked ty cap = Inr l"
  shows "offset_of_bbb l = round_up (size_a ty * cap) (align_b ty)"
    and "l_size (vl_layout l) = offset_of_bbb l + size_b ty * cap"
    and "l_align (vl_layout l) = max (align_a ty) (align_b ty)"
    and "l_size (vl_layout l) \<le> max_size_for_align (max (align_a ty) (align_b ty))"
  using assms
  by (auto simp: vec2_layout_new_checked_def layout_array_def layout_extend_def Let_def
      split: sum.splits if_splits)

lemma offset_aligned_for_a:
  assumes "ty_ok ty"
  shows "align_a ty dvd round_up (size_a ty * cap) (align_b ty)"
proof -
  from assms obtain i j where al: "align_a ty = 2 ^ i" "align_b ty = 2 ^ j"
      and sz: "align_a ty dvd size_a ty"
    by (auto simp: ty_ok_def)
  from pow2_dvd_linear [of i j] show ?thesis
  proof
    assume "(2::nat) ^ i dvd 2 ^ j"
    with al round_up_dvd show ?thesis by (metis dvd_trans)
  next
    assume "(2::nat) ^ j dvd 2 ^ i"
    then have "align_b ty dvd size_a ty * cap" using al sz by (metis dvd_trans dvd_mult2)
    then show ?thesis using sz al by (simp add: round_up_id)
  qed
qed

text \<open>
  C13. Whenever a layout is found, the allocation holds both halves: \<open>aaa_ptr\<close> and \<open>bbb_ptr\<close> are
  aligned for their types, the \<open>cap\<close> elements of \<open>A\<close> end where the \<open>cap\<close> elements of \<open>B\<close> begin, and the
  last \<open>B\<close> ends inside the allocation, which is aligned for both.
\<close>

theorem vec2_layout_sound:
  assumes "ty_ok ty" and "vec2_layout_new ty cap = Some l"
  shows "align_a ty dvd aaa_offset ty l cap \<and> align_b ty dvd offset_of_bbb l \<and>
    aaa_offset ty l cap + cap * size_a ty = offset_of_bbb l \<and>
    offset_of_bbb l + cap * size_b ty = l_size (vl_layout l) \<and>
    align_a ty dvd l_align (vl_layout l) \<and> align_b ty dvd l_align (vl_layout l) \<and>
    l_size (vl_layout l) \<le> isize_max"
proof -
  from assms(1) obtain i j where al: "align_a ty = 2 ^ i" "align_b ty = 2 ^ j"
      and sz: "align_a ty dvd size_a ty"
    by (auto simp: ty_ok_def)
  from assms(2) have "vec2_layout_new_checked ty cap = Inr l"
    by (auto simp: vec2_layout_new_def split: sum.splits)
  note facts = new_checked_facts [OF this]
  have ge: "cap * size_a ty \<le> offset_of_bbb l"
    using facts(1) round_up_ge [of "align_b ty" "size_a ty * cap"] al by (simp add: mult.commute)
  have "align_a ty dvd offset_of_bbb l"
    using offset_aligned_for_a [OF assms(1)] facts(1) by simp
  then have "align_a ty dvd aaa_offset ty l cap"
    using sz by (simp add: aaa_offset_def dvd_diff_nat)
  moreover have "align_a ty dvd max (align_a ty) (align_b ty)" "align_b ty dvd max (align_a ty) (align_b ty)"
    using pow2_dvd_linear [of i j] al by (auto simp: max_def dvd_imp_le dest: dvd_imp_le)
  ultimately show ?thesis
    using facts ge round_up_dvd
    by (auto simp: aaa_offset_def max_size_for_align_def mult.commute intro: order_trans)
qed

theorem vec2_layout_sound_witness:
  "(let ty = \<lparr>size_a = 16, align_a = 8, size_b = 4, align_b = 4, size_ab = 24\<rparr>;
        l = \<lparr>vl_layout = \<lparr>l_size = 60, l_align = 8\<rparr>, offset_of_bbb = 48\<rparr>
    in vec2_layout_new ty 3 = Some l \<and> align_a ty dvd aaa_offset ty l 3 \<and> aaa_offset ty l 3 + 3 * 16 = 48)"
proof -
  define ty :: vec2_ty where "ty = \<lparr>size_a = 16, align_a = 8, size_b = 4, align_b = 4, size_ab = 24\<rparr>"
  define l where "l = \<lparr>vl_layout = \<lparr>l_size = 60, l_align = 8\<rparr>, offset_of_bbb = 48\<rparr>"
  have "\<exists>i. (8::nat) = 2 ^ i" by (rule exI [of _ 3]) simp
  moreover have "\<exists>j. (4::nat) = 2 ^ j" by (rule exI [of _ 2]) simp
  ultimately have ok: "ty_ok ty" by (simp add: ty_ok_def ty_def)
  have new: "vec2_layout_new ty 3 = Some l"
    by (simp add: ty_def l_def vec2_layout_new_def vec2_layout_new_checked_def layout_array_def
        layout_extend_def max_size_for_align_def isize_max_def round_up_def Let_def)
  from vec2_layout_sound [OF ok new] new show ?thesis
    by (simp add: ty_def l_def Let_def)
qed

subsection \<open>Capacity\<close>

text \<open>A layout for \<open>n\<close> elements exists; growing asks for at most \<open>2 * n + 8\<close> to hold \<open>n\<close>.\<close>

definition layout_ok :: "vec2_ty \<Rightarrow> nat \<Rightarrow> bool" where
  "layout_ok ty n \<longleftrightarrow> vec2_layout_new ty n \<noteq> None"

definition v2_ample :: "vec2_ty \<Rightarrow> nat \<Rightarrow> bool" where
  "v2_ample ty n \<longleftrightarrow> 2 * n + 8 \<le> usize_max \<and> layout_ok ty (2 * n + 8)"

lemma layout_ok_iff:
  "layout_ok ty n \<longleftrightarrow> size_a ty * n \<le> max_size_for_align (align_a ty) \<and>
     size_b ty * n \<le> max_size_for_align (align_b ty) \<and>
     round_up (size_a ty * n) (align_b ty) + size_b ty * n \<le>
       max_size_for_align (max (align_a ty) (align_b ty))"
  by (simp add: layout_ok_def vec2_layout_new_def vec2_layout_new_checked_def layout_array_def
      layout_extend_def Let_def)

lemma layout_ok_mono:
  assumes "m \<le> n" and "layout_ok ty n"
  shows "layout_ok ty m"
proof -
  have le: "size_a ty * m \<le> size_a ty * n" "size_b ty * m \<le> size_b ty * n"
    using assms(1) by simp_all
  from add_mono [OF round_up_mono [OF le(1)] le(2)] le assms(2) show ?thesis
    unfolding layout_ok_iff by (meson order_trans)
qed

lemma v2_ample_mono: "m \<le> n \<Longrightarrow> v2_ample ty n \<Longrightarrow> v2_ample ty m"
  unfolding v2_ample_def using layout_ok_mono [of "2 * m + 8" "2 * n + 8"] by auto

subsection \<open>The vector stands for a list of pairs\<close>

definition v2_inv :: "('a, 'b) vec2 \<Rightarrow> bool" where
  "v2_inv v \<longleftrightarrow> length (aaa_buf v) = v2_cap v \<and> length (bbb_buf v) = v2_cap v \<and>
     v2_len v \<le> v2_cap v \<and> None \<notin> set (take (v2_len v) (aaa_buf v)) \<and>
     None \<notin> set (take (v2_len v) (bbb_buf v))"

lemma map_Some_the: "None \<notin> set xs \<Longrightarrow> map (Some \<circ> the) xs = xs"
  by (induction xs) auto

lemma v2_inv_bufs:
  assumes "v2_inv v"
  shows "aaa_buf v = map Some (aaa v) @ drop (v2_len v) (aaa_buf v)"
    and "bbb_buf v = map Some (bbb v) @ drop (v2_len v) (bbb_buf v)"
    and "length (aaa v) = v2_len v" and "length (bbb v) = v2_len v"
  using assms by (simp_all add: v2_inv_def aaa_def bbb_def map_Some_the)

text \<open>Introducing a vector by its contents.\<close>

lemma v2_views:
  assumes "aaa_buf v = map Some as @ ra" and "bbb_buf v = map Some bs @ rb"
    and "length as = v2_len v" and "length bs = v2_len v"
    and "length (aaa_buf v) = v2_cap v" and "length (bbb_buf v) = v2_cap v"
  shows "v2_inv v \<and> aaa v = as \<and> bbb v = bs"
proof -
  have "take (v2_len v) (aaa_buf v) = map Some as" "take (v2_len v) (bbb_buf v) = map Some bs"
    using assms by simp_all
  moreover have "v2_len v \<le> v2_cap v" using assms by (metis le_add1 length_append length_map)
  ultimately show ?thesis
    using assms by (auto simp: v2_inv_def aaa_def bbb_def map_idI)
qed

lemma length_v2_iter [simp]: "v2_inv v \<Longrightarrow> length (v2_iter v) = v2_len v"
  by (simp add: v2_iter_def v2_inv_bufs)

lemma v2_get_unchecked_iter [simp]:
  "v2_inv v \<Longrightarrow> i < v2_len v \<Longrightarrow> v2_get_unchecked v i = v2_iter v ! i"
  by (simp add: v2_get_unchecked_def v2_iter_def v2_inv_bufs)

lemma v2_iter_parts:
  "v2_inv v \<Longrightarrow> map fst (v2_iter v) = aaa v" "v2_inv v \<Longrightarrow> map snd (v2_iter v) = bbb v"
  by (simp_all add: v2_iter_def v2_inv_bufs)

lemma v2_new_refines [simp]:
  "v2_inv (v2_new ty)" "v2_iter (v2_new ty) = []" "v2_ty (v2_new ty) = ty" "v2_len (v2_new ty) = 0"
  by (simp_all add: v2_inv_def v2_new_def v2_iter_def aaa_def)

lemma v2_with_capacity_refines:
  assumes "v2_with_capacity ty cap = Some v"
  shows "v2_inv v \<and> v2_iter v = [] \<and> v2_ty v = ty \<and> v2_cap v = cap \<and> v2_len v = 0"
  using assms
  by (auto simp: v2_with_capacity_def v2_inv_def v2_iter_def v2_new_def aaa_def
      split: if_splits option.splits)

lemma v2_with_capacity_total: "layout_ok ty cap \<Longrightarrow> \<exists>v. v2_with_capacity ty cap = Some v"
  by (auto simp: v2_with_capacity_def layout_ok_def)

lemma v2_reserve_refines:
  assumes inv: "v2_inv v" and res: "v2_reserve v n = Some v'"
  shows "v2_inv v' \<and> v2_iter v' = v2_iter v \<and> v2_len v' = v2_len v \<and> v2_ty v' = v2_ty v \<and>
    v2_len v + n \<le> v2_cap v'"
proof (cases "v2_cap v - v2_len v < n")
  case False
  with res inv show ?thesis by (auto simp: v2_reserve_def v2_inv_def)
next
  case True
  with res obtain new cap where new: "v2_with_capacity (v2_ty v) cap = Some new"
    and cap: "v2_len v + n \<le> cap"
    and v': "v' = v\<lparr>aaa_buf := take (v2_len v) (aaa_buf v) @ drop (v2_len v) (aaa_buf new),
                   bbb_buf := take (v2_len v) (bbb_buf v) @ drop (v2_len v) (bbb_buf new),
                   v2_cap := cap\<rparr>"
    by (auto simp: v2_reserve_def v2_reserve_slow_def Let_def split: if_splits option.splits)
  have len: "length (aaa_buf new) = cap" "length (bbb_buf new) = cap"
    using v2_with_capacity_refines [OF new] by (auto simp: v2_inv_def)
  have "v2_inv v' \<and> aaa v' = aaa v \<and> bbb v' = bbb v"
    using inv v2_inv_bufs [OF inv] len cap
    by (intro v2_views [of _ _ "drop (v2_len v) (aaa_buf new)" _ "drop (v2_len v) (bbb_buf new)"])
      (auto simp: v' v2_inv_def aaa_def bbb_def map_Some_the)
  then show ?thesis using cap by (simp add: v2_iter_def v')
qed

lemma v2_reserve_total:
  assumes inv: "v2_inv v" and ample: "v2_ample (v2_ty v) (v2_len v + n)"
  shows "\<exists>v'. v2_reserve v n = Some v'"
proof (cases "v2_cap v - v2_len v < n")
  case False
  then show ?thesis by (simp add: v2_reserve_def)
next
  case True
  with inv have cap: "v2_cap v < v2_len v + n" by (auto simp: v2_inv_def)
  define new_cap where "new_cap =
    max (max (v2_len v + n) (min_non_zero_cap (v2_ty v))) ((v2_cap v * 2) mod 2 ^ 64)"
  have "(v2_cap v * 2) mod 2 ^ 64 \<le> v2_cap v * 2" by simp
  then have "new_cap \<le> 2 * (v2_len v + n) + 8"
    using cap by (auto simp: new_cap_def min_non_zero_cap_def)
  then have "layout_ok (v2_ty v) new_cap"
    using ample layout_ok_mono by (auto simp: v2_ample_def)
  then obtain w :: "('a, 'b) vec2" where "v2_with_capacity (v2_ty v) new_cap = Some w"
    using v2_with_capacity_total by blast
  moreover have "v2_len v + n \<le> usize_max" using ample by (auto simp: v2_ample_def)
  ultimately show ?thesis
    using True by (simp add: v2_reserve_def v2_reserve_slow_def Let_def new_cap_def)
qed

lemma v2_write_refines:
  assumes inv: "v2_inv v" and i: "i < v2_len v"
  shows "v2_inv (v2_write v i a b) \<and> v2_iter (v2_write v i a b) = (v2_iter v)[i := (a, b)] \<and>
    v2_len (v2_write v i a b) = v2_len v \<and> v2_ty (v2_write v i a b) = v2_ty v \<and>
    v2_cap (v2_write v i a b) = v2_cap v"
proof -
  have "None \<notin> set ((take (v2_len v) (aaa_buf v))[i := Some a])"
    "None \<notin> set ((take (v2_len v) (bbb_buf v))[i := Some b])"
    using inv set_update_subset_insert by (fastforce simp: v2_inv_def)+
  then have "v2_inv (v2_write v i a b) \<and> aaa (v2_write v i a b) = (aaa v)[i := a] \<and>
      bbb (v2_write v i a b) = (bbb v)[i := b]"
    using inv by (simp add: v2_write_def v2_inv_def aaa_def bbb_def take_update_swap map_update)
  then show ?thesis
    by (simp add: v2_iter_def v2_write_def zip_update)
qed

lemma v2_set_len_refines:
  assumes "v2_inv v" and "n \<le> v2_len v"
  shows "v2_inv (v\<lparr>v2_len := n\<rparr>) \<and> v2_iter (v\<lparr>v2_len := n\<rparr>) = take n (v2_iter v)"
proof -
  have "take n (take (v2_len v) xs) = take n xs" for xs :: "'c list" using assms(2) by (simp add: min_def)
  then have "None \<notin> set (take n (aaa_buf v))" "None \<notin> set (take n (bbb_buf v))"
    using assms by (metis in_set_takeD v2_inv_def)+
  then show ?thesis
    using assms by (auto simp: v2_inv_def v2_iter_def aaa_def bbb_def take_zip take_map min_def)
qed

lemma v2_push_refines:
  assumes inv: "v2_inv v" and push: "v2_push v a b = Some w"
  shows "v2_inv w \<and> v2_iter w = v2_iter v @ [(a, b)] \<and> v2_len w = Suc (v2_len v) \<and> v2_ty w = v2_ty v"
proof -
  from push obtain v' where v': "v2_reserve v 1 = Some v'"
    and w: "w = (v2_write v' (v2_len v') a b)\<lparr>v2_len := v2_len v' + 1\<rparr>"
    by (auto simp: v2_push_def split: option.splits)
  note r = v2_reserve_refines [OF inv v']
  then have inv': "v2_inv v'" and room: "v2_len v' < v2_cap v'" by auto
  note bufs = v2_inv_bufs [OF inv']
  have upd: "(map Some xs @ ys)[length xs := Some x] = map Some (xs @ [x]) @ drop 1 ys"
    if "ys \<noteq> []" for xs x and ys :: "'c option list"
    using that by (cases ys) (simp_all add: list_update_append)
  have "v2_inv w \<and> aaa w = aaa v' @ [a] \<and> bbb w = bbb v' @ [b]"
  proof (rule v2_views)
    show "aaa_buf w = map Some (aaa v' @ [a]) @ drop 1 (drop (v2_len v') (aaa_buf v'))"
      using bufs(1,3) upd [of "drop (v2_len v') (aaa_buf v')" "aaa v'" a] inv' room
      by (simp add: w v2_write_def v2_inv_def)
    show "bbb_buf w = map Some (bbb v' @ [b]) @ drop 1 (drop (v2_len v') (bbb_buf v'))"
      using bufs(2,4) upd [of "drop (v2_len v') (bbb_buf v')" "bbb v'" b] inv' room
      by (simp add: w v2_write_def v2_inv_def)
  qed (use bufs inv' in \<open>simp_all add: w v2_write_def v2_inv_def\<close>)
  then show ?thesis using r bufs by (auto simp: v2_iter_def w v2_write_def)
qed

lemma v2_push_total:
  "v2_inv v \<Longrightarrow> v2_ample (v2_ty v) (Suc (v2_len v)) \<Longrightarrow> \<exists>w. v2_push v a b = Some w"
  using v2_reserve_total [of v 1] by (auto simp: v2_push_def)

lemma v2_push_within_cap: "v2_len v < v2_cap v \<Longrightarrow> \<exists>w. v2_push v a b = Some w \<and> v2_cap w = v2_cap v"
  by (simp add: v2_push_def v2_reserve_def v2_write_def)

lemma v2_push_all_refines:
  "v2_inv v \<Longrightarrow> v2_push_all v xs = Some w \<Longrightarrow>
   v2_inv w \<and> v2_iter w = v2_iter v @ xs \<and> v2_len w = v2_len v + length xs \<and> v2_ty w = v2_ty v"
proof (induction v xs rule: v2_push_all.induct)
  case (2 v a b xs)
  then show ?case using v2_push_refines [OF "2.prems"(1)] by (auto split: option.splits)
qed simp

lemma v2_push_all_total:
  "v2_inv v \<Longrightarrow> v2_ample (v2_ty v) (v2_len v + length xs) \<Longrightarrow> \<exists>w. v2_push_all v xs = Some w"
proof (induction v xs rule: v2_push_all.induct)
  case (2 v a b xs)
  from v2_push_total [OF "2.prems"(1)] v2_ample_mono [OF _ "2.prems"(2)]
  obtain v' where v': "v2_push v a b = Some v'" by fastforce
  with "2.IH" "2.prems" v2_push_refines [OF "2.prems"(1) v'] show ?case by simp
qed simp

lemma v2_push_all_within_cap:
  "v2_inv v \<Longrightarrow> v2_len v + length xs \<le> v2_cap v \<Longrightarrow> \<exists>w. v2_push_all v xs = Some w \<and> v2_cap w = v2_cap v"
proof (induction v xs rule: v2_push_all.induct)
  case (2 v a b xs)
  then obtain v' where v': "v2_push v a b = Some v'" "v2_cap v' = v2_cap v"
    using v2_push_within_cap [of v a b] by auto
  with "2.IH" "2.prems" v2_push_refines [OF "2.prems"(1) v'(1)] show ?case by simp
qed simp

lemma ptr_copy_take:
  assumes "i < n" and "n \<le> length buf"
  shows "take (n - 1) (ptr_copy buf (Suc i) i (n - i - 1)) = remove_nth i (take n buf)"
proof -
  from assms(1) obtain m where n: "n = Suc (i + m)" using less_iff_Suc_add by auto
  then have "take (i + m) (ptr_copy buf (Suc i) i m) = take i buf @ take m (drop (Suc i) buf)"
    using assms(2) by (simp add: ptr_copy_def)
  moreover have "remove_nth i (take n buf) = take i buf @ take m (drop (Suc i) buf)"
    using n by (simp add: remove_nth_def min_def drop_take)
  ultimately show ?thesis using n by simp
qed

lemma v2_remove_refines:
  assumes inv: "v2_inv v" and i: "i < v2_len v"
  shows "\<exists>w. v2_remove v i = Some (v2_iter v ! i, w) \<and> v2_inv w \<and>
    v2_iter w = remove_nth i (v2_iter v) \<and> v2_len w = v2_len v - 1 \<and> v2_ty w = v2_ty v"
proof -
  define w where "w = v\<lparr>aaa_buf := ptr_copy (aaa_buf v) (i + 1) i (v2_len v - i - 1),
                   bbb_buf := ptr_copy (bbb_buf v) (i + 1) i (v2_len v - i - 1),
                   v2_len := v2_len v - 1\<rparr>"
  have le: "v2_len v \<le> length (aaa_buf v)" "v2_len v \<le> length (bbb_buf v)"
    using inv by (auto simp: v2_inv_def)
  have views: "take (v2_len w) (aaa_buf w) = remove_nth i (take (v2_len v) (aaa_buf v))"
      "take (v2_len w) (bbb_buf w) = remove_nth i (take (v2_len v) (bbb_buf v))"
    using ptr_copy_take [OF i] le by (simp_all add: w_def)
  then have "aaa w = remove_nth i (aaa v)" "bbb w = remove_nth i (bbb v)"
    by (simp_all add: aaa_def bbb_def)
  then have iter: "v2_iter w = remove_nth i (v2_iter v)"
    using v2_inv_bufs [OF inv] by (simp add: v2_iter_def zip_remove_nth)
  have "None \<notin> set (take (v2_len w) (aaa_buf w))" "None \<notin> set (take (v2_len w) (bbb_buf w))"
    unfolding views using inv set_remove_nth_subset by (metis v2_inv_def subsetD)+
  moreover have "length (aaa_buf w) = v2_cap v" "length (bbb_buf w) = v2_cap v"
    using inv i length_ptr_copy [of "i + 1" "v2_len v - i - 1" _ i] by (auto simp: v2_inv_def w_def)
  moreover have "v2_len w \<le> v2_cap w" using inv by (simp add: v2_inv_def w_def le_diff_conv)
  ultimately have "v2_inv w" by (simp add: v2_inv_def) (simp add: w_def)
  with iter show ?thesis
    using inv i by (simp add: v2_remove_def w_def)
qed

lemma v2_remove_panics: "v2_len v \<le> i \<Longrightarrow> v2_remove v i = None"
  by (simp add: v2_remove_def)

lemma v2_pop_refines:
  assumes "v2_inv v"
  shows "fst (v2_pop v) = (if v2_iter v = [] then None else Some (last (v2_iter v))) \<and>
    v2_inv (snd (v2_pop v)) \<and> v2_iter (snd (v2_pop v)) = butlast (v2_iter v) \<and>
    v2_ty (snd (v2_pop v)) = v2_ty v"
proof (cases "v2_len v = 0")
  case True
  then have "v2_iter v = []" using length_v2_iter [OF assms] by simp
  with True assms show ?thesis by (simp add: v2_pop_def)
next
  case False
  then have ne: "v2_iter v \<noteq> []" using length_v2_iter [OF assms] by auto
  with False assms v2_set_len_refines [OF assms, of "v2_len v - 1"] show ?thesis
    by (simp add: v2_pop_def Let_def last_conv_nth butlast_conv_take)
qed

lemma v2_clear_refines: "v2_inv v \<Longrightarrow> v2_inv (v2_clear v) \<and> v2_iter (v2_clear v) = []"
  using v2_set_len_refines [of v 0] by (simp add: v2_clear_def)

lemma v2_truncate_refines:
  "v2_inv v \<Longrightarrow> v2_inv (v2_truncate v n) \<and> v2_iter (v2_truncate v n) = take n (v2_iter v)"
  using v2_set_len_refines [of v n] by (simp add: v2_truncate_def not_less)

lemma v2_get_refines:
  "v2_inv v \<Longrightarrow> v2_get v i = (if i < length (v2_iter v) then Some (v2_iter v ! i) else None)"
  by (simp add: v2_get_def)

subsection \<open>The in-place loop of \<open>retain\<close>\<close>

text \<open>What \<open>retain\<close> does to the list: the closure sees every element once and in order until it panics.\<close>

fun retain_list :: "('s, 'a, 'b) retain_fn \<Rightarrow> 's \<Rightarrow> ('a \<times> 'b) list \<Rightarrow> ('a \<times> 'b) list \<times> 's option" where
  "retain_list f s [] = ([], Some s)"
| "retain_list f s ((a, b) # xs) =
     (case f s a b of
        None \<Rightarrow> ((a, b) # xs, None)
      | Some ((a', b', retain_elem), s') \<Rightarrow>
          (case retain_list f s' xs of
             (ys, r) \<Rightarrow> (if retain_elem then (a', b') # ys else ys, r)))"

lemma v2_retain_step:
  assumes inv: "v2_inv v" and w: "written \<le> nxt" and n: "nxt < v2_len v"
    and ab: "v2_iter v ! nxt = (a, b)" and f: "f s a b = Some ((a', b', keep), s')"
  defines "k \<equiv> if keep then Suc written else written"
  shows "\<exists>x. v2_inv x \<and> v2_len x = v2_len v \<and> v2_ty x = v2_ty v \<and> v2_cap x = v2_cap v \<and>
    drop (Suc nxt) (v2_iter x) = drop (Suc nxt) (v2_iter v) \<and>
    take k (v2_iter x) = take written (v2_iter v) @ (if keep then [(a', b')] else []) \<and>
    v2_retain_loop f s v written nxt = v2_retain_loop f s' x k (Suc nxt)"
proof -
  define u where "u = v2_write v nxt a' b'"
  define x where "x = (if keep then v2_write u written a' b' else u)"
  note u = v2_write_refines [OF inv n, of a' b', folded u_def]
  have x: "v2_inv x \<and> v2_len x = v2_len v \<and> v2_ty x = v2_ty v \<and> v2_cap x = v2_cap v \<and>
      v2_iter x = (if keep then (v2_iter v)[nxt := (a', b'), written := (a', b')]
        else (v2_iter v)[nxt := (a', b')])"
    using v2_write_refines [of u written a' b'] u n w by (auto simp: x_def)
  moreover have "drop (Suc nxt) (v2_iter x) = drop (Suc nxt) (v2_iter v)"
    using x w by simp
  moreover have "take k (v2_iter x) = take written (v2_iter v) @ (if keep then [(a', b')] else [])"
    using x w n inv by (simp add: k_def take_Suc_conv_app_nth)
  moreover have "v2_retain_loop f s v written nxt = v2_retain_loop f s' x k (Suc nxt)"
    using n inv ab f by (simp add: v2_retain_loop.simps [of f s v written nxt] x_def u_def k_def Let_def)
  ultimately show ?thesis by blast
qed

lemma v2_retain_loop_refines:
  "v2_inv v \<Longrightarrow> written \<le> nxt \<Longrightarrow> nxt \<le> v2_len v \<Longrightarrow>
   \<exists>v' written' nxt' r. v2_retain_loop f s v written nxt = (v', written', nxt', r) \<and>
   v2_inv v' \<and> v2_len v' = v2_len v \<and> v2_ty v' = v2_ty v \<and> v2_cap v' = v2_cap v \<and>
   written' \<le> nxt' \<and> nxt' \<le> v2_len v \<and>
   retain_list f s (drop nxt (v2_iter v)) = (ys, r) \<and>
   take written' (v2_iter v') @ drop nxt' (v2_iter v') = take written (v2_iter v) @ ys"
  if "ys = fst (retain_list f s (drop nxt (v2_iter v)))" for ys
  using that
proof (induction "v2_len v - nxt" arbitrary: s v written nxt ys)
  case 0
  then have "nxt = v2_len v" by simp
  with "0.prems" show ?case by (simp add: v2_retain_loop.simps [of f s v written "v2_len v"])
next
  case (Suc d)
  then have n: "nxt < v2_len v" by simp
  obtain a b where ab: "v2_iter v ! nxt = (a, b)" by fastforce
  then have drop: "drop nxt (v2_iter v) = (a, b) # drop (Suc nxt) (v2_iter v)"
    using n Suc.prems by (metis Cons_nth_drop_Suc length_v2_iter)
  show ?case
  proof (cases "f s a b")
    case None
    with n ab drop Suc.prems show ?thesis
      by (simp add: v2_retain_loop.simps [of f s v written nxt])
  next
    case (Some res)
    then obtain a' b' keep s' where f: "f s a b = Some ((a', b', keep), s')"
      by (metis prod_cases3 surj_pair)
    define k where "k = (if keep then Suc written else written)"
    from v2_retain_step [where f = f and s = s and a = a and b = b, OF Suc.prems(1,2) n ab f] obtain x where x: "v2_inv x" "v2_len x = v2_len v"
        "v2_ty x = v2_ty v" "v2_cap x = v2_cap v"
        "drop (Suc nxt) (v2_iter x) = drop (Suc nxt) (v2_iter v)"
        "take k (v2_iter x) = take written (v2_iter v) @ (if keep then [(a', b')] else [])"
        "v2_retain_loop f s v written nxt = v2_retain_loop f s' x k (Suc nxt)"
      unfolding k_def by blast
    have "k \<le> Suc nxt" using Suc.prems by (simp add: k_def)
    from Suc.hyps(1) [of x "Suc nxt" k _ s', OF _ x(1) this _ refl] Suc.hyps(2) x n Suc.prems(4) drop f
    show ?thesis by (auto split: prod.splits)
  qed
qed

lemma ptr_copy_down:
  assumes "w \<le> m" and "m \<le> n" and "n \<le> length buf"
  shows "take (w + n - m) (ptr_copy buf m w (n - m)) = take w (take n buf) @ drop m (take n buf)"
proof -
  from assms(2) obtain d where n: "n = m + d" using le_iff_add by auto
  then have "take (w + d) (ptr_copy buf m w d) = take w buf @ take d (drop m buf)"
    using assms by (simp add: ptr_copy_def)
  then show ?thesis using n assms by (simp add: min_def drop_take)
qed

lemma v2_retain_drop_refines:
  assumes inv: "v2_inv v" and "w \<le> m" and "m \<le> v2_len v"
  shows "v2_inv (v2_retain_drop v w m) \<and>
    v2_iter (v2_retain_drop v w m) = take w (v2_iter v) @ drop m (v2_iter v) \<and>
    v2_ty (v2_retain_drop v w m) = v2_ty v"
proof -
  let ?v = "v2_retain_drop v w m"
  let ?part = "\<lambda>xs. take w xs @ drop m xs"
  have le: "v2_len v \<le> length (aaa_buf v)" "v2_len v \<le> length (bbb_buf v)"
    using inv by (auto simp: v2_inv_def)
  have views: "take (v2_len ?v) (aaa_buf ?v) = ?part (take (v2_len v) (aaa_buf v))"
      "take (v2_len ?v) (bbb_buf ?v) = ?part (take (v2_len v) (bbb_buf v))"
    using ptr_copy_down [OF assms(2,3)] le by (simp_all add: v2_retain_drop_def)
  have sub: "set (?part xs) \<subseteq> set xs" for xs :: "'c list"
    using set_take_subset set_drop_subset by fastforce
  have "aaa ?v = ?part (aaa v)" "bbb ?v = ?part (bbb v)"
    unfolding aaa_def bbb_def views by (simp_all add: take_map drop_map)
  then have "v2_iter ?v = ?part (v2_iter v)"
    using v2_inv_bufs [OF inv] by (simp add: v2_iter_def take_zip drop_zip)
  moreover have "None \<notin> set (take (v2_len ?v) (aaa_buf ?v))" "None \<notin> set (take (v2_len ?v) (bbb_buf ?v))"
    unfolding views using inv sub by (metis v2_inv_def subsetD)+
  moreover have "length (aaa_buf ?v) = v2_cap v" "length (bbb_buf ?v) = v2_cap v"
    using inv assms length_ptr_copy [of m "v2_len v - m" _ w]
    by (auto simp: v2_inv_def v2_retain_drop_def)
  moreover have "v2_len ?v \<le> v2_cap ?v" using inv assms by (auto simp: v2_inv_def v2_retain_drop_def)
  ultimately show ?thesis by (simp add: v2_inv_def) (simp add: v2_retain_drop_def)
qed

lemma v2_retain_list:
  assumes "v2_inv v"
  shows "v2_inv (fst (v2_retain f s v)) \<and>
    (v2_iter (fst (v2_retain f s v)), snd (v2_retain f s v)) = retain_list f s (v2_iter v) \<and>
    v2_ty (fst (v2_retain f s v)) = v2_ty v"
proof -
  from v2_retain_loop_refines [OF refl assms, of 0 0 f s]
  obtain v' w m r where loop: "v2_retain_loop f s v 0 0 = (v', w, m, r)" "v2_inv v'" "v2_len v' = v2_len v"
      "v2_ty v' = v2_ty v" "w \<le> m" "m \<le> v2_len v" "snd (retain_list f s (v2_iter v)) = r"
      "take w (v2_iter v') @ drop m (v2_iter v') = fst (retain_list f s (v2_iter v))"
    by (metis (no_types, lifting) drop0 le0 le_refl snd_conv take0 append_Nil)
  with v2_retain_drop_refines [OF loop(2), of w m] show ?thesis
    by (simp add: v2_retain_def) (simp add: prod_eq_iff)
qed

text \<open>
  \<open>Vec2::retain\<close> compacts in place: the closure is applied to the elements in order, the kept ones
  (with the closure's changes) stay in order, and when the closure panics the elements it had not
  decided stay behind them: nothing is lost, duplicated or left uninitialised.
\<close>

theorem v2_retain_refines:
  assumes "v2_inv v"
  shows "v2_inv (fst (v2_retain f s v)) \<and>
    (v2_iter (fst (v2_retain f s v)), snd (v2_retain f s v)) = retain_list f s (v2_iter v) \<and>
    v2_ty (fst (v2_retain f s v)) = v2_ty v"
  using assms by (rule v2_retain_list)

theorem v2_retain_refines_witness:
  "(let v = \<lparr>v2_ty = \<lparr>size_a = 8, align_a = 8, size_b = 4, align_b = 4, size_ab = 16\<rparr>,
            aaa_buf = [Some (1::nat), Some 2, Some 3, None], bbb_buf = [Some True, Some False, Some True, None],
            v2_len = 3, v2_cap = 4\<rparr>
    in v2_iter (fst (v2_retain (\<lambda>s a b. Some ((a + 10, b, b), ())) () v)) = [(11, True), (13, True)])"
proof -
  define v :: "(nat, bool) vec2" where
    "v = \<lparr>v2_ty = \<lparr>size_a = 8, align_a = 8, size_b = 4, align_b = 4, size_ab = 16\<rparr>,
          aaa_buf = [Some (1::nat), Some 2, Some 3, None], bbb_buf = [Some True, Some False, Some True, None],
          v2_len = 3, v2_cap = 4\<rparr>"
  have "v2_inv v" by (simp add: v_def v2_inv_def)
  moreover have "v2_iter v = [(1, True), (2, False), (3, True)]"
    by (simp add: v_def v2_iter_def aaa_def bbb_def)
  ultimately show ?thesis
    using v2_retain_refines [of v "\<lambda>s a b. Some ((a + 10, b, b), ())" "()"] by (simp add: v_def Let_def)
qed

subsection \<open>Sorting\<close>

lemma v2_swap_shift_refines:
  assumes inv: "v2_inv v" and ab: "a < b" "b < v2_len v"
  shows "\<exists>w. v2_swap_shift v a b = Some w \<and> v2_inv w \<and> v2_iter w = move_down a b (v2_iter v) \<and>
    v2_ty w = v2_ty v"
proof -
  note bufs = v2_inv_bufs [OF inv]
  have slices: "take (v2_len v) (aaa_buf v) = map Some (aaa v)" "take (v2_len v) (bbb_buf v) = map Some (bbb v)"
    using inv by (simp_all add: aaa_def bbb_def v2_inv_def map_Some_the)
  define w where "w = v\<lparr>aaa_buf := map Some (move_down a b (aaa v)) @ drop (v2_len v) (aaa_buf v),
                       bbb_buf := map Some (move_down a b (bbb v)) @ drop (v2_len v) (bbb_buf v)\<rparr>"
  have "v2_swap_shift v a b = Some w"
    using ab bufs(3,4) by (simp add: v2_swap_shift_def slices slice_swap_shift_move_down w_def)
  moreover have "v2_inv w \<and> aaa w = move_down a b (aaa v) \<and> bbb w = move_down a b (bbb v)"
    using inv ab bufs(3,4)
    by (intro v2_views [of _ _ "drop (v2_len v) (aaa_buf v)" _ "drop (v2_len v) (bbb_buf v)"])
      (simp_all add: w_def v2_inv_def)
  ultimately show ?thesis
    using ab bufs(3,4) by (auto simp: v2_iter_def zip_move_down) (simp add: w_def)
qed

text \<open>\<open>Vec2\<close> provides the interface of the insertion sort.\<close>

interpretation vec2_sort: swap_array "\<lambda>v. v2_inv v \<and> v2_ty v = ty" v2_iter
  "\<lambda>x y. f x < f y" "v2_less_at (\<lambda>x y. cmp_key (f x) (f y))" v2_swap_shift
  for ty :: vec2_ty and f :: "'a \<times> 'b \<Rightarrow> 'k::linorder"
proof unfold_locales
  show "strict_weak (\<lambda>x y. f x < f y)" by (rule strict_weak_key)
qed (use v2_swap_shift_refines in \<open>fastforce simp: v2_less_at_def\<close>)+

lemma v2_sort_by_list:
  fixes f :: "'a \<times> 'b \<Rightarrow> 'k::linorder"
  assumes inv: "v2_inv v" and ample: "v2_ample (v2_ty v) (v2_len v)"
  shows "\<exists>w. v2_sort_by (\<lambda>x y. cmp_key (f x) (f y)) v = Some w \<and> v2_inv w \<and>
    v2_iter w = sort_key f (v2_iter v) \<and> v2_ty w = v2_ty v"
proof (cases "v2_len v \<le> max_insertion")
  case True
  from vec2_sort.insertion_sort_sorts [of v "v2_ty v" f] inv
  obtain w where "insertion_sort v (v2_len v) (v2_less_at (\<lambda>x y. cmp_key (f x) (f y))) v2_swap_shift = Some w"
    "v2_inv w" "v2_ty w = v2_ty v" "stable_sort_of (\<lambda>x y. f x < f y) (v2_iter v) (v2_iter w)"
    by auto
  with True show ?thesis
    by (simp add: v2_sort_by_def v2_sort_insertion_by_def stable_sort_of_key)
next
  case False
  let ?cmp = "\<lambda>x y. cmp_key (f x) (f y)"
  have sort: "std_sort_by ?cmp (v2_iter v) = sort_key f (v2_iter v)"
    using std_sort_by_stable [of ?cmp "v2_iter v"] strict_weak_key [of f]
    by (simp add: stable_sort_of_key)
  obtain w where w: "v2_push_all (v2_new (v2_ty v)) (sort_key f (v2_iter v)) = Some w"
    using v2_push_all_total [of "v2_new (v2_ty v)" "sort_key f (v2_iter v)"] inv ample by auto
  from v2_push_all_refines [OF _ w] False sort w show ?thesis
    by (simp add: v2_sort_by_def)
qed

text \<open>
  \<open>Vec2::sort_by\<close> with a comparison by key returns the stable sort of the pairs, on both of its
  paths: the in-place insertion sort of at most 20 elements, and the detour through a vector of
  pairs, provided the vector can be grown again to hold them.
\<close>

theorem v2_sort_by_stable:
  fixes f :: "'a \<times> 'b \<Rightarrow> 'k::linorder"
  assumes inv: "v2_inv v" and ample: "v2_ample (v2_ty v) (v2_len v)"
  shows "\<exists>w. v2_sort_by (\<lambda>x y. cmp_key (f x) (f y)) v = Some w \<and> v2_inv w \<and>
    v2_iter w = sort_key f (v2_iter v) \<and> v2_ty w = v2_ty v"
  using assms by (rule v2_sort_by_list)

theorem v2_sort_by_stable_witness:
  "(let v = \<lparr>v2_ty = \<lparr>size_a = 8, align_a = 8, size_b = 4, align_b = 4, size_ab = 16\<rparr>,
            aaa_buf = [Some (3::nat), Some 1, Some 3, None], bbb_buf = [Some (0::nat), Some 1, Some 2, None],
            v2_len = 3, v2_cap = 4\<rparr>
    in \<exists>w. v2_sort_by (\<lambda>x y. cmp_key (fst x) (fst y)) v = Some w \<and> v2_iter w = [(1, 1), (3, 0), (3, 2)])"
proof -
  define v :: "(nat, nat) vec2" where
    "v = \<lparr>v2_ty = \<lparr>size_a = 8, align_a = 8, size_b = 4, align_b = 4, size_ab = 16\<rparr>,
          aaa_buf = [Some 3, Some 1, Some 3, None], bbb_buf = [Some 0, Some 1, Some 2, None],
          v2_len = 3, v2_cap = 4\<rparr>"
  have "v2_inv v" by (simp add: v_def v2_inv_def)
  moreover have "v2_ample (v2_ty v) (v2_len v)"
    by (simp add: v_def v2_ample_def layout_ok_iff usize_max_def max_size_for_align_def isize_max_def round_up_def)
  moreover have "v2_iter v = [(3, 0), (1, 1), (3, 2)]"
    by (simp add: v_def v2_iter_def aaa_def bbb_def)
  ultimately show ?thesis
    using v2_sort_by_stable [of v fst] by (auto simp: v_def Let_def)
qed

subsection \<open>Copying into a vector of exact capacity\<close>

lemma v2_clone_refines:
  assumes inv: "v2_inv v" and ok: "layout_ok (v2_ty v) (v2_len v)"
  shows "\<exists>w. v2_clone v = Some w \<and> v2_inv w \<and> v2_iter w = v2_iter v \<and> v2_ty w = v2_ty v \<and>
    v2_cap w = v2_len v"
proof -
  obtain r :: "('a, 'b) vec2" where r: "v2_with_capacity (v2_ty v) (v2_len v) = Some r"
    using v2_with_capacity_total [OF ok] by blast
  note r' = v2_with_capacity_refines [OF r]
  then obtain w where w: "v2_push_all r (v2_iter v) = Some w" "v2_cap w = v2_cap r"
    using v2_push_all_within_cap [of r "v2_iter v"] inv by auto
  with v2_push_all_refines [of r "v2_iter v" w] r r' show ?thesis by (simp add: v2_clone_def)
qed

lemma v2_shrink_to_fit_refines:
  assumes inv: "v2_inv v" and ok: "layout_ok (v2_ty v) (v2_len v)"
  shows "\<exists>w. v2_shrink_to_fit v = Some w \<and> v2_inv w \<and> v2_iter w = v2_iter v \<and> v2_ty w = v2_ty v \<and>
    v2_cap w = v2_len w"
proof (cases "v2_len v < v2_cap v")
  case True
  then have "v2_shrink_to_fit v = v2_clone v" by (simp add: v2_shrink_to_fit_def v2_clone_def)
  with v2_clone_refines [OF inv ok] inv show ?thesis
    using length_v2_iter [OF inv] length_v2_iter by (metis (no_types, lifting))
next
  case False
  then have "v2_cap v = v2_len v" using inv by (auto simp: v2_inv_def)
  with False inv show ?thesis by (simp add: v2_shrink_to_fit_def)
qed

lemma v2_eq_iff: "v2_inv v \<Longrightarrow> v2_inv w \<Longrightarrow> v2_eq v w \<longleftrightarrow> v2_iter v = v2_iter w"
  using length_v2_iter by (fastforce simp: v2_eq_def)

end
