(* ===== verification/Vec_Map.thy ===== *)
theory Vec_Map
  imports Vec2
begin

unbundle bit_operations_syntax

text \<open>
  \<^verbatim>\<open>starlark_map/src/{hash_value,mix_u32,hashed,vec_map,vec_map/simd}.rs\<close>: 32-bit hashes stored
  beside the keys, and the map that searches them linearly. The hash function of the keys
  (\<open>Hash\<close> and the external \<open>FxHasher64\<close>) is the parameter \<open>hash_of\<close>; equality of keys is HOL equality.
\<close>

subsection \<open>Hash values\<close>

text \<open>\<open>mix_u32\<close>: a 32-bit value spread over 64 bits by a wrapping multiplication.\<close>

definition mix_u32 :: "u32 \<Rightarrow> u64" where
  "mix_u32 n = (ucast n :: u64) * 0x9e3779b97f4a7c15"

text \<open>\<open>StarlarkHashValue::hash_64\<close>, the finaliser of MurmurHash3, and \<open>promote\<close>.\<close>

definition xor_shift33 :: "u64 \<Rightarrow> u64" where
  "xor_shift33 h = h XOR drop_bit 33 h"

definition fmix64 :: "u64 \<Rightarrow> u64" where
  "fmix64 h =
     (let h = xor_shift33 h;
          h = h * 0xff51afd7ed558ccd;
          h = xor_shift33 h;
          h = h * 0xc4ceb9fe1a85ec53
      in xor_shift33 h)"

definition hash_64 :: "u64 \<Rightarrow> u32" where
  "hash_64 h = ucast (fmix64 h)"

definition promote :: "u32 \<Rightarrow> u64" where
  "promote h = mix_u32 h"

text \<open>A key with its hash; \<open>hashed_new\<close> computes the hash, \<open>new_unchecked\<close> is the record itself.\<close>

record 'k hashed =
  hashed_hash :: u32
  hashed_key :: 'k

definition hashed_new :: "('k \<Rightarrow> u32) \<Rightarrow> 'k \<Rightarrow> 'k hashed" where
  "hashed_new hash_of key = \<lparr>hashed_hash = hash_of key, hashed_key = key\<rparr>"

text \<open>\<open>mix_u32\<close> multiplies by an odd constant, so it has an inverse modulo \<open>2 ^ 64\<close>.\<close>

definition mix_inverse :: u64 where
  "mix_inverse = 0xf1de83e19937733d"

lemma mix_inverse: "(0x9e3779b97f4a7c15 :: u64) * mix_inverse = 1"
  by (simp add: mix_inverse_def)

lemma fmix_inverses:
  "(0xff51afd7ed558ccd :: u64) * 0x4f74430c22a54005 = 1"
  "(0xc4ceb9fe1a85ec53 :: u64) * 0x9cb4b2f8129337db = 1"
  by simp_all

lemma mult_unit_cancel:
  fixes c d x y :: "'a::len word"
  assumes "c * d = 1" and "x * c = y * c"
  shows "x = y"
  using assms by (metis mult.assoc mult.right_neutral)

lemma ucast_u32_u64_inj: "(ucast a :: u64) = ucast b \<Longrightarrow> a = (b :: u32)"
proof -
  have "(ucast (ucast x :: u64) :: u32) = x" for x :: u32
    by (rule bit_word_eqI) (simp add: bit_ucast_iff)
  then show "(ucast a :: u64) = ucast b \<Longrightarrow> a = b" by metis
qed

lemma xor_shift33_involution: "xor_shift33 (xor_shift33 h) = h"
  unfolding xor_shift33_def
  by (rule bit_word_eqI) (auto simp: bit_simps)

text \<open>
  C15. Promoting a hash to 64 bits loses nothing, and the \<open>fmix64\<close> mixing behind \<open>hash_64\<close> is a
  bijection on 64-bit values: collisions come only from the final truncation to 32 bits.
\<close>

theorem hash_mixing_injective: "inj promote \<and> bij fmix64"
proof
  show "inj promote"
    by (rule injI) (metis promote_def mix_u32_def mult_unit_cancel mix_inverse ucast_u32_u64_inj)
  have xs: "inj xor_shift33" by (metis injI xor_shift33_involution)
  have "inj fmix64"
  proof (rule injI)
    fix x y assume "fmix64 x = fmix64 y"
    then have "xor_shift33 (xor_shift33 x * 0xff51afd7ed558ccd) * 0xc4ceb9fe1a85ec53 =
        xor_shift33 (xor_shift33 y * 0xff51afd7ed558ccd) * 0xc4ceb9fe1a85ec53"
      using xs by (simp add: fmix64_def Let_def inj_eq)
    then have "xor_shift33 x * 0xff51afd7ed558ccd = xor_shift33 y * 0xff51afd7ed558ccd"
      using xs mult_unit_cancel [OF fmix_inverses(2)] by (metis inj_eq)
    then show "x = y" using xs mult_unit_cancel [OF fmix_inverses(1)] by (metis inj_eq)
  qed
  moreover have "finite (UNIV :: u64 set)" by simp
  ultimately show "bij fmix64" by (simp add: bij_def finite_UNIV_inj_surj)
qed

subsection \<open>Searching an array of hashes\<close>

text \<open>\<open>find_hash_in_array_without_simd\<close>: the \<open>while\<close> loop from position \<open>i\<close>.\<close>

function find_hash_scan :: "u32 list \<Rightarrow> u32 \<Rightarrow> nat \<Rightarrow> nat option" where
  "find_hash_scan array hash i =
     (if i < length array
      then if array ! i = hash then Some i else find_hash_scan array hash (i + 1)
      else None)"
  by pat_completeness auto
termination
  by (relation "measure (\<lambda>(array, hash, i). length array - i)") auto

declare find_hash_scan.simps [simp del]

definition find_hash_in_array_without_simd :: "u32 list \<Rightarrow> u32 \<Rightarrow> nat option" where
  "find_hash_in_array_without_simd array hash = find_hash_scan array hash 0"

text \<open>
  The nightly build compares four lanes at a time. A comparison is the list of its lanes, and
  \<open>to_bitmask().trailing_zeros()\<close> is the number of the first lane that is set.
\<close>

definition lanes :: nat where
  "lanes = 4"

definition simd_eq :: "u32 list \<Rightarrow> u32 \<Rightarrow> bool list" where
  "simd_eq next_hashes hash = map (\<lambda>h. h = hash) next_hashes"

definition first_lane :: "bool list \<Rightarrow> nat" where
  "first_lane eq = length (takeWhile Not eq)"

function simd_scan :: "u32 list \<Rightarrow> u32 \<Rightarrow> nat \<Rightarrow> nat option" where
  "simd_scan array hash i =
     (if i + lanes < length array
      then let eq = simd_eq (take lanes (drop i array)) hash
           in if True \<in> set eq then Some (i + first_lane eq) else simd_scan array hash (i + lanes)
      else let eq = simd_eq (drop (length array - lanes) array) hash
           in if True \<in> set eq then Some (length array - lanes + first_lane eq) else None)"
  by pat_completeness auto
termination
  by (relation "measure (\<lambda>(array, hash, i). length array - i)") (auto simp: lanes_def)

declare simd_scan.simps [simp del]

definition find_hash_in_array :: "bool \<Rightarrow> u32 list \<Rightarrow> u32 \<Rightarrow> nat option" where
  "find_hash_in_array rust_nightly array hash =
     (if rust_nightly
      then if length array < lanes then find_hash_in_array_without_simd array hash
           else simd_scan array hash 0
      else find_hash_in_array_without_simd array hash)"

lemma find_hash_scan_find_index:
  "find_hash_scan array hash i = map_option (\<lambda>j. i + j) (find_index (\<lambda>h. h = hash) (drop i array))"
proof (induction array hash i rule: find_hash_scan.induct)
  case (1 array hash i)
  show ?case
  proof (cases "i < length array")
    case True
    then have "drop i array = array ! i # drop (Suc i) array" by (simp add: Cons_nth_drop_Suc)
    with True "1.IH" show ?thesis
      by (simp add: find_hash_scan.simps [of array hash i] option.map_comp comp_def)
  qed (simp add: find_hash_scan.simps [of array hash i])
qed

lemma first_lane_find_index:
  "True \<in> set (simd_eq hs hash) \<Longrightarrow> find_index (\<lambda>h. h = hash) hs = Some (first_lane (simd_eq hs hash))"
  "True \<notin> set (simd_eq hs hash) \<Longrightarrow> find_index (\<lambda>h. h = hash) hs = None"
  by (induction hs) (auto simp: simd_eq_def first_lane_def)

lemma simd_scan_find_index:
  "i \<le> length array \<Longrightarrow> lanes \<le> length array \<Longrightarrow> hash \<notin> set (take i array) \<Longrightarrow>
   simd_scan array hash i = find_index (\<lambda>h. h = hash) array"
proof (induction array hash i rule: simd_scan.induct)
  case (1 array hash i)
  have skip: "find_index (\<lambda>h. h = hash) array = map_option (\<lambda>j. k + j) (find_index (\<lambda>h. h = hash) (drop k array))"
    if "k \<le> i" for k
    using "1.prems" that by (intro find_index_drop) (auto simp: in_set_conv_nth)
  show ?case
  proof (cases "i + lanes < length array")
    case True
    let ?eq = "simd_eq (take lanes (drop i array)) hash"
    have len: "length (take lanes (drop i array)) = lanes" using True by simp
    have split: "find_index (\<lambda>h. h = hash) (drop i array) =
        (case find_index (\<lambda>h. h = hash) (take lanes (drop i array)) of Some j \<Rightarrow> Some j
         | None \<Rightarrow> map_option (\<lambda>j. lanes + j) (find_index (\<lambda>h. h = hash) (drop lanes (drop i array))))"
      using find_index_append [of "\<lambda>h. h = hash" "take lanes (drop i array)" "drop lanes (drop i array)"]
      unfolding len by (simp del: drop_drop)
    show ?thesis
    proof (cases "True \<in> set ?eq")
      case hit: True
      with True skip [of i] split first_lane_find_index(1) [OF hit] show ?thesis
        by (simp add: simd_scan.simps [of array hash i] Let_def)
    next
      case miss: False
      then have "hash \<notin> set (take lanes (drop i array))" by (auto simp: simd_eq_def)
      then have "hash \<notin> set (take (i + lanes) array)" using "1.prems" by (simp add: take_add)
      with "1.IH" [OF True refl miss] True "1.prems" miss show ?thesis
        by (simp add: simd_scan.simps [of array hash i] Let_def)
    qed
  next
    case False
    have "length array - lanes \<le> i" using False by simp
    from skip [OF this] first_lane_find_index [of "drop (length array - lanes) array" hash] False
    show ?thesis by (auto simp: simd_scan.simps [of array hash i] Let_def)
  qed
qed

lemma find_hash_in_array_index:
  "find_hash_in_array rust_nightly array hash = find_index (\<lambda>h. h = hash) array"
  using simd_scan_find_index [of 0 array hash]
  by (simp add: find_hash_in_array_def find_hash_in_array_without_simd_def find_hash_scan_find_index
      option.map_ident)

text \<open>
  C14. The four-lane search of the nightly build and the plain loop of the stable build agree on
  every array: both return the first position of the hash.
\<close>

theorem find_hash_in_array_agrees:
  "find_hash_in_array rust_nightly array hash = find_hash_in_array_without_simd array hash \<and>
   find_hash_in_array rust_nightly array hash = find_index (\<lambda>h. h = hash) array"
  by (simp add: find_hash_in_array_index find_hash_in_array_without_simd_def find_hash_scan_find_index
      option.map_ident)

subsection \<open>The map without an index\<close>

record ('k, 'v) vec_map =
  buckets :: "('k \<times> 'v, u32) vec2"

definition vm_new :: "vec2_ty \<Rightarrow> ('k, 'v) vec_map" where
  "vm_new ty = \<lparr>buckets = v2_new ty\<rparr>"

definition vm_with_capacity :: "vec2_ty \<Rightarrow> nat \<Rightarrow> ('k, 'v) vec_map option" where
  "vm_with_capacity ty n =
     (case v2_with_capacity ty n of None \<Rightarrow> None | Some b \<Rightarrow> Some \<lparr>buckets = b\<rparr>)"

definition vm_reserve :: "('k, 'v) vec_map \<Rightarrow> nat \<Rightarrow> ('k, 'v) vec_map option" where
  "vm_reserve m additional =
     (case v2_reserve (buckets m) additional of None \<Rightarrow> None | Some b \<Rightarrow> Some (m\<lparr>buckets := b\<rparr>))"

definition vm_capacity :: "('k, 'v) vec_map \<Rightarrow> nat" where
  "vm_capacity m = v2_cap (buckets m)"

text \<open>The search loop: jump to the next equal hash, then compare the key.\<close>

function vm_find_loop ::
  "bool \<Rightarrow> u32 list \<Rightarrow> 'k list \<Rightarrow> u32 \<Rightarrow> ('k \<Rightarrow> bool) \<Rightarrow> nat \<Rightarrow> nat option" where
  "vm_find_loop rust_nightly hashes ks hash eq i =
     (if i < length hashes
      then (case find_hash_in_array rust_nightly (drop i hashes) hash of
              None \<Rightarrow> None
            | Some d \<Rightarrow>
                if eq (ks ! (i + d)) then Some (i + d)
                else vm_find_loop rust_nightly hashes ks hash eq (i + d + 1))
      else None)"
  by pat_completeness auto
termination
  by (relation "measure (\<lambda>(n, hashes, ks, hash, eq, i). length hashes - i)") auto

declare vm_find_loop.simps [simp del]

definition vm_get_index_of_hashed_raw ::
  "bool \<Rightarrow> ('k, 'v) vec_map \<Rightarrow> u32 \<Rightarrow> ('k \<Rightarrow> bool) \<Rightarrow> nat option" where
  "vm_get_index_of_hashed_raw rust_nightly m hash eq =
     vm_find_loop rust_nightly (bbb (buckets m)) (map fst (aaa (buckets m))) hash eq 0"

definition vm_get_index_of_hashed :: "bool \<Rightarrow> ('k, 'v) vec_map \<Rightarrow> 'k hashed \<Rightarrow> nat option" where
  "vm_get_index_of_hashed rust_nightly m key =
     vm_get_index_of_hashed_raw rust_nightly m (hashed_hash key) (\<lambda>k. hashed_key key = k)"

definition vm_get_index :: "('k, 'v) vec_map \<Rightarrow> nat \<Rightarrow> ('k \<times> 'v) option" where
  "vm_get_index m index =
     (case v2_get (buckets m) index of None \<Rightarrow> None | Some ((k, v), _) \<Rightarrow> Some (k, v))"

definition vm_get_unchecked :: "('k, 'v) vec_map \<Rightarrow> nat \<Rightarrow> 'k hashed \<times> 'v" where
  "vm_get_unchecked m index =
     (case v2_get_unchecked (buckets m) index of
        ((key, value), hash) \<Rightarrow> (\<lparr>hashed_hash = hash, hashed_key = key\<rparr>, value))"

text \<open>Writing through the value reference that \<open>get_unchecked_mut\<close> hands out.\<close>

definition vm_set_unchecked :: "('k, 'v) vec_map \<Rightarrow> nat \<Rightarrow> 'v \<Rightarrow> ('k, 'v) vec_map" where
  "vm_set_unchecked m index value =
     (case v2_get_unchecked (buckets m) index of
        ((key, _), hash) \<Rightarrow> m\<lparr>buckets := v2_write (buckets m) index (key, value) hash\<rparr>)"

definition vm_insert_hashed_unique_unchecked ::
  "('k, 'v) vec_map \<Rightarrow> 'k hashed \<Rightarrow> 'v \<Rightarrow> ('k, 'v) vec_map option" where
  "vm_insert_hashed_unique_unchecked m key value =
     (case v2_push (buckets m) (hashed_key key, value) (hashed_hash key) of
        None \<Rightarrow> None | Some b \<Rightarrow> Some (m\<lparr>buckets := b\<rparr>))"

definition vm_remove :: "('k, 'v) vec_map \<Rightarrow> nat \<Rightarrow> (('k hashed \<times> 'v) \<times> ('k, 'v) vec_map) option" where
  "vm_remove m index =
     (case v2_remove (buckets m) index of
        None \<Rightarrow> None
      | Some (((key, value), hash), b) \<Rightarrow>
          Some ((\<lparr>hashed_hash = hash, hashed_key = key\<rparr>, value), m\<lparr>buckets := b\<rparr>))"

text \<open>The outer \<open>option\<close> is a panic of \<open>remove\<close>, the inner one Rust's \<open>Option\<close>.\<close>

definition vm_remove_hashed_entry ::
  "bool \<Rightarrow> ('k, 'v) vec_map \<Rightarrow> 'k hashed \<Rightarrow> (('k \<times> 'v) option \<times> ('k, 'v) vec_map) option" where
  "vm_remove_hashed_entry rust_nightly m key =
     (case vm_get_index_of_hashed rust_nightly m key of
        Some index \<Rightarrow>
          (case vm_remove m index of
             None \<Rightarrow> None
           | Some ((k, v), m') \<Rightarrow> Some (Some (hashed_key k, v), m'))
      | None \<Rightarrow> Some (None, m))"

definition vm_pop :: "('k, 'v) vec_map \<Rightarrow> ('k hashed \<times> 'v) option \<times> ('k, 'v) vec_map" where
  "vm_pop m =
     (case v2_pop (buckets m) of
        (None, b) \<Rightarrow> (None, m\<lparr>buckets := b\<rparr>)
      | (Some ((key, value), hash), b) \<Rightarrow>
          (Some (\<lparr>hashed_hash = hash, hashed_key = key\<rparr>, value), m\<lparr>buckets := b\<rparr>))"

definition vm_len :: "('k, 'v) vec_map \<Rightarrow> nat" where
  "vm_len m = v2_len (buckets m)"

definition vm_is_empty :: "('k, 'v) vec_map \<Rightarrow> bool" where
  "vm_is_empty m = v2_is_empty (buckets m)"

definition vm_clear :: "('k, 'v) vec_map \<Rightarrow> ('k, 'v) vec_map" where
  "vm_clear m = m\<lparr>buckets := v2_clear (buckets m)\<rparr>"

definition vm_iter :: "('k, 'v) vec_map \<Rightarrow> ('k \<times> 'v) list" where
  "vm_iter m = aaa (buckets m)"

definition vm_iter_hashed :: "('k, 'v) vec_map \<Rightarrow> ('k hashed \<times> 'v) list" where
  "vm_iter_hashed m =
     map (\<lambda>((key, value), hash). (\<lparr>hashed_hash = hash, hashed_key = key\<rparr>, value)) (v2_iter (buckets m))"

definition vm_keys :: "('k, 'v) vec_map \<Rightarrow> 'k list" where
  "vm_keys m = map fst (vm_iter m)"

definition vm_values :: "('k, 'v) vec_map \<Rightarrow> 'v list" where
  "vm_values m = map snd (vm_iter m)"

definition vm_sort_keys :: "('k::linorder, 'v) vec_map \<Rightarrow> ('k, 'v) vec_map option" where
  "vm_sort_keys m =
     (case v2_sort_by (\<lambda>x y. cmp_key (fst (fst x)) (fst (fst y))) (buckets m) of
        None \<Rightarrow> None | Some b \<Rightarrow> Some (m\<lparr>buckets := b\<rparr>))"

text \<open>\<open>windows(2).all(..)\<close> over the keys.\<close>

fun windows_sorted :: "('k::linorder \<times> 'v) list \<Rightarrow> bool" where
  "windows_sorted (x # y # xs) = (fst x \<le> fst y \<and> windows_sorted (y # xs))"
| "windows_sorted _ = True"

definition vm_is_sorted_by_key :: "('k::linorder, 'v) vec_map \<Rightarrow> bool" where
  "vm_is_sorted_by_key m = windows_sorted (aaa (buckets m))"

definition vm_eq_ordered :: "('k, 'v) vec_map \<Rightarrow> ('k, 'v) vec_map \<Rightarrow> bool" where
  "vm_eq_ordered m other =
     (bbb (buckets m) = bbb (buckets other) \<and> aaa (buckets m) = aaa (buckets other))"

text \<open>Feeding a hasher with the stored hashes and the values, in iteration order.\<close>

definition vm_hash_ordered :: "(u32 \<Rightarrow> 'h \<Rightarrow> 'h) \<Rightarrow> ('v \<Rightarrow> 'h \<Rightarrow> 'h) \<Rightarrow> ('k, 'v) vec_map \<Rightarrow> 'h \<Rightarrow> 'h" where
  "vm_hash_ordered write_u32 hash_value m state =
     fold (\<lambda>(k, v) st. hash_value v (write_u32 (hashed_hash k) st)) (vm_iter_hashed m) state"

definition vm_reverse :: "('k, 'v) vec_map \<Rightarrow> ('k, 'v) vec_map" where
  "vm_reverse m =
     (let b = buckets m
      in m\<lparr>buckets := b\<lparr>aaa_buf := rev (take (v2_len b) (aaa_buf b)) @ drop (v2_len b) (aaa_buf b),
                        bbb_buf := rev (take (v2_len b) (bbb_buf b)) @ drop (v2_len b) (bbb_buf b)\<rparr>\<rparr>)"

text \<open>The closure of \<open>retain\<close> sees the key and may change the value; it has state and may panic.\<close>

type_synonym ('s, 'k, 'v) map_retain_fn = "'s \<Rightarrow> 'k \<Rightarrow> 'v \<Rightarrow> (('v \<times> bool) \<times> 's) option"

definition vm_retain ::
  "('s, 'k, 'v) map_retain_fn \<Rightarrow> 's \<Rightarrow> ('k, 'v) vec_map \<Rightarrow> ('k, 'v) vec_map \<times> 's option" where
  "vm_retain f s m =
     (case v2_retain (\<lambda>s kv h. case f s (fst kv) (snd kv) of
                        None \<Rightarrow> None
                      | Some ((v, keep), s') \<Rightarrow> Some (((fst kv, v), h, keep), s')) s (buckets m) of
        (b, r) \<Rightarrow> (m\<lparr>buckets := b\<rparr>, r))"

subsection \<open>The map stands for an association list in insertion order\<close>

text \<open>
  Well-formed: the two halves are in order, every stored hash is the hash of its key, and no key
  occurs twice. Then the whole state is given by \<open>vm_iter\<close>.
\<close>

definition tag_hash :: "('k \<Rightarrow> u32) \<Rightarrow> ('k \<times> 'v) list \<Rightarrow> (('k \<times> 'v) \<times> u32) list" where
  "tag_hash hash_of xs = map (\<lambda>kv. (kv, hash_of (fst kv))) xs"

definition vm_wf :: "('k \<Rightarrow> u32) \<Rightarrow> ('k, 'v) vec_map \<Rightarrow> bool" where
  "vm_wf hash_of m \<longleftrightarrow> v2_inv (buckets m) \<and> v2_iter (buckets m) = tag_hash hash_of (vm_iter m) \<and>
     distinct (map fst (vm_iter m))"

lemma vm_wfI:
  assumes "v2_inv (buckets m)" and "v2_iter (buckets m) = tag_hash hash_of xs"
    and "distinct (map fst xs)"
  shows "vm_wf hash_of m \<and> vm_iter m = xs"
proof -
  have "vm_iter m = map fst (v2_iter (buckets m))"
    using assms(1) by (simp add: vm_iter_def v2_iter_parts)
  then have "vm_iter m = xs" using assms(2) by (simp add: tag_hash_def comp_def)
  then show ?thesis using assms by (simp add: vm_wf_def)
qed

lemma vm_wfD:
  assumes "vm_wf hash_of m"
  shows "v2_inv (buckets m)" and "v2_iter (buckets m) = tag_hash hash_of (vm_iter m)"
    and "distinct (map fst (vm_iter m))" and "v2_len (buckets m) = length (vm_iter m)"
    and "bbb (buckets m) = map (\<lambda>kv. hash_of (fst kv)) (vm_iter m)"
proof -
  show inv: "v2_inv (buckets m)" and iter: "v2_iter (buckets m) = tag_hash hash_of (vm_iter m)"
    and "distinct (map fst (vm_iter m))"
    using assms by (auto simp: vm_wf_def)
  show "v2_len (buckets m) = length (vm_iter m)"
    using length_v2_iter [OF inv] iter by (simp add: tag_hash_def)
  show "bbb (buckets m) = map (\<lambda>kv. hash_of (fst kv)) (vm_iter m)"
    using v2_iter_parts(2) [OF inv] iter by (simp add: tag_hash_def comp_def)
qed

lemma find_index_fst_zip:
  assumes "length hashes = length ks"
  shows "find_index (\<lambda>p. fst p = hash) (drop i (zip hashes ks)) = find_index (\<lambda>h. h = hash) (drop i hashes)"
proof -
  have "drop i hashes = map fst (drop i (zip hashes ks))"
    using assms by (simp add: drop_map [symmetric])
  then show ?thesis by (simp add: find_index_map)
qed

lemma vm_find_loop_find_index:
  "length hashes = length ks \<Longrightarrow> vm_find_loop n hashes ks hash eq i =
     map_option (\<lambda>j. i + j) (find_index (\<lambda>p. fst p = hash \<and> eq (snd p)) (drop i (zip hashes ks)))"
proof (induction n hashes ks hash eq i rule: vm_find_loop.induct)
  case (1 n hashes ks hash eq i)
  let ?P = "\<lambda>p. fst p = hash \<and> eq (snd p)" and ?xs = "drop i (zip hashes ks)"
  have search: "find_hash_in_array n (drop i hashes) hash = find_index (\<lambda>p. fst p = hash) ?xs"
    using find_hash_in_array_index find_index_fst_zip [OF "1.prems"] by metis
  show ?case
  proof (cases "i < length hashes")
    case False
    then show ?thesis using "1.prems" by (simp add: vm_find_loop.simps [of n hashes ks hash eq i])
  next
    case True
    show ?thesis
    proof (cases "find_index (\<lambda>p. fst p = hash) ?xs")
      case None
      with True search find_index_refine [of ?P "\<lambda>p. fst p = hash" ?xs] show ?thesis
        by (simp add: vm_find_loop.simps [of n hashes ks hash eq i])
    next
      case (Some d)
      then have "i + d < length hashes" "fst (?xs ! d) = hash" "snd (?xs ! d) = ks ! (i + d)"
        using "1.prems" by (auto simp: find_index_Some_iff)
      with Some True search find_index_refine [of ?P "\<lambda>p. fst p = hash" ?xs] "1.IH" [OF True, of d] "1.prems"
      show ?thesis
        by (simp add: vm_find_loop.simps [of n hashes ks hash eq i] option.map_comp comp_def ac_simps)
    qed
  qed
qed

lemma vm_search:
  assumes "vm_wf hash_of m"
  shows "vm_get_index_of_hashed n m (hashed_new hash_of k) = find_index (\<lambda>kv. fst kv = k) (vm_iter m)"
proof -
  let ?xs = "vm_iter m"
  have "zip (map (\<lambda>kv. hash_of (fst kv)) ?xs) (map fst ?xs) = map (\<lambda>kv. (hash_of (fst kv), fst kv)) ?xs"
    by (simp add: zip_map_map zip_same_conv_map comp_def)
  then have "vm_get_index_of_hashed n m (hashed_new hash_of k) =
      find_index (\<lambda>kv. hash_of (fst kv) = hash_of k \<and> k = fst kv) ?xs"
    using vm_find_loop_find_index [of "bbb (buckets m)" "map fst (aaa (buckets m))" n "hash_of k" "\<lambda>x. k = x" 0]
      vm_wfD(5) [OF assms]
    by (simp add: vm_get_index_of_hashed_def vm_get_index_of_hashed_raw_def hashed_new_def
        find_index_map option.map_ident flip: vm_iter_def)
  also have "(\<lambda>kv. hash_of (fst kv) = hash_of k \<and> k = fst kv) = (\<lambda>kv :: 'a \<times> 'b. fst kv = k)"
    by auto
  finally show ?thesis .
qed

lemma tag_hash_simps [simp]:
  "tag_hash h [] = []" "tag_hash h (x # xs) = (x, h (fst x)) # tag_hash h xs"
  "tag_hash h (xs @ ys) = tag_hash h xs @ tag_hash h ys" "length (tag_hash h xs) = length xs"
  "tag_hash h (remove_nth i xs) = remove_nth i (tag_hash h xs)"
  "tag_hash h (butlast xs) = butlast (tag_hash h xs)" "tag_hash h (rev xs) = rev (tag_hash h xs)"
  "tag_hash h xs = [] \<longleftrightarrow> xs = []"
  by (simp_all add: tag_hash_def map_butlast rev_map)

lemma nth_tag_hash [simp]: "i < length xs \<Longrightarrow> tag_hash h xs ! i = (xs ! i, h (fst (xs ! i)))"
  by (simp add: tag_hash_def)

lemma vm_new_refines [simp]: "vm_wf h (vm_new ty)" "vm_iter (vm_new ty) = []" "v2_ty (buckets (vm_new ty)) = ty"
  by (simp_all add: vm_wf_def vm_new_def vm_iter_def aaa_def)

lemma vm_with_capacity_refines:
  "vm_with_capacity ty n = Some m \<Longrightarrow> vm_wf h m \<and> vm_iter m = [] \<and> v2_ty (buckets m) = ty"
proof -
  assume "vm_with_capacity ty n = Some m"
  then have "v2_with_capacity ty n = Some (buckets m)"
    by (auto simp: vm_with_capacity_def split: option.splits)
  from v2_with_capacity_refines [OF this] show ?thesis
    using vm_wfI [of m h "[]"] by simp
qed

lemma vm_reserve_refines:
  assumes "vm_wf h m" and "vm_reserve m n = Some m'"
  shows "vm_wf h m' \<and> vm_iter m' = vm_iter m \<and> v2_ty (buckets m') = v2_ty (buckets m)"
  using assms v2_reserve_refines [OF vm_wfD(1) [OF assms(1)]] vm_wfD [OF assms(1)]
    vm_wfI [of m' h "vm_iter m"]
  by (auto simp: vm_reserve_def split: option.splits)

lemma vm_get_index_refines:
  "vm_wf h m \<Longrightarrow> vm_get_index m i = (if i < length (vm_iter m) then Some (vm_iter m ! i) else None)"
  by (simp add: vm_get_index_def v2_get_refines vm_wfD split: prod.splits)

lemma vm_get_unchecked_refines:
  "vm_wf h m \<Longrightarrow> i < length (vm_iter m) \<Longrightarrow>
   vm_get_unchecked m i = (hashed_new h (fst (vm_iter m ! i)), snd (vm_iter m ! i))"
  by (simp add: vm_get_unchecked_def vm_wfD hashed_new_def split: prod.splits)

lemma vm_set_unchecked_refines:
  assumes "vm_wf h m" and "i < length (vm_iter m)"
  shows "vm_wf h (vm_set_unchecked m i v) \<and>
    vm_iter (vm_set_unchecked m i v) = (vm_iter m)[i := (fst (vm_iter m ! i), v)] \<and>
    v2_ty (buckets (vm_set_unchecked m i v)) = v2_ty (buckets m)"
proof -
  note wf = vm_wfD [OF assms(1)]
  let ?xs = "(vm_iter m)[i := (fst (vm_iter m ! i), v)]"
  obtain k old where kv: "vm_iter m ! i = (k, old)" by fastforce
  have "v2_inv (buckets (vm_set_unchecked m i v)) \<and>
      v2_iter (buckets (vm_set_unchecked m i v)) = tag_hash h ?xs \<and>
      v2_ty (buckets (vm_set_unchecked m i v)) = v2_ty (buckets m)"
    using v2_write_refines [OF wf(1), of i "(k, v)" "h k"] wf assms(2) kv
    by (simp add: vm_set_unchecked_def tag_hash_def map_update)
  then show ?thesis
    using vm_wfI [of "vm_set_unchecked m i v" h ?xs] wf(3) map_fst_update_same [OF assms(2)] by simp
qed

lemma vm_insert_refines:
  assumes "vm_wf h m" and "k \<notin> set (map fst (vm_iter m))"
    and "vm_insert_hashed_unique_unchecked m (hashed_new h k) v = Some m'"
  shows "vm_wf h m' \<and> vm_iter m' = vm_iter m @ [(k, v)] \<and> v2_ty (buckets m') = v2_ty (buckets m)"
  using assms v2_push_refines [OF vm_wfD(1) [OF assms(1)]] vm_wfD [OF assms(1)]
    vm_wfI [of m' h "vm_iter m @ [(k, v)]"]
  by (auto simp: vm_insert_hashed_unique_unchecked_def hashed_new_def split: option.splits)

lemma vm_insert_total:
  assumes "vm_wf h m" and "v2_ample (v2_ty (buckets m)) (Suc (length (vm_iter m)))"
  shows "\<exists>m'. vm_insert_hashed_unique_unchecked m k v = Some m'"
  using v2_push_total [OF vm_wfD(1) [OF assms(1)], of "(hashed_key k, v)" "hashed_hash k"]
    vm_wfD(4) [OF assms(1)] assms(2)
  by (auto simp: vm_insert_hashed_unique_unchecked_def)

lemma vm_remove_refines:
  assumes "vm_wf h m" and "i < length (vm_iter m)"
  shows "\<exists>m'. vm_remove m i = Some ((hashed_new h (fst (vm_iter m ! i)), snd (vm_iter m ! i)), m') \<and>
    vm_wf h m' \<and> vm_iter m' = remove_nth i (vm_iter m) \<and> v2_ty (buckets m') = v2_ty (buckets m)"
proof -
  note wf = vm_wfD [OF assms(1)]
  from v2_remove_refines [OF wf(1), of i] wf(2,4) assms(2) obtain b where
    b: "v2_remove (buckets m) i = Some ((vm_iter m ! i, h (fst (vm_iter m ! i))), b)" "v2_inv b"
      "v2_iter b = tag_hash h (remove_nth i (vm_iter m))" "v2_ty b = v2_ty (buckets m)"
    by auto
  then show ?thesis
    using vm_wfI [of "m\<lparr>buckets := b\<rparr>" h "remove_nth i (vm_iter m)"] distinct_remove_nth [OF wf(3)]
    by (simp add: vm_remove_def hashed_new_def split: prod.splits)
qed

lemma distinct_butlast: "distinct xs \<Longrightarrow> distinct (butlast xs)"
  by (simp add: butlast_conv_take)

lemma vm_pop_refines:
  assumes "vm_wf h m"
  shows "fst (vm_pop m) = (if vm_iter m = [] then None
      else Some (hashed_new h (fst (last (vm_iter m))), snd (last (vm_iter m)))) \<and>
    vm_wf h (snd (vm_pop m)) \<and> vm_iter (snd (vm_pop m)) = butlast (vm_iter m) \<and>
    v2_ty (buckets (snd (vm_pop m))) = v2_ty (buckets m)"
proof -
  note wf = vm_wfD [OF assms]
  obtain r b where rb: "v2_pop (buckets m) = (r, b)" by fastforce
  have "last (tag_hash h (vm_iter m)) = (last (vm_iter m), h (fst (last (vm_iter m))))" if "vm_iter m \<noteq> []"
    using that by (simp add: tag_hash_def last_map)
  with v2_pop_refines [OF wf(1)] rb wf(2) show ?thesis
    using vm_wfI [of "m\<lparr>buckets := b\<rparr>" h "butlast (vm_iter m)"] distinct_butlast [OF wf(3)]
    by (auto simp: vm_pop_def hashed_new_def map_butlast split: prod.splits option.splits)
qed

lemma vm_clear_refines:
  "vm_wf h m \<Longrightarrow> vm_wf h (vm_clear m) \<and> vm_iter (vm_clear m) = [] \<and> v2_ty (buckets (vm_clear m)) = v2_ty (buckets m)"
  using vm_wfI [of "vm_clear m" h "[]"] v2_clear_refines [of "buckets m"]
  by (simp add: vm_clear_def vm_wfD) (simp add: v2_clear_def)

lemma tag_hash_sort_key:
  "sort_key (\<lambda>x. fst (fst x)) (tag_hash h xs) = tag_hash h (sort_key fst xs)"
proof -
  have ins: "insort_key (\<lambda>x. fst (fst x)) (x, h (fst x)) (tag_hash h ys) = tag_hash h (insort_key fst x ys)" for x ys
    by (induction ys) auto
  show ?thesis by (induction xs) (simp_all add: ins)
qed

lemma distinct_keys_sort: "distinct (map fst xs) \<Longrightarrow> distinct (map fst (sort_key fst xs))"
  by (metis distinct_map distinct_sort set_sort)

lemma vm_sort_keys_refines:
  assumes "vm_wf h m" and "v2_ample (v2_ty (buckets m)) (length (vm_iter m))"
  shows "\<exists>m'. vm_sort_keys m = Some m' \<and> vm_wf h m' \<and> vm_iter m' = sort_key fst (vm_iter m) \<and>
    v2_ty (buckets m') = v2_ty (buckets m)"
proof -
  note wf = vm_wfD [OF assms(1)]
  from v2_sort_by_list [OF wf(1), of "\<lambda>x. fst (fst x)"] assms(2) wf(2,4)
  obtain b where b: "v2_sort_by (\<lambda>x y. cmp_key (fst (fst x)) (fst (fst y))) (buckets m) = Some b"
      "v2_inv b" "v2_iter b = tag_hash h (sort_key fst (vm_iter m))" "v2_ty b = v2_ty (buckets m)"
    by (auto simp: tag_hash_sort_key)
  then show ?thesis
    using vm_wfI [of "m\<lparr>buckets := b\<rparr>" h "sort_key fst (vm_iter m)"] distinct_keys_sort [OF wf(3)]
    by (simp add: vm_sort_keys_def)
qed

lemma windows_sorted_iff: "windows_sorted xs \<longleftrightarrow> sorted (map fst xs)"
  by (induction xs rule: windows_sorted.induct) (auto simp: sorted2)

lemma vm_reverse_refines:
  assumes "vm_wf h m"
  shows "vm_wf h (vm_reverse m) \<and> vm_iter (vm_reverse m) = rev (vm_iter m) \<and>
    v2_ty (buckets (vm_reverse m)) = v2_ty (buckets m)"
proof -
  note wf = vm_wfD [OF assms]
  let ?b = "buckets m" and ?r = "buckets (vm_reverse m)"
  have "v2_inv ?r" using wf(1) by (simp add: v2_inv_def vm_reverse_def Let_def)
  moreover have "aaa ?r = rev (aaa ?b)" "bbb ?r = rev (bbb ?b)"
    using wf(1) by (simp_all add: v2_inv_def vm_reverse_def Let_def aaa_def bbb_def rev_map)
  then have "v2_iter ?r = tag_hash h (rev (vm_iter m))"
    using wf(2) v2_inv_bufs [OF wf(1)] by (simp add: v2_iter_def zip_rev)
  ultimately show ?thesis
    using vm_wfI [of "vm_reverse m" h "rev (vm_iter m)"] wf(3)
    by (simp add: rev_map [symmetric]) (simp add: vm_reverse_def Let_def)
qed

text \<open>\<open>retain\<close> on the association list.\<close>

fun map_retain_list ::
  "('s, 'k, 'v) map_retain_fn \<Rightarrow> 's \<Rightarrow> ('k \<times> 'v) list \<Rightarrow> ('k \<times> 'v) list \<times> 's option" where
  "map_retain_list f s [] = ([], Some s)"
| "map_retain_list f s ((k, v) # xs) =
     (case f s k v of
        None \<Rightarrow> ((k, v) # xs, None)
      | Some ((v', keep), s') \<Rightarrow>
          (case map_retain_list f s' xs of
             (ys, r) \<Rightarrow> (if keep then (k, v') # ys else ys, r)))"

lemma retain_list_tag_hash:
  "retain_list (\<lambda>s kv h. case f s (fst kv) (snd kv) of
      None \<Rightarrow> None | Some ((v, keep), s') \<Rightarrow> Some (((fst kv, v), h, keep), s')) s (tag_hash h xs) =
   apfst (tag_hash h) (map_retain_list f s xs)"
  by (induction f s xs rule: map_retain_list.induct) (auto split: option.splits prod.splits)

lemma map_retain_list_step:
  "map_retain_list f s (kv # xs) =
     (case f s (fst kv) (snd kv) of
        None \<Rightarrow> (kv # xs, None)
      | Some p \<Rightarrow> (let r = map_retain_list f (snd p) xs
                  in (if snd (fst p) then (fst kv, fst (fst p)) # fst r else fst r, snd r)))"
  by (cases kv) (auto split: option.splits prod.splits simp: Let_def)

lemma map_retain_list_keys:
  shows "set (map fst (fst (map_retain_list f s xs))) \<subseteq> set (map fst xs)"
    and "distinct (map fst xs) \<Longrightarrow> distinct (map fst (fst (map_retain_list f s xs)))"
    and "length (fst (map_retain_list f s xs)) \<le> length xs"
proof (induction xs arbitrary: s)
  case (Cons kv xs)
  {
    case 1
    show ?case using Cons.IH(1) by (simp add: map_retain_list_step Let_def split: option.splits) blast
  next
    case 2
    then show ?case using Cons.IH(1,2) by (simp add: map_retain_list_step Let_def split: option.splits) blast
  next
    case 3
    show ?case using Cons.IH(3) by (simp add: map_retain_list_step Let_def le_SucI split: option.splits)
  }
qed simp_all

lemma vm_retain_refines:
  assumes "vm_wf h m"
  shows "vm_wf h (fst (vm_retain f s m)) \<and>
    (vm_iter (fst (vm_retain f s m)), snd (vm_retain f s m)) = map_retain_list f s (vm_iter m) \<and>
    v2_ty (buckets (fst (vm_retain f s m))) = v2_ty (buckets m)"
proof -
  note wf = vm_wfD [OF assms]
  let ?f = "\<lambda>s kv h. case f s (fst kv) (snd kv) of
      None \<Rightarrow> None | Some ((v, keep), s') \<Rightarrow> Some (((fst kv, v), h, keep), s')"
  obtain b r where b: "v2_retain ?f s (buckets m) = (b, r)" by fastforce
  obtain ys r' where ys: "map_retain_list f s (vm_iter m) = (ys, r')" by fastforce
  with v2_retain_list [OF wf(1), of ?f s] b wf(2) retain_list_tag_hash [of f s h "vm_iter m"]
  have b': "v2_inv b" "v2_iter b = tag_hash h ys" "r = r'" "v2_ty b = v2_ty (buckets m)" by auto
  moreover have "distinct (map fst ys)" using map_retain_list_keys(2) [OF wf(3), of f s] ys by simp
  ultimately show ?thesis
    using vm_wfI [of "m\<lparr>buckets := b\<rparr>" h ys] b ys by (simp add: vm_retain_def)
qed

lemma vm_eq_ordered_iff:
  assumes "vm_wf h m" and "vm_wf h m'"
  shows "vm_eq_ordered m m' \<longleftrightarrow> vm_iter m = vm_iter m'"
  using vm_wfD(5) [OF assms(1)] vm_wfD(5) [OF assms(2)] by (auto simp: vm_eq_ordered_def vm_iter_def)

lemma vm_iter_hashed_refines:
  "vm_wf h m \<Longrightarrow> vm_iter_hashed m = map (\<lambda>(k, v). (hashed_new h k, v)) (vm_iter m)"
  by (simp add: vm_iter_hashed_def vm_wfD tag_hash_def hashed_new_def comp_def split_beta)

lemma vm_len_refines [simp]: "vm_wf h m \<Longrightarrow> vm_len m = length (vm_iter m)"
  by (simp add: vm_len_def vm_wfD)

end
