(* ===== verification/Ordered_Alist.thy ===== *)
theory Ordered_Alist
  imports Prelude
begin

text \<open>
  The abstract value of the insertion-ordered collections, an association list with distinct keys, and
  the interface \<open>ordered_map\<close> that a map implementation has to provide to its clients.
\<close>

subsection \<open>Association lists in insertion order\<close>

text \<open>The abstract operations: update in place or append, delete, keep the order.\<close>

abbreviation key_index :: "'k \<Rightarrow> ('k \<times> 'v) list \<Rightarrow> nat option" where
  "key_index k \<equiv> find_index (\<lambda>kv. fst kv = k)"

definition alist_insert :: "'k \<Rightarrow> 'v \<Rightarrow> ('k \<times> 'v) list \<Rightarrow> ('k \<times> 'v) list" where
  "alist_insert k v xs =
     (case key_index k xs of None \<Rightarrow> xs @ [(k, v)] | Some i \<Rightarrow> xs[i := (k, v)])"

definition alist_remove :: "'k \<Rightarrow> ('k \<times> 'v) list \<Rightarrow> ('k \<times> 'v) list" where
  "alist_remove k xs = (case key_index k xs of None \<Rightarrow> xs | Some i \<Rightarrow> remove_nth i xs)"

lemma key_index_None: "key_index k xs = None \<longleftrightarrow> k \<notin> set (map fst xs)"
  by (auto simp: find_index_None_iff)

lemma key_index_SomeD: "key_index k xs = Some i \<Longrightarrow> i < length xs \<and> fst (xs ! i) = k"
  by (auto simp: find_index_Some_iff)

lemma key_index_Cons [simp]:
  "key_index k ((k', v) # xs) = (if k' = k then Some 0 else map_option Suc (key_index k xs))"
  by simp

lemma map_of_alist_insert: "map_of (alist_insert k v xs) = (map_of xs)(k \<mapsto> v)"
proof (induction xs)
  case (Cons x xs)
  then show ?case
    by (cases x; cases "key_index k xs") (auto simp: alist_insert_def fun_eq_iff)
qed (simp add: alist_insert_def)

lemma keys_alist_insert:
  "map fst (alist_insert k v xs) = (if k \<in> set (map fst xs) then map fst xs else map fst xs @ [k])"
  using key_index_SomeD [of k xs] key_index_None [of k xs] map_fst_update_same [of _ xs "(k, v)"]
  by (cases "key_index k xs") (auto simp: alist_insert_def)

lemma map_of_alist_remove:
  "distinct (map fst xs) \<Longrightarrow> map_of (alist_remove k xs) = (map_of xs)(k := None)"
proof (induction xs)
  case (Cons x xs)
  then show ?case
    using key_index_None [of k xs]
    by (cases x; cases "key_index k xs") (auto simp: alist_remove_def fun_eq_iff map_of_eq_None_iff)
qed (simp add: alist_remove_def)

lemma keys_alist_remove:
  "distinct (map fst xs) \<Longrightarrow> map fst (alist_remove k xs) = filter (\<lambda>x. x \<noteq> k) (map fst xs)"
proof (induction xs)
  case (Cons x xs)
  have "filter (\<lambda>x. x \<noteq> k) (map fst xs) = map fst xs" if "k \<notin> set (map fst xs)"
    using that by (auto simp: filter_id_conv)
  with Cons show ?case
    by (cases x; cases "key_index k xs") (auto simp: alist_remove_def)
qed (simp add: alist_remove_def)

lemma distinct_alist_insert:
  "distinct (map fst xs) \<Longrightarrow> distinct (map fst (alist_insert k v xs))"
  by (simp add: keys_alist_insert)

subsection \<open>The interface of an insertion-ordered map\<close>

text \<open>
  What the users of \<open>SmallMap\<close> rely on. \<open>room m\<close> says that the map can grow by one entry without
  running into the limits of an allocation; under it no operation panics.
\<close>

locale ordered_map =
  fixes inv :: "'m \<Rightarrow> bool"
    and room :: "nat \<Rightarrow> bool"
    and to_list :: "'m \<Rightarrow> ('k \<times> 'v) list"
    and get :: "'m \<Rightarrow> 'k \<Rightarrow> 'v option"
    and ins :: "'m \<Rightarrow> 'k \<Rightarrow> 'v \<Rightarrow> ('v option \<times> 'm) option"
    and rem :: "'m \<Rightarrow> 'k \<Rightarrow> ('v option \<times> 'm) option"
  assumes list_distinct: "inv m \<Longrightarrow> distinct (map fst (to_list m))"
    and get_list: "inv m \<Longrightarrow> get m k = map_of (to_list m) k"
    and ins_list: "inv m \<Longrightarrow> ins m k v = Some (old, m') \<Longrightarrow>
      inv m' \<and> to_list m' = alist_insert k v (to_list m) \<and> old = map_of (to_list m) k"
    and ins_total: "inv m \<Longrightarrow> room (Suc (length (to_list m))) \<Longrightarrow> \<exists>r. ins m k v = Some r"
    and rem_list: "inv m \<Longrightarrow> \<exists>m'. rem m k = Some (map_of (to_list m) k, m') \<and> inv m' \<and>
      to_list m' = alist_remove k (to_list m)"
    and room_mono: "i \<le> j \<Longrightarrow> room j \<Longrightarrow> room i"
begin

lemma get_ins:
  assumes "inv m" and "ins m k v = Some (old, m')"
  shows "get m' k' = (if k' = k then Some v else get m k')"
  using ins_list [OF assms] assms(1) by (simp add: get_list map_of_alist_insert)

lemma keys_ins:
  assumes "inv m" and "ins m k v = Some (old, m')"
  shows "map fst (to_list m') = (if get m k = None then map fst (to_list m) @ [k] else map fst (to_list m))"
  using ins_list [OF assms] assms(1)
  by (auto simp: get_list keys_alist_insert map_of_eq_None_iff)

lemma get_rem:
  assumes "inv m" and "rem m k = Some (old, m')"
  shows "get m' k' = (if k' = k then None else get m k') \<and> old = get m k \<and>
    map fst (to_list m') = filter (\<lambda>x. x \<noteq> k) (map fst (to_list m))"
proof -
  have "inv m'" "to_list m' = alist_remove k (to_list m)" "old = map_of (to_list m) k"
    using rem_list [OF assms(1), of k] assms(2) by auto
  then show ?thesis
    using assms(1) list_distinct by (simp add: get_list map_of_alist_remove keys_alist_remove)
qed

text \<open>Inserting a list of pairs, as \<open>extend\<close> and \<open>from_iter\<close> do.\<close>

fun ins_all :: "'m \<Rightarrow> ('k \<times> 'v) list \<Rightarrow> 'm option" where
  "ins_all m [] = Some m"
| "ins_all m ((k, v) # xs) = (case ins m k v of None \<Rightarrow> None | Some (_, m') \<Rightarrow> ins_all m' xs)"

lemma ins_all_list:
  "inv m \<Longrightarrow> ins_all m xs = Some m' \<Longrightarrow>
   inv m' \<and> to_list m' = fold (\<lambda>(k, v). alist_insert k v) xs (to_list m)"
proof (induction m xs rule: ins_all.induct)
  case (2 m k v xs)
  then show ?case using ins_list [OF "2.prems"(1), of k v] by (auto split: option.splits)
qed simp

lemma ins_all_total:
  "inv m \<Longrightarrow> room (length (to_list m) + length xs) \<Longrightarrow> \<exists>m'. ins_all m xs = Some m'"
proof (induction m xs rule: ins_all.induct)
  case (2 m k v xs)
  have "room (Suc (length (to_list m)))" by (rule room_mono [OF _ "2.prems"(2)]) simp
  then obtain old m1 where m1: "ins m k v = Some (old, m1)"
    using ins_total [OF "2.prems"(1), of k v] by auto
  note l = ins_list [OF "2.prems"(1) m1]
  then have "length (to_list m1) \<le> Suc (length (to_list m))"
    by (auto simp: alist_insert_def split: option.splits)
  then have "room (length (to_list m1) + length xs)"
    by (intro room_mono [OF _ "2.prems"(2)]) simp
  with "2.IH" [OF m1 refl] l m1 show ?case by simp
qed simp

lemma get_ins_all:
  assumes "inv m" and "ins_all m xs = Some m'"
  shows "get m' k = (case map_of (rev xs) k of Some v \<Rightarrow> Some v | None \<Rightarrow> get m k)"
proof -
  have "map_of (fold (\<lambda>(k, v). alist_insert k v) xs ys) = map_of ys ++ map_of (rev xs)" for ys
    by (induction xs arbitrary: ys) (auto simp: map_of_alist_insert)
  with ins_all_list [OF assms] assms(1) show ?thesis
    by (simp add: get_list map_add_def split: option.splits)
qed

end

end
