(* ===== verification/Small_Map.thy ===== *)
theory Small_Map
  imports Vec_Map Ordered_Alist
begin

text \<open>
  \<^verbatim>\<open>starlark_map/src/small_map.rs\<close>: the map with deterministic iteration order that Starlark dicts,
  structs, modules and keyword arguments are made of. Small maps search the hashes of \<open>VecMap\<close>;
  a map above the threshold also keeps an index, a \<open>hashbrown::HashTable<usize>\<close> of positions.

  \<open>hashbrown\<close> is not part of the repository: its table is the parameter \<open>hash_table\<close>, a record of the
  operations the code calls, and \<open>hash_table_laws\<close> states their documented behaviour. A hasher that
  the code knows to be unreachable is a partial function that returns \<open>None\<close>: calling it is a panic.
  The environment of a map (\<open>map_env\<close>) holds the table, the hash function of the keys, the build
  configuration and the layout constants of an entry.
\<close>

subsection \<open>The external hash table\<close>

text \<open>
  \<open>ht_find_remove\<close> is \<open>find_entry\<close> followed by \<open>remove\<close> of the found entry; \<open>ht_iter_mut\<close> rewrites every
  stored value in place; \<open>ht_retain\<close> keeps the values the closure maps to \<open>Some\<close>. \<open>ht_items\<close> is what the
  table holds (hash and value of each entry), \<open>ht_capacity\<close> what it can hold without reallocating.
\<close>

record 't hash_table =
  ht_with_capacity :: "nat \<Rightarrow> 't"
  ht_find :: "'t \<Rightarrow> u64 \<Rightarrow> (nat \<Rightarrow> bool) \<Rightarrow> nat option"
  ht_insert_unique :: "'t \<Rightarrow> u64 \<Rightarrow> nat \<Rightarrow> (nat \<Rightarrow> u64 option) \<Rightarrow> 't option"
  ht_find_remove :: "'t \<Rightarrow> u64 \<Rightarrow> (nat \<Rightarrow> bool) \<Rightarrow> (nat \<times> 't) option"
  ht_iter_mut :: "'t \<Rightarrow> (nat \<Rightarrow> nat) \<Rightarrow> 't"
  ht_retain :: "'t \<Rightarrow> (nat \<Rightarrow> nat option) \<Rightarrow> 't"
  ht_clear :: "'t \<Rightarrow> 't"
  ht_reserve :: "'t \<Rightarrow> nat \<Rightarrow> (nat \<Rightarrow> u64 option) \<Rightarrow> 't option"
  ht_items :: "'t \<Rightarrow> (u64 \<times> nat) multiset"
  ht_capacity :: "'t \<Rightarrow> nat"

abbreviation hasher_ok :: "(nat \<Rightarrow> u64 option) \<Rightarrow> (u64 \<times> nat) multiset \<Rightarrow> bool" where
  "hasher_ok hasher items \<equiv> \<forall>(h, v) \<in># items. hasher v = Some h"

definition hash_table_laws :: "'t hash_table \<Rightarrow> bool" where
  "hash_table_laws T \<longleftrightarrow>
     (\<forall>n. ht_items T (ht_with_capacity T n) = {#} \<and> n \<le> ht_capacity T (ht_with_capacity T n)) \<and>
     (\<forall>t h eq v. ht_find T t h eq = Some v \<longrightarrow> eq v \<and> v \<in># image_mset snd (ht_items T t)) \<and>
     (\<forall>t h eq v. ht_find T t h eq = None \<longrightarrow> (h, v) \<in># ht_items T t \<longrightarrow> \<not> eq v) \<and>
     (\<forall>t h v hasher.
        size (ht_items T t) < ht_capacity T t \<or> hasher_ok hasher (ht_items T t) \<longrightarrow>
        (\<exists>t'. ht_insert_unique T t h v hasher = Some t' \<and>
           ht_items T t' = add_mset (h, v) (ht_items T t) \<and>
           (size (ht_items T t) < ht_capacity T t \<longrightarrow> ht_capacity T t \<le> ht_capacity T t'))) \<and>
     (\<forall>t h eq v t'. ht_find_remove T t h eq = Some (v, t') \<longrightarrow>
        eq v \<and> (\<exists>h'. ht_items T t = add_mset (h', v) (ht_items T t'))) \<and>
     (\<forall>t h eq v. ht_find_remove T t h eq = None \<longrightarrow> (h, v) \<in># ht_items T t \<longrightarrow> \<not> eq v) \<and>
     (\<forall>t f. ht_items T (ht_iter_mut T t f) = image_mset (\<lambda>(h, v). (h, f v)) (ht_items T t)) \<and>
     (\<forall>t f. ht_items T (ht_retain T t f) =
        image_mset (\<lambda>(h, v). (h, the (f v))) (filter_mset (\<lambda>(h, v). f v \<noteq> None) (ht_items T t))) \<and>
     (\<forall>t. ht_items T (ht_clear T t) = {#} \<and> size (ht_items T t) \<le> ht_capacity T (ht_clear T t)) \<and>
     (\<forall>t n hasher. hasher_ok hasher (ht_items T t) \<longrightarrow>
        (\<exists>t'. ht_reserve T t n hasher = Some t' \<and> ht_items T t' = ht_items T t))"

record ('k, 't) map_env =
  rust_nightly :: bool
  key_hash :: "'k \<Rightarrow> u32"
  entry_ty :: vec2_ty
  table :: "'t hash_table"

subsection \<open>The map\<close>

definition no_index_threshold :: "('k, 't) map_env \<Rightarrow> nat" where
  "no_index_threshold E = (if rust_nightly E then 32 else 16)"

record ('k, 'v, 't) small_map =
  entries :: "('k, 'v) vec_map"
  index :: "'t option"

definition sm_new :: "('k, 't) map_env \<Rightarrow> ('k, 'v, 't) small_map" where
  "sm_new E = \<lparr>entries = vm_new (entry_ty E), index = None\<rparr>"

definition sm_with_capacity :: "('k, 't) map_env \<Rightarrow> nat \<Rightarrow> ('k, 'v, 't) small_map option" where
  "sm_with_capacity E n =
     (case vm_with_capacity (entry_ty E) n of
        None \<Rightarrow> None
      | Some es \<Rightarrow>
          if n \<le> no_index_threshold E then Some \<lparr>entries = es, index = None\<rparr>
          else Some \<lparr>entries = es, index = Some (ht_with_capacity (table E) n)\<rparr>)"

definition sm_maybe_drop_index :: "('k, 't) map_env \<Rightarrow> ('k, 'v, 't) small_map \<Rightarrow> ('k, 'v, 't) small_map" where
  "sm_maybe_drop_index E m =
     (if vm_len (entries m) \<le> no_index_threshold E then m\<lparr>index := None\<rparr> else m)"

definition sm_len :: "('k, 'v, 't) small_map \<Rightarrow> nat" where
  "sm_len m = vm_len (entries m)"

definition sm_is_empty :: "('k, 'v, 't) small_map \<Rightarrow> bool" where
  "sm_is_empty m = vm_is_empty (entries m)"

definition sm_iter :: "('k, 'v, 't) small_map \<Rightarrow> ('k \<times> 'v) list" where
  "sm_iter m = vm_iter (entries m)"

definition sm_iter_hashed :: "('k, 'v, 't) small_map \<Rightarrow> ('k hashed \<times> 'v) list" where
  "sm_iter_hashed m = vm_iter_hashed (entries m)"

definition sm_keys :: "('k, 'v, 't) small_map \<Rightarrow> 'k list" where
  "sm_keys m = vm_keys (entries m)"

definition sm_values :: "('k, 'v, 't) small_map \<Rightarrow> 'v list" where
  "sm_values m = vm_values (entries m)"

definition sm_first :: "('k, 'v, 't) small_map \<Rightarrow> ('k \<times> 'v) option" where
  "sm_first m = (case sm_iter m of [] \<Rightarrow> None | x # _ \<Rightarrow> Some x)"

definition sm_last :: "('k, 'v, 't) small_map \<Rightarrow> ('k \<times> 'v) option" where
  "sm_last m = (if sm_iter m = [] then None else Some (last (sm_iter m)))"

definition sm_get_index :: "('k, 'v, 't) small_map \<Rightarrow> nat \<Rightarrow> ('k \<times> 'v) option" where
  "sm_get_index m i = vm_get_index (entries m) i"

text \<open>Lookup. With an index, the table is asked with the promoted hash.\<close>

definition sm_get_index_of_hashed_raw_with_index ::
  "('k, 't) map_env \<Rightarrow> ('k, 'v, 't) small_map \<Rightarrow> u32 \<Rightarrow> ('k \<Rightarrow> bool) \<Rightarrow> 't \<Rightarrow> nat option" where
  "sm_get_index_of_hashed_raw_with_index E m hash eq t =
     ht_find (table E) t (promote hash)
       (\<lambda>i. eq (hashed_key (fst (vm_get_unchecked (entries m) i))))"

definition sm_get_index_of_hashed_raw ::
  "('k, 't) map_env \<Rightarrow> ('k, 'v, 't) small_map \<Rightarrow> u32 \<Rightarrow> ('k \<Rightarrow> bool) \<Rightarrow> nat option" where
  "sm_get_index_of_hashed_raw E m hash eq =
     (case index m of
        None \<Rightarrow> vm_get_index_of_hashed_raw (rust_nightly E) (entries m) hash eq
      | Some t \<Rightarrow> sm_get_index_of_hashed_raw_with_index E m hash eq t)"

definition sm_get_index_of_hashed :: "('k, 't) map_env \<Rightarrow> ('k, 'v, 't) small_map \<Rightarrow> 'k hashed \<Rightarrow> nat option" where
  "sm_get_index_of_hashed E m key =
     sm_get_index_of_hashed_raw E m (hashed_hash key) (\<lambda>k. hashed_key key = k)"

definition sm_get_index_of :: "('k, 't) map_env \<Rightarrow> ('k, 'v, 't) small_map \<Rightarrow> 'k \<Rightarrow> nat option" where
  "sm_get_index_of E m key = sm_get_index_of_hashed E m (hashed_new (key_hash E) key)"

definition sm_get_hashed :: "('k, 't) map_env \<Rightarrow> ('k, 'v, 't) small_map \<Rightarrow> 'k hashed \<Rightarrow> 'v option" where
  "sm_get_hashed E m key =
     map_option (\<lambda>i. snd (vm_get_unchecked (entries m) i)) (sm_get_index_of_hashed E m key)"

definition sm_get :: "('k, 't) map_env \<Rightarrow> ('k, 'v, 't) small_map \<Rightarrow> 'k \<Rightarrow> 'v option" where
  "sm_get E m key = sm_get_hashed E m (hashed_new (key_hash E) key)"

definition sm_get_full_hashed ::
  "('k, 't) map_env \<Rightarrow> ('k, 'v, 't) small_map \<Rightarrow> 'k hashed \<Rightarrow> (nat \<times> 'k \<times> 'v) option" where
  "sm_get_full_hashed E m key =
     map_option (\<lambda>i. case vm_get_unchecked (entries m) i of (k, v) \<Rightarrow> (i, hashed_key k, v))
       (sm_get_index_of_hashed E m key)"

definition sm_get_full :: "('k, 't) map_env \<Rightarrow> ('k, 'v, 't) small_map \<Rightarrow> 'k \<Rightarrow> (nat \<times> 'k \<times> 'v) option" where
  "sm_get_full E m key = sm_get_full_hashed E m (hashed_new (key_hash E) key)"

definition sm_contains_key_hashed :: "('k, 't) map_env \<Rightarrow> ('k, 'v, 't) small_map \<Rightarrow> 'k hashed \<Rightarrow> bool" where
  "sm_contains_key_hashed E m key = (sm_get_index_of_hashed E m key \<noteq> None)"

definition sm_contains_key :: "('k, 't) map_env \<Rightarrow> ('k, 'v, 't) small_map \<Rightarrow> 'k \<Rightarrow> bool" where
  "sm_contains_key E m key = sm_contains_key_hashed E m (hashed_new (key_hash E) key)"

text \<open>Writing through the reference of \<open>get_mut_hashed\<close>; \<open>None\<close> when the key is absent.\<close>

definition sm_get_mut_hashed ::
  "('k, 't) map_env \<Rightarrow> ('k, 'v, 't) small_map \<Rightarrow> 'k hashed \<Rightarrow> ('v \<Rightarrow> 'v) \<Rightarrow> ('k, 'v, 't) small_map option" where
  "sm_get_mut_hashed E m key f =
     map_option (\<lambda>i. m\<lparr>entries := vm_set_unchecked (entries m) i (f (snd (vm_get_unchecked (entries m) i)))\<rparr>)
       (sm_get_index_of_hashed E m key)"

text \<open>Building the index. The hasher must not be called: \<open>unreachable!("Must have enough capacity")\<close>.\<close>

fun index_insert_all :: "'t hash_table \<Rightarrow> 't \<Rightarrow> nat \<Rightarrow> ('k hashed \<times> 'v) list \<Rightarrow> 't option" where
  "index_insert_all T t i [] = Some t"
| "index_insert_all T t i ((k, v) # es) =
     (case ht_insert_unique T t (promote (hashed_hash k)) i (\<lambda>_. None) of
        None \<Rightarrow> None
      | Some t' \<Rightarrow> index_insert_all T t' (Suc i) es)"

definition sm_create_index :: "('k, 't) map_env \<Rightarrow> ('k, 'v, 't) small_map \<Rightarrow> nat \<Rightarrow> ('k, 'v, 't) small_map option" where
  "sm_create_index E m capacity =
     (case index_insert_all (table E) (ht_with_capacity (table E) capacity) 0 (vm_iter_hashed (entries m)) of
        None \<Rightarrow> None
      | Some t \<Rightarrow> Some (m\<lparr>index := Some t\<rparr>))"

definition sm_rebuild_index :: "('k, 't) map_env \<Rightarrow> ('k, 'v, 't) small_map \<Rightarrow> ('k, 'v, 't) small_map option" where
  "sm_rebuild_index E m =
     (case index m of
        None \<Rightarrow> Some m
      | Some t \<Rightarrow>
          (case index_insert_all (table E) (ht_clear (table E) t) 0 (vm_iter_hashed (entries m)) of
             None \<Rightarrow> None
           | Some t' \<Rightarrow> Some (m\<lparr>index := Some t'\<rparr>)))"

definition sm_hasher :: "('k, 'v) vec_map \<Rightarrow> nat \<Rightarrow> u64 option" where
  "sm_hasher es i = Some (promote (hashed_hash (fst (vm_get_unchecked es i))))"

definition sm_reserve :: "('k, 't) map_env \<Rightarrow> ('k, 'v, 't) small_map \<Rightarrow> nat \<Rightarrow> ('k, 'v, 't) small_map option" where
  "sm_reserve E m additional =
     (case vm_reserve (entries m) additional of
        None \<Rightarrow> None
      | Some es \<Rightarrow>
          let m' = m\<lparr>entries := es\<rparr>
          in (case index m' of
                Some t \<Rightarrow>
                  (case ht_reserve (table E) t additional (sm_hasher es) of
                     None \<Rightarrow> None
                   | Some t' \<Rightarrow> Some (m'\<lparr>index := Some t'\<rparr>))
              | None \<Rightarrow>
                  if sm_len m' + additional > no_index_threshold E
                  then sm_create_index E m' (sm_len m' + additional)
                  else Some m'))"

text \<open>Insertion.\<close>

definition sm_insert_hashed_unique_unchecked ::
  "('k, 't) map_env \<Rightarrow> ('k, 'v, 't) small_map \<Rightarrow> 'k hashed \<Rightarrow> 'v \<Rightarrow> ('k, 'v, 't) small_map option" where
  "sm_insert_hashed_unique_unchecked E m key val =
     (let hash = hashed_hash key; entry_index = vm_len (entries m)
      in case vm_insert_hashed_unique_unchecked (entries m) key val of
           None \<Rightarrow> None
         | Some es \<Rightarrow>
             let m' = m\<lparr>entries := es\<rparr>
             in (case index m' of
                   Some t \<Rightarrow>
                     (case ht_insert_unique (table E) t (promote hash) entry_index (sm_hasher es) of
                        None \<Rightarrow> None
                      | Some t' \<Rightarrow> Some (m'\<lparr>index := Some t'\<rparr>))
                 | None \<Rightarrow>
                     if vm_len es = no_index_threshold E + 1 then sm_create_index E m' (vm_len es)
                     else Some m'))"

definition sm_insert_hashed ::
  "('k, 't) map_env \<Rightarrow> ('k, 'v, 't) small_map \<Rightarrow> 'k hashed \<Rightarrow> 'v \<Rightarrow> ('v option \<times> ('k, 'v, 't) small_map) option" where
  "sm_insert_hashed E m key val =
     (case sm_get_index_of_hashed_raw E m (hashed_hash key) (\<lambda>k. hashed_key key = k) of
        None \<Rightarrow>
          (case sm_insert_hashed_unique_unchecked E m key val of
             None \<Rightarrow> None
           | Some m' \<Rightarrow> Some (None, m'))
      | Some i \<Rightarrow>
          Some (Some (snd (vm_get_unchecked (entries m) i)),
                m\<lparr>entries := vm_set_unchecked (entries m) i val\<rparr>))"

definition sm_insert ::
  "('k, 't) map_env \<Rightarrow> ('k, 'v, 't) small_map \<Rightarrow> 'k \<Rightarrow> 'v \<Rightarrow> ('v option \<times> ('k, 'v, 't) small_map) option" where
  "sm_insert E m key val = sm_insert_hashed E m (hashed_new (key_hash E) key) val"

definition sm_insert_unique_unchecked ::
  "('k, 't) map_env \<Rightarrow> ('k, 'v, 't) small_map \<Rightarrow> 'k \<Rightarrow> 'v \<Rightarrow> ('k, 'v, 't) small_map option" where
  "sm_insert_unique_unchecked E m key val =
     sm_insert_hashed_unique_unchecked E m (hashed_new (key_hash E) key) val"

text \<open>Removal. The outer \<open>option\<close> is a panic, the inner one Rust's result.\<close>

definition sm_shift_remove_hashed_entry ::
  "('k, 't) map_env \<Rightarrow> ('k, 'v, 't) small_map \<Rightarrow> 'k hashed \<Rightarrow>
   (('k \<times> 'v) option \<times> ('k, 'v, 't) small_map) option" where
  "sm_shift_remove_hashed_entry E m key =
     (case index m of
        Some t \<Rightarrow>
          (case ht_find_remove (table E) t (promote (hashed_hash key))
                  (\<lambda>i. hashed_key key = hashed_key (fst (vm_get_unchecked (entries m) i))) of
             None \<Rightarrow> Some (None, m)
           | Some (i, t') \<Rightarrow>
               let t'' = (if i \<noteq> vm_len (entries m) - 1
                          then ht_iter_mut (table E) t' (\<lambda>bucket. if bucket > i then bucket - 1 else bucket)
                          else t')
               in (case vm_remove (entries m) i of
                     None \<Rightarrow> None
                   | Some ((k, v), es) \<Rightarrow>
                       Some (Some (hashed_key k, v), m\<lparr>entries := es, index := Some t''\<rparr>)))
      | None \<Rightarrow>
          (case vm_remove_hashed_entry (rust_nightly E) (entries m) key of
             None \<Rightarrow> None
           | Some (r, es) \<Rightarrow> Some (r, m\<lparr>entries := es\<rparr>)))"

definition sm_shift_remove_hashed ::
  "('k, 't) map_env \<Rightarrow> ('k, 'v, 't) small_map \<Rightarrow> 'k hashed \<Rightarrow> ('v option \<times> ('k, 'v, 't) small_map) option" where
  "sm_shift_remove_hashed E m key =
     map_option (\<lambda>(r, m'). (map_option snd r, m')) (sm_shift_remove_hashed_entry E m key)"

definition sm_shift_remove ::
  "('k, 't) map_env \<Rightarrow> ('k, 'v, 't) small_map \<Rightarrow> 'k \<Rightarrow> ('v option \<times> ('k, 'v, 't) small_map) option" where
  "sm_shift_remove E m key = sm_shift_remove_hashed E m (hashed_new (key_hash E) key)"

definition sm_shift_remove_entry ::
  "('k, 't) map_env \<Rightarrow> ('k, 'v, 't) small_map \<Rightarrow> 'k \<Rightarrow>
   (('k \<times> 'v) option \<times> ('k, 'v, 't) small_map) option" where
  "sm_shift_remove_entry E m key = sm_shift_remove_hashed_entry E m (hashed_new (key_hash E) key)"

definition sm_shift_remove_index_hashed ::
  "('k, 't) map_env \<Rightarrow> ('k, 'v, 't) small_map \<Rightarrow> nat \<Rightarrow>
   (('k hashed \<times> 'v) option \<times> ('k, 'v, 't) small_map) option" where
  "sm_shift_remove_index_hashed E m i =
     (if i \<ge> sm_len m then Some (None, m)
      else let idx = map_option (\<lambda>t. ht_retain (table E) t
                       (\<lambda>j. if j = i then None else if j > i then Some (j - 1) else Some j)) (index m)
           in (case vm_remove (entries m) i of
                 None \<Rightarrow> None
               | Some (kv, es) \<Rightarrow> Some (Some kv, m\<lparr>entries := es, index := idx\<rparr>)))"

definition sm_shift_remove_index ::
  "('k, 't) map_env \<Rightarrow> ('k, 'v, 't) small_map \<Rightarrow> nat \<Rightarrow>
   (('k \<times> 'v) option \<times> ('k, 'v, 't) small_map) option" where
  "sm_shift_remove_index E m i =
     map_option (\<lambda>(r, m'). (map_option (\<lambda>(k, v). (hashed_key k, v)) r, m'))
       (sm_shift_remove_index_hashed E m i)"

text \<open>\<open>pop\<close>: with debug assertions, an entry missing from the index is a panic.\<close>

definition sm_pop ::
  "('k, 't) map_env \<Rightarrow> ('k, 'v, 't) small_map \<Rightarrow>
   (('k \<times> 'v) option \<times> ('k, 'v, 't) small_map) option" where
  "sm_pop E m =
     (case vm_pop (entries m) of
        (None, es) \<Rightarrow> Some (None, m\<lparr>entries := es\<rparr>)
      | (Some (key, value), es) \<Rightarrow>
          let m' = m\<lparr>entries := es\<rparr>
          in (case index m of
                None \<Rightarrow> Some (Some (hashed_key key, value), m')
              | Some t \<Rightarrow>
                  (case ht_find_remove (table E) t (promote (hashed_hash key)) (\<lambda>i. i = vm_len es) of
                     None \<Rightarrow> None
                   | Some (_, t') \<Rightarrow> Some (Some (hashed_key key, value), m'\<lparr>index := Some t'\<rparr>))))"

definition sm_clear :: "('k, 't) map_env \<Rightarrow> ('k, 'v, 't) small_map \<Rightarrow> ('k, 'v, 't) small_map" where
  "sm_clear E m =
     m\<lparr>entries := vm_clear (entries m), index := map_option (ht_clear (table E)) (index m)\<rparr>"

text \<open>Entries: \<open>Occupied\<close> points at a position, \<open>Vacant\<close> keeps the hashed key for the insertion.\<close>

datatype 'k sm_entry = Occupied nat | Vacant "'k hashed"

definition sm_entry_hashed :: "('k, 't) map_env \<Rightarrow> ('k, 'v, 't) small_map \<Rightarrow> 'k hashed \<Rightarrow> 'k sm_entry" where
  "sm_entry_hashed E m key =
     (case sm_get_index_of_hashed_raw E m (hashed_hash key) (\<lambda>k. hashed_key key = k) of
        Some i \<Rightarrow> Occupied i
      | None \<Rightarrow> Vacant key)"

definition sm_or_insert_entry_with ::
  "('k, 't) map_env \<Rightarrow> ('k, 'v, 't) small_map \<Rightarrow> 'k sm_entry \<Rightarrow> 'v \<Rightarrow>
   (('k \<times> 'v) \<times> ('k, 'v, 't) small_map) option" where
  "sm_or_insert_entry_with E m e dflt =
     (case e of
        Occupied i \<Rightarrow>
          (case vm_get_unchecked (entries m) i of (k, v) \<Rightarrow> Some ((hashed_key k, v), m))
      | Vacant key \<Rightarrow>
          (case sm_insert_hashed_unique_unchecked E m key dflt of
             None \<Rightarrow> None
           | Some m' \<Rightarrow>
               (case vm_get_unchecked (entries m') (vm_len (entries m') - 1) of
                  (k, v) \<Rightarrow> Some ((hashed_key k, v), m'))))"

text \<open>Reordering and filtering.\<close>

definition sm_sort_keys ::
  "('k::linorder, 't) map_env \<Rightarrow> ('k, 'v, 't) small_map \<Rightarrow> ('k, 'v, 't) small_map option" where
  "sm_sort_keys E m =
     (if vm_is_sorted_by_key (entries m) then Some m
      else (case vm_sort_keys (entries m) of
              None \<Rightarrow> None
            | Some es \<Rightarrow> sm_rebuild_index E (m\<lparr>entries := es\<rparr>)))"

definition sm_reverse :: "('k, 't) map_env \<Rightarrow> ('k, 'v, 't) small_map \<Rightarrow> ('k, 'v, 't) small_map" where
  "sm_reverse E m =
     (let es = vm_reverse (entries m); len = vm_len es
      in m\<lparr>entries := es,
           index := map_option (\<lambda>t. ht_iter_mut (table E) t (\<lambda>e. len - 1 - e)) (index m)\<rparr>)"

definition sm_retain ::
  "('k, 't) map_env \<Rightarrow> ('s, 'k, 'v) map_retain_fn \<Rightarrow> 's \<Rightarrow> ('k, 'v, 't) small_map \<Rightarrow>
   (('k, 'v, 't) small_map \<times> 's option) option" where
  "sm_retain E f s m =
     (let original_len = sm_len m
      in case vm_retain f s (entries m) of
           (es, r) \<Rightarrow>
             let m' = m\<lparr>entries := es\<rparr>
             in if sm_len m' < original_len
                then map_option (\<lambda>m''. (m'', r)) (sm_rebuild_index E m')
                else Some (m', r))"

definition sm_eq_ordered :: "('k, 'v, 't) small_map \<Rightarrow> ('k, 'v, 't) small_map \<Rightarrow> bool" where
  "sm_eq_ordered m other = vm_eq_ordered (entries m) (entries other)"

definition sm_eq :: "('k, 't) map_env \<Rightarrow> ('k, 'v, 't) small_map \<Rightarrow> ('k, 'v, 't) small_map \<Rightarrow> bool" where
  "sm_eq E m other =
     (sm_len m = sm_len other \<and>
      list_all (\<lambda>(k, v). sm_get_hashed E other k = Some v) (sm_iter_hashed m))"

fun sm_extend ::
  "('k, 't) map_env \<Rightarrow> ('k, 'v, 't) small_map \<Rightarrow> ('k \<times> 'v) list \<Rightarrow> ('k, 'v, 't) small_map option" where
  "sm_extend E m [] = Some m"
| "sm_extend E m ((k, v) # xs) =
     (case sm_insert E m k v of None \<Rightarrow> None | Some (_, m') \<Rightarrow> sm_extend E m' xs)"

text \<open>\<open>from_iter\<close>: the lower bound of the iterator's \<open>size_hint\<close> is the first capacity.\<close>

definition sm_from_iter ::
  "('k, 't) map_env \<Rightarrow> nat \<Rightarrow> ('k \<times> 'v) list \<Rightarrow> ('k, 'v, 't) small_map option" where
  "sm_from_iter E size_hint xs =
     (case sm_with_capacity E size_hint of None \<Rightarrow> None | Some mp \<Rightarrow> sm_extend E mp xs)"

subsection \<open>The invariant\<close>

text \<open>What the index must hold for the entries \<open>xs\<close>: every position once, under the hash of its key.\<close>

definition index_items :: "('k \<Rightarrow> u32) \<Rightarrow> ('k \<times> 'v) list \<Rightarrow> (u64 \<times> nat) multiset" where
  "index_items h xs = mset (map (\<lambda>i. (promote (h (fst (xs ! i))), i)) [0..<length xs])"

definition sm_inv :: "('k, 't) map_env \<Rightarrow> ('k, 'v, 't) small_map \<Rightarrow> bool" where
  "sm_inv E m \<longleftrightarrow>
     vm_wf (key_hash E) (entries m) \<and> v2_ty (buckets (entries m)) = entry_ty E \<and>
     (case index m of
        None \<Rightarrow> length (sm_iter m) \<le> no_index_threshold E
      | Some t \<Rightarrow> ht_items (table E) t = index_items (key_hash E) (sm_iter m))"

subsection \<open>Contents of the index\<close>

definition index_set :: "('k \<Rightarrow> u32) \<Rightarrow> ('k \<times> 'v) list \<Rightarrow> (u64 \<times> nat) set" where
  "index_set h xs = {(promote (h (fst (xs ! i))), i) |i. i < length xs}"

lemma index_items_mset_set: "index_items h xs = mset_set (index_set h xs)"
proof -
  have "distinct (map (\<lambda>i. (promote (h (fst (xs ! i))), i)) [0..<length xs])"
    by (simp add: distinct_map inj_on_def)
  then have "index_items h xs = mset_set (set (map (\<lambda>i. (promote (h (fst (xs ! i))), i)) [0..<length xs]))"
    by (simp only: index_items_def mset_set_set)
  also have "set (map (\<lambda>i. (promote (h (fst (xs ! i))), i)) [0..<length xs]) = index_set h xs"
    by (auto simp: index_set_def)
  finally show ?thesis .
qed

lemma finite_index_set [simp]: "finite (index_set h xs)"
  by (simp add: index_set_def)

lemma in_index_items [simp]:
  "(hh, i) \<in># index_items h xs \<longleftrightarrow> i < length xs \<and> hh = promote (h (fst (xs ! i)))"
  by (auto simp: index_items_mset_set) (auto simp: index_set_def)

lemma size_index_items [simp]: "size (index_items h xs) = length xs"
  by (simp add: index_items_def)

lemma index_items_Nil [simp]: "index_items h [] = {#}"
  by (simp add: index_items_def)

lemma index_items_snoc:
  "index_items h (xs @ [x]) = add_mset (promote (h (fst x)), length xs) (index_items h xs)"
proof -
  have "map (\<lambda>i. (promote (h (fst ((xs @ [x]) ! i))), i)) [0..<length (xs @ [x])] =
      map (\<lambda>i. (promote (h (fst (xs ! i))), i)) [0..<length xs] @ [(promote (h (fst x)), length xs)]"
    by (simp add: nth_append)
  then show ?thesis by (simp only: index_items_def mset_append) simp
qed

lemma index_items_keys:
  assumes "map fst xs = map fst ys"
  shows "index_items h xs = index_items h ys"
proof -
  have "length xs = length ys" using assms by (rule map_eq_imp_length_eq)
  moreover have "fst (xs ! i) = fst (ys ! i)" if "i < length xs" for i
    using assms that calculation by (metis nth_map)
  ultimately have "map (\<lambda>i. (promote (h (fst (xs ! i))), i)) [0..<length xs] =
      map (\<lambda>i. (promote (h (fst (ys ! i))), i)) [0..<length ys]"
    by simp
  then show ?thesis by (simp only: index_items_def)
qed

text \<open>Moving positions by a map that is one-to-one on the positions in use.\<close>

lemma image_index_items:
  assumes "I \<subseteq> {..<length xs}" and "inj_on f I" and "f ` I = {..<length ys}"
    and "\<And>i. i \<in> I \<Longrightarrow> fst (ys ! f i) = fst (xs ! i)"
  shows "image_mset (\<lambda>(hh, i). (hh, f i)) (mset_set ((\<lambda>i. (promote (h (fst (xs ! i))), i)) ` I)) =
    index_items h ys"
proof -
  let ?g = "\<lambda>i. (promote (h (fst (xs ! i))), i)" and ?F = "\<lambda>(hh, i). (hh, f i)"
  have "inj_on ?F (?g ` I)" using assms(2) by (auto simp: inj_on_def)
  then have "image_mset ?F (mset_set (?g ` I)) = mset_set (?F ` ?g ` I)"
    by (rule image_mset_mset_set)
  also have "?F ` ?g ` I = index_set h ys"
  proof -
    have "?F ` ?g ` I = (\<lambda>i. (promote (h (fst (ys ! f i))), f i)) ` I"
      using assms(4) by (force simp: image_iff)
    also have "\<dots> = (\<lambda>j. (promote (h (fst (ys ! j))), j)) ` {..<length ys}"
      unfolding assms(3) [symmetric] by (simp add: image_image)
    also have "\<dots> = index_set h ys" by (auto simp: index_set_def)
    finally show ?thesis .
  qed
  finally show ?thesis by (simp add: index_items_mset_set)
qed

lemma index_items_as_image:
  "index_items h xs = mset_set ((\<lambda>i. (promote (h (fst (xs ! i))), i)) ` {..<length xs})"
proof -
  have "index_set h xs = (\<lambda>i. (promote (h (fst (xs ! i))), i)) ` {..<length xs}"
    by (auto simp: index_set_def)
  then show ?thesis by (simp add: index_items_mset_set)
qed

lemma index_items_rev:
  "image_mset (\<lambda>(hh, i). (hh, length xs - 1 - i)) (index_items h xs) = index_items h (rev xs)"
  unfolding index_items_as_image [of h xs]
proof (rule image_index_items)
  show "inj_on (\<lambda>i. length xs - 1 - i) {..<length xs}" by (auto simp: inj_on_def)
  have "j \<in> (\<lambda>i. length xs - 1 - i) ` {..<length xs}" if "j < length xs" for j
    using that by (intro image_eqI [of _ _ "length xs - 1 - j"]) auto
  then show "(\<lambda>i. length xs - 1 - i) ` {..<length xs} = {..<length (rev xs)}" by auto
qed (auto simp: rev_nth)

abbreviation shift_down :: "nat \<Rightarrow> nat \<Rightarrow> nat" where
  "shift_down i j \<equiv> if j > i then j - 1 else j"

lemma index_items_remove:
  assumes i: "i < length xs"
  shows "image_mset (\<lambda>(hh, j). (hh, shift_down i j))
      (mset_set ((\<lambda>j. (promote (h (fst (xs ! j))), j)) ` ({..<length xs} - {i}))) =
    index_items h (remove_nth i xs)"
proof (rule image_index_items)
  show "inj_on (shift_down i) ({..<length xs} - {i})" by (auto simp: inj_on_def)
  have "j \<in> shift_down i ` ({..<length xs} - {i})" if "j < length xs - 1" for j
    using that by (intro image_eqI [of _ _ "if j < i then j else Suc j"]) auto
  then show "shift_down i ` ({..<length xs} - {i}) = {..<length (remove_nth i xs)}"
    using i by (auto split: if_splits)
next
  fix j assume "j \<in> {..<length xs} - {i}"
  then show "fst (remove_nth i xs ! shift_down i j) = fst (xs ! j)"
    using i by (auto simp: nth_remove_nth)
qed auto

lemma index_items_delete:
  assumes "i < length xs" and "index_items h xs = add_mset (hh, i) M"
  shows "M = mset_set ((\<lambda>j. (promote (h (fst (xs ! j))), j)) ` ({..<length xs} - {i}))"
proof -
  let ?g = "\<lambda>j. (promote (h (fst (xs ! j))), j)"
  have "(hh, i) \<in># index_items h xs" using assms(2) by simp
  then have hh: "(hh, i) = ?g i" by simp
  have "?g ` {..<length xs} = insert (?g i) (?g ` ({..<length xs} - {i}))"
    using assms(1) by (auto simp: image_iff)
  then have "index_items h xs = mset_set (insert (?g i) (?g ` ({..<length xs} - {i})))"
    by (simp only: index_items_as_image)
  also have "\<dots> = add_mset (?g i) (mset_set (?g ` ({..<length xs} - {i})))"
    by (rule mset_set.insert) auto
  finally show ?thesis using assms(2) hh by simp
qed

subsection \<open>The operations under the laws of the table\<close>

lemma hash_table_lawsD:
  assumes "hash_table_laws T"
  shows "ht_items T (ht_with_capacity T n) = {#}" "n \<le> ht_capacity T (ht_with_capacity T n)"
    and "ht_find T t h eq = Some v \<Longrightarrow> eq v \<and> v \<in># image_mset snd (ht_items T t)"
    and "ht_find T t h eq = None \<Longrightarrow> (h, v) \<in># ht_items T t \<Longrightarrow> \<not> eq v"
    and "size (ht_items T t) < ht_capacity T t \<or> hasher_ok hasher (ht_items T t) \<Longrightarrow>
      \<exists>t'. ht_insert_unique T t h v hasher = Some t' \<and> ht_items T t' = add_mset (h, v) (ht_items T t) \<and>
        (size (ht_items T t) < ht_capacity T t \<longrightarrow> ht_capacity T t \<le> ht_capacity T t')"
    and "ht_find_remove T t h eq = Some (v, t') \<Longrightarrow>
      eq v \<and> (\<exists>h'. ht_items T t = add_mset (h', v) (ht_items T t'))"
    and "ht_find_remove T t h eq = None \<Longrightarrow> (h, v) \<in># ht_items T t \<Longrightarrow> \<not> eq v"
    and "ht_items T (ht_iter_mut T t f) = image_mset (\<lambda>(h, v). (h, f v)) (ht_items T t)"
    and "ht_items T (ht_retain T t g) =
      image_mset (\<lambda>(h, v). (h, the (g v))) (filter_mset (\<lambda>(h, v). g v \<noteq> None) (ht_items T t))"
    and "ht_items T (ht_clear T t) = {#}" "size (ht_items T t) \<le> ht_capacity T (ht_clear T t)"
    and "hasher_ok hasher (ht_items T t) \<Longrightarrow>
      \<exists>t'. ht_reserve T t n hasher = Some t' \<and> ht_items T t' = ht_items T t"
  by (insert assms, unfold hash_table_laws_def, (elim conjE, (simp; fail | metis | meson))+)

locale map_laws =
  fixes E :: "('k, 't) map_env"
  assumes laws: "hash_table_laws (table E)"
begin

lemmas table_laws = hash_table_lawsD [OF laws]

lemma index_insert_all_items:
  "size (ht_items (table E) t) + length es \<le> ht_capacity (table E) t \<Longrightarrow>
   \<exists>t'. index_insert_all (table E) t i es = Some t' \<and>
     ht_items (table E) t' = ht_items (table E) t +
       mset (map (\<lambda>j. (promote (hashed_hash (fst (es ! j))), i + j)) [0..<length es])"
proof (induction es arbitrary: t i)
  case (Cons e es)
  obtain k v where e: "e = (k, v)" by fastforce
  from Cons.prems have "size (ht_items (table E) t) < ht_capacity (table E) t" by simp
  with table_laws(5) [of t "\<lambda>_. None" "promote (hashed_hash k)" i] obtain t' where
    t': "ht_insert_unique (table E) t (promote (hashed_hash k)) i (\<lambda>_. None) = Some t'"
      "ht_items (table E) t' = add_mset (promote (hashed_hash k), i) (ht_items (table E) t)"
      "ht_capacity (table E) t \<le> ht_capacity (table E) t'"
    by auto
  have "[0..<length (e # es)] = 0 # map Suc [0..<length es]"
    by (simp add: map_Suc_upt upt_conv_Cons del: upt_Suc)
  then have "map (\<lambda>j. (promote (hashed_hash (fst ((e # es) ! j))), i + j)) [0..<length (e # es)] =
      (promote (hashed_hash k), i) #
      map (\<lambda>j. (promote (hashed_hash (fst (es ! j))), Suc i + j)) [0..<length es]"
    using e by (simp add: comp_def del: upt_Suc)
  moreover have "size (ht_items (table E) t') + length es \<le> ht_capacity (table E) t'"
    using Cons.prems t' by simp
  ultimately show ?case using Cons.IH [of t' "Suc i"] t'(1,2) e by (simp del: upt_Suc mset_map)
qed simp

lemma index_of_entries:
  assumes "vm_wf (key_hash E) es" and "ht_items (table E) t = {#}"
    and "length (vm_iter es) \<le> ht_capacity (table E) t"
  shows "\<exists>t'. index_insert_all (table E) t 0 (vm_iter_hashed es) = Some t' \<and>
    ht_items (table E) t' = index_items (key_hash E) (vm_iter es)"
proof -
  let ?es = "vm_iter_hashed es"
  have es: "?es = map (\<lambda>(k, v). (hashed_new (key_hash E) k, v)) (vm_iter es)"
    by (rule vm_iter_hashed_refines [OF assms(1)])
  then have items: "map (\<lambda>j. (promote (hashed_hash (fst (?es ! j))), 0 + j)) [0..<length ?es] =
      map (\<lambda>j. (promote (key_hash E (fst (vm_iter es ! j))), j)) [0..<length (vm_iter es)]"
    by (simp add: hashed_new_def split_beta)
  have "length ?es = length (vm_iter es)" using es by simp
  with index_insert_all_items [of t ?es 0, unfolded items] assms(2,3) show ?thesis
    by (simp add: index_items_def del: mset_map)
qed

lemma sm_create_index_inv:
  assumes "vm_wf (key_hash E) (entries m)" and "v2_ty (buckets (entries m)) = entry_ty E"
    and "length (sm_iter m) \<le> capacity"
  shows "\<exists>m'. sm_create_index E m capacity = Some m' \<and> sm_inv E m' \<and> sm_iter m' = sm_iter m"
proof -
  have "length (vm_iter (entries m)) \<le> ht_capacity (table E) (ht_with_capacity (table E) capacity)"
    using assms(3) table_laws(2) [of capacity] by (simp add: sm_iter_def)
  from index_of_entries [OF assms(1) table_laws(1) this] show ?thesis
    using assms by (auto simp: sm_create_index_def sm_inv_def sm_iter_def)
qed

lemma sm_rebuild_index_inv:
  assumes "vm_wf (key_hash E) (entries m)" and "v2_ty (buckets (entries m)) = entry_ty E"
    and "case index m of None \<Rightarrow> length (sm_iter m) \<le> no_index_threshold E
      | Some t \<Rightarrow> length (sm_iter m) \<le> size (ht_items (table E) t)"
  shows "\<exists>m'. sm_rebuild_index E m = Some m' \<and> sm_inv E m' \<and> sm_iter m' = sm_iter m"
proof (cases "index m")
  case None
  with assms show ?thesis by (simp add: sm_rebuild_index_def sm_inv_def)
next
  case (Some t)
  then have "length (vm_iter (entries m)) \<le> ht_capacity (table E) (ht_clear (table E) t)"
    using assms(3) table_laws(11) [of t] by (simp add: sm_iter_def)
  from index_of_entries [OF assms(1) table_laws(10) this] Some show ?thesis
    using assms(1,2) by (auto simp: sm_rebuild_index_def sm_inv_def sm_iter_def)
qed

lemma sm_invD:
  assumes "sm_inv E m"
  shows "vm_wf (key_hash E) (entries m)" "v2_ty (buckets (entries m)) = entry_ty E"
    "distinct (map fst (sm_iter m))" "vm_len (entries m) = length (sm_iter m)"
    "index m = Some t \<Longrightarrow> ht_items (table E) t = index_items (key_hash E) (sm_iter m)"
  using assms vm_wfD(3) by (auto simp: sm_inv_def sm_iter_def)

lemma entry_key: "sm_inv E m \<Longrightarrow> i < length (sm_iter m) \<Longrightarrow>
  vm_get_unchecked (entries m) i = (hashed_new (key_hash E) (fst (sm_iter m ! i)), snd (sm_iter m ! i))"
  using vm_get_unchecked_refines sm_invD(1) unfolding sm_iter_def by blast

lemma key_index_unique:
  "sm_inv E m \<Longrightarrow> i < length (sm_iter m) \<Longrightarrow> key_index (fst (sm_iter m ! i)) (sm_iter m) = Some i"
  using sm_invD(3) [of m] by (intro find_index_unique) (auto simp: distinct_conv_nth)

lemma sm_search:
  assumes inv: "sm_inv E m"
  shows "sm_get_index_of_hashed E m (hashed_new (key_hash E) k) = key_index k (sm_iter m)"
proof (cases "index m")
  case None
  then show ?thesis
    using vm_search [OF sm_invD(1) [OF inv]]
    by (simp add: sm_get_index_of_hashed_def sm_get_index_of_hashed_raw_def sm_iter_def
        vm_get_index_of_hashed_def)
next
  case (Some t)
  note items = sm_invD(5) [OF inv Some]
  let ?eq = "\<lambda>i. k = hashed_key (fst (vm_get_unchecked (entries m) i))"
  have found: "sm_get_index_of_hashed E m (hashed_new (key_hash E) k) =
      ht_find (table E) t (promote (key_hash E k)) ?eq"
    using Some by (simp add: sm_get_index_of_hashed_def sm_get_index_of_hashed_raw_def
        sm_get_index_of_hashed_raw_with_index_def hashed_new_def)
  show ?thesis
  proof (cases "ht_find (table E) t (promote (key_hash E k)) ?eq")
    case None
    have "fst (sm_iter m ! i) \<noteq> k" if "i < length (sm_iter m)" for i
      using table_laws(4) [OF None, of i] items that inv by (auto simp: entry_key hashed_new_def)
    then have "key_index k (sm_iter m) = None"
      by (simp add: find_index_None_iff all_set_conv_all_nth)
    with None found show ?thesis by simp
  next
    case (Some i)
    with table_laws(3) [OF Some] items have "?eq i" "i < length (sm_iter m)" by auto
    then have "fst (sm_iter m ! i) = k" using inv by (simp add: entry_key hashed_new_def)
    with key_index_unique [OF inv] \<open>i < length (sm_iter m)\<close> Some found show ?thesis by force
  qed
qed

lemma sm_get_list: "sm_inv E m \<Longrightarrow> sm_get E m k = map_of (sm_iter m) k"
proof -
  assume inv: "sm_inv E m"
  have "map_option (\<lambda>i. snd (vm_get_unchecked (entries m) i)) (key_index k (sm_iter m)) =
      map_option (\<lambda>i. snd (sm_iter m ! i)) (key_index k (sm_iter m))"
    using inv key_index_SomeD [of k "sm_iter m"]
    by (intro map_option_cong refl) (auto simp: entry_key)
  then show ?thesis
    using sm_search [OF inv] find_index_map_of [of "sm_iter m" k]
    by (simp add: sm_get_def sm_get_hashed_def)
qed

lemma sm_set_inv:
  assumes inv: "sm_inv E m" and i: "i < length (sm_iter m)"
  shows "sm_inv E (m\<lparr>entries := vm_set_unchecked (entries m) i v\<rparr>) \<and>
    sm_iter (m\<lparr>entries := vm_set_unchecked (entries m) i v\<rparr>) = (sm_iter m)[i := (fst (sm_iter m ! i), v)]"
proof -
  note set = vm_set_unchecked_refines [OF sm_invD(1) [OF inv], of i v]
  have keys: "map fst ((sm_iter m)[i := (fst (sm_iter m ! i), v)]) = map fst (sm_iter m)"
    using i by (simp add: map_fst_update_same)
  then show ?thesis
    using set i inv index_items_keys [OF keys]
    by (auto simp: sm_inv_def sm_iter_def split: option.splits)
qed

lemma hasher_ok_entries:
  assumes "vm_wf (key_hash E) es" and "xs = vm_iter es \<or> (\<exists>x. vm_iter es = xs @ [x])"
  shows "hasher_ok (sm_hasher es) (index_items (key_hash E) xs)"
proof (clarify)
  fix h i assume "(h, i) \<in># index_items (key_hash E) xs"
  then have "i < length xs" "h = promote (key_hash E (fst (xs ! i)))" by simp_all
  moreover from this(1) have "i < length (vm_iter es)" "vm_iter es ! i = xs ! i"
    using assms(2) by (auto simp: nth_append)
  ultimately show "sm_hasher es i = Some h"
    using vm_get_unchecked_refines [OF assms(1)] by (simp add: sm_hasher_def hashed_new_def)
qed

lemma sm_insert_unique_inv:
  assumes inv: "sm_inv E m" and k: "k \<notin> set (map fst (sm_iter m))"
    and ins: "sm_insert_hashed_unique_unchecked E m (hashed_new (key_hash E) k) v = Some m'"
  shows "sm_inv E m' \<and> sm_iter m' = sm_iter m @ [(k, v)]"
proof -
  from ins obtain es where es: "vm_insert_hashed_unique_unchecked (entries m) (hashed_new (key_hash E) k) v = Some es"
    by (auto simp: sm_insert_hashed_unique_unchecked_def Let_def split: option.splits)
  note e = vm_insert_refines [OF sm_invD(1) [OF inv] _ es]
  have wf: "vm_wf (key_hash E) es" and it: "vm_iter es = sm_iter m @ [(k, v)]" and ty: "v2_ty (buckets es) = entry_ty E"
    using e k sm_invD(2) [OF inv] by (auto simp: sm_iter_def)
  show ?thesis
  proof (cases "index m")
    case (Some t)
    note items = sm_invD(5) [OF inv Some]
    have "hasher_ok (sm_hasher es) (ht_items (table E) t)"
      unfolding items by (rule hasher_ok_entries [OF wf]) (use it in blast)
    with table_laws(5) [of t "sm_hasher es" "promote (key_hash E k)" "length (sm_iter m)"]
    obtain t' where "ht_insert_unique (table E) t (promote (key_hash E k)) (length (sm_iter m)) (sm_hasher es) = Some t'"
      "ht_items (table E) t' = index_items (key_hash E) (sm_iter m @ [(k, v)])"
      using items by (auto simp: index_items_snoc)
    with ins es Some wf it ty inv show ?thesis
      by (auto simp: sm_insert_hashed_unique_unchecked_def Let_def hashed_new_def sm_inv_def sm_invD(4) sm_iter_def)
  next
    case None
    with inv have le: "length (sm_iter m) \<le> no_index_threshold E" by (simp add: sm_inv_def)
    show ?thesis
    proof (cases "vm_len es = no_index_threshold E + 1")
      case True
      then have "sm_create_index E (m\<lparr>entries := es\<rparr>) (vm_len es) = Some m'"
        using ins es None by (simp add: sm_insert_hashed_unique_unchecked_def Let_def)
      moreover have "length (sm_iter (m\<lparr>entries := es\<rparr>)) \<le> vm_len es" using wf by (simp add: sm_iter_def)
      ultimately show ?thesis
        using sm_create_index_inv [of "m\<lparr>entries := es\<rparr>" "vm_len es"] wf ty it by (auto simp: sm_iter_def)
    next
      case False
      then have "m' = m\<lparr>entries := es\<rparr>" "length (vm_iter es) \<le> no_index_threshold E"
        using ins es None le wf it by (auto simp: sm_insert_hashed_unique_unchecked_def Let_def)
      then show ?thesis using None wf it ty by (simp add: sm_inv_def sm_iter_def)
    qed
  qed
qed

lemma sm_insert_unique_total:
  assumes inv: "sm_inv E m" and k: "k \<notin> set (map fst (sm_iter m))"
    and room: "v2_ample (entry_ty E) (Suc (length (sm_iter m)))"
  shows "\<exists>m'. sm_insert_hashed_unique_unchecked E m (hashed_new (key_hash E) k) v = Some m'"
proof -
  obtain es where es: "vm_insert_hashed_unique_unchecked (entries m) (hashed_new (key_hash E) k) v = Some es"
    using vm_insert_total [OF sm_invD(1) [OF inv]] room sm_invD(2) [OF inv] unfolding sm_iter_def by metis
  from vm_insert_refines [OF sm_invD(1) [OF inv] _ es] k
  have wf: "vm_wf (key_hash E) es" and it: "vm_iter es = sm_iter m @ [(k, v)]"
      and ty: "v2_ty (buckets es) = entry_ty E"
    using sm_invD(2) [OF inv] by (auto simp: sm_iter_def)
  show ?thesis
  proof (cases "index m")
    case (Some t)
    note items = sm_invD(5) [OF inv Some]
    have "hasher_ok (sm_hasher es) (ht_items (table E) t)"
      unfolding items by (rule hasher_ok_entries [OF wf]) (use it in blast)
    then obtain t' where "ht_insert_unique (table E) t (promote (key_hash E k)) (vm_len (entries m)) (sm_hasher es) = Some t'"
      using table_laws(5) by blast
    with es Some show ?thesis
      by (simp add: sm_insert_hashed_unique_unchecked_def Let_def hashed_new_def)
  next
    case None
    have "length (sm_iter (m\<lparr>entries := es\<rparr>)) \<le> vm_len es" using wf by (simp add: sm_iter_def)
    with sm_create_index_inv [of "m\<lparr>entries := es\<rparr>" "vm_len es"] wf ty es None show ?thesis
      by (auto simp: sm_insert_hashed_unique_unchecked_def Let_def)
  qed
qed

lemma sm_insert_list:
  assumes inv: "sm_inv E m" and ins: "sm_insert E m k v = Some (old, m')"
  shows "sm_inv E m' \<and> sm_iter m' = alist_insert k v (sm_iter m) \<and> old = map_of (sm_iter m) k"
proof (cases "key_index k (sm_iter m)")
  case None
  with ins sm_search [OF inv, of k]
  have "sm_insert_hashed_unique_unchecked E m (hashed_new (key_hash E) k) v = Some m'" "old = None"
    by (auto simp: sm_insert_def sm_insert_hashed_def sm_get_index_of_hashed_def split: option.splits)
  with sm_insert_unique_inv [OF inv iffD1 [OF key_index_None None]] show ?thesis
    using None find_index_map_of [of "sm_iter m" k] by (simp add: alist_insert_def)
next
  case (Some i)
  note i = key_index_SomeD [OF Some]
  have "old = Some (snd (sm_iter m ! i))" "m' = m\<lparr>entries := vm_set_unchecked (entries m) i v\<rparr>"
    using ins sm_search [OF inv, of k] Some i inv
    by (auto simp: sm_insert_def sm_insert_hashed_def sm_get_index_of_hashed_def entry_key)
  then show ?thesis
    using sm_set_inv [OF inv, of i v] i Some find_index_map_of [of "sm_iter m" k]
    by (simp add: alist_insert_def)
qed

lemma sm_insert_total:
  assumes inv: "sm_inv E m" and room: "v2_ample (entry_ty E) (Suc (length (sm_iter m)))"
  shows "\<exists>r. sm_insert E m k v = Some r"
proof (cases "key_index k (sm_iter m)")
  case None
  from sm_insert_unique_total [OF inv iffD1 [OF key_index_None None] room, of v] sm_search [OF inv, of k] None show ?thesis
    by (auto simp: sm_insert_def sm_insert_hashed_def sm_get_index_of_hashed_def)
next
  case (Some i)
  with sm_search [OF inv, of k] show ?thesis
    by (simp add: sm_insert_def sm_insert_hashed_def sm_get_index_of_hashed_def)
qed

lemma update_same_index: "index m = i \<Longrightarrow> m\<lparr>entries := es, index := i\<rparr> = m\<lparr>entries := es\<rparr>"
  by (cases m) simp

lemma sm_remove_entries:
  assumes inv: "sm_inv E m" and i: "i < length (sm_iter m)"
    and items: "\<And>t. index m = Some t \<Longrightarrow> \<exists>t'. idx = Some t' \<and>
      ht_items (table E) t' = index_items (key_hash E) (remove_nth i (sm_iter m))"
    and none: "index m = None \<Longrightarrow> idx = None"
  shows "\<exists>es. vm_remove (entries m) i =
      Some ((hashed_new (key_hash E) (fst (sm_iter m ! i)), snd (sm_iter m ! i)), es) \<and>
    sm_inv E (m\<lparr>entries := es, index := idx\<rparr>) \<and>
    sm_iter (m\<lparr>entries := es, index := idx\<rparr>) = remove_nth i (sm_iter m)"
proof -
  from vm_remove_refines [OF sm_invD(1) [OF inv], of i] i obtain es where
    es: "vm_remove (entries m) i = Some ((hashed_new (key_hash E) (fst (sm_iter m ! i)), snd (sm_iter m ! i)), es)"
      "vm_wf (key_hash E) es" "vm_iter es = remove_nth i (sm_iter m)" "v2_ty (buckets es) = entry_ty E"
    using sm_invD(2) [OF inv] by (auto simp: sm_iter_def)
  then have "sm_inv E (m\<lparr>entries := es, index := idx\<rparr>)"
    using items none inv i by (cases "index m") (auto simp: sm_inv_def sm_iter_def)
  with es show ?thesis by (simp add: sm_iter_def)
qed

lemma shifted_index:
  assumes i: "i < length xs" and items: "ht_items (table E) t = index_items (key_hash E) xs"
    and t': "ht_items (table E) t = add_mset (hh, i) (ht_items (table E) t')"
  shows "ht_items (table E) (if i \<noteq> length xs - 1 then ht_iter_mut (table E) t' (shift_down i) else t') =
    index_items (key_hash E) (remove_nth i xs)"
proof -
  let ?M = "mset_set ((\<lambda>j. (promote (key_hash E (fst (xs ! j))), j)) ` ({..<length xs} - {i}))"
  have M: "ht_items (table E) t' = ?M"
    by (rule index_items_delete [OF i, of _ hh]) (use items t' in simp)
  note rem = index_items_remove [OF i, of "key_hash E"]
  show ?thesis
  proof (cases "i = length xs - 1")
    case True
    then have "image_mset (\<lambda>(hh, j). (hh, shift_down i j)) ?M = image_mset (\<lambda>p. p) ?M"
      by (intro image_mset_cong) auto
    then have "ht_items (table E) t' = index_items (key_hash E) (remove_nth i xs)"
      using rem M by (simp only: image_mset.identity id_apply)
    then show ?thesis using True by simp
  next
    case False
    then show ?thesis using rem by (simp add: table_laws(8) M)
  qed
qed

lemma sm_remove_list:
  assumes inv: "sm_inv E m"
  shows "\<exists>m'. sm_shift_remove_entry E m k = Some (map_option (\<lambda>v. (k, v)) (map_of (sm_iter m) k), m') \<and>
    sm_inv E m' \<and> sm_iter m' = alist_remove k (sm_iter m)"
proof (cases "index m")
  case None
  have search: "vm_get_index_of_hashed (rust_nightly E) (entries m) (hashed_new (key_hash E) k) = key_index k (sm_iter m)"
    using vm_search [OF sm_invD(1) [OF inv]] by (simp add: sm_iter_def)
  show ?thesis
  proof (cases "key_index k (sm_iter m)")
    case none: None
    then have "map_of (sm_iter m) k = None" using find_index_map_of [of "sm_iter m" k] by simp
    with None none search inv show ?thesis
      by (simp add: sm_shift_remove_entry_def sm_shift_remove_hashed_entry_def vm_remove_hashed_entry_def
          alist_remove_def)
  next
    case (Some i)
    note i = key_index_SomeD [OF Some]
    have "map_of (sm_iter m) k = Some (snd (sm_iter m ! i))"
      using find_index_map_of [of "sm_iter m" k] Some by simp
    with sm_remove_entries [OF inv, of i "index m"] i None Some search show ?thesis
      by (auto simp: sm_shift_remove_entry_def sm_shift_remove_hashed_entry_def vm_remove_hashed_entry_def
          alist_remove_def hashed_new_def update_same_index)
  qed
next
  case (Some t)
  note items = sm_invD(5) [OF inv Some]
  let ?eq = "\<lambda>i. k = hashed_key (fst (vm_get_unchecked (entries m) i))"
  show ?thesis
  proof (cases "ht_find_remove (table E) t (promote (key_hash E k)) ?eq")
    case None
    have "fst (sm_iter m ! i) \<noteq> k" if "i < length (sm_iter m)" for i
      using table_laws(7) [OF None, of i] items that inv by (auto simp: entry_key hashed_new_def)
    then have ki: "key_index k (sm_iter m) = None"
      by (simp add: find_index_None_iff all_set_conv_all_nth)
    then have "map_of (sm_iter m) k = None" using find_index_map_of [of "sm_iter m" k] by simp
    with None Some ki inv show ?thesis
      by (simp add: sm_shift_remove_entry_def sm_shift_remove_hashed_entry_def hashed_new_def alist_remove_def)
  next
    case (Some r)
    then obtain i t' where f: "ht_find_remove (table E) t (promote (key_hash E k)) ?eq = Some (i, t')"
      by (cases r) auto
    from table_laws(6) [OF f] obtain hh where hh: "?eq i" "ht_items (table E) t = add_mset (hh, i) (ht_items (table E) t')"
      by blast
    then have i: "i < length (sm_iter m)" using items in_index_items [of hh i] by (metis union_single_eq_member)
    then have ki: "fst (sm_iter m ! i) = k" using hh(1) inv by (simp add: entry_key hashed_new_def)
    then have idx: "key_index k (sm_iter m) = Some i" using key_index_unique [OF inv i] by simp
    then have "map_of (sm_iter m) k = Some (snd (sm_iter m ! i))"
      using find_index_map_of [of "sm_iter m" k] by simp
    moreover note sm_remove_entries [OF inv i, of "Some (if i \<noteq> length (sm_iter m) - 1
        then ht_iter_mut (table E) t' (shift_down i) else t')"] shifted_index [OF i items hh(2)]
    ultimately show ?thesis
      using \<open>index m = Some t\<close> f idx ki inv
      by (auto simp: sm_shift_remove_entry_def sm_shift_remove_hashed_entry_def hashed_new_def
          alist_remove_def sm_invD(4) Let_def)
  qed
qed

end

end
