(* ===== verification/Small_Map_Laws.thy ===== *)
theory Small_Map_Laws
  imports Small_Map
begin

text \<open>
  The remaining operations of \<open>SmallMap\<close> (\<^verbatim>\<open>starlark_map/src/small_map.rs\<close>) under the laws of the
  hash table: construction, reservation, removal by position, \<open>pop\<close>, sorting, reversal, \<open>retain\<close>,
  equality and bulk insertion. \<open>SmallMap\<close> is then shown to satisfy the interface \<open>ordered_map\<close>, and a
  concrete table satisfies the laws assumed of \<open>hashbrown\<close>.
\<close>

subsection \<open>Construction and reservation\<close>

context map_laws
begin

lemma sm_new_inv: "sm_inv E (sm_new E)" "sm_iter (sm_new E) = []"
  by (simp_all add: sm_inv_def sm_new_def sm_iter_def)

lemma sm_with_capacity_inv:
  fixes m :: "('k, 'v, 't) small_map"
  assumes "sm_with_capacity E n = Some m"
  shows "sm_inv E m \<and> sm_iter m = []"
proof -
  from assms obtain es :: "('k, 'v) vec_map" where es: "vm_with_capacity (entry_ty E) n = Some es"
    by (auto simp: sm_with_capacity_def split: option.splits)
  from vm_with_capacity_refines [OF es] show ?thesis
    using assms es table_laws(1)
    by (auto simp: sm_with_capacity_def sm_inv_def sm_iter_def split: if_splits)
qed

lemma sm_with_capacity_total:
  "layout_ok (entry_ty E) n \<Longrightarrow> \<exists>m :: ('k, 'v, 't) small_map. sm_with_capacity E n = Some m"
  using v2_with_capacity_total [of "entry_ty E" n, where ?'a = "'k \<times> 'v" and ?'b = u32]
  by (auto simp: sm_with_capacity_def vm_with_capacity_def)

lemma sm_maybe_drop_index_inv:
  "sm_inv E m \<Longrightarrow> sm_inv E (sm_maybe_drop_index E m) \<and> sm_iter (sm_maybe_drop_index E m) = sm_iter m"
  using sm_invD(4) [of m] by (auto simp: sm_maybe_drop_index_def sm_inv_def sm_iter_def)

lemma sm_reserve_inv:
  assumes inv: "sm_inv E m" and res: "vm_reserve (entries m) n = Some es"
  shows "\<exists>m'. sm_reserve E m n = Some m' \<and> sm_inv E m' \<and> sm_iter m' = sm_iter m"
proof -
  have es: "vm_wf (key_hash E) es" "vm_iter es = sm_iter m" "v2_ty (buckets es) = entry_ty E"
    using vm_reserve_refines [OF sm_invD(1) [OF inv] res] sm_invD(2) [OF inv] by (simp_all add: sm_iter_def)
  show ?thesis
  proof (cases "index m")
    case None
    then have "length (sm_iter m) \<le> no_index_threshold E" using inv by (simp add: sm_inv_def)
    with None sm_create_index_inv [of "m\<lparr>entries := es\<rparr>" "sm_len (m\<lparr>entries := es\<rparr>) + n"] es res show ?thesis
      by (auto simp: sm_reserve_def Let_def sm_iter_def sm_len_def sm_inv_def)
  next
    case (Some t)
    have "hasher_ok (sm_hasher es) (ht_items (table E) t)"
      unfolding sm_invD(5) [OF inv Some] by (rule hasher_ok_entries [OF es(1)]) (use es in simp)
    from table_laws(12) [OF this, of n] Some es res sm_invD(5) [OF inv Some] show ?thesis
      by (auto simp: sm_reserve_def Let_def sm_inv_def sm_iter_def)
  qed
qed

subsection \<open>Removal by position, the last entry, everything\<close>

lemma index_retain:
  assumes i: "i < length xs" and items: "ht_items (table E) t = index_items (key_hash E) xs"
  shows "ht_items (table E) (ht_retain (table E) t
      (\<lambda>j. if j = i then None else if j > i then Some (j - 1) else Some j)) =
    index_items (key_hash E) (remove_nth i xs)"
proof -
  let ?g = "\<lambda>j. (promote (key_hash E (fst (xs ! j))), j)"
  have "filter_mset (\<lambda>(h, j). (if j = i then None else if j > i then Some (j - 1) else Some j) \<noteq> None)
      (index_items (key_hash E) xs) = mset_set (?g ` ({..<length xs} - {i}))"
    unfolding index_items_as_image by (subst filter_mset_mset_set) (auto intro!: arg_cong [of _ _ mset_set])
  moreover have "image_mset (\<lambda>(h, j). (h, the (if j = i then None else if j > i then Some (j - 1) else Some j)))
      (mset_set (?g ` ({..<length xs} - {i}))) =
    image_mset (\<lambda>(h, j). (h, shift_down i j)) (mset_set (?g ` ({..<length xs} - {i})))"
    by (intro image_mset_cong) auto
  ultimately show ?thesis using index_items_remove [OF i, of "key_hash E"] items by (simp add: table_laws(9))
qed

lemma sm_remove_index_list:
  assumes inv: "sm_inv E m"
  shows "\<exists>m'. sm_shift_remove_index E m i =
      Some (if i < length (sm_iter m) then Some (sm_iter m ! i) else None, m') \<and>
    sm_inv E m' \<and> sm_iter m' = (if i < length (sm_iter m) then remove_nth i (sm_iter m) else sm_iter m)"
proof (cases "i < length (sm_iter m)")
  case False
  with inv show ?thesis
    by (simp add: sm_shift_remove_index_def sm_shift_remove_index_hashed_def sm_len_def sm_invD(4))
next
  case True
  let ?idx = "map_option (\<lambda>t. ht_retain (table E) t
      (\<lambda>j. if j = i then None else if j > i then Some (j - 1) else Some j)) (index m)"
  have items: "\<exists>t'. ?idx = Some t' \<and> ht_items (table E) t' = index_items (key_hash E) (remove_nth i (sm_iter m))"
    if "index m = Some t" for t
    using index_retain [OF True sm_invD(5) [OF inv that]] that by simp
  obtain es where
    "vm_remove (entries m) i = Some ((hashed_new (key_hash E) (fst (sm_iter m ! i)), snd (sm_iter m ! i)), es)"
    "sm_inv E (m\<lparr>entries := es, index := ?idx\<rparr>)"
    "sm_iter (m\<lparr>entries := es, index := ?idx\<rparr>) = remove_nth i (sm_iter m)"
    using sm_remove_entries [OF inv True, of ?idx] items by blast
  with True inv show ?thesis
    by (simp add: sm_shift_remove_index_def sm_shift_remove_index_hashed_def sm_len_def sm_invD(4)
        Let_def hashed_new_def)
qed

lemma sm_pop_list:
  assumes inv: "sm_inv E m"
  shows "\<exists>m'. sm_pop E m = Some (if sm_iter m = [] then None else Some (last (sm_iter m)), m') \<and>
    sm_inv E m' \<and> sm_iter m' = butlast (sm_iter m)"
proof -
  obtain r es where res: "vm_pop (entries m) = (r, es)" by fastforce
  have p: "r = (if sm_iter m = [] then None
      else Some (hashed_new (key_hash E) (fst (last (sm_iter m))), snd (last (sm_iter m))))"
    and es: "vm_wf (key_hash E) es" "vm_iter es = butlast (sm_iter m)" "v2_ty (buckets es) = entry_ty E"
    using vm_pop_refines [OF sm_invD(1) [OF inv]] res sm_invD(2) [OF inv] by (simp_all add: sm_iter_def)
  show ?thesis
  proof (cases "sm_iter m = []")
    case True
    with inv p es res show ?thesis
      by (auto simp: sm_pop_def sm_inv_def sm_iter_def split: option.splits)
  next
    case False
    then obtain xs k v where xs: "sm_iter m = xs @ [(k, v)]" by (metis rev_exhaust surj_pair)
    show ?thesis
    proof (cases "index m")
      case None
      with inv p es res xs show ?thesis
        by (auto simp: sm_pop_def sm_inv_def sm_iter_def hashed_new_def Let_def)
    next
      case (Some t)
      have items: "ht_items (table E) t = add_mset (promote (key_hash E k), length xs) (index_items (key_hash E) xs)"
        using sm_invD(5) [OF inv Some] xs by (simp add: index_items_snoc)
      let ?eq = "\<lambda>i. i = vm_len es"
      have len: "vm_len es = length xs" using es xs by simp
      have "ht_find_remove (table E) t (promote (key_hash E k)) ?eq \<noteq> None"
      proof
        assume "ht_find_remove (table E) t (promote (key_hash E k)) ?eq = None"
        from table_laws(7) [OF this, of "length xs"] items len show False by simp
      qed
      then obtain i t' where f: "ht_find_remove (table E) t (promote (key_hash E k)) ?eq = Some (i, t')"
        by (metis not_Some_eq surj_pair)
      from table_laws(6) [OF f] obtain h' where h': "i = length xs"
          "ht_items (table E) t = add_mset (h', length xs) (ht_items (table E) t')"
        using len by auto
      have "(h', length xs) \<in># index_items (key_hash E) (sm_iter m)"
        using h' sm_invD(5) [OF inv Some] by (metis union_single_eq_member)
      then have "h' = promote (key_hash E k)" using xs by simp
      with h' items have "ht_items (table E) t' = index_items (key_hash E) xs" by simp
      with f Some p es res xs show ?thesis
        by (auto simp: sm_pop_def sm_inv_def sm_iter_def hashed_new_def Let_def)
    qed
  qed
qed

lemma sm_clear_inv:
  assumes inv: "sm_inv E m"
  shows "sm_inv E (sm_clear E m) \<and> sm_iter (sm_clear E m) = []"
proof -
  have "vm_wf (key_hash E) (vm_clear (entries m))" "vm_iter (vm_clear (entries m)) = []"
      "v2_ty (buckets (vm_clear (entries m))) = entry_ty E"
    using vm_clear_refines [OF sm_invD(1) [OF inv]] sm_invD(2) [OF inv] by simp_all
  then show ?thesis
    by (cases "index m") (simp_all add: sm_clear_def sm_inv_def sm_iter_def table_laws(10))
qed

end


subsection \<open>Reordering, filtering, comparing\<close>

lemma sm_sort_keys_list:
  fixes E :: "('k::linorder, 't) map_env"
  assumes laws: "map_laws E" and inv: "sm_inv E m" and room: "v2_ample (entry_ty E) (length (sm_iter m))"
  shows "\<exists>m'. sm_sort_keys E m = Some m' \<and> sm_inv E m' \<and> sm_iter m' = sort_key fst (sm_iter m)"
proof (cases "vm_is_sorted_by_key (entries m)")
  case True
  then have "sorted (map fst (sm_iter m))"
    by (simp add: vm_is_sorted_by_key_def windows_sorted_iff sm_iter_def vm_iter_def)
  then have "sort_key fst (sm_iter m) = sm_iter m" by (rule sort_key_id_if_sorted)
  with True inv show ?thesis by (simp add: sm_sort_keys_def)
next
  case False
  note invD = map_laws.sm_invD [OF laws inv]
  obtain es where es: "vm_sort_keys (entries m) = Some es" "vm_wf (key_hash E) es"
      "vm_iter es = sort_key fst (sm_iter m)" "v2_ty (buckets es) = entry_ty E"
    using vm_sort_keys_refines [OF invD(1)] room invD(2) by (auto simp: sm_iter_def)
  have "case index (m\<lparr>entries := es\<rparr>) of None \<Rightarrow> length (sm_iter (m\<lparr>entries := es\<rparr>)) \<le> no_index_threshold E
      | Some t \<Rightarrow> length (sm_iter (m\<lparr>entries := es\<rparr>)) \<le> size (ht_items (table E) t)"
    using inv es(3) by (auto simp: sm_inv_def sm_iter_def split: option.splits)
  from map_laws.sm_rebuild_index_inv [OF laws _ _ this] es False show ?thesis
    by (auto simp: sm_sort_keys_def sm_iter_def)
qed

context map_laws
begin

lemma sm_reverse_inv:
  assumes inv: "sm_inv E m"
  shows "sm_inv E (sm_reverse E m) \<and> sm_iter (sm_reverse E m) = rev (sm_iter m)"
proof -
  have es: "vm_wf (key_hash E) (vm_reverse (entries m))" "vm_iter (vm_reverse (entries m)) = rev (sm_iter m)"
      "v2_ty (buckets (vm_reverse (entries m))) = entry_ty E"
    using vm_reverse_refines [OF sm_invD(1) [OF inv]] sm_invD(2) [OF inv] by (simp_all add: sm_iter_def)
  show ?thesis
  proof (cases "index m")
    case None
    with inv es show ?thesis by (simp add: sm_reverse_def Let_def sm_inv_def sm_iter_def)
  next
    case (Some t)
    have "ht_items (table E) (ht_iter_mut (table E) t (\<lambda>e. length (sm_iter m) - 1 - e)) =
        index_items (key_hash E) (rev (sm_iter m))"
      unfolding table_laws(8) sm_invD(5) [OF inv Some] by (rule index_items_rev)
    with es Some show ?thesis by (simp add: sm_reverse_def Let_def sm_inv_def sm_iter_def)
  qed
qed

lemma map_retain_list_full:
  "length (fst (map_retain_list f s xs)) = length xs \<Longrightarrow> map fst (fst (map_retain_list f s xs)) = map fst xs"
proof (induction xs arbitrary: s)
  case (Cons kv xs)
  show ?case
    using Cons.prems Cons.IH map_retain_list_keys(3) [of f _ xs]
    by (auto simp: map_retain_list_step Let_def split: option.splits if_splits)
      (metis Suc_n_not_le_n)
qed simp

lemma sm_retain_list:
  assumes inv: "sm_inv E m"
  shows "\<exists>m'. sm_retain E f s m = Some (m', snd (map_retain_list f s (sm_iter m))) \<and>
    sm_inv E m' \<and> sm_iter m' = fst (map_retain_list f s (sm_iter m))"
proof -
  obtain es r where res: "vm_retain f s (entries m) = (es, r)" by fastforce
  let ?xs = "sm_iter m" and ?m = "m\<lparr>entries := es\<rparr>"
  have es: "vm_wf (key_hash E) es" "vm_iter es = fst (map_retain_list f s ?xs)"
      "v2_ty (buckets es) = entry_ty E" and r: "r = snd (map_retain_list f s ?xs)"
    using vm_retain_refines [OF sm_invD(1) [OF inv], of f s] res sm_invD(2) [OF inv]
    by (simp_all add: sm_iter_def prod_eq_iff)
  have le: "length (vm_iter es) \<le> length ?xs" using map_retain_list_keys(3) es(2) by metis
  show ?thesis
  proof (cases "length (vm_iter es) = length ?xs")
    case True
    then have "index_items (key_hash E) (vm_iter es) = index_items (key_hash E) ?xs"
      using map_retain_list_full [of f s ?xs] es(2) by (intro index_items_keys) simp
    with inv es True have "sm_inv E ?m" by (simp add: sm_inv_def sm_iter_def split: option.splits)
    with True inv es res r show ?thesis
      by (simp add: sm_retain_def sm_len_def sm_invD(4) Let_def) (simp add: sm_iter_def)
  next
    case False
    then have less_len: "sm_len ?m < sm_len m" using le es(1) inv by (simp add: sm_len_def sm_invD(4))
    have "case index ?m of None \<Rightarrow> length (sm_iter ?m) \<le> no_index_threshold E
        | Some t \<Rightarrow> length (sm_iter ?m) \<le> size (ht_items (table E) t)"
      using inv le by (auto simp: sm_inv_def sm_iter_def split: option.splits)
    from sm_rebuild_index_inv [OF _ _ this] es res r less_len show ?thesis
      by (auto simp: sm_retain_def Let_def sm_iter_def)
  qed
qed

lemma map_le_iff_entries:
  assumes "distinct (map fst xs)"
  shows "map_of xs \<subseteq>\<^sub>m g \<longleftrightarrow> (\<forall>(k, v) \<in> set xs. g k = Some v)"
  using assms by (force simp: map_le_def dom_map_of_conv_image_fst)

lemma sm_eq_iff:
  assumes inv: "sm_inv E m" and inv': "sm_inv E m'"
  shows "sm_eq E m m' \<longleftrightarrow> map_of (sm_iter m) = map_of (sm_iter m')"
proof -
  let ?f = "map_of (sm_iter m)" and ?g = "map_of (sm_iter m')"
  have dom: "card (dom ?f) = length (sm_iter m)" "card (dom ?g) = length (sm_iter m')"
    using distinct_card [OF sm_invD(3) [OF inv]] distinct_card [OF sm_invD(3) [OF inv']]
    by (simp_all add: dom_map_of_conv_image_fst)
  have "sm_iter_hashed m = map (\<lambda>(k, v). (hashed_new (key_hash E) k, v)) (sm_iter m)"
    using vm_iter_hashed_refines [OF sm_invD(1) [OF inv]] by (simp add: sm_iter_hashed_def sm_iter_def)
  then have "list_all (\<lambda>(k, v). sm_get_hashed E m' k = Some v) (sm_iter_hashed m) \<longleftrightarrow> ?f \<subseteq>\<^sub>m ?g"
    using sm_get_list [OF inv'] map_le_iff_entries [OF sm_invD(3) [OF inv]]
    by (simp add: list_all_iff split_beta sm_get_def)
  then have eq: "sm_eq E m m' \<longleftrightarrow> length (sm_iter m) = length (sm_iter m') \<and> ?f \<subseteq>\<^sub>m ?g"
    using sm_invD(4) [OF inv] sm_invD(4) [OF inv'] by (simp add: sm_eq_def sm_len_def)
  show ?thesis
  proof
    assume "sm_eq E m m'"
    then have le: "?f \<subseteq>\<^sub>m ?g" "card (dom ?f) = card (dom ?g)" using eq dom by simp_all
    moreover have "dom ?f \<subseteq> dom ?g" using le(1) by (rule map_le_implies_dom_le)
    ultimately have "dom ?f = dom ?g" by (intro card_subset_eq) (simp_all add: finite_dom_map_of)
    with le(1) show "?f = ?g" by (metis map_le_antisym map_le_def)
  next
    assume "?f = ?g"
    with dom eq show "sm_eq E m m'" by simp
  qed
qed

lemma sm_eq_ordered_iff:
  assumes "sm_inv E m" and "sm_inv E m'"
  shows "sm_eq_ordered m m' \<longleftrightarrow> sm_iter m = sm_iter m'"
  using vm_eq_ordered_iff [OF sm_invD(1) [OF assms(1)] sm_invD(1) [OF assms(2)]]
  by (simp add: sm_eq_ordered_def sm_iter_def)

subsection \<open>Access by key\<close>

lemma sm_contains_key_iff:
  "sm_inv E m \<Longrightarrow> sm_contains_key E m k \<longleftrightarrow> k \<in> set (map fst (sm_iter m))"
  using key_index_None [of k "sm_iter m"] by (simp add: sm_contains_key_def sm_contains_key_hashed_def sm_search)

lemma sm_get_full_list:
  assumes inv: "sm_inv E m"
  shows "sm_get_full E m k =
    map_option (\<lambda>i. (i, sm_iter m ! i)) (key_index k (sm_iter m))"
  using sm_search [OF inv, of k] key_index_SomeD [of k "sm_iter m"] entry_key [OF inv]
  by (cases "key_index k (sm_iter m)")
    (auto simp: sm_get_full_def sm_get_full_hashed_def hashed_new_def)

lemma sm_get_mut_list:
  assumes inv: "sm_inv E m" and upd: "sm_get_mut_hashed E m (hashed_new (key_hash E) k) f = Some m'"
  shows "\<exists>v. map_of (sm_iter m) k = Some v \<and> sm_inv E m' \<and> sm_iter m' = alist_insert k (f v) (sm_iter m)"
proof -
  from upd sm_search [OF inv, of k] obtain i where i: "key_index k (sm_iter m) = Some i"
      and m': "m' = m\<lparr>entries := vm_set_unchecked (entries m) i (f (snd (vm_get_unchecked (entries m) i)))\<rparr>"
    by (auto simp: sm_get_mut_hashed_def)
  have lt: "i < length (sm_iter m)" "fst (sm_iter m ! i) = k" using key_index_SomeD [OF i] by simp_all
  have "map_of (sm_iter m) k = Some (snd (sm_iter m ! i))" using find_index_map_of [of "sm_iter m" k] i by simp
  with sm_set_inv [OF inv lt(1)] m' i lt entry_key [OF inv lt(1)] show ?thesis
    by (simp add: alist_insert_def)
qed

lemma sm_or_insert_list:
  assumes inv: "sm_inv E m"
    and ent: "sm_or_insert_entry_with E m (sm_entry_hashed E m (hashed_new (key_hash E) k)) d = Some (kv, m')"
  shows "sm_inv E m' \<and>
    (case map_of (sm_iter m) k of
       Some v \<Rightarrow> kv = (k, v) \<and> sm_iter m' = sm_iter m
     | None \<Rightarrow> kv = (k, d) \<and> sm_iter m' = sm_iter m @ [(k, d)])"
proof (cases "key_index k (sm_iter m)")
  case None
  have "sm_entry_hashed E m (hashed_new (key_hash E) k) = Vacant (hashed_new (key_hash E) k)"
    using sm_search [OF inv, of k] None by (simp add: sm_entry_hashed_def sm_get_index_of_hashed_def)
  with ent obtain ins: "sm_insert_hashed_unique_unchecked E m (hashed_new (key_hash E) k) d = Some m'"
    and kv: "kv = (case vm_get_unchecked (entries m') (vm_len (entries m') - 1) of (k, v) \<Rightarrow> (hashed_key k, v))"
    by (auto simp: sm_or_insert_entry_with_def split: option.splits prod.splits)
  have i: "sm_inv E m'" "sm_iter m' = sm_iter m @ [(k, d)]"
    using sm_insert_unique_inv [OF inv iffD1 [OF key_index_None None] ins] by simp_all
  moreover have "kv = (k, d)"
    using kv i entry_key [OF i(1), of "length (sm_iter m)"] sm_invD(4) [OF i(1)] by (simp add: hashed_new_def)
  ultimately show ?thesis using None find_index_map_of [of "sm_iter m" k] by simp
next
  case (Some i)
  have "sm_entry_hashed E m (hashed_new (key_hash E) k) = Occupied i"
    using sm_search [OF inv, of k] Some by (simp add: sm_entry_hashed_def sm_get_index_of_hashed_def)
  moreover have "map_of (sm_iter m) k = Some (snd (sm_iter m ! i))"
    using find_index_map_of [of "sm_iter m" k] Some by simp
  ultimately show ?thesis
    using ent inv key_index_SomeD [OF Some] entry_key [OF inv, of i]
    by (auto simp: sm_or_insert_entry_with_def hashed_new_def)
qed

end

subsection \<open>\<open>SmallMap\<close> is an insertion-ordered map\<close>

text \<open>Every map over a lawful table provides the interface that its users rely on.\<close>

sublocale map_laws < sm: ordered_map "sm_inv E" "v2_ample (entry_ty E)" sm_iter
  "sm_get E" "sm_insert E" "sm_shift_remove E"
proof unfold_locales
  show "\<exists>m'. sm_shift_remove E m k = Some (map_of (sm_iter m) k, m') \<and> sm_inv E m' \<and>
      sm_iter m' = alist_remove k (sm_iter m)" if "sm_inv E m" for m k
    using sm_remove_list [OF that, of k]
    by (auto simp: sm_shift_remove_def sm_shift_remove_hashed_def sm_shift_remove_entry_def option.map_comp comp_def
        option.map_ident)
qed (fact sm_invD(3) sm_get_list sm_insert_list sm_insert_total v2_ample_mono)+

context map_laws
begin

lemma sm_extend_ins_all: "sm_extend E m xs = sm.ins_all m xs"
  by (induction xs arbitrary: m) (auto split: option.splits)

lemma sm_extend_get:
  assumes "sm_inv E m" and "sm_extend E m xs = Some m'"
  shows "sm_get E m' k = (case map_of (rev xs) k of Some v \<Rightarrow> Some v | None \<Rightarrow> sm_get E m k)"
  using sm.get_ins_all [OF assms(1), of xs m' k] assms(2) by (simp add: sm_extend_ins_all)

lemma sm_from_iter_list:
  assumes "sm_from_iter E n xs = Some m"
  shows "sm_inv E m \<and> sm_iter m = fold (\<lambda>(k, v). alist_insert k v) xs []"
proof -
  from assms obtain m0 where "sm_with_capacity E n = Some m0" "sm_extend E m0 xs = Some m"
    by (auto simp: sm_from_iter_def split: option.splits)
  then show ?thesis
    using sm_with_capacity_inv [of n m0] sm.ins_all_list [of m0 xs m] by (simp add: sm_extend_ins_all)
qed

lemma sm_from_iter_total:
  fixes xs :: "('k \<times> 'v) list"
  assumes "layout_ok (entry_ty E) n" and "v2_ample (entry_ty E) (length xs)"
  shows "\<exists>m :: ('k, 'v, 't) small_map. sm_from_iter E n xs = Some m"
proof -
  obtain m0 :: "('k, 'v, 't) small_map" where m0: "sm_with_capacity E n = Some m0"
    using sm_with_capacity_total [OF assms(1)] by blast
  from sm_with_capacity_inv [OF m0] sm.ins_all_total [of m0 xs] assms(2) m0 show ?thesis
    by (simp add: sm_from_iter_def sm_extend_ins_all)
qed

end

subsection \<open>A table that satisfies the laws\<close>

text \<open>
  A list of entries with a capacity that doubles when it is full. It shows that the laws assumed of
  \<open>hashbrown\<close> can hold, and the examples of this development run on it.
\<close>

type_synonym ltable = "(u64 \<times> nat) list \<times> nat"

definition lt_rehash :: "(nat \<Rightarrow> u64 option) \<Rightarrow> (u64 \<times> nat) list \<Rightarrow> (u64 \<times> nat) list option" where
  "lt_rehash hasher xs = those (map (\<lambda>(h, v). map_option (\<lambda>h'. (h', v)) (hasher v)) xs)"

definition lt_insert_unique :: "ltable \<Rightarrow> u64 \<Rightarrow> nat \<Rightarrow> (nat \<Rightarrow> u64 option) \<Rightarrow> ltable option" where
  "lt_insert_unique t h v hasher =
     (case t of (xs, cap) \<Rightarrow>
        if length xs < cap then Some ((h, v) # xs, cap)
        else map_option (\<lambda>ys. ((h, v) # ys, 2 * cap + 4)) (lt_rehash hasher xs))"

definition lt_find_remove :: "ltable \<Rightarrow> u64 \<Rightarrow> (nat \<Rightarrow> bool) \<Rightarrow> (nat \<times> ltable) option" where
  "lt_find_remove t h eq =
     (case t of (xs, cap) \<Rightarrow>
        map_option (\<lambda>i. (snd (xs ! i), remove_nth i xs, cap)) (find_index (\<lambda>(h', v). h' = h \<and> eq v) xs))"

definition list_table :: "ltable hash_table" where
  "list_table =
     \<lparr>ht_with_capacity = \<lambda>n. ([], n),
      ht_find = \<lambda>t h eq. map_option snd (find (\<lambda>(h', v). h' = h \<and> eq v) (fst t)),
      ht_insert_unique = lt_insert_unique,
      ht_find_remove = lt_find_remove,
      ht_iter_mut = \<lambda>t f. (map (\<lambda>(h, v). (h, f v)) (fst t), snd t),
      ht_retain = \<lambda>t f. (map (\<lambda>(h, v). (h, the (f v))) (filter (\<lambda>(h, v). f v \<noteq> None) (fst t)), snd t),
      ht_clear = \<lambda>t. ([], max (length (fst t)) (snd t)),
      ht_reserve = \<lambda>t n hasher. map_option (\<lambda>xs. (xs, snd t + n)) (lt_rehash hasher (fst t)),
      ht_items = \<lambda>t. mset (fst t),
      ht_capacity = snd\<rparr>"

lemma lt_rehash_ok: "hasher_ok hasher (mset xs) \<Longrightarrow> lt_rehash hasher xs = Some xs"
  by (induction xs) (auto simp: lt_rehash_def)

lemma mset_remove_nth: "i < length xs \<Longrightarrow> mset xs = add_mset (xs ! i) (mset (remove_nth i xs))"
  by (induction xs arbitrary: i) (auto simp: less_Suc_eq_0_disj)

lemma list_table_simps [simp]:
  "ht_with_capacity list_table n = ([], n)"
  "ht_find list_table t h eq = map_option snd (find (\<lambda>(h', v). h' = h \<and> eq v) (fst t))"
  "ht_insert_unique list_table = lt_insert_unique" "ht_find_remove list_table = lt_find_remove"
  "ht_iter_mut list_table t f = (map (\<lambda>(h, v). (h, f v)) (fst t), snd t)"
  "ht_retain list_table t g = (map (\<lambda>(h, v). (h, the (g v))) (filter (\<lambda>(h, v). g v \<noteq> None) (fst t)), snd t)"
  "ht_clear list_table t = ([], max (length (fst t)) (snd t))"
  "ht_reserve list_table t n hasher = map_option (\<lambda>xs. (xs, snd t + n)) (lt_rehash hasher (fst t))"
  "ht_items list_table t = mset (fst t)" "ht_capacity list_table = snd"
  by (simp_all add: list_table_def)

lemma lt_find_remove_Some:
  assumes "lt_find_remove t h eq = Some (v, t')"
  shows "eq v \<and> (\<exists>h'. mset (fst t) = add_mset (h', v) (mset (fst t')))"
proof -
  from assms obtain i where i: "find_index (\<lambda>(h', v). h' = h \<and> eq v) (fst t) = Some i"
      "v = snd (fst t ! i)" "t' = (remove_nth i (fst t), snd t)"
    by (auto simp: lt_find_remove_def split: prod.splits)
  then have "i < length (fst t)" "eq v" by (auto simp: find_index_Some_iff split: prod.splits)
  with i mset_remove_nth [of i "fst t"] show ?thesis
    by (auto intro: exI [of _ "fst (fst t ! i)"])
qed

lemma lt_find_remove_None: "lt_find_remove t h eq = None \<Longrightarrow> (h, v) \<in> set (fst t) \<Longrightarrow> \<not> eq v"
  by (auto simp: lt_find_remove_def find_index_None_iff split: prod.splits)

lemma lt_find_Some:
  "find (\<lambda>(h', v). h' = h \<and> eq v) xs = Some p \<Longrightarrow> eq (snd p) \<and> snd p \<in> snd ` set xs"
  by (induction xs) (auto split: if_splits)

lemma lt_insert_unique_total:
  "length (fst t) < snd t \<or> hasher_ok hasher (mset (fst t)) \<Longrightarrow>
   \<exists>t'. lt_insert_unique t h v hasher = Some t' \<and> mset (fst t') = add_mset (h, v) (mset (fst t)) \<and>
     (length (fst t) < snd t \<longrightarrow> snd t \<le> snd t')"
  using lt_rehash_ok [of "fst t" hasher]
  by (cases t; cases "length (fst t) < snd t") (auto simp: lt_insert_unique_def)

lemma list_table_laws: "hash_table_laws list_table"
  unfolding hash_table_laws_def list_table_simps size_mset
proof (intro conjI allI impI)
  fix t :: ltable and h v t' eq
  show "eq v" "\<exists>h'. mset (fst t) = add_mset (h', v) (mset (fst t'))"
    if "lt_find_remove t h eq = Some (v, t')"
    using lt_find_remove_Some [OF that] by auto
  show "\<not> eq v" if "lt_find_remove t h eq = None" "(h, v) \<in># mset (fst t)"
    using lt_find_remove_None that by simp
  show "eq v" "v \<in># image_mset snd (mset (fst t))"
    if "map_option snd (find (\<lambda>(h', v). h' = h \<and> eq v) (fst t)) = Some v"
    using lt_find_Some [of h eq "fst t"] that by auto
  show "\<not> eq v" if "map_option snd (find (\<lambda>(h', v). h' = h \<and> eq v) (fst t)) = None" "(h, v) \<in># mset (fst t)"
    using that by (auto simp: find_None_iff)
next
  fix t :: ltable and h v hasher
  show "\<exists>t'. lt_insert_unique t h v hasher = Some t' \<and> mset (fst t') = add_mset (h, v) (mset (fst t)) \<and>
      (length (fst t) < snd t \<longrightarrow> snd t \<le> snd t')"
    if "length (fst t) < snd t \<or> hasher_ok hasher (mset (fst t))"
    using that by (rule lt_insert_unique_total)
qed (simp_all add: lt_rehash_ok mset_filter)

definition list_env :: "bool \<Rightarrow> ('k \<Rightarrow> u32) \<Rightarrow> vec2_ty \<Rightarrow> ('k, ltable) map_env" where
  "list_env nightly h ty = \<lparr>rust_nightly = nightly, key_hash = h, entry_ty = ty, table = list_table\<rparr>"

interpretation list_env: map_laws "list_env nightly hash ty" for nightly :: bool and hash :: "'k \<Rightarrow> u32" and ty :: vec2_ty
  by unfold_locales (simp add: list_env_def list_table_laws)

end
