(* ===== verification/Small_Map_Props.thy ===== *)
theory Small_Map_Props
  imports Small_Map_Laws
begin

text \<open>
  The contract of \<open>SmallMap\<close> for its clients: an abstract specification over association lists in
  insertion order, the simulation by the implementation for every sequence of operations, and the
  behaviour of the operations that take the whole map.
\<close>

subsection \<open>Specification: an association list in insertion order\<close>

datatype ('k, 'v) map_op =
    OpInsert 'k 'v | OpGet 'k | OpRemove 'k | OpRemoveIndex nat | OpPop | OpClear | OpReverse | OpMaybeDropIndex

datatype ('k, 'v) map_result = RDone | RValue "'v option" | REntry "('k \<times> 'v) option"

fun spec_op :: "('k \<times> 'v) list \<Rightarrow> ('k, 'v) map_op \<Rightarrow> ('k, 'v) map_result \<times> ('k \<times> 'v) list" where
  "spec_op xs (OpInsert k v) = (RValue (map_of xs k), alist_insert k v xs)"
| "spec_op xs (OpGet k) = (RValue (map_of xs k), xs)"
| "spec_op xs (OpRemove k) = (RValue (map_of xs k), alist_remove k xs)"
| "spec_op xs (OpRemoveIndex i) =
     (REntry (if i < length xs then Some (xs ! i) else None), if i < length xs then remove_nth i xs else xs)"
| "spec_op xs OpPop = (REntry (if xs = [] then None else Some (last xs)), butlast xs)"
| "spec_op xs OpClear = (RDone, [])"
| "spec_op xs OpReverse = (RDone, rev xs)"
| "spec_op xs OpMaybeDropIndex = (RDone, xs)"

fun spec_run ::
  "('k \<times> 'v) list \<Rightarrow> ('k, 'v) map_op list \<Rightarrow> ('k, 'v) map_result list \<times> ('k \<times> 'v) list" where
  "spec_run xs [] = ([], xs)"
| "spec_run xs (op # ops) =
     (case spec_op xs op of (r, ys) \<Rightarrow> (case spec_run ys ops of (rs, zs) \<Rightarrow> (r # rs, zs)))"

fun sm_op :: "('k, 't) map_env \<Rightarrow> ('k, 'v, 't) small_map \<Rightarrow> ('k, 'v) map_op \<Rightarrow>
  (('k, 'v) map_result \<times> ('k, 'v, 't) small_map) option" where
  "sm_op E m (OpInsert k v) = map_option (apfst RValue) (sm_insert E m k v)"
| "sm_op E m (OpGet k) = Some (RValue (sm_get E m k), m)"
| "sm_op E m (OpRemove k) = map_option (apfst RValue) (sm_shift_remove E m k)"
| "sm_op E m (OpRemoveIndex i) = map_option (apfst REntry) (sm_shift_remove_index E m i)"
| "sm_op E m OpPop = map_option (apfst REntry) (sm_pop E m)"
| "sm_op E m OpClear = Some (RDone, sm_clear E m)"
| "sm_op E m OpReverse = Some (RDone, sm_reverse E m)"
| "sm_op E m OpMaybeDropIndex = Some (RDone, sm_maybe_drop_index E m)"

fun sm_run :: "('k, 't) map_env \<Rightarrow> ('k, 'v, 't) small_map \<Rightarrow> ('k, 'v) map_op list \<Rightarrow>
  (('k, 'v) map_result list \<times> ('k, 'v, 't) small_map) option" where
  "sm_run E m [] = Some ([], m)"
| "sm_run E m (op # ops) =
     (case sm_op E m op of
        None \<Rightarrow> None
      | Some (r, m') \<Rightarrow> map_option (apfst ((#) r)) (sm_run E m' ops))"

context map_laws
begin

lemma sm_op_simulates:
  assumes inv: "sm_inv E m" and room: "v2_ample (entry_ty E) (Suc (length (sm_iter m)))"
  shows "\<exists>m'. sm_op E m op = Some (fst (spec_op (sm_iter m) op), m') \<and> sm_inv E m' \<and>
    sm_iter m' = snd (spec_op (sm_iter m) op)"
proof (cases op)
  case (OpInsert k v)
  from sm_insert_total [OF inv room] obtain old m' where "sm_insert E m k v = Some (old, m')" by fastforce
  with sm_insert_list [OF inv this] OpInsert show ?thesis by auto
next
  case (OpRemove k)
  with sm.rem_list [OF inv, of k] show ?thesis by auto
next
  case (OpRemoveIndex i)
  with sm_remove_index_list [OF inv, of i] show ?thesis by (auto simp del: map_option_eq_Some)
next
  case OpPop
  with sm_pop_list [OF inv] show ?thesis by auto
qed (use inv sm_get_list [OF inv] sm_clear_inv [OF inv] sm_reverse_inv [OF inv]
    sm_maybe_drop_index_inv [OF inv] in simp_all)

lemma length_spec_op: "length (snd (spec_op xs op)) \<le> Suc (length xs)"
  by (cases op) (auto simp: alist_insert_def alist_remove_def split: option.splits dest!: key_index_SomeD)

lemma sm_run_simulates:
  "sm_inv E m \<Longrightarrow> v2_ample (entry_ty E) (length (sm_iter m) + length ops) \<Longrightarrow>
   \<exists>m'. sm_run E m ops = Some (fst (spec_run (sm_iter m) ops), m') \<and> sm_inv E m' \<and>
     sm_iter m' = snd (spec_run (sm_iter m) ops)"
proof (induction ops arbitrary: m)
  case (Cons op ops)
  have "v2_ample (entry_ty E) (Suc (length (sm_iter m)))" by (rule v2_ample_mono [OF _ Cons.prems(2)]) simp
  from sm_op_simulates [OF Cons.prems(1) this, of op] obtain m1 where
    m1: "sm_op E m op = Some (fst (spec_op (sm_iter m) op), m1)" "sm_inv E m1"
      "sm_iter m1 = snd (spec_op (sm_iter m) op)"
    by blast
  have "v2_ample (entry_ty E) (length (sm_iter m1) + length ops)"
    using length_spec_op [of "sm_iter m" op] m1(3) by (intro v2_ample_mono [OF _ Cons.prems(2)]) simp
  from Cons.IH [OF m1(2) this] m1 show ?case by (auto simp: split_beta)
qed simp

end

subsection \<open>Properties\<close>

text \<open>C1. Every sequence of operations on a new \<open>SmallMap\<close> behaves as the association list in insertion
  order: no operation panics (neither the vector, nor the index, nor the unreachable hasher), every
  result is the specified one, and the final map iterates over the specified entries. The index
  appears and disappears on the way without being observable.\<close>

theorem small_map_simulates_alist:
  fixes E :: "('k, 't) map_env" and ops :: "('k, 'v) map_op list"
  assumes "hash_table_laws (table E)" and "v2_ample (entry_ty E) (length ops)"
  shows "\<exists>m. sm_run E (sm_new E) ops = Some (fst (spec_run [] ops), m) \<and>
    sm_inv E m \<and> sm_iter m = snd (spec_run [] ops)"
  using map_laws.sm_run_simulates [OF map_laws.intro, OF assms(1), of "sm_new E" ops] assms(2)
  by (simp add: map_laws.sm_new_inv [OF map_laws.intro, OF assms(1)])

definition demo_ty :: vec2_ty where
  "demo_ty = \<lparr>size_a = 16, align_a = 8, size_b = 4, align_b = 4, size_ab = 24\<rparr>"

theorem small_map_simulates_alist_witness:
  "\<exists>m. sm_run (list_env False (\<lambda>k. of_nat k) demo_ty) (sm_new (list_env False (\<lambda>k. of_nat k) demo_ty))
      [OpInsert (2::nat) ''b'', OpInsert 1 ''a'', OpInsert 2 ''c'', OpRemoveIndex 1, OpGet 1, OpPop] =
    Some ([RValue None, RValue None, RValue (Some ''b''), REntry (Some (1, ''a'')), RValue None,
      REntry (Some (2, ''c''))], m) \<and> sm_iter m = []"
  using small_map_simulates_alist [of "list_env False (\<lambda>k. of_nat k) demo_ty"
      "[OpInsert (2::nat) ''b'', OpInsert 1 ''a'', OpInsert 2 ''c'', OpRemoveIndex 1, OpGet 1, OpPop]"]
  by (auto simp: list_env_def list_table_laws demo_ty_def v2_ample_def layout_ok_iff usize_max_def
      isize_max_def max_size_for_align_def round_up_def alist_insert_def remove_nth_def)

text \<open>A concrete map for the examples below.\<close>

definition demo_env :: "(nat, ltable) map_env" where
  "demo_env = list_env False (\<lambda>k. of_nat k) demo_ty"

lemma demo_env_laws: "hash_table_laws (table demo_env)" "map_laws demo_env"
  by (simp_all add: demo_env_def list_env_def list_table_laws map_laws.intro)

lemma demo_env_ample: "n \<le> 1000 \<Longrightarrow> v2_ample (entry_ty demo_env) n \<and> layout_ok (entry_ty demo_env) n"
proof -
  assume n: "n \<le> 1000"
  have top: "v2_ample (entry_ty demo_env) 1000"
    by (simp add: demo_env_def list_env_def demo_ty_def v2_ample_def layout_ok_iff usize_max_def
        isize_max_def max_size_for_align_def round_up_def)
  then have "v2_ample (entry_ty demo_env) n" by (rule v2_ample_mono [OF n])
  moreover from top n have "layout_ok (entry_ty demo_env) n"
    unfolding v2_ample_def by (auto intro: layout_ok_mono [of n 2008])
  ultimately show ?thesis by simp
qed

lemma demo_map:
  assumes "length xs \<le> 1000"
  shows "\<exists>m. sm_from_iter demo_env 0 xs = Some m \<and> sm_inv demo_env m \<and>
    sm_iter m = fold (\<lambda>(k, v). alist_insert k v) xs []"
proof -
  obtain m where m: "sm_from_iter demo_env 0 xs = Some m"
    using map_laws.sm_from_iter_total [OF demo_env_laws(2), of 0 xs] demo_env_ample assms by auto
  with map_laws.sm_from_iter_list [OF demo_env_laws(2) m] show ?thesis by blast
qed

lemma keys_fold_alist_insert:
  "map fst (fold (\<lambda>(k, v). alist_insert k v) xs []) = rev (remdups (rev (map fst xs)))"
proof (induction xs rule: rev_induct)
  case (snoc x xs)
  then show ?case by (cases x) (auto simp: keys_alist_insert simp flip: set_map)
qed simp

context map_laws
begin

lemma sm_from_iter_get:
  fixes xs :: "('k \<times> 'v) list"
  assumes "layout_ok (entry_ty E) n" and "v2_ample (entry_ty E) (length xs)"
  shows "\<exists>m. sm_from_iter E n xs = Some m \<and> sm_inv E m \<and>
    sm_iter m = fold (\<lambda>(k, v). alist_insert k v) xs [] \<and> (\<forall>k. sm_get E m k = map_of (rev xs) k)"
proof -
  obtain m :: "('k, 'v, 't) small_map" where m: "sm_from_iter E n xs = Some m"
    using sm_from_iter_total [OF assms] by blast
  then obtain m0 where m0: "sm_with_capacity E n = Some m0" "sm_extend E m0 xs = Some m"
    by (auto simp: sm_from_iter_def split: option.splits)
  have "sm_get E m k = map_of (rev xs) k" for k
    using sm_extend_get [OF _ m0(2), of k] sm_get_list [of m0 k] sm_with_capacity_inv [OF m0(1)]
    by (simp split: option.splits)
  with m sm_from_iter_list [OF m] show ?thesis by blast
qed

end

text \<open>\<open>SmallMap::from_iter\<close> on a list of pairs does not panic; a lookup returns the value of the last
  pair with that key, and the keys are in the order of their first occurrence.\<close>

theorem small_map_from_iter:
  fixes E :: "('k, 't) map_env" and xs :: "('k \<times> 'v) list"
  assumes "hash_table_laws (table E)" and "v2_ample (entry_ty E) (length xs)" and "layout_ok (entry_ty E) size_hint"
  shows "\<exists>m. sm_from_iter E size_hint xs = Some m \<and> sm_inv E m \<and>
    (\<forall>k. sm_get E m k = map_of (rev xs) k) \<and>
    map fst (sm_iter m) = rev (remdups (rev (map fst xs)))"
  using map_laws.sm_from_iter_get [OF map_laws.intro, OF assms(1,3,2)]
  by (auto simp: keys_fold_alist_insert)

theorem small_map_from_iter_witness:
  "\<exists>m. sm_from_iter demo_env 3 [(3, ''x''), (1, ''y''), (3, ''z'')] = Some m \<and> sm_get demo_env m 3 = Some ''z'' \<and>
    map fst (sm_iter m) = [3, 1]"
  using small_map_from_iter [OF demo_env_laws(1), of "[(3, ''x''), (1, ''y''), (3, ''z'')]" 3] demo_env_ample
  by auto

text \<open>C12. \<open>SmallMap::sort_keys\<close> leaves a map that iterates in ascending key order, with the same lookups, and
  whose index (if any) again describes every position.\<close>

theorem small_map_sort_keys:
  fixes E :: "('k::linorder, 't) map_env"
  assumes "hash_table_laws (table E)" and "sm_inv E m" and "v2_ample (entry_ty E) (length (sm_iter m))"
  shows "\<exists>m'. sm_sort_keys E m = Some m' \<and> sm_inv E m' \<and> sorted (map fst (sm_iter m')) \<and>
    mset (sm_iter m') = mset (sm_iter m) \<and> (\<forall>k. sm_get E m' k = sm_get E m k)"
proof -
  note laws = map_laws.intro [OF assms(1)]
  from map_laws.sm_invD(3) [OF laws assms(2)] have "map_of (sort_key fst (sm_iter m)) = map_of (sm_iter m)"
    by (intro map_of_inject_set [THEN iffD2]) (auto simp: distinct_keys_sort)
  with sm_sort_keys_list [OF laws assms(2,3)] assms(2) show ?thesis
    by (auto simp: map_laws.sm_get_list [OF laws])
qed

theorem small_map_sort_keys_witness:
  "\<exists>m m'. sm_from_iter demo_env 0 [(3, ''x''), (1, ''y'')] = Some m \<and> sm_sort_keys demo_env m = Some m' \<and>
    sorted (map fst (sm_iter m')) \<and> mset (sm_iter m') = {#(1, ''y''), (3, ''x'')#}"
proof -
  from demo_map [of "[(3, ''x''), (1, ''y'')]"] obtain m where
    m: "sm_from_iter demo_env 0 [(3, ''x''), (1, ''y'')] = Some m" "sm_inv demo_env m"
      "sm_iter m = [(3, ''x''), (1, ''y'')]" by (auto simp: alist_insert_def)
  with small_map_sort_keys [OF demo_env_laws(1) m(2)] demo_env_ample show ?thesis by auto
qed

text \<open>C11. \<open>SmallMap::retain\<close> keeps exactly the entries the closure accepts, in order and with the values
  the closure left in them. When the closure unwinds, the entries not yet visited stay. In both cases
  the map is well formed again, its index rebuilt if an entry went away.\<close>

theorem small_map_retain:
  fixes E :: "('k, 't) map_env" and f :: "('s, 'k, 'v) map_retain_fn"
  assumes "hash_table_laws (table E)" and "sm_inv E m"
  shows "\<exists>m'. sm_retain E f s m = Some (m', snd (map_retain_list f s (sm_iter m))) \<and> sm_inv E m' \<and>
    sm_iter m' = fst (map_retain_list f s (sm_iter m))"
  by (rule map_laws.sm_retain_list [OF map_laws.intro, OF assms])

theorem small_map_retain_witness:
  "\<exists>m m'. sm_from_iter demo_env 0 [(3, 5), (1, 6), (4, 7::int)] = Some m \<and>
    sm_retain demo_env (\<lambda>n k v. Some ((v + n, k \<noteq> 1), n + 1)) 0 m = Some (m', Some 3) \<and>
    sm_iter m' = [(3, 5), (4, 9)]"
proof -
  from demo_map [of "[(3, 5), (1, 6), (4, 7::int)]"] obtain m where
    m: "sm_from_iter demo_env 0 [(3, 5), (1, 6), (4, 7::int)] = Some m" "sm_inv demo_env m"
      "sm_iter m = [(3, 5), (1, 6), (4, 7)]" by (auto simp: alist_insert_def)
  with small_map_retain [OF demo_env_laws(1) m(2), of "\<lambda>n k v. Some ((v + n, k \<noteq> 1), n + 1)" 0]
  show ?thesis by auto
qed

text \<open>Equality of \<open>SmallMap\<close> ignores the order: two maps are equal iff they have the same lookups.\<close>

theorem small_map_eq_extensional:
  fixes E :: "('k, 't) map_env"
  assumes "hash_table_laws (table E)" and "sm_inv E m" and "sm_inv E m'"
  shows "sm_eq E m m' \<longleftrightarrow> (\<forall>k. sm_get E m k = sm_get E m' k)"
proof -
  note laws = map_laws.intro [OF assms(1)]
  show ?thesis
    using map_laws.sm_eq_iff [OF laws assms(2,3)] map_laws.sm_get_list [OF laws assms(2)]
      map_laws.sm_get_list [OF laws assms(3)] by (auto simp: fun_eq_iff)
qed

theorem small_map_eq_extensional_witness:
  "\<exists>m m'. sm_from_iter demo_env 0 [(3, 5), (1, 6::int)] = Some m \<and>
    sm_from_iter demo_env 0 [(1, 6), (3, 5::int)] = Some m' \<and> sm_eq demo_env m m' \<and> \<not> sm_eq_ordered m m'"
proof -
  from demo_map [of "[(3, 5), (1, 6::int)]"] obtain m where
    m: "sm_from_iter demo_env 0 [(3, 5), (1, 6::int)] = Some m" "sm_inv demo_env m"
      "sm_iter m = [(3, 5), (1, 6)]" by (auto simp: alist_insert_def)
  from demo_map [of "[(1, 6), (3, 5::int)]"] obtain m' where
    m': "sm_from_iter demo_env 0 [(1, 6), (3, 5::int)] = Some m'" "sm_inv demo_env m'"
      "sm_iter m' = [(1, 6), (3, 5)]" by (auto simp: alist_insert_def)
  have "sm_eq demo_env m m'"
    using small_map_eq_extensional [OF demo_env_laws(1) m(2) m'(2)] m(3) m'(3)
      map_laws.sm_get_list [OF demo_env_laws(2) m(2)] map_laws.sm_get_list [OF demo_env_laws(2) m'(2)]
    by simp
  with m m' map_laws.sm_eq_ordered_iff [OF demo_env_laws(2) m(2) m'(2)] show ?thesis by simp
qed

end
