(* ===== verification/Small_Set.thy ===== *)
theory Small_Set
  imports Small_Map_Props
begin

text \<open>
  The collections built on \<open>SmallMap\<close>: \<open>SmallSet\<close> (\<^verbatim>\<open>starlark_map/src/small_set.rs\<close>), a map to the unit
  type; \<open>OrderedMap\<close>, which compares with the order, and \<open>SortedMap\<close>, \<open>SortedSet\<close>, \<open>SortedVec\<close>, which sort
  what they are built from (\<^verbatim>\<open>ordered_map.rs\<close>, \<^verbatim>\<open>sorted_map.rs\<close>, \<^verbatim>\<open>sorted_set.rs\<close>, \<^verbatim>\<open>sorted_vec.rs\<close>).
\<close>

subsection \<open>\<open>SmallSet\<close>\<close>

type_synonym ('a, 't) small_set = "('a, unit, 't) small_map"

definition ss_new :: "('a, 't) map_env \<Rightarrow> ('a, 't) small_set" where
  "ss_new E = sm_new E"

definition ss_with_capacity :: "('a, 't) map_env \<Rightarrow> nat \<Rightarrow> ('a, 't) small_set option" where
  "ss_with_capacity E n = sm_with_capacity E n"

definition ss_iter :: "('a, 't) small_set \<Rightarrow> 'a list" where
  "ss_iter s = map fst (sm_iter s)"

definition ss_insert_hashed :: "('a, 't) map_env \<Rightarrow> ('a, 't) small_set \<Rightarrow> 'a hashed \<Rightarrow> (bool \<times> ('a, 't) small_set) option" where
  "ss_insert_hashed E s key = map_option (\<lambda>(old, s'). (old = None, s')) (sm_insert_hashed E s key ())"

definition ss_insert :: "('a, 't) map_env \<Rightarrow> ('a, 't) small_set \<Rightarrow> 'a \<Rightarrow> (bool \<times> ('a, 't) small_set) option" where
  "ss_insert E s key = map_option (\<lambda>(old, s'). (old = None, s')) (sm_insert E s key ())"

definition ss_insert_hashed_unique_unchecked ::
  "('a, 't) map_env \<Rightarrow> ('a, 't) small_set \<Rightarrow> 'a hashed \<Rightarrow> ('a, 't) small_set option" where
  "ss_insert_hashed_unique_unchecked E s key = sm_insert_hashed_unique_unchecked E s key ()"

definition ss_insert_unique_unchecked :: "('a, 't) map_env \<Rightarrow> ('a, 't) small_set \<Rightarrow> 'a \<Rightarrow> ('a, 't) small_set option" where
  "ss_insert_unique_unchecked E s key = sm_insert_unique_unchecked E s key ()"

definition ss_get_hashed :: "('a, 't) map_env \<Rightarrow> ('a, 't) small_set \<Rightarrow> 'a hashed \<Rightarrow> 'a option" where
  "ss_get_hashed E s value = map_option (\<lambda>(_, t, _). t) (sm_get_full_hashed E s value)"

definition ss_get :: "('a, 't) map_env \<Rightarrow> ('a, 't) small_set \<Rightarrow> 'a \<Rightarrow> 'a option" where
  "ss_get E s value = map_option (\<lambda>(_, t, _). t) (sm_get_full E s value)"

definition ss_get_index :: "('a, 't) small_set \<Rightarrow> nat \<Rightarrow> 'a option" where
  "ss_get_index s i = map_option fst (sm_get_index s i)"

definition ss_get_index_of :: "('a, 't) map_env \<Rightarrow> ('a, 't) small_set \<Rightarrow> 'a \<Rightarrow> nat option" where
  "ss_get_index_of E s value = sm_get_index_of E s value"

definition ss_shift_remove_hashed ::
  "('a, 't) map_env \<Rightarrow> ('a, 't) small_set \<Rightarrow> 'a hashed \<Rightarrow> (bool \<times> ('a, 't) small_set) option" where
  "ss_shift_remove_hashed E s key = map_option (\<lambda>(r, s'). (r \<noteq> None, s')) (sm_shift_remove_hashed E s key)"

definition ss_shift_remove :: "('a, 't) map_env \<Rightarrow> ('a, 't) small_set \<Rightarrow> 'a \<Rightarrow> (bool \<times> ('a, 't) small_set) option" where
  "ss_shift_remove E s key = map_option (\<lambda>(r, s'). (r \<noteq> None, s')) (sm_shift_remove E s key)"

definition ss_shift_remove_index_hashed ::
  "('a, 't) map_env \<Rightarrow> ('a, 't) small_set \<Rightarrow> nat \<Rightarrow> ('a hashed option \<times> ('a, 't) small_set) option" where
  "ss_shift_remove_index_hashed E s i =
     map_option (\<lambda>(r, s'). (map_option fst r, s')) (sm_shift_remove_index_hashed E s i)"

definition ss_shift_remove_index ::
  "('a, 't) map_env \<Rightarrow> ('a, 't) small_set \<Rightarrow> nat \<Rightarrow> ('a option \<times> ('a, 't) small_set) option" where
  "ss_shift_remove_index E s i =
     map_option (\<lambda>(r, s'). (map_option hashed_key r, s')) (ss_shift_remove_index_hashed E s i)"

text \<open>\<open>get_or_insert\<close>: the \<open>unwrap\<close> of \<open>get_index\<close> panics if the search returned a wrong position.\<close>

definition ss_get_or_insert :: "('a, 't) map_env \<Rightarrow> ('a, 't) small_set \<Rightarrow> 'a \<Rightarrow> ('a \<times> ('a, 't) small_set) option" where
  "ss_get_or_insert E s value =
     (let value = hashed_new (key_hash E) value
      in case sm_get_index_of_hashed_raw E s (hashed_hash value) (\<lambda>v. hashed_key value = v) of
           Some i \<Rightarrow> (case sm_get_index s i of None \<Rightarrow> None | Some (k, _) \<Rightarrow> Some (k, s))
         | None \<Rightarrow>
             (case sm_insert_hashed_unique_unchecked E s value () of
                None \<Rightarrow> None
              | Some s' \<Rightarrow> Some (hashed_key (fst (vm_get_unchecked (entries s') (vm_len (entries s') - 1))), s')))"

definition ss_take :: "('a, 't) map_env \<Rightarrow> ('a, 't) small_set \<Rightarrow> 'a \<Rightarrow> ('a option \<times> ('a, 't) small_set) option" where
  "ss_take E s key = map_option (\<lambda>(r, s'). (map_option fst r, s')) (sm_shift_remove_entry E s key)"

definition ss_pop :: "('a, 't) map_env \<Rightarrow> ('a, 't) small_set \<Rightarrow> ('a option \<times> ('a, 't) small_set) option" where
  "ss_pop E s = map_option (\<lambda>(r, s'). (map_option fst r, s')) (sm_pop E s)"

definition ss_contains :: "('a, 't) map_env \<Rightarrow> ('a, 't) small_set \<Rightarrow> 'a \<Rightarrow> bool" where
  "ss_contains E s key = sm_contains_key E s key"

definition ss_contains_hashed :: "('a, 't) map_env \<Rightarrow> ('a, 't) small_set \<Rightarrow> 'a hashed \<Rightarrow> bool" where
  "ss_contains_hashed E s key = sm_contains_key_hashed E s key"

definition ss_len :: "('a, 't) small_set \<Rightarrow> nat" where
  "ss_len s = sm_len s"

definition ss_is_empty :: "('a, 't) small_set \<Rightarrow> bool" where
  "ss_is_empty s = sm_is_empty s"

definition ss_clear :: "('a, 't) map_env \<Rightarrow> ('a, 't) small_set \<Rightarrow> ('a, 't) small_set" where
  "ss_clear E s = sm_clear E s"

definition ss_first :: "('a, 't) small_set \<Rightarrow> 'a option" where
  "ss_first s = map_option fst (sm_first s)"

definition ss_last :: "('a, 't) small_set \<Rightarrow> 'a option" where
  "ss_last s = map_option fst (sm_last s)"

text \<open>The iterators \<open>Difference\<close> and \<open>Union\<close>: \<open>next\<close> on the items not yet returned.\<close>

fun difference_next :: "('a, 't) map_env \<Rightarrow> 'a list \<Rightarrow> ('a, 't) small_set \<Rightarrow> ('a \<times> 'a list) option" where
  "difference_next E [] other = None"
| "difference_next E (item # it) other =
     (if \<not> ss_contains E other item then Some (item, it) else difference_next E it other)"

lemma difference_next_shorter: "difference_next E it other = Some (x, it') \<Longrightarrow> length it' < length it"
  by (induction E it other rule: difference_next.induct) (auto split: if_splits)

function difference_collect :: "('a, 't) map_env \<Rightarrow> 'a list \<Rightarrow> ('a, 't) small_set \<Rightarrow> 'a list" where
  "difference_collect E it other =
     (case difference_next E it other of
        None \<Rightarrow> []
      | Some (x, it') \<Rightarrow> x # difference_collect E it' other)"
  by auto
termination
  by (relation "measure (\<lambda>(E, it, other). length it)") (auto dest: difference_next_shorter)

declare difference_collect.simps [simp del]

definition ss_difference :: "('a, 't) map_env \<Rightarrow> ('a, 't) small_set \<Rightarrow> ('a, 't) small_set \<Rightarrow> 'a list" where
  "ss_difference E s other = difference_collect E (ss_iter s) other"

definition difference_size_hint :: "'a list \<Rightarrow> ('a, 't) small_set \<Rightarrow> nat \<times> nat option" where
  "difference_size_hint it other = (length it - ss_len other, Some (length it))"

definition ss_union :: "('a, 't) map_env \<Rightarrow> ('a, 't) small_set \<Rightarrow> ('a, 't) small_set \<Rightarrow> 'a list" where
  "ss_union E s other = ss_iter s @ ss_difference E other s"

definition ss_sort :: "('a::linorder, 't) map_env \<Rightarrow> ('a, 't) small_set \<Rightarrow> ('a, 't) small_set option" where
  "ss_sort E s = sm_sort_keys E s"

definition ss_eq_ordered :: "('a, 't) small_set \<Rightarrow> ('a, 't) small_set \<Rightarrow> bool" where
  "ss_eq_ordered s other = sm_eq_ordered s other"

definition ss_eq :: "('a, 't) map_env \<Rightarrow> ('a, 't) small_set \<Rightarrow> ('a, 't) small_set \<Rightarrow> bool" where
  "ss_eq E s other = sm_eq E s other"

definition ss_reverse :: "('a, 't) map_env \<Rightarrow> ('a, 't) small_set \<Rightarrow> ('a, 't) small_set" where
  "ss_reverse E s = sm_reverse E s"

definition ss_retain :: "('a, 't) map_env \<Rightarrow> ('s \<Rightarrow> 'a \<Rightarrow> (bool \<times> 's) option) \<Rightarrow> 's \<Rightarrow> ('a, 't) small_set \<Rightarrow>
  (('a, 't) small_set \<times> 's option) option" where
  "ss_retain E f c s = sm_retain E (\<lambda>c k v. map_option (\<lambda>(keep, c'). ((v, keep), c')) (f c k)) c s"

definition ss_extend :: "('a, 't) map_env \<Rightarrow> ('a, 't) small_set \<Rightarrow> 'a list \<Rightarrow> ('a, 't) small_set option" where
  "ss_extend E s xs = sm_extend E s (map (\<lambda>v. (v, ())) xs)"

fun ss_insert_all :: "('a, 't) map_env \<Rightarrow> ('a, 't) small_set \<Rightarrow> 'a list \<Rightarrow> ('a, 't) small_set option" where
  "ss_insert_all E s [] = Some s"
| "ss_insert_all E s (x # xs) =
     (case ss_insert E s x of None \<Rightarrow> None | Some (_, s') \<Rightarrow> ss_insert_all E s' xs)"

definition ss_from_iter :: "('a, 't) map_env \<Rightarrow> nat \<Rightarrow> 'a list \<Rightarrow> ('a, 't) small_set option" where
  "ss_from_iter E size_hint xs =
     (case ss_with_capacity E size_hint of None \<Rightarrow> None | Some s \<Rightarrow> ss_insert_all E s xs)"

subsection \<open>\<open>OrderedMap\<close>, \<open>SortedMap\<close>, \<open>SortedSet\<close>, \<open>SortedVec\<close>\<close>

text \<open>\<open>OrderedMap\<close> wraps a \<open>SmallMap\<close> and differs in comparing, hashing and ordering in iteration order.\<close>

definition om_eq :: "('k, 'v, 't) small_map \<Rightarrow> ('k, 'v, 't) small_map \<Rightarrow> bool" where
  "om_eq m other = sm_eq_ordered m other"

fun iter_cmp :: "('x \<Rightarrow> 'x \<Rightarrow> ordering) \<Rightarrow> 'x list \<Rightarrow> 'x list \<Rightarrow> ordering" where
  "iter_cmp c [] [] = Equal"
| "iter_cmp c [] (y # ys) = Less"
| "iter_cmp c (x # xs) [] = Greater"
| "iter_cmp c (x # xs) (y # ys) = (case c x y of Equal \<Rightarrow> iter_cmp c xs ys | o' \<Rightarrow> o')"

definition pair_cmp :: "('k::linorder \<times> 'v::linorder) \<Rightarrow> 'k \<times> 'v \<Rightarrow> ordering" where
  "pair_cmp x y = (case cmp_key (fst x) (fst y) of Equal \<Rightarrow> cmp_key (snd x) (snd y) | o' \<Rightarrow> o')"

definition om_cmp :: "('k::linorder, 'v::linorder, 't) small_map \<Rightarrow> ('k, 'v, 't) small_map \<Rightarrow> ordering" where
  "om_cmp m other = iter_cmp pair_cmp (sm_iter m) (sm_iter other)"

definition om_sort_keys :: "('k::linorder, 't) map_env \<Rightarrow> ('k, 'v, 't) small_map \<Rightarrow> ('k, 'v, 't) small_map option" where
  "om_sort_keys E m = sm_sort_keys E m"

definition om_from_iter :: "('k, 't) map_env \<Rightarrow> nat \<Rightarrow> ('k \<times> 'v) list \<Rightarrow> ('k, 'v, 't) small_map option" where
  "om_from_iter E size_hint xs = sm_from_iter E size_hint xs"

definition sorted_map_from_ordered ::
  "('k::linorder, 't) map_env \<Rightarrow> ('k, 'v, 't) small_map \<Rightarrow> ('k, 'v, 't) small_map option" where
  "sorted_map_from_ordered E m = om_sort_keys E m"

definition sorted_map_from_iter ::
  "('k::linorder, 't) map_env \<Rightarrow> nat \<Rightarrow> ('k \<times> 'v) list \<Rightarrow> ('k, 'v, 't) small_map option" where
  "sorted_map_from_iter E size_hint xs =
     (case om_from_iter E size_hint xs of None \<Rightarrow> None | Some m \<Rightarrow> sorted_map_from_ordered E m)"

text \<open>\<open>SortedVec\<close>: \<open>new_unchecked\<close> checks the order in debug builds only.\<close>

definition sorted_vec_new_unchecked :: "bool \<Rightarrow> 'a::linorder list \<Rightarrow> 'a list option" where
  "sorted_vec_new_unchecked debug_assertions vec =
     (if debug_assertions \<and> \<not> list_all (\<lambda>(a, b). a \<le> b) (zip vec (drop 1 vec)) then None else Some vec)"

definition sorted_vec_from :: "'a::linorder list \<Rightarrow> 'a list" where
  "sorted_vec_from vec = std_sort_by cmp_key vec"

definition sorted_set_from_ordered :: "('a::linorder, 't) map_env \<Rightarrow> ('a, 't) small_set \<Rightarrow> ('a, 't) small_set option" where
  "sorted_set_from_ordered E s = ss_sort E s"

definition sorted_set_from_sorted_vec ::
  "('a::linorder, 't) map_env \<Rightarrow> nat \<Rightarrow> 'a list \<Rightarrow> ('a, 't) small_set option" where
  "sorted_set_from_sorted_vec E size_hint vec = ss_from_iter E size_hint vec"

definition sorted_set_from_iter :: "('a::linorder, 't) map_env \<Rightarrow> nat \<Rightarrow> 'a list \<Rightarrow> ('a, 't) small_set option" where
  "sorted_set_from_iter E size_hint xs =
     (case ss_from_iter E size_hint xs of None \<Rightarrow> None | Some s \<Rightarrow> ss_sort E s)"

subsection \<open>Sets as maps to the unit type\<close>

context map_laws
begin

lemma ss_contains_iff: "sm_inv E s \<Longrightarrow> ss_contains E s k \<longleftrightarrow> k \<in> set (ss_iter s)"
  by (simp add: ss_contains_def ss_iter_def sm_contains_key_iff)

lemma ss_distinct: "sm_inv E s \<Longrightarrow> distinct (ss_iter s)"
  by (simp add: ss_iter_def sm_invD(3))

lemma difference_next_filter:
  "difference_next E it other =
     (case filter (\<lambda>x. \<not> ss_contains E other x) it of
        [] \<Rightarrow> None
      | x # _ \<Rightarrow> Some (x, tl (dropWhile (\<lambda>x. ss_contains E other x) it)))"
  by (induction it) (auto split: list.splits)

lemma filter_tl_dropWhile:
  "filter (\<lambda>x. \<not> P x) (tl (dropWhile P it)) = tl (filter (\<lambda>x. \<not> P x) it)"
  by (induction it) auto

lemma difference_collect_filter:
  "difference_collect E it other = filter (\<lambda>x. \<not> ss_contains E other x) it"
proof (induction "length it" arbitrary: it rule: less_induct)
  case less
  show ?case
  proof (cases "difference_next E it other")
    case None
    then show ?thesis
      by (subst difference_collect.simps) (simp add: difference_next_filter split: list.splits)
  next
    case (Some p)
    then obtain x it' where p: "difference_next E it other = Some (x, it')" by (cases p) auto
    note IH = less.hyps [OF difference_next_shorter [OF p]]
    from p show ?thesis
      by (subst difference_collect.simps)
        (auto simp: IH difference_next_filter filter_tl_dropWhile split: list.splits)
  qed
qed

lemma ss_difference_list:
  "sm_inv E other \<Longrightarrow> ss_difference E s other = filter (\<lambda>x. x \<notin> set (ss_iter other)) (ss_iter s)"
  by (simp add: ss_difference_def difference_collect_filter ss_contains_iff)

lemma ss_insert_list:
  assumes inv: "sm_inv E s" and ins: "ss_insert E s k = Some (fresh, s')"
  shows "sm_inv E s' \<and> (fresh \<longleftrightarrow> k \<notin> set (ss_iter s)) \<and>
    ss_iter s' = (if fresh then ss_iter s @ [k] else ss_iter s)"
proof -
  from ins obtain old where old: "sm_insert E s k () = Some (old, s')" "fresh \<longleftrightarrow> old = None"
    by (auto simp: ss_insert_def)
  from sm_insert_list [OF inv old(1)] old(2) show ?thesis
    by (auto simp: ss_iter_def keys_alist_insert map_of_eq_None_iff)
qed

lemma ss_insert_all_extend: "ss_insert_all E s xs = sm_extend E s (map (\<lambda>v. (v, ())) xs)"
  by (induction xs arbitrary: s) (auto simp: ss_insert_def split: option.splits)

lemma ss_from_iter_map: "ss_from_iter E n xs = sm_from_iter E n (map (\<lambda>v. (v, ())) xs)"
  by (simp add: ss_from_iter_def sm_from_iter_def ss_with_capacity_def ss_insert_all_extend
      split: option.split)

lemma ss_from_iter_list:
  assumes "layout_ok (entry_ty E) n" and "v2_ample (entry_ty E) (length xs)"
  shows "\<exists>s. ss_from_iter E n xs = Some s \<and> sm_inv E s \<and> ss_iter s = rev (remdups (rev xs))"
proof -
  obtain s :: "('k, 't) small_set" where s: "sm_from_iter E n (map (\<lambda>v. (v, ())) xs) = Some s"
    using sm_from_iter_total [OF assms(1), of "map (\<lambda>v. (v, ())) xs"] assms(2) by auto
  with sm_from_iter_list [OF s] show ?thesis
    by (simp add: ss_from_iter_map ss_iter_def keys_fold_alist_insert comp_def)
qed

lemma ss_get_or_insert_list:
  assumes inv: "sm_inv E s" and room: "v2_ample (entry_ty E) (Suc (length (ss_iter s)))"
  shows "\<exists>s'. ss_get_or_insert E s x = Some (x, s') \<and> sm_inv E s' \<and>
    ss_iter s' = (if x \<in> set (ss_iter s) then ss_iter s else ss_iter s @ [x])"
proof (cases "key_index x (sm_iter s)")
  case (Some i)
  note i = key_index_SomeD [OF Some]
  have "sm_get_index s i = Some (sm_iter s ! i)"
    using vm_get_index_refines [OF sm_invD(1) [OF inv]] i by (simp add: sm_get_index_def sm_iter_def)
  moreover have "x \<in> set (ss_iter s)" using i by (auto simp: ss_iter_def)
  ultimately show ?thesis
    using sm_search [OF inv, of x] Some i inv
    by (auto simp: ss_get_or_insert_def Let_def sm_get_index_of_hashed_def split: prod.splits)
next
  case None
  note new = iffD1 [OF key_index_None None]
  from sm_insert_unique_total [OF inv new, of "()"] room obtain s' where
    s': "sm_insert_hashed_unique_unchecked E s (hashed_new (key_hash E) x) () = Some s'"
    by (auto simp: ss_iter_def)
  note i = sm_insert_unique_inv [OF inv new s']
  have "hashed_key (fst (vm_get_unchecked (entries s') (vm_len (entries s') - 1))) = x"
    using entry_key [of s' "length (sm_iter s)"] sm_invD(4) [of s'] i by (simp add: hashed_new_def)
  with s' sm_search [OF inv, of x] None i new show ?thesis
    by (simp add: ss_get_or_insert_def Let_def sm_get_index_of_hashed_def ss_iter_def)
qed

end

subsection \<open>Properties\<close>

lemma rev_remdups_rev_sorted:
  assumes "sorted (xs :: 'a::linorder list)"
  shows "sorted (rev (remdups (rev xs)))"
proof -
  have "sorted_wrt P (remdups ys)" if "sorted_wrt P ys" for P and ys :: "'a list"
    using that by (induction ys) auto
  then show ?thesis using assms by (simp add: sorted_wrt_rev)
qed

text \<open>The iterators \<open>difference\<close> and \<open>union\<close> of \<open>SmallSet\<close>: the difference is the items of the set that
  are not in the other one, in order, and their number is within the size hint; the union is every item
  once, the items of the left set first.\<close>

theorem small_set_union_difference:
  fixes E :: "('a, 't) map_env"
  assumes "hash_table_laws (table E)" and "sm_inv E s" and "sm_inv E other"
  shows "ss_difference E s other = filter (\<lambda>x. x \<notin> set (ss_iter other)) (ss_iter s) \<and>
    fst (difference_size_hint (ss_iter s) other) \<le> length (ss_difference E s other) \<and>
    (\<exists>rest. ss_union E s other = ss_iter s @ rest) \<and> distinct (ss_union E s other) \<and>
    set (ss_union E s other) = set (ss_iter s) \<union> set (ss_iter other)"
proof -
  note laws = map_laws.intro [OF assms(1)]
  note d = map_laws.ss_difference_list [OF laws]
  have dist: "distinct (ss_iter s)" "distinct (ss_iter other)"
    using map_laws.ss_distinct [OF laws] assms by auto
  have "length (ss_iter s) = length (filter (\<lambda>x. x \<in> set (ss_iter other)) (ss_iter s)) +
      length (filter (\<lambda>x. x \<notin> set (ss_iter other)) (ss_iter s))"
    by (rule sum_length_filter_compl [symmetric])
  moreover have "length (filter (\<lambda>x. x \<in> set (ss_iter other)) (ss_iter s)) \<le> length (ss_iter other)"
    using dist by (simp add: distinct_length_filter card_mono flip: distinct_card [OF dist(2)])
  moreover have "ss_len other = length (ss_iter other)"
    using map_laws.sm_invD(4) [OF laws assms(3)] by (simp add: ss_len_def sm_len_def ss_iter_def)
  ultimately show ?thesis
    using d [OF assms(3), of s] d [OF assms(2), of other] dist
    by (auto simp: ss_union_def difference_size_hint_def)
qed

lemma demo_set:
  assumes "length xs \<le> 1000"
  shows "\<exists>s. ss_from_iter demo_env 0 xs = Some s \<and> sm_inv demo_env s \<and> ss_iter s = rev (remdups (rev xs))"
  using map_laws.ss_from_iter_list [OF demo_env_laws(2), of 0 xs] demo_env_ample assms by blast

theorem small_set_union_difference_witness:
  "\<exists>s t. ss_from_iter demo_env 0 [4, 2, 7] = Some s \<and> ss_from_iter demo_env 0 [7, 9] = Some t \<and>
    ss_difference demo_env s t = [4, 2] \<and> set (ss_union demo_env s t) = {2, 4, 7, 9}"
proof -
  from demo_set [of "[4, 2, 7]"] obtain s where
    s: "ss_from_iter demo_env 0 [4, 2, 7] = Some s" "sm_inv demo_env s" "ss_iter s = [4, 2, 7]" by auto
  from demo_set [of "[7, 9]"] obtain t where
    t: "ss_from_iter demo_env 0 [7, 9] = Some t" "sm_inv demo_env t" "ss_iter t = [7, 9]" by auto
  from small_set_union_difference [OF demo_env_laws(1) s(2) t(2)] s t show ?thesis by auto
qed

text \<open>A \<open>SortedMap\<close> built from any list of pairs iterates in strictly ascending key order, and its
  lookups return the last value given for a key.\<close>

theorem sorted_map_from_iter_sorted:
  fixes E :: "('k::linorder, 't) map_env" and xs :: "('k \<times> 'v) list"
  assumes "hash_table_laws (table E)" and "v2_ample (entry_ty E) (length xs)" and "layout_ok (entry_ty E) size_hint"
  shows "\<exists>m. sorted_map_from_iter E size_hint xs = Some m \<and> sm_inv E m \<and>
    sorted_wrt (<) (map fst (sm_iter m)) \<and> (\<forall>k. sm_get E m k = map_of (rev xs) k)"
proof -
  note laws = map_laws.intro [OF assms(1)]
  obtain m where m: "sm_from_iter E size_hint xs = Some m" "sm_inv E m"
      "sm_iter m = fold (\<lambda>(k, v). alist_insert k v) xs []" "\<forall>k. sm_get E m k = map_of (rev xs) k"
    using map_laws.sm_from_iter_get [OF laws assms(3,2)] by blast
  have "length (sm_iter m) = length (remdups (rev (map fst xs)))"
    using arg_cong [OF keys_fold_alist_insert [of xs], of length] m(3) by simp
  then have "length (sm_iter m) \<le> length xs" using length_remdups_leq [of "rev (map fst xs)"] by simp
  then have "v2_ample (entry_ty E) (length (sm_iter m))" using assms(2) by (rule v2_ample_mono)
  from sm_sort_keys_list [OF laws m(2) this] obtain m' where
    m': "sm_sort_keys E m = Some m'" "sm_inv E m'" "sm_iter m' = sort_key fst (sm_iter m)" by blast
  have "map_of (sm_iter m') = map_of (sm_iter m)"
    using map_laws.sm_invD(3) [OF laws m(2)] m'(3)
    by (intro map_of_inject_set [THEN iffD2]) (auto simp: distinct_keys_sort)
  moreover have "sorted_wrt (<) (map fst (sm_iter m'))"
    using map_laws.sm_invD(3) [OF laws m'(2)] m'(3) by (simp add: strict_sorted_iff)
  ultimately show ?thesis
    using m m' map_laws.sm_get_list [OF laws m(2)] map_laws.sm_get_list [OF laws m'(2)]
    by (auto simp: sorted_map_from_iter_def om_from_iter_def sorted_map_from_ordered_def om_sort_keys_def)
qed

theorem sorted_map_from_iter_sorted_witness:
  "\<exists>m. sorted_map_from_iter demo_env 3 [(3, ''x''), (1, ''y''), (3, ''z'')] = Some m \<and>
    sorted_wrt (<) (map fst (sm_iter m)) \<and> sm_get demo_env m 3 = Some ''z''"
  using sorted_map_from_iter_sorted [OF demo_env_laws(1), of "[(3, ''x''), (1, ''y''), (3, ''z'')]" 3]
    demo_env_ample by auto

text \<open>A \<open>SortedSet\<close> built from a list, from an unsorted vector through \<open>SortedVec\<close>, iterates over the same
  elements in strictly ascending order in both cases.\<close>

theorem sorted_set_constructions_agree:
  fixes E :: "('a::linorder, 't) map_env"
  assumes "hash_table_laws (table E)" and "v2_ample (entry_ty E) (length xs)" and "layout_ok (entry_ty E) size_hint"
  shows "\<exists>s t. sorted_set_from_iter E size_hint xs = Some s \<and>
    sorted_set_from_sorted_vec E size_hint (sorted_vec_from xs) = Some t \<and>
    ss_iter s = ss_iter t \<and> sorted_wrt (<) (ss_iter s) \<and> set (ss_iter s) = set xs"
proof -
  note laws = map_laws.intro [OF assms(1)]
  have v: "sorted (sorted_vec_from xs)" "set (sorted_vec_from xs) = set xs" "length (sorted_vec_from xs) = length xs"
    by (simp_all add: sorted_vec_from_def std_sort_by_cmp_key)
  from map_laws.ss_from_iter_list [OF laws assms(3), of "sorted_vec_from xs"] assms(2) v(3) obtain t where
    t: "ss_from_iter E size_hint (sorted_vec_from xs) = Some t" "ss_iter t = rev (remdups (rev (sorted_vec_from xs)))"
    by auto
  from map_laws.ss_from_iter_list [OF laws assms(3,2)] obtain s0 where
    s0: "ss_from_iter E size_hint xs = Some s0" "sm_inv E s0" "ss_iter s0 = rev (remdups (rev xs))" by blast
  have "length (sm_iter s0) \<le> length xs"
    using arg_cong [OF s0(3), of length] length_remdups_leq [of "rev xs"] by (simp add: ss_iter_def)
  then have "v2_ample (entry_ty E) (length (sm_iter s0))" using assms(2) by (rule v2_ample_mono)
  from sm_sort_keys_list [OF laws s0(2) this] obtain s where
    s: "ss_sort E s0 = Some s" "sm_inv E s" "sm_iter s = sort_key fst (sm_iter s0)"
    by (auto simp: ss_sort_def)
  have ss: "sorted_wrt (<) (ss_iter s)" "set (ss_iter s) = set xs"
    using s map_laws.sm_invD(3) [OF laws s(2)] arg_cong [OF s0(3), of set]
    by (simp_all add: ss_iter_def strict_sorted_iff)
  moreover have "ss_iter s = ss_iter t"
    using ss t v rev_remdups_rev_sorted [OF v(1)]
    by (intro strict_sorted_equal) (auto simp: strict_sorted_iff)
  ultimately show ?thesis
    using s s0 t by (auto simp: sorted_set_from_iter_def sorted_set_from_sorted_vec_def)
qed

theorem sorted_set_constructions_agree_witness:
  "\<exists>s t. sorted_set_from_iter demo_env 0 [5, 2, 5] = Some s \<and>
    sorted_set_from_sorted_vec demo_env 0 (sorted_vec_from [5, 2, 5]) = Some t \<and>
    ss_iter s = ss_iter t \<and> set (ss_iter s) = {2, 5}"
  using sorted_set_constructions_agree [OF demo_env_laws(1), of "[5, 2, 5]" 0] demo_env_ample by auto

end
