(* ===== verification/Rust_Int.thy ===== *)
theory Rust_Int
  imports Prelude
begin

text \<open>
  The integer arithmetic of Rust that the value types use. A machine integer is an \<open>int\<close> with its
  range written out; wrapping and casts are explicit. Plain \<open>+\<close>, \<open>-\<close>, \<open>*\<close> and \<open>abs\<close> panic on overflow in a build
  with overflow checks and wrap around otherwise (\<open>plain_i32\<close>). \<open>outcome\<close> is what a fallible function
  returns: a value, an error value, or a panic.
\<close>

datatype ('e, 'a) outcome = Ok 'a | Err 'e | Panic

fun bind_outcome :: "('e, 'a) outcome \<Rightarrow> ('a \<Rightarrow> ('e, 'b) outcome) \<Rightarrow> ('e, 'b) outcome" where
  "bind_outcome (Ok x) f = f x"
| "bind_outcome (Err e) f = Err e"
| "bind_outcome Panic f = Panic"

abbreviation ok_or :: "'e \<Rightarrow> 'a option \<Rightarrow> ('e, 'a) outcome" where
  "ok_or e x \<equiv> (case x of Some y \<Rightarrow> Ok y | None \<Rightarrow> Err e)"

lemma bind_outcome_Ok_iff: "bind_outcome m f = Ok y \<longleftrightarrow> (\<exists>x. m = Ok x \<and> f x = Ok y)"
  by (cases m) auto

lemma bind_outcome_Panic_iff: "bind_outcome m f = Panic \<longleftrightarrow> m = Panic \<or> (\<exists>x. m = Ok x \<and> f x = Panic)"
  by (cases m) auto

lemma outcome_exhaust_Ok: "m \<noteq> Panic \<Longrightarrow> (\<And>e. m \<noteq> Err e) \<Longrightarrow> \<exists>x. m = Ok x"
  by (cases m) auto

subsection \<open>Ranges, casts and wrap-around\<close>

definition i32_min :: int where "i32_min = - (2 ^ 31)"

definition i32_max :: int where "i32_max = 2 ^ 31 - 1"

definition in_i32 :: "int \<Rightarrow> bool" where
  "in_i32 x \<longleftrightarrow> i32_min \<le> x \<and> x \<le> i32_max"

text \<open>The value of the low 32 bits of \<open>x\<close> as an \<open>i32\<close>, and of \<open>x\<close> as a \<open>u64\<close>.\<close>

definition wrap_i32 :: "int \<Rightarrow> int" where
  "wrap_i32 x = (x + 2 ^ 31) mod 2 ^ 32 - 2 ^ 31"

definition as_u64 :: "int \<Rightarrow> int" where
  "as_u64 x = x mod 2 ^ 64"

definition checked_i32 :: "int \<Rightarrow> int option" where
  "checked_i32 x = (if in_i32 x then Some x else None)"

definition plain_i32 :: "bool \<Rightarrow> int \<Rightarrow> ('e, int) outcome" where
  "plain_i32 overflow_checks x =
     (if in_i32 x then Ok x else if overflow_checks then Panic else Ok (wrap_i32 x))"

definition in_i64 :: "int \<Rightarrow> bool" where
  "in_i64 x \<longleftrightarrow> - (2 ^ 63) \<le> x \<and> x \<le> 2 ^ 63 - 1"

definition saturate_i64 :: "int \<Rightarrow> int" where
  "saturate_i64 x = max (- (2 ^ 63)) (min (2 ^ 63 - 1) x)"

text \<open>Division truncates, the remainder has the sign of the dividend.\<close>

definition rust_div :: "int \<Rightarrow> int \<Rightarrow> int" where
  "rust_div a b = (sgn a * sgn b) * (\<bar>a\<bar> div \<bar>b\<bar>)"

definition rust_rem :: "int \<Rightarrow> int \<Rightarrow> int" where
  "rust_rem a b = a - rust_div a b * b"

lemmas i32_defs = i32_min_def i32_max_def in_i32_def

lemma wrap_i32_id [simp]: "in_i32 x \<Longrightarrow> wrap_i32 x = x"
  by (simp add: wrap_i32_def i32_defs)

lemma in_i32_wrap [simp]: "in_i32 (wrap_i32 x)"
proof -
  have "0 \<le> (x + 2 ^ 31) mod 2 ^ 32" "(x + 2 ^ 31) mod 2 ^ 32 < 2 ^ 32" by simp_all
  then show ?thesis unfolding wrap_i32_def i32_defs by simp
qed

lemma as_u64_id [simp]: "0 \<le> x \<Longrightarrow> x < 2 ^ 64 \<Longrightarrow> as_u64 x = x"
  by (simp add: as_u64_def)

lemma checked_i32_Some [simp]: "checked_i32 x = Some y \<longleftrightarrow> in_i32 x \<and> y = x"
  by (auto simp: checked_i32_def)

lemma plain_i32_ok [simp]: "in_i32 x \<Longrightarrow> plain_i32 c x = Ok x"
  by (simp add: plain_i32_def)

lemma rust_rem_nonneg: "0 \<le> a \<Longrightarrow> 0 < b \<Longrightarrow> rust_rem a b = a mod b"
  by (cases "a = 0") (simp_all add: rust_rem_def rust_div_def minus_div_mult_eq_mod)

lemma rust_rem_abs: "rust_rem a b = sgn a * (\<bar>a\<bar> mod \<bar>b\<bar>)"
proof -
  have "rust_div a b * b = sgn a * (\<bar>a\<bar> div \<bar>b\<bar> * \<bar>b\<bar>)"
    by (simp add: rust_div_def abs_sgn [of b] mult_ac)
  moreover have "a = sgn a * \<bar>a\<bar>" by (simp add: sgn_mult_abs)
  ultimately have "rust_rem a b = sgn a * (\<bar>a\<bar> - \<bar>a\<bar> div \<bar>b\<bar> * \<bar>b\<bar>)"
    unfolding rust_rem_def by (metis right_diff_distrib')
  then show ?thesis by (simp add: minus_div_mult_eq_mod)
qed

text \<open>Floor division and modulo from the truncating ones.\<close>

lemma rust_div_floor:
  assumes "b \<noteq> 0"
  shows "a div b = rust_div a b - (if sgn b * sgn a < 0 \<and> rust_rem a b \<noteq> 0 then 1 else 0)"
proof -
  have neg: "(- m) div n = - (m div n) - (if m mod n = 0 then 0 else 1)" if "0 < n" for m n :: int
    using that zdiv_zminus1_eq_if [of n m] by simp
  consider "0 \<le> a" "0 < b" | "0 \<le> a" "b < 0" | "a < 0" "0 < b" | "a < 0" "b < 0"
    using assms by linarith
  then show ?thesis
  proof cases
    case 1
    then show ?thesis by (cases "a = 0") (simp_all add: rust_div_def)
  next
    case 2
    then have "a div b = (- a) div (- b)" by simp
    moreover have "a * (- 1) = - a" by simp
    moreover have "rust_rem a b = a mod (- b)" if "a \<noteq> 0"
      using that 2 by (simp add: rust_rem_def rust_div_def minus_div_mult_eq_mod algebra_simps flip: minus_div_mult_eq_mod)
    ultimately show ?thesis
      using 2 neg [of "- b" a] by (cases "a = 0") (auto simp: rust_div_def)
  next
    case 3
    have "rust_rem a b = - ((- a) mod b)"
      using 3 by (simp add: rust_rem_def rust_div_def algebra_simps flip: minus_div_mult_eq_mod)
    then show ?thesis using 3 neg [of b "- a"] by (auto simp: rust_div_def)
  next
    case 4
    then show ?thesis by (simp add: rust_div_def) 
  qed
qed

lemma abs_div_le_int: "\<bar>a div b\<bar> \<le> \<bar>a :: int\<bar>"
proof -
  have pos: "\<bar>a div b\<bar> \<le> \<bar>a\<bar>" if "0 < b" for a b :: int
  proof (cases "0 \<le> a")
    case True
    then have "a div b \<le> a div 1" using that by (intro zdiv_mono2) auto
    with True that show ?thesis by (simp add: pos_imp_zdiv_nonneg_iff)
  next
    case False
    then have "a div 1 \<le> a div b" using that by (intro zdiv_mono2_neg) auto
    moreover have "a div b < 0" using False that by (simp add: div_neg_pos_less0)
    ultimately show ?thesis by simp
  qed
  consider "b = 0" | "0 < b" | "0 < - b" by linarith
  then show ?thesis
  proof cases
    case 3
    from pos [OF this, of "- a"] show ?thesis by simp
  qed (use pos in auto)
qed

lemma rust_rem_floor:
  assumes "b \<noteq> 0"
  shows "a mod b = (if rust_rem a b \<noteq> 0 \<and> sgn b \<noteq> sgn (rust_rem a b) then rust_rem a b + b else rust_rem a b)"
proof -
  let ?off = "if sgn b * sgn a < 0 \<and> rust_rem a b \<noteq> 0 then 1 else 0 :: int"
  have "a mod b = a - (rust_div a b - ?off) * b"
    using rust_div_floor [OF assms, of a] minus_div_mult_eq_mod [of a b] by metis
  also have "\<dots> = rust_rem a b + ?off * b" unfolding rust_rem_def by (simp add: left_diff_distrib)
  finally have "a mod b = rust_rem a b + (if sgn b * sgn a < 0 \<and> rust_rem a b \<noteq> 0 then b else 0)" by simp
  moreover have "sgn (rust_rem a b) = sgn a" if "rust_rem a b \<noteq> 0"
    using that assms by (simp add: rust_rem_abs sgn_mult pos_mod_sign order_less_le)
  moreover have "sgn b * sgn a < 0 \<longleftrightarrow> sgn b \<noteq> sgn a" if "rust_rem a b \<noteq> 0"
    using that assms by (cases a "0 :: int" rule: linorder_cases; cases b "0 :: int" rule: linorder_cases)
      (auto simp: rust_rem_abs)
  ultimately show ?thesis by auto
qed

subsection \<open>Arithmetic sequences\<close>

text \<open>The integers \<open>a\<close>, \<open>a + d\<close>, \<open>a + 2 d\<close>, \<dots> before \<open>b\<close>: what a range or a slice with stride \<open>d\<close> stands for.\<close>

definition seq_count :: "int \<Rightarrow> int \<Rightarrow> int \<Rightarrow> int" where
  "seq_count a b d =
     (if 0 < d \<and> a < b then (b - a - 1) div d + 1
      else if d < 0 \<and> b < a then (a - b - 1) div (- d) + 1
      else 0)"

definition arith_seq :: "int \<Rightarrow> int \<Rightarrow> int \<Rightarrow> int list" where
  "arith_seq a b d = map (\<lambda>i. a + int i * d) [0..<nat (seq_count a b d)]"

lemma le_div_iff_mult_le_int:
  fixes i m d :: int
  assumes "0 < d"
  shows "i \<le> m div d \<longleftrightarrow> i * d \<le> m"
proof
  assume "i \<le> m div d"
  then have "i * d \<le> m div d * d" using assms by (simp add: mult_right_mono)
  also have "\<dots> \<le> m" using assms div_mult_mod_eq [of m d] pos_mod_sign [of d m] by linarith
  finally show "i * d \<le> m" .
next
  assume "i * d \<le> m"
  then have "i * d div d \<le> m div d" using assms by (rule zdiv_mono1)
  then show "i \<le> m div d" using assms by simp
qed

lemma seq_count_nonneg: "0 \<le> seq_count a b d"
  by (auto simp: seq_count_def pos_imp_zdiv_nonneg_iff)

lemma length_arith_seq: "int (length (arith_seq a b d)) = seq_count a b d"
  using seq_count_nonneg [of a b d] by (simp add: arith_seq_def)

lemma seq_count_le: "a < b \<Longrightarrow> 0 < d \<Longrightarrow> seq_count a b d \<le> b - a"
proof -
  assume "a < b" "0 < d"
  then have "(b - a - 1) div d \<le> b - a - 1" using zdiv_mono2 [of "b - a - 1" 1 d] by simp
  with \<open>a < b\<close> \<open>0 < d\<close> show ?thesis by (simp add: seq_count_def)
qed

lemma seq_count_neg: "seq_count a b d = seq_count (- a) (- b) (- d)"
  by (auto simp: seq_count_def algebra_simps)

text \<open>An index is in the sequence exactly while its element lies before \<open>b\<close>.\<close>

lemma seq_count_less_iff:
  assumes "d \<noteq> 0" and "0 \<le> i"
  shows "i < seq_count a b d \<longleftrightarrow> (if 0 < d then a + i * d < b else b < a + i * d)"
proof -
  have pos: "i < seq_count a b d \<longleftrightarrow> a + i * d < b" if d: "0 < d" for a b d :: int
  proof -
    have "i \<le> (b - a - 1) div d \<longleftrightarrow> i * d \<le> b - a - 1" using d by (rule le_div_iff_mult_le_int)
    then have "i < seq_count a b d \<longleftrightarrow> a + i * d < b" if "a < b"
      using d that by (auto simp: seq_count_def)
    moreover have "0 \<le> i * d" using assms(2) d by simp
    then have "\<not> a + i * d < b" if "\<not> a < b" using that by linarith
    moreover have "seq_count a b d = 0" if "\<not> a < b" using that d by (simp add: seq_count_def)
    ultimately show ?thesis using assms(2) by (cases "a < b") simp_all
  qed
  show ?thesis
  proof (cases "0 < d")
    case True
    then show ?thesis using pos by simp
  next
    case False
    with assms(1) have "0 < - d" by simp
    from pos [OF this, of "- a" "- b"] seq_count_neg [of a b d] False show ?thesis by auto
  qed
qed

end
