(* ===== verification/Slice_Index.thy ===== *)
theory Slice_Index
  imports Rust_Int
begin

text \<open>
  Indexing and slicing: \<^verbatim>\<open>starlark/src/values/index.rs\<close> (the indices and slices of lists, tuples and
  ranges) and \<^verbatim>\<open>starlark_syntax/src/convert_indices.rs\<close> (the bounds of string methods). A Starlark value
  given as an index is \<open>None\<close>, an integer of any size or something else.
\<close>

subsection \<open>\<^verbatim>\<open>values/index.rs\<close>\<close>

datatype idx_value = IdxNone | IdxInt int | IdxOther

datatype value_error = IntegerTooBig int | IncorrectType | IntegerOverflow | IndexOutOfBound int

type_synonym 'a value_result = "(value_error, 'a) outcome"

definition is_none :: "idx_value \<Rightarrow> bool" where
  "is_none v \<longleftrightarrow> v = IdxNone"

definition i32_unpack_value_err :: "idx_value \<Rightarrow> int value_result" where
  "i32_unpack_value_err v =
     (case v of
        IdxInt x \<Rightarrow> if in_i32 x then Ok x else Err (IntegerTooBig x)
      | _ \<Rightarrow> Err IncorrectType)"

definition convert_index_aux ::
  "bool \<Rightarrow> int \<Rightarrow> idx_value option \<Rightarrow> int \<Rightarrow> int \<Rightarrow> int \<Rightarrow> int value_result" where
  "convert_index_aux oc len v1 dflt lo hi =
     (case v1 of
        Some v \<Rightarrow>
          if is_none v then Ok dflt
          else bind_outcome (i32_unpack_value_err v) (\<lambda>x.
               bind_outcome (if x < 0 then plain_i32 oc (len + x) else Ok x) (\<lambda>i.
               if i < lo then Ok lo else if i > hi then Ok hi else Ok i))
      | None \<Rightarrow> Ok dflt)"

definition convert_index :: "idx_value \<Rightarrow> int \<Rightarrow> int value_result" where
  "convert_index v len =
     bind_outcome (i32_unpack_value_err v) (\<lambda>x.
     bind_outcome (if x < 0 then ok_or IntegerOverflow (checked_i32 (len + x)) else Ok x) (\<lambda>i.
     if i < 0 \<or> i \<ge> len then Err (IndexOutOfBound i) else Ok i))"

definition convert_slice_indices ::
  "bool \<Rightarrow> int \<Rightarrow> idx_value option \<Rightarrow> idx_value option \<Rightarrow> idx_value option \<Rightarrow> (int \<times> int \<times> int) value_result" where
  "convert_slice_indices oc len start stop stride =
     bind_outcome (case stride of
                     None \<Rightarrow> Ok 1
                   | Some v \<Rightarrow> if is_none v then Ok 1 else i32_unpack_value_err v) (\<lambda>stride.
     if stride = 0 then Err (IndexOutOfBound 0)
     else bind_outcome (if stride < 0 then plain_i32 oc (len - 1) else Ok 0) (\<lambda>def_start.
          let def_end = (if stride < 0 then -1 else len);
              clamp = (if stride < 0 then -1 else 0)
          in bind_outcome (plain_i32 oc (len + clamp)) (\<lambda>hi.
             let start = convert_index_aux oc len start def_start clamp hi;
                 stop = convert_index_aux oc len stop def_end clamp hi
             in (case (start, stop) of
                   (Panic, _) \<Rightarrow> Panic
                 | (_, Panic) \<Rightarrow> Panic
                 | (Ok s1, Ok s2) \<Rightarrow> Ok (s1, s2, stride)
                 | (Err x, _) \<Rightarrow> Err x
                 | (Ok _, Err x) \<Rightarrow> Err x))))"

text \<open>\<open>xs[a..b].to_vec()\<close> panics when the bounds are out of order or out of range. The casts of a
  negative \<open>i32\<close> to \<open>usize\<close> give a huge index.\<close>

definition usize_of_i32 :: "int \<Rightarrow> nat" where
  "usize_of_i32 x = nat (as_u64 x)"

definition slice_to_vec :: "'a list \<Rightarrow> nat \<Rightarrow> nat \<Rightarrow> ('e, 'a list) outcome" where
  "slice_to_vec xs a b = (if a \<le> b \<and> b \<le> length xs then Ok (take (b - a) (drop a xs)) else Panic)"

text \<open>\<open>enumerate().filter_map(..)\<close> with the Rust remainder.\<close>

fun take_every :: "int \<Rightarrow> nat \<Rightarrow> 'a list \<Rightarrow> 'a list" where
  "take_every astride i [] = []"
| "take_every astride i (x # xs) =
     (if rust_rem (wrap_i32 (int i)) astride = 0 then x # take_every astride (Suc i) xs
      else take_every astride (Suc i) xs)"

definition apply_slice ::
  "bool \<Rightarrow> 'a list \<Rightarrow> idx_value option \<Rightarrow> idx_value option \<Rightarrow> idx_value option \<Rightarrow> 'a list value_result" where
  "apply_slice oc xs start stop stride =
     bind_outcome (convert_slice_indices oc (wrap_i32 (int (length xs))) start stop stride) (\<lambda>(start, stop, stride).
     if stride = 1 then
       (if start \<ge> stop then Ok [] else slice_to_vec xs (usize_of_i32 start) (usize_of_i32 stop))
     else
       bind_outcome (if stride < 0 then plain_i32 oc (stop + 1) else Ok start) (\<lambda>lo.
       bind_outcome (if stride < 0 then plain_i32 oc (start + 1) else Ok stop) (\<lambda>hi.
       if lo \<ge> hi then Ok []
       else bind_outcome (slice_to_vec xs (usize_of_i32 lo) (usize_of_i32 hi)) (\<lambda>res.
            if stride = -1 then Ok (rev res)
            else let res = (if stride < 0 then rev res else res)
                 in bind_outcome (plain_i32 oc \<bar>stride\<bar>) (\<lambda>astride. Ok (take_every astride 0 res))))))"

subsection \<open>\<^verbatim>\<open>convert_indices.rs\<close>\<close>

definition ci_bound :: "int \<Rightarrow> int \<Rightarrow> nat" where
  "ci_bound val limit = (if val \<le> 0 then 0 else if val \<ge> limit then usize_of_i32 limit else usize_of_i32 val)"

definition convert_indices ::
  "bool \<Rightarrow> int \<Rightarrow> int option \<Rightarrow> int option \<Rightarrow> ('e, nat \<times> nat) outcome" where
  "convert_indices oc len start end' =
     (let start = (case start of None \<Rightarrow> 0 | Some s \<Rightarrow> s);
          end' = (case end' of None \<Rightarrow> len | Some e \<Rightarrow> e)
      in bind_outcome (if end' < 0 then plain_i32 oc (end' + len) else Ok end') (\<lambda>end'.
         bind_outcome (if start < 0 then plain_i32 oc (start + len) else Ok start) (\<lambda>start.
         Ok (ci_bound start len, ci_bound end' len))))"

definition ci_convert_index :: "bool \<Rightarrow> int \<Rightarrow> int \<Rightarrow> ('e, nat) outcome" where
  "ci_convert_index oc len start =
     bind_outcome (if start < 0 then plain_i32 oc (start + len) else Ok start) (\<lambda>start. Ok (ci_bound start len))"

subsection \<open>The bounds of a slice\<close>

text \<open>The meaning of the arguments: \<open>None\<close> and an absent argument are the default.\<close>

fun arg_int :: "idx_value option \<Rightarrow> int option" where
  "arg_int (Some (IdxInt x)) = Some x"
| "arg_int _ = None"

fun arg_ok :: "idx_value option \<Rightarrow> bool" where
  "arg_ok (Some (IdxInt x)) = in_i32 x"
| "arg_ok (Some IdxOther) = False"
| "arg_ok _ = True"

definition slice_bound :: "int \<Rightarrow> int \<Rightarrow> int \<Rightarrow> int option \<Rightarrow> int" where
  "slice_bound len stride dflt v =
     (case v of
        None \<Rightarrow> dflt
      | Some x \<Rightarrow> max (if stride < 0 then -1 else 0) (min (if stride < 0 then len - 1 else len)
                   (if x < 0 then len + x else x)))"

definition slice_start :: "int \<Rightarrow> int \<Rightarrow> idx_value option \<Rightarrow> int" where
  "slice_start len stride v = slice_bound len stride (if stride < 0 then len - 1 else 0) (arg_int v)"

definition slice_stop :: "int \<Rightarrow> int \<Rightarrow> idx_value option \<Rightarrow> int" where
  "slice_stop len stride v = slice_bound len stride (if stride < 0 then -1 else len) (arg_int v)"

definition slice_stride :: "idx_value option \<Rightarrow> int" where
  "slice_stride v = (case arg_int v of None \<Rightarrow> 1 | Some x \<Rightarrow> x)"

lemma convert_index_aux_ok:
  assumes "0 \<le> len" "len \<le> i32_max" and "arg_ok v" and "lo \<le> hi"
  shows "convert_index_aux oc len v dflt lo hi =
    Ok (case arg_int v of None \<Rightarrow> dflt | Some x \<Rightarrow> max lo (min hi (if x < 0 then len + x else x)))"
proof (cases v)
  case (Some w)
  show ?thesis
  proof (cases w)
    case (IdxInt x)
    have "in_i32 (len + x)" if "x < 0" using that assms IdxInt Some by (auto simp: i32_defs)
    then show ?thesis using assms IdxInt Some
      by (auto simp: convert_index_aux_def is_none_def i32_unpack_value_err_def)
  qed (use Some assms in \<open>auto simp: convert_index_aux_def is_none_def\<close>)
qed (simp add: convert_index_aux_def)

lemma convert_slice_indices_ok:
  assumes len: "0 \<le> len" "len \<le> i32_max" and ok: "arg_ok start" "arg_ok stop" "arg_ok stride"
    and nz: "slice_stride stride \<noteq> 0"
  shows "convert_slice_indices oc len start stop stride =
    (let d = slice_stride stride in Ok (slice_start len d start, slice_stop len d stop, d))"
proof -
  let ?d = "slice_stride stride"
  have d: "(case stride of None \<Rightarrow> Ok 1 | Some v \<Rightarrow> if is_none v then Ok 1 else i32_unpack_value_err v) = Ok ?d"
    using ok(3) by (cases stride rule: arg_int.cases)
      (auto simp: slice_stride_def is_none_def i32_unpack_value_err_def)
  have "in_i32 (len - 1)" "in_i32 len" using len by (auto simp: i32_defs)
  with d nz len ok convert_index_aux_ok [OF len ok(1)] convert_index_aux_ok [OF len ok(2)] show ?thesis
    by (simp add: convert_slice_indices_def Let_def slice_start_def slice_stop_def slice_bound_def
        split: option.split)
qed

lemma slice_bounds:
  assumes "0 \<le> len" and "d \<noteq> 0"
  shows "slice_start len d v \<in> {(if d < 0 then -1 else 0)..(if d < 0 then len - 1 else len)}"
    and "slice_stop len d v \<in> {(if d < 0 then -1 else 0)..(if d < 0 then len - 1 else len)}"
  using assms by (auto simp: slice_start_def slice_stop_def slice_bound_def split: option.splits)

subsection \<open>Every n-th element\<close>

lemma rust_rem_i32_min: "0 \<le> a \<Longrightarrow> a \<le> i32_max \<Longrightarrow> rust_rem a i32_min = a"
  by (simp add: rust_rem_def rust_div_def i32_defs)

lemma take_every_nths:
  assumes "\<And>j. i \<le> j \<Longrightarrow> j < i + length xs \<Longrightarrow> rust_rem (wrap_i32 (int j)) a = 0 \<longleftrightarrow> k dvd j"
  shows "take_every a i xs = nths xs {j. k dvd (i + j)}"
  using assms
proof (induction xs arbitrary: i)
  case (Cons x xs)
  have "take_every a (Suc i) xs = nths xs {j. k dvd (Suc i + j)}"
    by (rule Cons.IH) (use Cons.prems in auto)
  with Cons.prems [of i] show ?case by (simp add: nths_Cons)
qed simp

lemma nths_dvd_snoc: "nths (xs @ [x]) {j. k dvd j} = nths xs {j. k dvd j} @ (if k dvd length xs then [x] else [])"
  by (simp add: nths_append)

lemma seq_count_Suc:
  assumes "0 < k"
  shows "nat (seq_count 0 (int (Suc n)) (int k)) =
    nat (seq_count 0 (int n) (int k)) + (if k dvd n then 1 else 0)"
proof (cases n)
  case (Suc m)
  have step: "Suc m div k = m div k + (if k dvd Suc m then 1 else 0)"
    by (simp add: div_Suc dvd_eq_mod_eq_0)
  have count: "nat (seq_count 0 (int (Suc j)) (int k)) = j div k + 1" for j
    using assms by (simp add: seq_count_def nat_add_distrib flip: of_nat_div)
  show ?thesis unfolding Suc count by (simp add: step)
qed (use assms in \<open>simp add: seq_count_def\<close>)

lemma nths_dvd:
  assumes "0 < k"
  shows "nths xs {j. k dvd j} = map (\<lambda>i. xs ! nat i) (arith_seq 0 (int (length xs)) (int k))"
proof (induction xs rule: rev_induct)
  case Nil
  show ?case by (simp add: arith_seq_def seq_count_def)
next
  case (snoc x xs)
  let ?n = "nat (seq_count 0 (int (length xs)) (int k))"
  have lt: "i * k < length xs" if "i < ?n" for i
    using seq_count_less_iff [of "int k" "int i" 0 "int (length xs)"] that assms
    by (auto simp flip: of_nat_mult)
  have "nat (int i * int k) = i * k" for i by (simp flip: of_nat_mult)
  note simps = arith_seq_def this
  have old: "map (\<lambda>i. (xs @ [x]) ! (i * k)) [0..<?n] = map (\<lambda>i. xs ! (i * k)) [0..<?n]"
    using lt by (auto simp: nth_append)
  have new: "?n * k = length xs" if "k dvd length xs"
  proof -
    from that obtain m where m: "length xs = m * k" by (auto simp: dvd_def mult.commute)
    have "int i < seq_count 0 (int (length xs)) (int k) \<longleftrightarrow> i < m" for i
      using seq_count_less_iff [of "int k" "int i" 0 "int (length xs)"] assms m
      by (auto simp flip: of_nat_mult)
    then have "?n = m" by (metis nat_int seq_count_nonneg int_nat_eq of_nat_less_iff linorder_neqE_nat less_irrefl)
    with m show ?thesis by simp
  qed
  have n': "nat (seq_count 0 (int (length (xs @ [x]))) (int k)) = ?n + (if k dvd length xs then 1 else 0)"
    using seq_count_Suc [OF assms, of "length xs"] by simp
  show ?case
    unfolding nths_dvd_snoc snoc.IH simps n' map_map comp_def add_0
    using old new by (simp add: simps)
qed

lemma take_every_seq:
  assumes "0 < k" and "int (length xs) \<le> i32_max"
    and "a = int k \<or> (a = i32_min \<and> int k = - i32_min)"
  shows "take_every a 0 xs = map (\<lambda>i. xs ! nat i) (arith_seq 0 (int (length xs)) (int k))"
proof -
  have "rust_rem (wrap_i32 (int j)) a = 0 \<longleftrightarrow> k dvd j" if "j < length xs" for j
  proof -
    have j: "in_i32 (int j)" "int j \<le> i32_max" using that assms(2) by (auto simp: i32_defs)
    show ?thesis
      using assms(3)
    proof
      assume "a = int k"
      then show ?thesis using j assms(1) by (simp add: rust_rem_nonneg flip: of_nat_mod dvd_eq_mod_eq_0)
    next
      assume a: "a = i32_min \<and> int k = - i32_min"
      then have "j < k" using j(2) by (simp add: i32_defs)
      then have "k dvd j \<longleftrightarrow> j = 0" by (auto dest: dvd_imp_le)
      then show ?thesis using a j by (simp add: rust_rem_i32_min)
    qed
  qed
  then have "take_every a 0 xs = nths xs {j. k dvd 0 + j}" by (intro take_every_nths) simp
  then show ?thesis using nths_dvd [OF assms(1), of xs] by simp
qed

lemma all_elements: "map (\<lambda>i. xs ! nat i) (arith_seq 0 (int (length xs)) 1) = xs"
  using nths_dvd [of 1 xs] by (simp add: nths_all)

subsection \<open>Slices\<close>

lemma arith_seq_in_bounds:
  assumes "i \<in> set (arith_seq 0 n k)" and "0 < k"
  shows "0 \<le> i \<and> i < n"
proof -
  from assms(1) obtain j where j: "i = int j * k" "j < nat (seq_count 0 n k)"
    by (fastforce simp: arith_seq_def)
  then have "int j < seq_count 0 n k" by simp
  then show ?thesis using seq_count_less_iff [of k "int j" 0 n] j assms(2) by simp
qed

lemma arith_seq_shift: "arith_seq a b d = map (\<lambda>i. a + i) (arith_seq 0 (b - a) d)"
proof -
  have "seq_count a b d = seq_count 0 (b - a) d" by (auto simp: seq_count_def)
  then show ?thesis by (simp add: arith_seq_def)
qed

lemma arith_seq_reflect: "arith_seq a b d = map (\<lambda>i. a - i) (arith_seq 0 (a - b) (- d))"
proof -
  have "seq_count a b d = seq_count 0 (a - b) (- d)" by (auto simp: seq_count_def algebra_simps)
  then show ?thesis by (simp add: arith_seq_def)
qed

lemma arith_seq_empty: "arith_seq a b d = [] \<longleftrightarrow> \<not> (if 0 < d then a < b else d < 0 \<and> b < a)"
  using seq_count_less_iff [of d 0 a b] seq_count_nonneg [of a b d]
  by (auto simp: arith_seq_def seq_count_def)

lemma usize_of_i32_nonneg [simp]: "0 \<le> x \<Longrightarrow> x \<le> i32_max \<Longrightarrow> usize_of_i32 x = nat x"
  by (simp add: usize_of_i32_def i32_defs)

lemma slice_forward:
  assumes "0 \<le> lo" "lo < hi" "hi \<le> int (length xs)" and "0 < d"
  shows "map (\<lambda>i. take (nat hi - nat lo) (drop (nat lo) xs) ! nat i)
      (arith_seq 0 (hi - lo) d) = map (\<lambda>i. xs ! nat i) (arith_seq lo hi d)"
  unfolding arith_seq_shift [of lo hi d] map_map comp_def
proof (rule map_cong [OF refl])
  fix i assume "i \<in> set (arith_seq 0 (hi - lo) d)"
  from arith_seq_in_bounds [OF this assms(4)] assms
  have "nat i < nat hi - nat lo" "0 \<le> i" by linarith+
  then show "take (nat hi - nat lo) (drop (nat lo) xs) ! nat i = xs ! nat (lo + i)"
    using assms by (simp add: nat_add_distrib)
qed

lemma nth_rev_slice: "i < n \<Longrightarrow> l + n \<le> length xs \<Longrightarrow> rev (take n (drop l xs)) ! i = xs ! (l + (n - Suc i))"
  by (simp add: rev_nth)

lemma slice_backward:
  assumes "0 \<le> lo" "lo < hi" "hi \<le> int (length xs)" and "d < 0"
  shows "map (\<lambda>i. rev (take (nat hi - nat lo) (drop (nat lo) xs)) ! nat i)
      (arith_seq 0 (hi - lo) (- d)) = map (\<lambda>i. xs ! nat i) (arith_seq (hi - 1) (lo - 1) d)"
proof -
  have "hi - 1 - (lo - 1) = hi - lo" by simp
  note seq = arith_seq_reflect [of "hi - 1" "lo - 1" d, unfolded this]
  show ?thesis
    unfolding seq map_map comp_def
  proof (rule map_cong [OF refl])
    fix i assume "i \<in> set (arith_seq 0 (hi - lo) (- d))"
    from arith_seq_in_bounds [OF this] assms have i: "0 \<le> i" "i < hi - lo" by auto
    have "nat i < nat hi - nat lo" "nat lo + (nat hi - nat lo) \<le> length xs" using i assms by linarith+
    then have "rev (take (nat hi - nat lo) (drop (nat lo) xs)) ! nat i = xs ! (nat lo + (nat hi - nat lo - Suc (nat i)))"
      by (rule nth_rev_slice)
    also have "nat lo + (nat hi - nat lo - Suc (nat i)) = nat (hi - 1 - i)" using i assms by linarith
    finally show "rev (take (nat hi - nat lo) (drop (nat lo) xs)) ! nat i = xs ! nat (hi - 1 - i)" .
  qed
qed

lemma slice_to_vec_ok:
  assumes "0 \<le> lo" "lo < hi" "hi \<le> int (length xs)" and "int (length xs) \<le> i32_max"
  shows "slice_to_vec xs (usize_of_i32 lo) (usize_of_i32 hi) = Ok (take (nat hi - nat lo) (drop (nat lo) xs))"
  using assms by (simp add: slice_to_vec_def nat_le_iff)

text \<open>The whole slice: the elements at the positions the bounds stand for.\<close>

lemma apply_slice_ok:
  fixes xs :: "'a list"
  assumes len: "int (length xs) \<le> i32_max" and ok: "arg_ok start" "arg_ok stop" "arg_ok stride"
    and d: "slice_stride stride \<noteq> 0" "oc \<longrightarrow> slice_stride stride \<noteq> i32_min"
  shows "apply_slice oc xs start stop stride =
    (let d = slice_stride stride; n = int (length xs)
     in Ok (map (\<lambda>i. xs ! nat i) (arith_seq (slice_start n d start) (slice_stop n d stop) d)))"
proof -
  let ?n = "int (length xs)" and ?d = "slice_stride stride"
  define a where "a = slice_start ?n ?d start"
  define b where "b = slice_stop ?n ?d stop"
  have "in_i32 ?n" using len by (auto simp: i32_defs)
  with len have conv: "convert_slice_indices oc (wrap_i32 ?n) start stop stride = Ok (a, b, ?d)"
    using convert_slice_indices_ok [OF _ len ok d(1)] by (simp add: a_def b_def Let_def)
  have ab: "a \<in> {(if ?d < 0 then -1 else 0)..(if ?d < 0 then ?n - 1 else ?n)}"
      "b \<in> {(if ?d < 0 then -1 else 0)..(if ?d < 0 then ?n - 1 else ?n)}"
    unfolding a_def b_def using slice_bounds [OF _ d(1)] by simp_all
  have din: "in_i32 ?d" using ok(3) by (cases stride rule: arg_int.cases) (auto simp: slice_stride_def i32_defs)
  have result: "apply_slice oc xs start stop stride = Ok (map (\<lambda>i. xs ! nat i) (arith_seq a b ?d))"
  proof (cases "if 0 < ?d then a < b else b < a")
    case False
    then have "arith_seq a b ?d = []" using d(1) by (auto simp: arith_seq_empty)
    moreover have "in_i32 (a + 1)" "in_i32 (b + 1)" if "?d < 0" using that ab len by (auto simp: i32_defs)
    ultimately show ?thesis using conv False d(1) by (auto simp: apply_slice_def)
  next
    case True
    show ?thesis
    proof (cases "0 < ?d")
      case pos: True
      with True ab have bounds: "0 \<le> a" "a < b" "b \<le> ?n" by auto
      let ?r = "take (nat b - nat a) (drop (nat a) xs)"
      have r: "int (length ?r) = b - a" "int (length ?r) \<le> i32_max" using bounds len by simp_all
      have every: "take_every ?d 0 ?r = map (\<lambda>i. xs ! nat i) (arith_seq a b ?d)"
        using take_every_seq [of "nat ?d" ?r ?d] slice_forward [OF bounds pos] pos r by simp
      have one: "?r = map (\<lambda>i. xs ! nat i) (arith_seq a b 1)"
        using slice_forward [OF bounds, of 1] all_elements [of ?r] r by simp
      show ?thesis
        using conv bounds pos every one slice_to_vec_ok [OF bounds len] din
        by (auto simp: apply_slice_def i32_defs)
    next
      case False
      with d(1) have neg: "?d < 0" by simp
      with True False ab have bounds: "0 \<le> b + 1" "b + 1 < a + 1" "a + 1 \<le> ?n" by auto
      then have in32: "in_i32 (a + 1)" "in_i32 (b + 1)" using len by (auto simp: i32_defs)
      let ?r = "take (nat (a + 1) - nat (b + 1)) (drop (nat (b + 1)) xs)"
      have r: "int (length (rev ?r)) = a - b" "int (length (rev ?r)) \<le> i32_max" using bounds len by simp_all
      obtain k where k: "(plain_i32 oc \<bar>?d\<bar> :: int value_result) = Ok k" "k = - ?d \<or> (k = i32_min \<and> - ?d = - i32_min)"
      proof (cases "?d = i32_min")
        case True
        then have "(plain_i32 oc \<bar>?d\<bar> :: int value_result) = Ok i32_min" using d(2) by (simp add: plain_i32_def i32_defs wrap_i32_def)
        then show ?thesis by (rule that) (simp add: True)
      next
        case ne: False
        then have "in_i32 \<bar>?d\<bar>" using neg din by (auto simp: i32_defs)
        then show ?thesis using that [of "- ?d"] neg by simp
      qed
      have every: "take_every k 0 (rev ?r) = map (\<lambda>i. xs ! nat i) (arith_seq a b ?d)"
        using take_every_seq [of "nat (- ?d)" "rev ?r" k] slice_backward [OF bounds neg] neg r k(2) by simp
      have one: "rev ?r = map (\<lambda>i. xs ! nat i) (arith_seq a b (- 1))"
        using slice_backward [OF bounds, of "- 1"] all_elements [of "rev ?r"] r by simp
      define r where "r = ?r"
      have facts: "(slice_to_vec xs (usize_of_i32 (b + 1)) (usize_of_i32 (a + 1)) :: 'a list value_result) = Ok r"
          "take_every k 0 (rev r) = map (\<lambda>i. xs ! nat i) (arith_seq a b ?d)"
          "rev r = map (\<lambda>i. xs ! nat i) (arith_seq a b (- 1))"
        using slice_to_vec_ok [OF bounds len] every one by (simp_all add: r_def)
      with conv bounds neg in32 k(1) show ?thesis
        by (cases "?d = -1") (simp_all add: apply_slice_def Let_def del: abs_of_neg)
    qed
  qed
  then show ?thesis by (simp add: a_def b_def Let_def)
qed

subsection \<open>Properties\<close>

text \<open>C9. A slice \<open>xs[start:stop:stride]\<close> with integer or absent bounds and a non-zero stride is the list of
  the elements at the positions \<open>start\<close>, \<open>start + stride\<close>, \<dots> before \<open>stop\<close>, the bounds counted from the end when
  negative and clipped to the list. No arithmetic overflows, except in a build with overflow checks
  for the smallest \<open>i32\<close> as the stride.\<close>

theorem apply_slice_selects:
  fixes xs :: "'a list"
  assumes "int (length xs) \<le> i32_max" and "arg_ok start" "arg_ok stop" "arg_ok stride"
    and "slice_stride stride \<noteq> 0" "overflow_checks \<longrightarrow> slice_stride stride \<noteq> i32_min"
  shows "apply_slice overflow_checks xs start stop stride =
    (let d = slice_stride stride; n = int (length xs)
     in Ok (map (\<lambda>i. xs ! nat i) (arith_seq (slice_start n d start) (slice_stop n d stop) d)))"
  using assms by (rule apply_slice_ok)

theorem apply_slice_selects_witness:
  "apply_slice True [0, 1, 2, 3, 4, 5, 6::nat] (Some (IdxInt 5)) (Some (IdxInt 2)) (Some (IdxInt (-2))) = Ok [5, 3]"
  using apply_slice_selects [of "[0, 1, 2, 3, 4, 5, 6::nat]" "Some (IdxInt 5)" "Some (IdxInt 2)" "Some (IdxInt (-2))" True]
  by (simp add: i32_defs slice_stride_def slice_start_def slice_stop_def slice_bound_def Let_def
      arith_seq_def seq_count_def upt_rec)

text \<open>\<open>convert_index\<close> on an integer accepts exactly the positions from \<open>-len\<close> to \<open>len - 1\<close> and returns the
  position from the start; everything else is an error value, and the overflow error is never raised.\<close>

theorem convert_index_spec:
  assumes "0 \<le> len" and "len \<le> i32_max"
  shows "convert_index (IdxInt x) len =
    (if \<not> in_i32 x then Err (IntegerTooBig x)
     else if - len \<le> x \<and> x < len then Ok (if x < 0 then len + x else x)
     else Err (IndexOutOfBound (if x < 0 then len + x else x)))"
  using assms by (auto simp: convert_index_def i32_unpack_value_err_def checked_i32_def i32_defs)

theorem convert_index_spec_witness: "convert_index (IdxInt (-1)) 7 = Ok 6"
  using convert_index_spec [of 7 "-1"] by (simp add: i32_defs)

text \<open>The bounds that \<open>convert_indices\<close> computes for a string method lie within the string, and computing
  them never overflows.\<close>

theorem convert_indices_in_bounds:
  assumes "0 \<le> len" and "len \<le> i32_max" and "pred_option in_i32 start" and "pred_option in_i32 stop"
  shows "\<exists>s e. convert_indices overflow_checks len start stop = Ok (s, e) \<and> int s \<le> len \<and> int e \<le> len \<and>
    (start = None \<longrightarrow> s = 0) \<and> (stop = None \<longrightarrow> int e = len)"
proof -
  define s where "s = (case start of None \<Rightarrow> 0 | Some s \<Rightarrow> s)"
  define e where "e = (case stop of None \<Rightarrow> len | Some e \<Rightarrow> e)"
  have in32: "in_i32 s" "in_i32 e"
    using assms by (auto simp: s_def e_def i32_defs split: option.splits)
  then have sum: "s < 0 \<Longrightarrow> in_i32 (s + len)" "e < 0 \<Longrightarrow> in_i32 (e + len)"
    using assms by (auto simp: i32_defs)
  have bound: "int (ci_bound v len) \<le> len" for v
    using assms by (auto simp: ci_bound_def)
  have "convert_indices overflow_checks len start stop =
      Ok (ci_bound (if s < 0 then s + len else s) len, ci_bound (if e < 0 then e + len else e) len)"
    using sum unfolding convert_indices_def s_def [symmetric] e_def [symmetric] Let_def by auto
  moreover have "start = None \<Longrightarrow> ci_bound (if s < 0 then s + len else s) len = 0"
    by (simp add: s_def ci_bound_def)
  moreover have "stop = None \<Longrightarrow> int (ci_bound (if e < 0 then e + len else e) len) = len"
    using assms by (auto simp: e_def ci_bound_def)
  ultimately show ?thesis using bound by blast
qed

theorem convert_indices_in_bounds_witness:
  "\<exists>s e. convert_indices True 5 (Some (-9)) (Some 3) = Ok (s, e) \<and> int s \<le> 5 \<and> int e \<le> 5"
  using convert_indices_in_bounds [of 5 "Some (-9)" "Some 3" True] by (auto simp: i32_defs)

text \<open>With overflow checks, slicing a non-empty list with the smallest \<open>i32\<close> as the stride panics:
  \<open>stride.abs()\<close> overflows.\<close>

theorem apply_slice_min_stride_panics:
  "apply_slice True [1, 2, 3::nat] None None (Some (IdxInt (- (2 ^ 31)))) = Panic"
  by (simp add: apply_slice_def convert_slice_indices_def i32_unpack_value_err_def convert_index_aux_def
      is_none_def i32_defs wrap_i32_def slice_to_vec_def usize_of_i32_def as_u64_def plain_i32_def Let_def)

end
