(* ===== verification/Range_Type.thy ===== *)
theory Range_Type
  imports Slice_Index
begin

text \<open>
  \<^verbatim>\<open>starlark/src/values/types/range\<close>: the value of \<open>range(start, stop, step)\<close>, three \<open>i32\<close> with a non-zero
  step. Length, indexing, slicing, membership and equality are computed without the elements;
  iteration computes them one by one with \<open>i64\<close> arithmetic.
\<close>

record range =
  r_start :: int
  r_stop :: int
  r_step :: int

text \<open>What the types \<open>i32\<close> and \<open>NonZeroI32\<close> guarantee.\<close>

definition range_wf :: "range \<Rightarrow> bool" where
  "range_wf r \<longleftrightarrow> in_i32 (r_start r) \<and> in_i32 (r_stop r) \<and> in_i32 (r_step r) \<and> r_step r \<noteq> 0"

text \<open>The builtin \<open>range(a1, a2, step)\<close>; \<open>None\<close> is the error that the step is zero.\<close>

definition range_builtin :: "int \<Rightarrow> int option \<Rightarrow> int \<Rightarrow> range option" where
  "range_builtin a1 a2 step =
     (let start = (case a2 of None \<Rightarrow> 0 | Some _ \<Rightarrow> a1);
          stop = (case a2 of None \<Rightarrow> a1 | Some s \<Rightarrow> s)
      in if step = 0 then None else Some \<lparr>r_start = start, r_stop = stop, r_step = step\<rparr>)"

definition range_to_bool :: "range \<Rightarrow> bool" where
  "range_to_bool r \<longleftrightarrow>
     (r_start r < r_stop r \<and> r_step r > 0) \<or> (r_start r > r_stop r \<and> r_step r < 0)"

definition range_length :: "range \<Rightarrow> int value_result" where
  "range_length r =
     (if r_start r = r_stop r then Ok 0
      else if (r_stop r \<ge> r_start r) \<noteq> (r_step r > 0) then Ok 0
      else let (dist, step) =
                 (if r_step r \<ge> 0
                  then (as_u64 (wrap_i32 (r_stop r - r_start r)), as_u64 (r_step r))
                  else (as_u64 (wrap_i32 (r_start r - r_stop r)), as_u64 (wrap_i32 (- r_step r))));
               i = wrap_i32 ((dist - 1) div step + 1)
           in if i \<ge> 0 then Ok i else Err IntegerOverflow)"

definition range_at :: "bool \<Rightarrow> range \<Rightarrow> idx_value \<Rightarrow> int value_result" where
  "range_at oc r index =
     bind_outcome (range_length r) (\<lambda>len.
     bind_outcome (convert_index index len) (\<lambda>i.
     bind_outcome (plain_i32 oc (r_step r * i)) (\<lambda>off. plain_i32 oc (r_start r + off))))"

definition equals_range :: "range \<Rightarrow> range \<Rightarrow> bool value_result" where
  "equals_range r other =
     bind_outcome (range_length r) (\<lambda>self_length.
     bind_outcome (range_length other) (\<lambda>other_length.
     if self_length = 0 \<or> other_length = 0 then Ok (self_length = other_length)
     else if r_start r \<noteq> r_start other then Ok False
     else if self_length = 1 \<or> other_length = 1 then Ok (self_length = other_length)
     else if r_step r = r_step other then Ok (self_length = other_length)
     else Ok False))"

definition range_slice ::
  "bool \<Rightarrow> range \<Rightarrow> idx_value option \<Rightarrow> idx_value option \<Rightarrow> idx_value option \<Rightarrow> range value_result" where
  "range_slice oc r start stop stride =
     bind_outcome (range_length r) (\<lambda>len.
     bind_outcome (convert_slice_indices oc len start stop stride) (\<lambda>(start, stop, step).
     bind_outcome (ok_or IntegerOverflow (checked_i32 (start * r_step r))) (\<lambda>a.
     bind_outcome (ok_or IntegerOverflow (checked_i32 (r_start r + a))) (\<lambda>new_start.
     bind_outcome (ok_or IntegerOverflow (checked_i32 (stop * r_step r))) (\<lambda>b.
     bind_outcome (ok_or IntegerOverflow (checked_i32 (r_start r + b))) (\<lambda>new_stop.
     bind_outcome (ok_or IntegerOverflow (checked_i32 (step * r_step r))) (\<lambda>new_step.
     if new_step = 0 then Panic
     else Ok \<lparr>r_start = new_start, r_stop = new_stop, r_step = new_step\<rparr>)))))))"

text \<open>Iteration: the rest of the range after \<open>index\<close> items, and the next item.\<close>

definition rem_range_at_iter :: "range \<Rightarrow> nat \<Rightarrow> range option" where
  "rem_range_at_iter r index =
     (if int index \<le> 2 ^ 63 - 1
      then let start = saturate_i64 (r_start r + saturate_i64 (int index * r_step r))
           in (case checked_i32 start of
                 None \<Rightarrow> None
               | Some s \<Rightarrow> Some \<lparr>r_start = s, r_stop = r_stop r, r_step = r_step r\<rparr>)
      else None)"

definition range_iter_next :: "range \<Rightarrow> nat \<Rightarrow> int option" where
  "range_iter_next r index =
     (case rem_range_at_iter r index of
        None \<Rightarrow> None
      | Some rem \<Rightarrow> if \<not> range_to_bool rem then None else Some (r_start rem))"

definition range_iter_size_hint :: "range \<Rightarrow> nat \<Rightarrow> nat \<times> nat option" where
  "range_iter_size_hint r index =
     (case rem_range_at_iter r index of
        None \<Rightarrow> (0, Some 0)
      | Some rem \<Rightarrow>
          (case range_length rem of
             Ok len \<Rightarrow> (nat len, Some (nat len))
           | _ \<Rightarrow> (0, None)))"

text \<open>\<open>is_in\<close> on a number that converts to an \<open>i32\<close>; anything else is not in the range.\<close>

definition range_is_in :: "range \<Rightarrow> int option \<Rightarrow> bool" where
  "range_is_in r other =
     (case other of
        None \<Rightarrow> False
      | Some x \<Rightarrow>
          if \<not> range_to_bool r then False
          else if r_start r = x then True
          else if r_step r > 0 then
            (if x < r_start r \<or> x \<ge> r_stop r then False
             else as_u64 (wrap_i32 (x - r_start r)) mod as_u64 (r_step r) = 0)
          else
            (if x > r_start r \<or> x \<le> r_stop r then False
             else as_u64 (wrap_i32 (r_start r - x)) mod as_u64 (wrap_i32 (- r_step r)) = 0))"

subsection \<open>The elements of a range\<close>

definition range_elems :: "range \<Rightarrow> int list" where
  "range_elems r = arith_seq (r_start r) (r_stop r) (r_step r)"

abbreviation range_count :: "range \<Rightarrow> int" where
  "range_count r \<equiv> seq_count (r_start r) (r_stop r) (r_step r)"

text \<open>The distance between the bounds fits an \<open>i32\<close>: what the length computation needs.\<close>

definition range_small :: "range \<Rightarrow> bool" where
  "range_small r \<longleftrightarrow> \<bar>r_stop r - r_start r\<bar> \<le> i32_max"

lemma range_to_bool_iff: "range_wf r \<Longrightarrow> range_to_bool r \<longleftrightarrow> 0 < range_count r"
  using seq_count_less_iff [of "r_step r" 0 "r_start r" "r_stop r"]
  by (auto simp: range_to_bool_def range_wf_def split: if_splits)

lemma nth_range_elems: "i < length (range_elems r) \<Longrightarrow> range_elems r ! i = r_start r + int i * r_step r"
  by (simp add: range_elems_def arith_seq_def)

lemma length_range_elems: "int (length (range_elems r)) = range_count r"
  by (simp add: range_elems_def length_arith_seq)

lemma in_i32_neg_wrap: "in_i32 x \<Longrightarrow> x < 0 \<Longrightarrow> as_u64 (wrap_i32 (- x)) = (if x = i32_min then 2 ^ 64 - 2 ^ 31 else - x)"
  by (auto simp: i32_defs wrap_i32_def as_u64_def)

lemma range_length_small:
  assumes wf: "range_wf r" and small: "range_small r"
  shows "range_length r = Ok (range_count r)"
proof -
  let ?a = "r_start r" and ?b = "r_stop r" and ?d = "r_step r"
  have cnt: "in_i32 (range_count r)" if "range_count r \<le> \<bar>?b - ?a\<bar>"
    using that small seq_count_nonneg [of ?a ?b ?d] by (auto simp: range_small_def i32_defs)
  consider "\<not> range_to_bool r" | "?d > 0" "?a < ?b" | "?d < 0" "?b < ?a"
    by (auto simp: range_to_bool_def)
  then show ?thesis
  proof cases
    case 1
    then show ?thesis using wf by (auto simp: range_length_def range_to_bool_def seq_count_def range_wf_def)
  next
    case 2
    then have "as_u64 (wrap_i32 (?b - ?a)) = ?b - ?a" "as_u64 ?d = ?d"
      using small wf by (auto simp: range_small_def range_wf_def i32_defs wrap_i32_def as_u64_def)
    moreover have "in_i32 (range_count r)" using 2 by (intro cnt) (simp add: seq_count_le)
    ultimately show ?thesis
      using 2 seq_count_nonneg [of ?a ?b ?d] by (simp add: range_length_def Let_def seq_count_def)
  next
    case 3
    have dist: "as_u64 (wrap_i32 (?a - ?b)) = ?a - ?b" "?a - ?b \<le> i32_max"
      using small wf 3 by (auto simp: range_small_def range_wf_def i32_defs wrap_i32_def as_u64_def)
    have "seq_count ?a ?b ?d \<le> ?a - ?b"
      using seq_count_neg [of ?a ?b ?d] seq_count_le [of "- ?a" "- ?b" "- ?d"] 3 by simp
    then have c: "in_i32 (range_count r)" using 3 by (intro cnt) simp
    have "(?a - ?b - 1) div as_u64 (wrap_i32 (- ?d)) = (?a - ?b - 1) div (- ?d)"
    proof (cases "?d = i32_min")
      case True
      then have "as_u64 (wrap_i32 (- ?d)) = 2 ^ 64 - 2 ^ 31" by (simp add: wrap_i32_def as_u64_def i32_defs)
      then show ?thesis using True dist 3 by (simp add: i32_defs div_pos_pos_trivial)
    next
      case False
      then show ?thesis using 3 wf in_i32_neg_wrap [of ?d] by (simp add: range_wf_def)
    qed
    then show ?thesis
      using 3 c dist(1) seq_count_nonneg [of ?a ?b ?d] by (simp add: range_length_def Let_def seq_count_def)
  qed
qed

subsection \<open>Iteration\<close>

lemma saturate_i64_id [simp]: "in_i64 x \<Longrightarrow> saturate_i64 x = x"
  by (simp add: saturate_i64_def in_i64_def)

lemma saturate_i64_far:
  "in_i32 a \<Longrightarrow> \<not> in_i64 x \<Longrightarrow> \<not> in_i32 (saturate_i64 (a + saturate_i64 x)) \<and> \<not> in_i32 (a + x)"
  by (auto simp: saturate_i64_def in_i64_def i32_defs)

lemma saturate_i64_sum:
  assumes "in_i32 a"
  shows "checked_i32 (saturate_i64 (a + saturate_i64 x)) = checked_i32 (a + x)"
proof (cases "in_i64 x")
  case True
  show ?thesis
  proof (cases "in_i64 (a + x)")
    case False
    then have "\<not> in_i32 (a + x)" "\<not> in_i32 (saturate_i64 (a + x))"
      by (auto simp: in_i64_def i32_defs saturate_i64_def)
    then show ?thesis using True by (simp add: checked_i32_def)
  qed (use True in simp)
next
  case False
  from saturate_i64_far [OF assms this] show ?thesis by (simp add: checked_i32_def)
qed

lemma range_element_between:
  assumes "range_wf r" and "0 \<le> i" and "i < range_count r"
  shows "min (r_start r) (r_stop r) \<le> r_start r + i * r_step r \<and>
    r_start r + i * r_step r \<le> max (r_start r) (r_stop r)"
proof (cases "0 < r_step r")
  case True
  then have "0 \<le> i * r_step r" using assms(2) by simp
  moreover have "r_start r + i * r_step r < r_stop r"
    using seq_count_less_iff [of "r_step r" i "r_start r" "r_stop r"] assms True by simp
  ultimately show ?thesis by linarith
next
  case False
  then have "i * r_step r \<le> 0" using assms(2) by (simp add: mult_le_0_iff)
  moreover have "r_stop r < r_start r + i * r_step r"
    using seq_count_less_iff [of "r_step r" i "r_start r" "r_stop r"] assms False by (simp add: range_wf_def)
  ultimately show ?thesis by linarith
qed

lemma range_element_in_i32:
  assumes "range_wf r" and "0 \<le> i" and "i < range_count r"
  shows "in_i32 (r_start r + i * r_step r)"
  using range_element_between [OF assms] assms(1) by (auto simp: range_wf_def in_i32_def)

lemma rem_range_at_iter_wf:
  assumes "in_i32 (r_start r)"
  shows "rem_range_at_iter r i =
    (if int i \<le> 2 ^ 63 - 1 \<and> in_i32 (r_start r + int i * r_step r)
     then Some \<lparr>r_start = r_start r + int i * r_step r, r_stop = r_stop r, r_step = r_step r\<rparr> else None)"
  unfolding rem_range_at_iter_def Let_def saturate_i64_sum [OF assms] by (simp add: checked_i32_def)

lemma range_count_le_dist: "range_count r \<le> \<bar>r_stop r - r_start r\<bar>"
  using seq_count_le [of "r_start r" "r_stop r" "r_step r"]
    seq_count_le [of "- r_start r" "- r_stop r" "- r_step r"] seq_count_neg [of "r_start r"]
  by (cases "r_start r < r_stop r \<and> 0 < r_step r"; cases "r_stop r < r_start r \<and> r_step r < 0")
    (auto simp: seq_count_def)

lemma range_iter_next_spec:
  assumes wf: "range_wf r"
  shows "range_iter_next r i =
    (if int i < range_count r then Some (r_start r + int i * r_step r) else None)"
proof -
  let ?x = "r_start r + int i * r_step r"
  have a: "in_i32 (r_start r)" "r_step r \<noteq> 0" using wf by (auto simp: range_wf_def)
  have less_iff: "int i < range_count r \<longleftrightarrow> (if 0 < r_step r then ?x < r_stop r else r_stop r < ?x)"
    using seq_count_less_iff [of "r_step r" "int i" "r_start r" "r_stop r"] a by simp
  show ?thesis
  proof (cases "int i < range_count r")
    case True
    have "in_i32 ?x" by (rule range_element_in_i32 [OF wf _ True]) simp
    moreover have "int i \<le> 2 ^ 63 - 1"
      using True range_count_le_dist [of r] wf by (auto simp: range_wf_def i32_defs)
    ultimately show ?thesis
      using True less_iff a
      by (auto simp: range_iter_next_def rem_range_at_iter_wf range_to_bool_def split: if_splits)
  next
    case False
    then show ?thesis
      using less_iff a by (auto simp: range_iter_next_def rem_range_at_iter_wf range_to_bool_def split: if_splits)
  qed
qed

subsection \<open>Indexing, slicing, membership\<close>

lemma range_count_le_small: "range_small r \<Longrightarrow> range_count r \<le> i32_max"
  using range_count_le_dist [of r] by (simp add: range_small_def)

lemma range_offset_in_i32:
  assumes "range_wf r" "range_small r" and "0 \<le> i" and "i < range_count r"
  shows "in_i32 (r_step r * i)"
proof -
  have "\<bar>i * r_step r\<bar> \<le> \<bar>r_stop r - r_start r\<bar>" using range_element_between [OF assms(1,3,4)] by linarith
  then show ?thesis using assms(2) by (auto simp: range_small_def i32_defs mult.commute)
qed

lemma range_at_small:
  assumes wf: "range_wf r" and small: "range_small r" and x: "in_i32 x" "- range_count r \<le> x" "x < range_count r"
  shows "range_at oc r (IdxInt x) = Ok (range_elems r ! nat (if x < 0 then range_count r + x else x))"
proof -
  let ?i = "if x < 0 then range_count r + x else x"
  have i: "0 \<le> ?i" "?i < range_count r" using x by auto
  have "convert_index (IdxInt x) (range_count r) = Ok ?i"
    using x range_count_le_small [OF small] seq_count_nonneg [of "r_start r" "r_stop r" "r_step r"]
    by (auto simp: convert_index_def i32_unpack_value_err_def i32_defs checked_i32_def)
  moreover have "nat ?i < length (range_elems r)" using i length_range_elems [of r] by linarith
  then have "range_elems r ! nat ?i = r_start r + r_step r * ?i"
    using i nth_range_elems [of "nat ?i" r] by (simp add: mult.commute)
  moreover have "in_i32 (r_step r * ?i)" "in_i32 (r_start r + r_step r * ?i)"
    using range_offset_in_i32 [OF wf small i] range_element_in_i32 [OF wf i] by (simp_all add: mult.commute)
  ultimately show ?thesis
    using range_length_small [OF wf small] by (simp add: range_at_def)
qed

lemma seq_count_scale:
  assumes "k \<noteq> 0"
  shows "seq_count (s + a * k) (s + b * k) (d * k) = seq_count a b d"
proof -
  have pos: "seq_count (s + a * k) (s + b * k) (d * k) = seq_count a b d" if "0 < k" for s a b d k :: int
  proof (cases "d = 0")
    case False
    have "i < seq_count (s + a * k) (s + b * k) (d * k) \<longleftrightarrow> i < seq_count a b d" if i: "0 \<le> i" for i
    proof -
      have "s + a * k + i * (d * k) < s + b * k \<longleftrightarrow> (a + i * d) * k < b * k"
        "s + b * k < s + a * k + i * (d * k) \<longleftrightarrow> b * k < (a + i * d) * k"
        by (auto simp: algebra_simps)
      then show ?thesis
        using seq_count_less_iff [OF False i, of a b] seq_count_less_iff [of "d * k" i "s + a * k" "s + b * k"]
          i \<open>0 < k\<close> False by (auto simp: zero_less_mult_iff)
    qed
    from this [of "seq_count a b d"] this [of "seq_count (s + a * k) (s + b * k) (d * k)"]
    show ?thesis using seq_count_nonneg [of a b d] seq_count_nonneg [of "s + a * k" "s + b * k" "d * k"] by simp
  qed (simp add: seq_count_def)
  show ?thesis
  proof (cases "0 < k")
    case False
    with assms have "0 < - k" by simp
    from pos [OF this, of "- s" a b d] seq_count_neg [of "s + a * k" "s + b * k" "d * k"] show ?thesis by simp
  qed (use pos in simp)
qed

lemma arith_seq_scale:
  "k \<noteq> 0 \<Longrightarrow> arith_seq (s + a * k) (s + b * k) (d * k) = map (\<lambda>i. s + i * k) (arith_seq a b d)"
  by (auto simp: arith_seq_def seq_count_scale algebra_simps)

lemma in_arith_seq:
  assumes "d \<noteq> 0"
  shows "x \<in> set (arith_seq a b d) \<longleftrightarrow>
    (\<exists>i\<ge>0. x = a + i * d) \<and> (if 0 < d then x < b else b < x)"
proof
  assume "x \<in> set (arith_seq a b d)"
  then obtain j where j: "x = a + int j * d" "j < nat (seq_count a b d)" by (fastforce simp: arith_seq_def)
  then have "int j < seq_count a b d" by simp
  then show "(\<exists>i\<ge>0. x = a + i * d) \<and> (if 0 < d then x < b else b < x)"
    using j seq_count_less_iff [OF assms, of "int j" a b] by (auto intro: exI [of _ "int j"])
next
  assume r: "(\<exists>i\<ge>0. x = a + i * d) \<and> (if 0 < d then x < b else b < x)"
  then obtain i where i: "0 \<le> i" "x = a + i * d" by blast
  then have "i < seq_count a b d" using r seq_count_less_iff [OF assms i(1), of a b] by auto
  then show "x \<in> set (arith_seq a b d)"
    using i by (auto simp: arith_seq_def image_iff intro!: bexI [of _ "nat i"])
qed

lemma arith_seq_between:
  assumes "d \<noteq> 0" and "x \<in> set (arith_seq a b d)"
  shows "if 0 < d then a \<le> x \<and> x < b else b < x \<and> x \<le> a"
  using assms in_arith_seq [OF assms(1), of x a b] by (auto simp: mult_le_0_iff)

lemma range_slice_small:
  assumes wf: "range_wf r" and small: "range_small r"
    and ok: "arg_ok start" "arg_ok stop" "arg_ok stride" and d: "slice_stride stride \<noteq> 0"
    and res: "range_slice oc r start stop stride = Ok r'"
  shows "range_wf r' \<and> range_elems r' = map (\<lambda>i. range_elems r ! nat i)
    (let n = range_count r; d = slice_stride stride in arith_seq (slice_start n d start) (slice_stop n d stop) d)"
proof -
  let ?n = "range_count r" and ?d = "slice_stride stride"
  define a where "a = slice_start ?n ?d start"
  define b where "b = slice_stop ?n ?d stop"
  have n: "0 \<le> ?n" "?n \<le> i32_max" using seq_count_nonneg range_count_le_small [OF small] by auto
  have r': "r' = \<lparr>r_start = r_start r + a * r_step r, r_stop = r_start r + b * r_step r, r_step = ?d * r_step r\<rparr>"
      "range_wf r'"
    using res range_length_small [OF wf small] convert_slice_indices_ok [OF n ok d, of oc]
    by (auto simp: range_slice_def a_def b_def Let_def bind_outcome_Ok_iff range_wf_def split: option.splits if_splits)
  have step: "r_step r \<noteq> 0" using wf by (simp add: range_wf_def)
  have elems: "range_elems r' = map (\<lambda>i. r_start r + i * r_step r) (arith_seq a b ?d)"
    using arith_seq_scale [OF step] r' by (simp add: range_elems_def)
  have "r_start r + i * r_step r = range_elems r ! nat i" if "i \<in> set (arith_seq a b ?d)" for i
  proof -
    have "0 \<le> i" "i < ?n"
      using arith_seq_between [OF d that] slice_bounds [OF n(1) d, of start] slice_bounds [OF n(1) d, of stop] d
      unfolding a_def b_def by (auto split: if_splits)
    then have "nat i < length (range_elems r)" using length_range_elems [of r] by linarith
    from nth_range_elems [OF this] \<open>0 \<le> i\<close> show ?thesis by simp
  qed
  then have "range_elems r' = map (\<lambda>i. range_elems r ! nat i) (arith_seq a b ?d)"
    unfolding elems by (intro map_cong) auto
  then show ?thesis using r'(2) by (simp add: a_def b_def Let_def)
qed

lemma range_is_in_small:
  assumes wf: "range_wf r" and small: "range_small r"
  shows "range_is_in r (Some x) \<longleftrightarrow> x \<in> set (range_elems r)"
proof -
  let ?a = "r_start r" and ?b = "r_stop r" and ?d = "r_step r"
  have step: "?d \<noteq> 0" "in_i32 ?d" using wf by (auto simp: range_wf_def)
  note mem = in_arith_seq [OF step(1), of x ?a ?b, folded range_elems_def]
  consider "\<not> range_to_bool r" | "0 < ?d" "?a < ?b" | "?d < 0" "?b < ?a"
    by (auto simp: range_to_bool_def)
  then show ?thesis
  proof cases
    case 1
    then have "range_elems r = []" using range_to_bool_iff [OF wf] by (simp add: range_elems_def arith_seq_def)
    with 1 show ?thesis by (simp add: range_is_in_def)
  next
    case 2
    have div: "(\<exists>i\<ge>0. x = ?a + i * ?d) \<longleftrightarrow> (x - ?a) mod ?d = 0" if "?a \<le> x"
    proof
      assume "(x - ?a) mod ?d = 0"
      then obtain i where "x - ?a = ?d * i" by auto
      moreover from this have "0 \<le> i" using that 2 by (metis diff_ge_0_iff_ge zero_le_mult_iff not_less)
      ultimately show "\<exists>i\<ge>0. x = ?a + i * ?d" by (metis add.commute diff_add_cancel mult.commute)
    qed auto
    have "as_u64 (wrap_i32 (x - ?a)) = x - ?a" "as_u64 ?d = ?d" if "?a \<le> x" "x < ?b"
      using that 2 small step by (auto simp: range_small_def i32_defs wrap_i32_def as_u64_def)
    moreover have "\<exists>i\<ge>0. x = ?a + i * ?d \<Longrightarrow> ?a \<le> x" using 2 by auto
    then have "x \<in> set (range_elems r) \<longleftrightarrow> ?a \<le> x \<and> x < ?b \<and> (x - ?a) mod ?d = 0"
      using mem div 2 by (metis (no_types))
    ultimately show ?thesis
      using 2 by (auto simp: range_is_in_def range_to_bool_def not_less simp del: mod_add_self1)
  next
    case 3
    have div: "(\<exists>i\<ge>0. x = ?a + i * ?d) \<longleftrightarrow> (?a - x) mod (- ?d) = 0" if "x \<le> ?a"
    proof
      assume "(?a - x) mod (- ?d) = 0"
      then obtain i where i: "?a - x = - ?d * i" by (metis dvd_eq_mod_eq_0 dvdE)
      moreover from this have "0 \<le> i" using that 3
        by (metis diff_ge_0_iff_ge neg_0_less_iff_less not_less zero_le_mult_iff)
      moreover have "x = ?a + i * ?d" using i by (simp add: algebra_simps)
      ultimately show "\<exists>i\<ge>0. x = ?a + i * ?d" by blast
    qed auto
    have small': "as_u64 (wrap_i32 (?a - x)) = ?a - x \<and>
        ((?a - x) mod as_u64 (wrap_i32 (- ?d)) = 0 \<longleftrightarrow> (?a - x) mod (- ?d) = 0)" if "?b < x" "x \<le> ?a"
    proof -
      have dist: "0 \<le> ?a - x" "?a - x < 2 ^ 31" "as_u64 (wrap_i32 (?a - x)) = ?a - x"
        using that small step by (auto simp: range_small_def i32_defs wrap_i32_def as_u64_def)
      show ?thesis
      proof (cases "?d = i32_min")
        case True
        then have "as_u64 (wrap_i32 (- ?d)) = 2 ^ 64 - 2 ^ 31" "- ?d = 2 ^ 31"
          by (simp_all add: wrap_i32_def as_u64_def i32_defs)
        then show ?thesis using dist by (simp add: mod_pos_pos_trivial)
      next
        case False
        then show ?thesis using 3 step dist in_i32_neg_wrap [of ?d] by simp
      qed
    qed
    have "\<exists>i\<ge>0. x = ?a + i * ?d \<Longrightarrow> x \<le> ?a" using 3 by (auto simp: mult_le_0_iff)
    then have "x \<in> set (range_elems r) \<longleftrightarrow> ?b < x \<and> x \<le> ?a \<and> (?a - x) mod (- ?d) = 0"
      using mem div 3 by (metis (no_types) not_less_iff_gr_or_eq)
    then show ?thesis
      using 3 small' by (auto simp: range_is_in_def range_to_bool_def not_less)
  qed
qed

lemma equals_range_small:
  assumes r: "range_wf r" "range_small r" and s: "range_wf s" "range_small s"
  shows "equals_range r s = Ok (range_elems r = range_elems s)"
proof -
  note len = range_length_small [OF r] range_length_small [OF s]
  have eq: "range_elems r = range_elems s \<longleftrightarrow> range_count r = range_count s \<and>
      (\<forall>i < length (range_elems r). r_start r + int i * r_step r = r_start s + int i * r_step s)"
    using length_range_elems [of r] length_range_elems [of s] nth_range_elems
    by (auto simp: list_eq_iff_nth_eq)
  have long: "r_start r = r_start s" "range_count r = 1 \<or> r_step r = r_step s"
    if e: "range_elems r = range_elems s" and pos: "range_count r \<noteq> 0"
  proof -
    have n: "0 < length (range_elems r)" using pos length_range_elems [of r] by auto
    have at: "r_start r + int i * r_step r = r_start s + int i * r_step s" if "i < length (range_elems r)" for i
      using e eq that by blast
    from at [OF n] show "r_start r = r_start s" by simp
    moreover have "r_step r = r_step s" if "1 < length (range_elems r)"
      using at [OF that] calculation by simp
    ultimately show "range_count r = 1 \<or> r_step r = r_step s" using n length_range_elems [of r] by linarith
  qed
  have short: "\<forall>i < length (range_elems r). r_start r + int i * r_step r = r_start s + int i * r_step s"
    if "r_start r = r_start s" "range_count r = 0 \<or> range_count r = 1 \<or> r_step r = r_step s"
    using that length_range_elems [of r] by (auto simp: less_Suc0)
  have empty: "\<forall>i < length (range_elems r). r_start r + int i * r_step r = r_start s + int i * r_step s"
    if "range_count r = 0" using that length_range_elems [of r] by simp
  have "range_elems r = range_elems s \<longleftrightarrow> range_count r = range_count s \<and>
      (range_count r = 0 \<or> r_start r = r_start s \<and> (range_count r = 1 \<or> r_step r = r_step s))"
  proof
    assume e: "range_elems r = range_elems s"
    with eq long [OF e] show "range_count r = range_count s \<and>
      (range_count r = 0 \<or> r_start r = r_start s \<and> (range_count r = 1 \<or> r_step r = r_step s))" by blast
  next
    assume "range_count r = range_count s \<and>
      (range_count r = 0 \<or> r_start r = r_start s \<and> (range_count r = 1 \<or> r_step r = r_step s))"
    with eq short empty show "range_elems r = range_elems s" by blast
  qed
  then show ?thesis unfolding equals_range_def len bind_outcome.simps by (simp only:) auto
qed

subsection \<open>Properties\<close>

text \<open>C8. Iterating over any range yields exactly its elements, in order, then stops: the \<open>i64\<close> arithmetic
  with saturation never produces a wrong item, also when the bounds are \<open>2^32\<close> apart.\<close>

theorem range_iteration_exact:
  assumes "range_wf r"
  shows "range_iter_next r i = (if i < length (range_elems r) then Some (range_elems r ! i) else None)"
  using range_iter_next_spec [OF assms] length_range_elems [of r] nth_range_elems [of i r]
  by (auto split: if_splits)

theorem range_iteration_exact_witness:
  "map (range_iter_next \<lparr>r_start = 10, r_stop = 3, r_step = -3\<rparr>) [0, 1, 2, 3] = [Some 10, Some 7, Some 4, None]"
  using range_iteration_exact [of "\<lparr>r_start = 10, r_stop = 3, r_step = -3\<rparr>"]
  by (simp add: range_wf_def i32_defs range_elems_def arith_seq_def seq_count_def upt_rec)

text \<open>When the bounds are at most \<open>i32::MAX\<close> apart, \<open>length\<close> is the number of elements, and indexing with
  any accepted index returns the element at that position without overflow.\<close>

theorem range_length_and_index:
  assumes "range_wf r" and "range_small r"
  shows "range_length r = Ok (int (length (range_elems r))) \<and>
    (\<forall>i < length (range_elems r). range_at overflow_checks r (IdxInt (int i)) = Ok (range_elems r ! i))"
proof (intro conjI allI impI)
  show "range_length r = Ok (int (length (range_elems r)))"
    using range_length_small [OF assms] length_range_elems [of r] by simp
  fix i assume "i < length (range_elems r)"
  then have "int i < range_count r" using length_range_elems [of r] by linarith
  moreover from this have "in_i32 (int i)" using range_count_le_small [OF assms(2)] by (auto simp: i32_defs)
  ultimately show "range_at overflow_checks r (IdxInt (int i)) = Ok (range_elems r ! i)"
    using range_at_small [OF assms, of "int i"] by simp
qed

theorem range_length_and_index_witness:
  "range_length \<lparr>r_start = 10, r_stop = 3, r_step = -3\<rparr> = Ok 3"
  using range_length_and_index [of "\<lparr>r_start = 10, r_stop = 3, r_step = -3\<rparr>" True]
  by (simp add: range_wf_def range_small_def i32_defs range_elems_def arith_seq_def seq_count_def)

text \<open>Slicing a range gives a range whose elements are the slice of its elements.\<close>

theorem range_slice_elements:
  assumes "range_wf r" and "range_small r" and "arg_ok start" "arg_ok stop" "arg_ok stride"
    and "slice_stride stride \<noteq> 0" and "range_slice overflow_checks r start stop stride = Ok r'"
  shows "range_wf r' \<and> range_elems r' = map (\<lambda>i. range_elems r ! nat i)
    (let n = int (length (range_elems r)); d = slice_stride stride
     in arith_seq (slice_start n d start) (slice_stop n d stop) d)"
  using range_slice_small [OF assms] length_range_elems [of r] by simp

theorem range_slice_elements_witness:
  "range_elems \<lparr>r_start = 9, r_stop = 3, r_step = -2\<rparr> = [9, 7, 5]"
proof -
  have "range_slice True \<lparr>r_start = 1, r_stop = 10, r_step = 2\<rparr> None (Some (IdxInt 1)) (Some (IdxInt (-1))) =
      Ok \<lparr>r_start = 9, r_stop = 3, r_step = -2\<rparr>"
    by (simp add: range_slice_def range_length_def convert_slice_indices_def i32_unpack_value_err_def
        convert_index_aux_def is_none_def i32_defs wrap_i32_def as_u64_def plain_i32_def checked_i32_def Let_def)
  from range_slice_elements [OF _ _ _ _ _ _ this] show ?thesis
    by (simp add: range_wf_def range_small_def i32_defs slice_stride_def slice_start_def slice_stop_def
        slice_bound_def Let_def range_elems_def arith_seq_def seq_count_def upt_rec)
qed

text \<open>When the bounds are at most \<open>i32::MAX\<close> apart, membership and equality, both computed from bounds and
  step alone, agree with the elements.\<close>

theorem range_membership_equality:
  assumes "range_wf r" "range_small r" and "range_wf s" "range_small s"
  shows "(range_is_in r (Some x) \<longleftrightarrow> x \<in> set (range_elems r)) \<and>
    equals_range r s = Ok (range_elems r = range_elems s)"
  using range_is_in_small [OF assms(1,2)] equals_range_small [OF assms] by blast

theorem range_membership_equality_witness:
  "range_is_in \<lparr>r_start = 0, r_stop = 10, r_step = 3\<rparr> (Some 9) \<and>
    equals_range \<lparr>r_start = 0, r_stop = 10, r_step = 3\<rparr> \<lparr>r_start = 0, r_stop = 12, r_step = 3\<rparr> = Ok True"
  using range_membership_equality [of "\<lparr>r_start = 0, r_stop = 10, r_step = 3\<rparr>"
      "\<lparr>r_start = 0, r_stop = 12, r_step = 3\<rparr>" 9]
  by (simp add: range_wf_def range_small_def i32_defs range_elems_def arith_seq_def seq_count_def upt_rec)

text \<open>When the bounds are further apart, the wrapped distance is sign-extended to \<open>u64\<close> and \<open>length\<close> is wrong:
  a range of \<open>2^31\<close> elements has length 0 and equals the empty range although it is true, a range whose
  429496730 elements could be counted raises an overflow error, and membership denies an element.\<close>

theorem range_length_wide:
  "range_length \<lparr>r_start = - (2 ^ 31), r_stop = 2 ^ 31 - 1, r_step = 2\<rparr> = Ok 0 \<and>
   range_to_bool \<lparr>r_start = - (2 ^ 31), r_stop = 2 ^ 31 - 1, r_step = 2\<rparr> \<and>
   equals_range \<lparr>r_start = - (2 ^ 31), r_stop = 2 ^ 31 - 1, r_step = 2\<rparr> \<lparr>r_start = 0, r_stop = 0, r_step = 1\<rparr> = Ok True \<and>
   range_length \<lparr>r_start = - (2 ^ 31), r_stop = 2 ^ 31 - 1, r_step = 10\<rparr> = Err IntegerOverflow \<and>
   range_count \<lparr>r_start = - (2 ^ 31), r_stop = 2 ^ 31 - 1, r_step = 10\<rparr> = 429496730 \<and>
   \<not> range_is_in \<lparr>r_start = - (2 ^ 31), r_stop = 2 ^ 31 - 1, r_step = 7\<rparr> (Some (- (2 ^ 31) + 7 * 400000000))"
  by (simp add: range_length_def range_to_bool_def equals_range_def range_is_in_def seq_count_def
      wrap_i32_def as_u64_def)

end
