(* ===== verification/Starlark_Int.thy ===== *)
theory Starlark_Int
  imports Rust_Int "HOL-Library.Word"
begin

text \<open>
  Starlark integers: \<^verbatim>\<open>starlark/src/values/types/int/inline_int.rs\<close> (an integer stored in a pointer, 32 bits
  on 64-bit platforms and 29 on 32-bit ones), \<^verbatim>\<open>int_or_big.rs\<close> (an inline integer or a \<open>BigInt\<close> outside of
  the inline range) and the comparisons of \<^verbatim>\<open>bigint.rs\<close>.

  \<open>num_bigint\<close> is not part of the repository: a \<open>BigInt\<close> is an integer, its operations are the parameter
  \<open>bigint_ops\<close>, and \<open>bigint_laws\<close> states their documented meaning: exact results, division and remainder
  that truncate, bitwise operations on two's complement.
\<close>

unbundle bit_operations_syntax

subsection \<open>The external arbitrary-precision integers\<close>

record bigint_ops =
  big_add :: "int \<Rightarrow> int \<Rightarrow> int"
  big_sub :: "int \<Rightarrow> int \<Rightarrow> int"
  big_mul :: "int \<Rightarrow> int \<Rightarrow> int"
  big_neg :: "int \<Rightarrow> int"
  big_abs :: "int \<Rightarrow> int"
  big_div :: "int \<Rightarrow> int \<Rightarrow> int"
  big_rem :: "int \<Rightarrow> int \<Rightarrow> int"
  big_and :: "int \<Rightarrow> int \<Rightarrow> int"
  big_or :: "int \<Rightarrow> int \<Rightarrow> int"
  big_xor :: "int \<Rightarrow> int \<Rightarrow> int"
  big_not :: "int \<Rightarrow> int"
  big_shl :: "int \<Rightarrow> nat \<Rightarrow> int"
  big_shr :: "int \<Rightarrow> nat \<Rightarrow> int"

definition bigint_laws :: "bigint_ops \<Rightarrow> bool" where
  "bigint_laws B \<longleftrightarrow>
     (\<forall>a b. big_add B a b = a + b) \<and> (\<forall>a b. big_sub B a b = a - b) \<and> (\<forall>a b. big_mul B a b = a * b) \<and>
     (\<forall>a. big_neg B a = - a) \<and> (\<forall>a. big_abs B a = \<bar>a\<bar>) \<and>
     (\<forall>a b. b \<noteq> 0 \<longrightarrow> big_div B a b = rust_div a b) \<and> (\<forall>a b. b \<noteq> 0 \<longrightarrow> big_rem B a b = rust_rem a b) \<and>
     (\<forall>a b. big_and B a b = a AND b) \<and> (\<forall>a b. big_or B a b = a OR b) \<and> (\<forall>a b. big_xor B a b = a XOR b) \<and>
     (\<forall>a. big_not B a = NOT a) \<and>
     (\<forall>a n. big_shl B a n = push_bit n a) \<and> (\<forall>a n. big_shr B a n = drop_bit n a)"

subsection \<open>\<open>InlineInt\<close>\<close>

text \<open>\<open>bits\<close> is 32 or 29, by the width of a pointer.\<close>

definition inline_min :: "nat \<Rightarrow> int" where
  "inline_min bits = - (2 ^ (bits - 1) - 1) - 1"

definition inline_max :: "nat \<Rightarrow> int" where
  "inline_max bits = 2 ^ (bits - 1) - 1"

definition inline_try_from :: "nat \<Rightarrow> int \<Rightarrow> int option" where
  "inline_try_from bits i =
     (case checked_i32 i of
        None \<Rightarrow> None
      | Some i \<Rightarrow> if i \<ge> inline_min bits \<and> i \<le> inline_max bits then Some i else None)"

definition inline_checked_add :: "nat \<Rightarrow> int \<Rightarrow> int \<Rightarrow> int option" where
  "inline_checked_add bits a b = Option.bind (checked_i32 (a + b)) (inline_try_from bits)"

definition inline_checked_sub :: "nat \<Rightarrow> int \<Rightarrow> int \<Rightarrow> int option" where
  "inline_checked_sub bits a b = Option.bind (checked_i32 (a - b)) (inline_try_from bits)"

definition inline_checked_neg :: "nat \<Rightarrow> int \<Rightarrow> int option" where
  "inline_checked_neg bits a = Option.bind (checked_i32 (- a)) (inline_try_from bits)"

definition inline_checked_mul_i32 :: "nat \<Rightarrow> int \<Rightarrow> int \<Rightarrow> int option" where
  "inline_checked_mul_i32 bits a b = Option.bind (checked_i32 (a * b)) (inline_try_from bits)"

definition inline_checked_div :: "nat \<Rightarrow> int \<Rightarrow> int \<Rightarrow> int option" where
  "inline_checked_div bits a b =
     Option.bind (if b = 0 then None else checked_i32 (rust_div a b)) (inline_try_from bits)"

text \<open>The shifts of \<open>i32\<close> fail for a count of 32 or more; the bits shifted out on the left are lost.\<close>

definition inline_checked_shl :: "nat \<Rightarrow> int \<Rightarrow> int \<Rightarrow> int option" where
  "inline_checked_shl bits a n =
     Option.bind (if n < 32 then Some (wrap_i32 (push_bit (nat n) a)) else None) (inline_try_from bits)"

definition inline_checked_shr :: "nat \<Rightarrow> int \<Rightarrow> int \<Rightarrow> int option" where
  "inline_checked_shr bits a n =
     Option.bind (if n < 32 then Some (drop_bit (nat n) a) else None) (inline_try_from bits)"

definition inline_rem :: "int \<Rightarrow> int \<Rightarrow> ('e, int) outcome" where
  "inline_rem a b = (if b = 0 \<or> (a = i32_min \<and> b = -1) then Panic else Ok (rust_rem a b))"

subsection \<open>\<open>StarlarkInt\<close>\<close>

datatype starlark_int = Small int | Big int

datatype int_error =
    FloorDivisionByZero starlark_int starlark_int
  | ModuloByZero starlark_int starlark_int
  | LeftShiftOverflow | LeftShiftNegative | RightShiftNegative | Unreachable

type_synonym int_result = "(int_error, starlark_int) outcome"

definition si_from :: "nat \<Rightarrow> int \<Rightarrow> starlark_int" where
  "si_from bits v = (case inline_try_from bits v of Some i \<Rightarrow> Small i | None \<Rightarrow> Big v)"

fun si_to_big :: "starlark_int \<Rightarrow> int" where
  "si_to_big (Small i) = i"
| "si_to_big (Big i) = i"

definition si_to_i32 :: "nat \<Rightarrow> starlark_int \<Rightarrow> int option" where
  "si_to_i32 bits a =
     (case a of
        Small i \<Rightarrow> Some i
      | Big i \<Rightarrow> if bits < 32 then checked_i32 i else None)"

definition si_to_u64 :: "starlark_int \<Rightarrow> int option" where
  "si_to_u64 a = (let i = si_to_big a in if 0 \<le> i \<and> i < 2 ^ 64 then Some i else None)"

fun si_is_negative :: "starlark_int \<Rightarrow> bool" where
  "si_is_negative (Small i) = (i < 0)"
| "si_is_negative (Big i) = (i < 0)"

fun si_is_zero :: "starlark_int \<Rightarrow> bool" where
  "si_is_zero (Small i) = (i = 0)"
| "si_is_zero (Big _) = False"

definition floor_div_big_big :: "bigint_ops \<Rightarrow> nat \<Rightarrow> int \<Rightarrow> int \<Rightarrow> int_result" where
  "floor_div_big_big B bits a b =
     (if b = 0 then Err (FloorDivisionByZero (si_from bits a) (si_from bits b))
      else let sig = sgn b * sgn a;
               offset = (if sig < 0 \<and> big_rem B a b \<noteq> 0 then 1 else 0)
           in Ok (si_from bits (big_sub B (big_div B a b) offset)))"

definition floor_div_small_small :: "bigint_ops \<Rightarrow> nat \<Rightarrow> int \<Rightarrow> int \<Rightarrow> int_result" where
  "floor_div_small_small B bits a b =
     (if b = 0 then Err (FloorDivisionByZero (Small a) (Small b))
      else let sig = sgn b * sgn a
           in bind_outcome (if sig < 0 then bind_outcome (inline_rem a b) (\<lambda>r. Ok (if r \<noteq> 0 then 1 else 0)) else Ok 0)
              (\<lambda>offset.
                 case inline_checked_div bits a b of
                   Some d \<Rightarrow> (case inline_checked_sub bits d offset of
                               Some x \<Rightarrow> Ok (Small x) | None \<Rightarrow> Err Unreachable)
                 | None \<Rightarrow> floor_div_big_big B bits a b))"

fun si_floor_div :: "bigint_ops \<Rightarrow> nat \<Rightarrow> starlark_int \<Rightarrow> starlark_int \<Rightarrow> int_result" where
  "si_floor_div B bits (Small a) (Small b) = floor_div_small_small B bits a b"
| "si_floor_div B bits (Small a) (Big b) = floor_div_big_big B bits a b"
| "si_floor_div B bits (Big a) (Small b) = floor_div_big_big B bits a b"
| "si_floor_div B bits (Big a) (Big b) = floor_div_big_big B bits a b"

definition percent_small :: "nat \<Rightarrow> int \<Rightarrow> int \<Rightarrow> (int_error, int) outcome" where
  "percent_small bits a b =
     (if b = 0 then Err (ModuloByZero (Small a) (Small b))
      else if a = i32_min \<and> b = -1 then Ok 0
      else bind_outcome (inline_rem a b) (\<lambda>r.
           if r = 0 then Ok 0
           else if sgn b \<noteq> sgn r then
             (case inline_checked_add bits r b of Some x \<Rightarrow> Ok x | None \<Rightarrow> Err Unreachable)
           else Ok r))"

definition percent_big :: "bigint_ops \<Rightarrow> nat \<Rightarrow> int \<Rightarrow> int \<Rightarrow> int_result" where
  "percent_big B bits a b =
     (if b = 0 then Err (ModuloByZero (si_from bits a) (si_from bits b))
      else let r = big_rem B a b
           in if r = 0 then Ok (Small 0)
              else Ok (si_from bits (if sgn b \<noteq> sgn r then big_add B r b else r)))"

fun si_percent :: "bigint_ops \<Rightarrow> nat \<Rightarrow> starlark_int \<Rightarrow> starlark_int \<Rightarrow> int_result" where
  "si_percent B bits (Small a) (Small b) = bind_outcome (percent_small bits a b) (\<lambda>r. Ok (Small r))"
| "si_percent B bits (Small a) (Big b) = percent_big B bits a b"
| "si_percent B bits (Big a) (Small b) = percent_big B bits a b"
| "si_percent B bits (Big a) (Big b) = percent_big B bits a b"

text \<open>Comparison; a big integer is out of the inline range, so its sign decides.\<close>

definition cmp_small_big :: "int \<Rightarrow> int \<Rightarrow> ordering" where
  "cmp_small_big a b = cmp_key (sgn a) (2 * sgn b)"

fun ordering_reverse :: "ordering \<Rightarrow> ordering" where
  "ordering_reverse Less = Greater"
| "ordering_reverse Equal = Equal"
| "ordering_reverse Greater = Less"

fun si_cmp :: "starlark_int \<Rightarrow> starlark_int \<Rightarrow> ordering" where
  "si_cmp (Small a) (Small b) = cmp_key a b"
| "si_cmp (Big a) (Big b) = cmp_key a b"
| "si_cmp (Small a) (Big b) = cmp_small_big a b"
| "si_cmp (Big a) (Small b) = ordering_reverse (cmp_small_big b a)"

definition si_left_shift :: "bigint_ops \<Rightarrow> nat \<Rightarrow> starlark_int \<Rightarrow> starlark_int \<Rightarrow> int_result" where
  "si_left_shift B bits a b =
     (case (case (a, b) of
              (Small x, Small y) \<Rightarrow> if y \<ge> 0 then inline_checked_shl bits x y else None
            | _ \<Rightarrow> None) of
        Some r \<Rightarrow> Ok (Small r)
      | None \<Rightarrow>
          if si_is_negative b then Err LeftShiftNegative
          else if si_is_zero a \<or> si_is_zero b then Ok a
          else if si_cmp b (si_from bits 100000) = Greater then Err LeftShiftOverflow
          else (case b of
                  Big _ \<Rightarrow> Err LeftShiftOverflow
                | Small y \<Rightarrow> (case si_to_u64 (Small y) of
                                None \<Rightarrow> Panic
                              | Some y \<Rightarrow> Ok (si_from bits (big_shl B (si_to_big a) (nat y))))))"

definition si_right_shift :: "bigint_ops \<Rightarrow> nat \<Rightarrow> starlark_int \<Rightarrow> starlark_int \<Rightarrow> int_result" where
  "si_right_shift B bits a b =
     (case (case (a, b) of
              (Small x, Small y) \<Rightarrow> if y \<ge> 0 then inline_checked_shr bits x y else None
            | _ \<Rightarrow> None) of
        Some r \<Rightarrow> Ok (Small r)
      | None \<Rightarrow>
          if si_is_negative b then Err RightShiftNegative
          else if si_is_zero a \<or> si_is_zero b then Ok a
          else (case si_to_u64 b of
                  None \<Rightarrow> Ok (Small (if si_is_negative a then -1 else 0))
                | Some n \<Rightarrow>
                    (case a of
                       Small x \<Rightarrow> Ok (Small (if x < 0 then -1 else 0))
                     | Big x \<Rightarrow> Ok (si_from bits (big_shr B x (nat n))))))"

text \<open>\<open>abs\<close>, \<open>&\<close>, \<open>|\<close>, \<open>^\<close>, \<open>~\<close>, unary \<open>-\<close>, \<open>+\<close>, \<open>-\<close>, \<open>*\<close>.\<close>

fun si_abs :: "bigint_ops \<Rightarrow> nat \<Rightarrow> starlark_int \<Rightarrow> starlark_int" where
  "si_abs B bits (Small i) =
     (case checked_i32 \<bar>i\<bar> of Some x \<Rightarrow> si_from bits x | None \<Rightarrow> si_from bits (big_abs B i))"
| "si_abs B bits (Big i) = si_from bits (big_abs B i)"

fun si_bitand :: "bigint_ops \<Rightarrow> nat \<Rightarrow> starlark_int \<Rightarrow> starlark_int \<Rightarrow> starlark_int" where
  "si_bitand B bits (Small a) (Small b) = Small (a AND b)"
| "si_bitand B bits a b = si_from bits (big_and B (si_to_big a) (si_to_big b))"

fun si_bitor :: "bigint_ops \<Rightarrow> nat \<Rightarrow> starlark_int \<Rightarrow> starlark_int \<Rightarrow> starlark_int" where
  "si_bitor B bits (Small a) (Small b) = Small (a OR b)"
| "si_bitor B bits a b = si_from bits (big_or B (si_to_big a) (si_to_big b))"

fun si_bitxor :: "bigint_ops \<Rightarrow> nat \<Rightarrow> starlark_int \<Rightarrow> starlark_int \<Rightarrow> starlark_int" where
  "si_bitxor B bits (Small a) (Small b) = Small (a XOR b)"
| "si_bitxor B bits a b = si_from bits (big_xor B (si_to_big a) (si_to_big b))"

fun si_not :: "bigint_ops \<Rightarrow> nat \<Rightarrow> starlark_int \<Rightarrow> starlark_int" where
  "si_not B bits (Small a) = Small (NOT a)"
| "si_not B bits a = si_from bits (big_not B (si_to_big a))"

definition si_neg :: "bigint_ops \<Rightarrow> nat \<Rightarrow> starlark_int \<Rightarrow> starlark_int" where
  "si_neg B bits a =
     (case (case a of Small i \<Rightarrow> inline_checked_neg bits i | _ \<Rightarrow> None) of
        Some n \<Rightarrow> Small n
      | None \<Rightarrow> si_from bits (big_neg B (si_to_big a)))"

definition si_add :: "bigint_ops \<Rightarrow> nat \<Rightarrow> starlark_int \<Rightarrow> starlark_int \<Rightarrow> starlark_int" where
  "si_add B bits a b =
     (case (case (a, b) of (Small x, Small y) \<Rightarrow> inline_checked_add bits x y | _ \<Rightarrow> None) of
        Some c \<Rightarrow> Small c
      | None \<Rightarrow> si_from bits (big_add B (si_to_big a) (si_to_big b)))"

definition si_sub :: "bigint_ops \<Rightarrow> nat \<Rightarrow> starlark_int \<Rightarrow> starlark_int \<Rightarrow> starlark_int" where
  "si_sub B bits a b =
     (case (case (a, b) of (Small x, Small y) \<Rightarrow> inline_checked_sub bits x y | _ \<Rightarrow> None) of
        Some c \<Rightarrow> Small c
      | None \<Rightarrow> si_from bits (big_sub B (si_to_big a) (si_to_big b)))"

definition si_mul_i32 :: "bigint_ops \<Rightarrow> nat \<Rightarrow> starlark_int \<Rightarrow> int \<Rightarrow> starlark_int" where
  "si_mul_i32 B bits a rhs =
     (case a of
        Small x \<Rightarrow> (case inline_checked_mul_i32 bits x rhs of
                      Some c \<Rightarrow> Small c
                    | None \<Rightarrow> si_from bits (big_mul B x rhs))
      | Big x \<Rightarrow> si_from bits (big_mul B x rhs))"

fun si_mul :: "bigint_ops \<Rightarrow> nat \<Rightarrow> starlark_int \<Rightarrow> starlark_int \<Rightarrow> starlark_int" where
  "si_mul B bits (Small a) b = si_mul_i32 B bits b a"
| "si_mul B bits a (Small b) = si_mul_i32 B bits a b"
| "si_mul B bits (Big a) (Big b) = si_from bits (big_mul B a b)"

subsection \<open>Canonical representation\<close>

definition in_inline :: "nat \<Rightarrow> int \<Rightarrow> bool" where
  "in_inline bits x \<longleftrightarrow> - (2 ^ (bits - 1)) \<le> x \<and> x < 2 ^ (bits - 1)"

text \<open>The invariant of the type: what fits is stored inline, a \<open>BigInt\<close> does not fit.\<close>

fun si_wf :: "nat \<Rightarrow> starlark_int \<Rightarrow> bool" where
  "si_wf bits (Small i) = in_inline bits i"
| "si_wf bits (Big i) = (\<not> in_inline bits i)"

locale int_env =
  fixes B :: bigint_ops and bits :: nat
  assumes laws: "bigint_laws B" and width: "bits = 32 \<or> bits = 29"
begin

lemma big_simps [simp]:
  "big_add B a b = a + b" "big_sub B a b = a - b" "big_mul B a b = a * b" "big_neg B a = - a" "big_abs B a = \<bar>a\<bar>"
  "b \<noteq> 0 \<Longrightarrow> big_div B a b = rust_div a b" "b \<noteq> 0 \<Longrightarrow> big_rem B a b = rust_rem a b"
  "big_and B a b = a AND b" "big_or B a b = a OR b" "big_xor B a b = a XOR b" "big_not B a = NOT a"
  "big_shl B a n = push_bit n a" "big_shr B a n = drop_bit n a"
  using laws by (simp_all add: bigint_laws_def)

lemma inline_i32: "in_inline bits x \<Longrightarrow> in_i32 x"
  using width by (auto simp: in_inline_def i32_defs)

lemma in_inline_0: "in_inline bits 0"
  by (simp add: in_inline_def)

lemma inline_try_from_iff: "inline_try_from bits x = (if in_inline bits x then Some x else None)"
  using inline_i32 [of x]
  by (auto simp: inline_try_from_def in_inline_def inline_min_def inline_max_def checked_i32_def)

lemma checked_inline: "Option.bind (checked_i32 x) (inline_try_from bits) = (if in_inline bits x then Some x else None)"
  using inline_i32 [of x] by (auto simp: checked_i32_def inline_try_from_iff)

lemma si_from_cases: "si_from bits x = (if in_inline bits x then Small x else Big x)"
  by (simp add: si_from_def inline_try_from_iff)

lemma si_from_wf: "si_wf bits (si_from bits x) \<and> si_to_big (si_from bits x) = x"
  by (simp add: si_from_cases)

lemma si_wf_from: "si_wf bits a \<longleftrightarrow> a = si_from bits (si_to_big a)"
  by (cases a) (auto simp: si_from_cases)

lemmas inline_checked_defs = inline_checked_add_def inline_checked_sub_def inline_checked_neg_def
  inline_checked_mul_i32_def

lemma si_add_exact: "si_add B bits a b = si_from bits (si_to_big a + si_to_big b)"
  by (cases a; cases b) (auto simp: si_add_def inline_checked_defs checked_inline si_from_cases)

lemma si_sub_exact: "si_sub B bits a b = si_from bits (si_to_big a - si_to_big b)"
  by (cases a; cases b) (auto simp: si_sub_def inline_checked_defs checked_inline si_from_cases)

lemma si_neg_exact: "si_neg B bits a = si_from bits (- si_to_big a)"
  by (cases a) (auto simp: si_neg_def inline_checked_defs checked_inline si_from_cases)

lemma si_mul_i32_exact: "si_mul_i32 B bits a x = si_from bits (si_to_big a * x)"
  by (cases a) (auto simp: si_mul_i32_def inline_checked_defs checked_inline si_from_cases)

lemma si_mul_exact: "si_mul B bits a b = si_from bits (si_to_big a * si_to_big b)"
  by (cases a; cases b) (simp_all add: si_mul_i32_exact mult.commute)

lemma si_abs_exact: "si_abs B bits a = si_from bits \<bar>si_to_big a\<bar>"
  by (cases a) (auto split: option.split)

text \<open>The bitwise operations stay in the inline range.\<close>

lemma in_inline_signed: "in_inline bits x \<longleftrightarrow> signed_take_bit (bits - 1) x = x"
  by (simp add: in_inline_def signed_take_bit_int_eq_self_iff)

lemma signed_take_bit_bitwise:
  fixes a b :: int
  shows "signed_take_bit n (a AND b) = signed_take_bit n a AND signed_take_bit n b"
    and "signed_take_bit n (a OR b) = signed_take_bit n a OR signed_take_bit n b"
    and "signed_take_bit n (a XOR b) = signed_take_bit n a XOR signed_take_bit n b"
  by (rule bit_eqI; auto simp: bit_simps)+

lemma in_inline_bitwise:
  assumes "in_inline bits a" and "in_inline bits b"
  shows "in_inline bits (a AND b)" "in_inline bits (a OR b)" "in_inline bits (a XOR b)" "in_inline bits (NOT a)"
proof -
  show "in_inline bits (a AND b)" "in_inline bits (a OR b)" "in_inline bits (a XOR b)"
    using assms unfolding in_inline_signed signed_take_bit_bitwise by simp_all
  show "in_inline bits (NOT a)" using assms(1) by (auto simp: in_inline_def not_int_def)
qed

lemma si_bitwise_exact:
  assumes "si_wf bits a" and "si_wf bits b"
  shows "si_bitand B bits a b = si_from bits (si_to_big a AND si_to_big b)"
    and "si_bitor B bits a b = si_from bits (si_to_big a OR si_to_big b)"
    and "si_bitxor B bits a b = si_from bits (si_to_big a XOR si_to_big b)"
    and "si_not B bits a = si_from bits (NOT (si_to_big a))"
  using assms by (cases a; cases b; simp add: si_from_cases in_inline_bitwise)+

lemma si_cmp_exact:
  assumes "si_wf bits a" and "si_wf bits b"
  shows "si_cmp a b = cmp_key (si_to_big a) (si_to_big b)"
proof -
  have small_big: "cmp_small_big x y = cmp_key x y" if "in_inline bits x" "\<not> in_inline bits y" for x y
  proof -
    have "(y < x \<and> y < 0) \<or> (x < y \<and> 0 < y)" using that width by (auto simp: in_inline_def)
    moreover have "sgn x \<in> {-1, 0, 1}" by (auto simp: sgn_if)
    ultimately show ?thesis by (auto simp: cmp_small_big_def cmp_key_def)
  qed
  have rev: "ordering_reverse (cmp_key x y) = cmp_key y x" for x y :: int by (auto simp: cmp_key_def)
  show ?thesis using assms by (cases a; cases b) (simp_all add: small_big rev)
qed

subsection \<open>Division\<close>

lemma floor_div_big_big_exact:
  "b \<noteq> 0 \<Longrightarrow> floor_div_big_big B bits a b = Ok (si_from bits (a div b))"
  using rust_div_floor [of b a] by (simp add: floor_div_big_big_def Let_def)

lemma si_floor_div_exact:
  assumes "si_wf bits a" and "si_wf bits b"
  shows "si_floor_div B bits a b =
    (if si_to_big b = 0 then Err (FloorDivisionByZero a b) else Ok (si_from bits (si_to_big a div si_to_big b)))"
proof -
  have small: "floor_div_small_small B bits x y = Ok (si_from bits (x div y))"
    if x: "in_inline bits x" and y: "in_inline bits y" "y \<noteq> 0" for x y
  proof -
    define off where "off = (if sgn y * sgn x < 0 \<and> rust_rem x y \<noteq> 0 then 1 else 0 :: int)"
    have "(if sgn y * sgn x < 0 then bind_outcome (inline_rem x y) (\<lambda>r. Ok (if r \<noteq> 0 then 1 else 0)) else Ok 0) =
        (Ok off :: (int_error, int) outcome)"
      using y(2) by (auto simp: inline_rem_def off_def i32_defs)
    moreover have div: "x div y = rust_div x y - off" using rust_div_floor [OF y(2), of x] by (simp add: off_def)
    moreover have "in_inline bits (x div y)" if "in_inline bits (rust_div x y)"
    proof -
      have "\<bar>x div y\<bar> \<le> \<bar>x\<bar>" by (rule abs_div_le_int)
      then show ?thesis using that x div by (auto simp: in_inline_def off_def split: if_splits)
    qed
    ultimately show ?thesis
      using y(2) floor_div_big_big_exact [OF y(2), of x]
      by (auto simp: floor_div_small_small_def Let_def inline_checked_div_def checked_inline inline_checked_sub_def
          si_from_cases)
  qed
  have zero: "floor_div_small_small B bits x 0 = Err (FloorDivisionByZero (Small x) (Small 0))"
    "floor_div_big_big B bits x 0 = Err (FloorDivisionByZero (si_from bits x) (si_from bits 0))" for x
    by (simp_all add: floor_div_small_small_def floor_div_big_big_def)
  show ?thesis
    using assms in_inline_0 by (cases a; cases b) (auto simp: small floor_div_big_big_exact zero si_from_cases)
qed

lemma percent_big_exact: "b \<noteq> 0 \<Longrightarrow> percent_big B bits a b = Ok (si_from bits (a mod b))"
  using rust_rem_floor [of b a] width by (auto simp: percent_big_def Let_def si_from_cases in_inline_def)

lemma si_percent_exact:
  assumes "si_wf bits a" and "si_wf bits b"
  shows "si_percent B bits a b =
    (if si_to_big b = 0 then Err (ModuloByZero a b) else Ok (si_from bits (si_to_big a mod si_to_big b)))"
proof -
  have small: "percent_small bits x y = Ok (x mod y) \<and> in_inline bits (x mod y)"
    if x: "in_inline bits x" and y: "in_inline bits y" "y \<noteq> 0" for x y
  proof -
    have "y < x mod y \<and> x mod y \<le> 0 \<or> 0 \<le> x mod y \<and> x mod y < y"
      using y(2) by (cases "0 < y") auto
    then have "in_inline bits (x mod y)" using y by (auto simp: in_inline_def)
    moreover have "x mod y = 0" if "y = - 1" using that by simp
    ultimately show ?thesis
      using y(2) rust_rem_floor [OF y(2), of x]
      by (auto simp: percent_small_def inline_rem_def inline_checked_add_def checked_inline)
  qed
  have zero: "percent_small bits x 0 = Err (ModuloByZero (Small x) (Small 0))"
    "percent_big B bits x 0 = Err (ModuloByZero (si_from bits x) (si_from bits 0))" for x
    by (simp_all add: percent_small_def percent_big_def)
  show ?thesis
    using assms in_inline_0 by (cases a; cases b) (auto simp: small percent_big_exact zero si_from_cases)
qed

subsection \<open>Shifts\<close>

lemma in_inline_drop_bit: "in_inline bits x \<Longrightarrow> in_inline bits (drop_bit n x)"
proof -
  assume x: "in_inline bits x"
  have "\<bar>x div 2 ^ n\<bar> \<le> \<bar>x\<bar>" by (rule abs_div_le_int)
  moreover have "x div 2 ^ n < 0 \<longleftrightarrow> x < 0" by (simp add: div_neg_pos_less0 pos_imp_zdiv_neg_iff)
  ultimately show ?thesis using x by (auto simp: in_inline_def drop_bit_eq_div)
qed

lemma drop_bit_all:
  assumes "in_i32 x" and "31 \<le> n"
  shows "drop_bit n x = (if x < 0 then - 1 else 0)"
proof -
  have "(2 :: int) ^ 31 \<le> 2 ^ n" using assms(2) by (intro power_increasing) auto
  then have "- (2 ^ n) \<le> x" "x < 2 ^ n" using assms(1) unfolding i32_defs by linarith+
  then have "x div 2 ^ n = 0" if "0 \<le> x" using that by simp
  moreover have "x div 2 ^ n = - 1" if "x < 0"
    using that \<open>- (2 ^ n) \<le> x\<close> int_div_pos_eq [of x "2 ^ n" "- 1" "x + 2 ^ n"] by simp
  ultimately show ?thesis by (simp add: drop_bit_eq_div)
qed

lemma inline_shr: "in_inline bits x \<Longrightarrow> inline_checked_shr bits x n = (if n < 32 then Some (drop_bit (nat n) x) else None)"
  by (simp add: inline_checked_shr_def inline_try_from_iff in_inline_drop_bit)

lemma shr_sign: "in_inline bits x \<Longrightarrow> 31 \<le> n \<Longrightarrow> si_from bits (drop_bit n x) = Small (if x < 0 then - 1 else 0)"
  using drop_bit_all [OF inline_i32, of x n] width by (simp add: si_from_cases in_inline_def)

lemma big_pos: "\<not> in_inline bits y \<Longrightarrow> 0 \<le> y \<Longrightarrow> 100000 < y \<and> 31 \<le> nat y"
  using width by (auto simp: in_inline_def)

lemma si_right_shift_exact:
  assumes a: "si_wf bits a" and b: "si_wf bits b"
  shows "si_right_shift B bits a b =
    (if si_to_big b < 0 then Err RightShiftNegative
     else if si_to_big b < 2 ^ 64 \<or> (\<exists>x. a = Small x) then Ok (si_from bits (drop_bit (nat (si_to_big b)) (si_to_big a)))
     else Ok (Small (if si_to_big a < 0 then - 1 else 0)))"
proof (cases a)
  case [simp]: (Small x)
  with a have x: "in_inline bits x" by simp
  show ?thesis
  proof (cases b)
    case [simp]: (Small y)
    show ?thesis
      using inline_shr [OF x, of y] shr_sign [OF x, of "nat y"] in_inline_drop_bit [OF x, of "nat y"]
      by (auto simp: si_right_shift_def si_from_cases si_to_u64_def Let_def split: option.splits)
  next
    case [simp]: (Big y)
    show ?thesis
      using shr_sign [OF x, of "nat y"] big_pos [of y] b
      by (auto simp: si_right_shift_def si_to_u64_def Let_def split: option.splits)
  qed
next
  case [simp]: (Big x)
  show ?thesis
    using a b by (cases b) (auto simp: si_right_shift_def si_to_u64_def Let_def si_from_cases split: option.splits)
qed

lemma si_left_shift_exact:
  assumes a: "si_wf bits a" and b: "si_wf bits b" and range: "0 \<le> si_to_big b" "si_to_big b \<le> 100000"
    and fits: "\<And>x y. a = Small x \<Longrightarrow> b = Small y \<Longrightarrow> y < 32 \<Longrightarrow> in_i32 (push_bit (nat y) x)"
  shows "si_left_shift B bits a b = Ok (si_from bits (push_bit (nat (si_to_big b)) (si_to_big a)))"
proof -
  obtain y where [simp]: "b = Small y" using range b by (cases b) (auto dest: big_pos)
  have y: "0 \<le> y" "y \<le> 100000" "in_inline bits y" using range b by simp_all
  have cmp: "si_cmp (Small y) (si_from bits 100000) \<noteq> Greater"
    using si_cmp_exact [OF b, of "si_from bits 100000"] si_from_wf [of 100000] y(2) by (simp add: cmp_key_def)
  have u64: "si_to_u64 (Small y) = Some y" using y by (simp add: si_to_u64_def Let_def)
  have zero: "si_from bits 0 = Small 0" using in_inline_0 by (simp add: si_from_cases)
  have canon: "si_from bits (si_to_big a) = a" using a by (simp add: si_wf_from)
  show ?thesis
  proof (cases a)
    case (Small x)
    have "inline_checked_shl bits x y =
        (if y < 32 \<and> in_inline bits (push_bit (nat y) x) then Some (push_bit (nat y) x) else None)"
      using fits [OF Small \<open>b = Small y\<close>] by (simp add: inline_checked_shl_def inline_try_from_iff)
    then show ?thesis
      using cmp u64 zero canon y Small
      by (cases "y < 32 \<and> in_inline bits (push_bit (nat y) x)")
        (simp add: si_left_shift_def si_from_cases [of "push_bit (nat y) x"], auto simp: si_left_shift_def)
  next
    case (Big x)
    with cmp u64 zero canon y show ?thesis by (auto simp: si_left_shift_def)
  qed
qed

lemma si_left_shift_errors:
  assumes a: "si_wf bits a" and b: "si_wf bits b"
  shows "si_to_big b < 0 \<Longrightarrow> si_left_shift B bits a b = Err LeftShiftNegative"
    and "100000 < si_to_big b \<Longrightarrow> si_to_big a \<noteq> 0 \<Longrightarrow> si_left_shift B bits a b = Err LeftShiftOverflow"
proof -
  show "si_left_shift B bits a b = Err LeftShiftNegative" if "si_to_big b < 0"
    using that by (cases a; cases b) (auto simp: si_left_shift_def)
  assume big: "100000 < si_to_big b" and nz: "si_to_big a \<noteq> 0"
  have "si_cmp b (si_from bits 100000) = Greater"
    using si_cmp_exact [OF b, of "si_from bits 100000"] si_from_wf [of 100000] big by (simp add: cmp_key_def)
  then show "si_left_shift B bits a b = Err LeftShiftOverflow"
    using big nz by (cases a; cases b) (auto simp: si_left_shift_def inline_checked_shl_def)
qed

end

subsection \<open>Properties\<close>

text \<open>The exact operations on \<open>int\<close> satisfy the laws; on both platforms.\<close>

definition int_bigint :: bigint_ops where
  "int_bigint = \<lparr>big_add = (+), big_sub = (-), big_mul = (*), big_neg = uminus, big_abs = abs,
     big_div = rust_div, big_rem = rust_rem, big_and = (AND), big_or = (OR), big_xor = (XOR), big_not = NOT,
     big_shl = (\<lambda>a n. push_bit n a), big_shr = (\<lambda>a n. drop_bit n a)\<rparr>"

lemma int_bigint_laws: "bigint_laws int_bigint"
  by (simp add: bigint_laws_def int_bigint_def)

interpretation int64: int_env int_bigint 32
  by unfold_locales (simp_all add: int_bigint_laws)

interpretation int32: int_env int_bigint 29
  by unfold_locales (simp_all add: int_bigint_laws)

text \<open>C7. The ring and bitwise operations on Starlark integers are exact: the result is the canonical
  representation of the mathematical result, whatever mix of inline and big operands.\<close>

theorem starlark_int_ring_exact:
  assumes "bigint_laws B" and "bits = 32 \<or> bits = 29" and "si_wf bits a" and "si_wf bits b"
  shows "si_add B bits a b = si_from bits (si_to_big a + si_to_big b) \<and>
    si_sub B bits a b = si_from bits (si_to_big a - si_to_big b) \<and>
    si_mul B bits a b = si_from bits (si_to_big a * si_to_big b) \<and>
    si_neg B bits a = si_from bits (- si_to_big a) \<and> si_abs B bits a = si_from bits \<bar>si_to_big a\<bar> \<and>
    si_bitand B bits a b = si_from bits (si_to_big a AND si_to_big b) \<and>
    si_bitor B bits a b = si_from bits (si_to_big a OR si_to_big b) \<and>
    si_bitxor B bits a b = si_from bits (si_to_big a XOR si_to_big b) \<and>
    si_not B bits a = si_from bits (NOT (si_to_big a)) \<and>
    (\<forall>x. si_wf bits (si_from bits x) \<and> si_to_big (si_from bits x) = x)"
proof -
  note env = int_env.intro [OF assms(1,2)]
  show ?thesis
    using int_env.si_add_exact [OF env] int_env.si_sub_exact [OF env] int_env.si_mul_exact [OF env]
      int_env.si_neg_exact [OF env] int_env.si_abs_exact [OF env] int_env.si_bitwise_exact [OF env assms(3,4)]
      int_env.si_from_wf [OF env] by simp
qed

theorem starlark_int_ring_exact_witness:
  "si_add int_bigint 32 (Small 2147483647) (Small 1) = Big 2147483648 \<and>
    si_mul int_bigint 32 (Big 4294967296) (Small 0) = Small 0"
proof -
  have wf: "si_wf 32 (Small 2147483647)" "si_wf 32 (Small 1)" "si_wf 32 (Big 4294967296)" "si_wf 32 (Small 0)"
    by (simp_all add: in_inline_def)
  show ?thesis
    using starlark_int_ring_exact [OF int_bigint_laws _ wf(1,2)] starlark_int_ring_exact [OF int_bigint_laws _ wf(3,4)]
    by (simp add: int64.si_from_cases in_inline_def)
qed

text \<open>C10. \<open>//\<close> is floor division and \<open>%\<close> its remainder with the sign of the divisor, for every mix of operands,
  the smallest \<open>i32\<close> divided by -1 included; dividing by zero is the only error, and nothing panics.\<close>

theorem starlark_int_division_floors:
  assumes "bigint_laws B" and "bits = 32 \<or> bits = 29" and "si_wf bits a" and "si_wf bits b"
  shows "si_floor_div B bits a b = (if si_to_big b = 0 then Err (FloorDivisionByZero a b)
      else Ok (si_from bits (si_to_big a div si_to_big b))) \<and>
    si_percent B bits a b = (if si_to_big b = 0 then Err (ModuloByZero a b)
      else Ok (si_from bits (si_to_big a mod si_to_big b)))"
  using int_env.si_floor_div_exact [OF int_env.intro, OF assms] int_env.si_percent_exact [OF int_env.intro, OF assms]
  by simp

theorem starlark_int_division_floors_witness:
  "si_floor_div int_bigint 32 (Small (- 2147483648)) (Small (- 1)) = Ok (Big 2147483648) \<and>
    si_percent int_bigint 32 (Small (- 2147483648)) (Small (- 1)) = Ok (Small 0)"
  using starlark_int_division_floors [OF int_bigint_laws, of 32 "Small (- 2147483648)" "Small (- 1)"]
  by (simp add: in_inline_def int64.si_from_cases)

text \<open>Comparison of Starlark integers, which looks at the sign alone when exactly one of them is big,
  is the order of the integers.\<close>

theorem starlark_int_comparison:
  assumes "bigint_laws B" and "bits = 32 \<or> bits = 29" and "si_wf bits a" and "si_wf bits b"
  shows "si_cmp a b = cmp_key (si_to_big a) (si_to_big b)"
  by (rule int_env.si_cmp_exact [OF int_env.intro, OF assms])

theorem starlark_int_comparison_witness: "si_cmp (Small 5) (Big (- 9999999999)) = Greater"
  using starlark_int_comparison [OF int_bigint_laws, of 32 "Small 5" "Big (- 9999999999)"]
  by (simp add: in_inline_def cmp_key_def)

text \<open>Shifts. A right shift is exact for every count that fits 64 bits (and for every count when the
  operand is inline); a left shift by at most 100000 is exact unless both operands are inline, the count
  is below 32 and the result does not fit an \<open>i32\<close>; other counts are errors.\<close>

theorem starlark_int_shifts:
  assumes "bigint_laws B" and "bits = 32 \<or> bits = 29" and "si_wf bits a" and "si_wf bits b"
  shows "(0 \<le> si_to_big b \<and> (si_to_big b < 2 ^ 64 \<or> (\<exists>x. a = Small x)) \<longrightarrow>
      si_right_shift B bits a b = Ok (si_from bits (drop_bit (nat (si_to_big b)) (si_to_big a)))) \<and>
    (si_to_big b < 0 \<longrightarrow> si_right_shift B bits a b = Err RightShiftNegative \<and>
      si_left_shift B bits a b = Err LeftShiftNegative) \<and>
    (100000 < si_to_big b \<and> si_to_big a \<noteq> 0 \<longrightarrow> si_left_shift B bits a b = Err LeftShiftOverflow) \<and>
    (0 \<le> si_to_big b \<and> si_to_big b \<le> 100000 \<and>
      (\<forall>x y. a = Small x \<and> b = Small y \<and> y < 32 \<longrightarrow> in_i32 (push_bit (nat y) x)) \<longrightarrow>
      si_left_shift B bits a b = Ok (si_from bits (push_bit (nat (si_to_big b)) (si_to_big a))))"
proof -
  note env = int_env.intro [OF assms(1,2)]
  show ?thesis
    using int_env.si_right_shift_exact [OF env assms(3,4)] int_env.si_left_shift_errors [OF env assms(3,4)]
      int_env.si_left_shift_exact [OF env assms(3,4)] by auto
qed

theorem starlark_int_shifts_witness:
  "si_left_shift int_bigint 32 (Small 1) (Small 40) = Ok (Big 1099511627776)"
  using starlark_int_shifts [OF int_bigint_laws, of 32 "Small 1" "Small 40"]
  by (simp add: in_inline_def int64.si_from_cases push_bit_eq_mult)

text \<open>The excluded left shifts lose bits: \<open>1 << 31\<close> is negative on a 64-bit platform, because \<open>i32::checked_shl\<close>
  checks the count and not the result.\<close>

theorem left_shift_loses_bits:
  "si_left_shift B 32 (Small 1) (Small 31) = Ok (Small (- 2147483648)) \<and>
    si_left_shift B 32 (Small 2147483647) (Small 1) = Ok (Small (- 2))"
  by (simp add: si_left_shift_def inline_checked_shl_def inline_try_from_def wrap_i32_def checked_i32_def i32_defs
      inline_min_def inline_max_def push_bit_eq_mult)

end
