(* ===== verification/Parameters.thy ===== *)
theory Parameters
  imports Rust_Int Ordered_Alist
begin

text \<open>
  Binding of call arguments to parameters: \<^verbatim>\<open>starlark/src/eval/runtime/params/spec.rs\<close>. The builder lays out
  the parameters of a function (positional-only, positional or named, \<open>*args\<close>, named-only, \<open>**kwargs\<close>) and
  \<open>collect\<close> moves the arguments of a call into the slots of the parameters.

  A value that \<open>collect\<close> allocates itself, the tuple of \<open>*args\<close> or the dict of \<open>**kwargs\<close>, is a constructor of
  \<open>slot_value\<close>. The map from names to indices is an association list; the \<open>SmallMap\<close> of the extra named
  arguments is its list of entries in insertion order.
\<close>

subsection \<open>The specification and its builder\<close>

datatype 'v parameter_kind = Required | Optional | Defaulted 'v | Args | KWargs

datatype 'v spec_param = PRequired | POptional | PDefaulted 'v

datatype parameter_style = PosOnly | PosOrNamed | NamedOnly | NoMore

fun style_rank :: "parameter_style \<Rightarrow> nat" where
  "style_rank PosOnly = 0"
| "style_rank PosOrNamed = 1"
| "style_rank NamedOnly = 2"
| "style_rank NoMore = 3"

record 'v spec_builder =
  b_function_name :: string
  b_params :: "(string \<times> 'v parameter_kind) list"
  b_names :: "(string \<times> nat) list"
  b_positional_only :: nat
  b_positional :: nat
  b_current_style :: parameter_style
  b_args :: "nat option"
  b_kwargs :: "nat option"

record param_indices =
  num_positional :: nat
  num_positional_only :: nat
  args_index :: "nat option"
  kwargs_index :: "nat option"

record 'v parameters_spec =
  function_name :: string
  param_kinds :: "'v parameter_kind list"
  param_names :: "string list"
  spec_names :: "(string \<times> nat) list"
  indices :: param_indices

text \<open>A failed \<open>assert!\<close> is \<open>None\<close>; an index that does not fit \<open>u32\<close> too.\<close>

definition to_u32 :: "nat \<Rightarrow> nat option" where
  "to_u32 n = (if n < 2 ^ 32 then Some n else None)"

definition spec_with_capacity :: "string \<Rightarrow> 'v spec_builder" where
  "spec_with_capacity name =
     \<lparr>b_function_name = name, b_params = [], b_names = [], b_positional_only = 0, b_positional = 0,
      b_current_style = PosOnly, b_args = None, b_kwargs = None\<rparr>"

definition builder_add :: "string \<Rightarrow> 'v parameter_kind \<Rightarrow> 'v spec_builder \<Rightarrow> 'v spec_builder option" where
  "builder_add name val b =
     (if val = Args \<or> val = KWargs then None
      else if \<not> style_rank (b_current_style b) < style_rank NoMore then None
      else if b_kwargs b \<noteq> None then None
      else
        let i = length (b_params b);
            b = b\<lparr>b_params := b_params b @ [(name, val)]\<rparr>
        in case (if b_current_style b \<noteq> PosOnly
                 then (case to_u32 i of
                         None \<Rightarrow> None
                       | Some j \<Rightarrow>
                           if map_of (b_names b) name \<noteq> None then None
                           else Some (b\<lparr>b_names := b_names b @ [(name, j)]\<rparr>))
                 else Some b) of
             None \<Rightarrow> None
           | Some b \<Rightarrow>
               Some (if b_args b = None \<and> b_current_style b \<noteq> NamedOnly
                     then let b = b\<lparr>b_positional := i + 1\<rparr>
                          in if b_current_style b = PosOnly then b\<lparr>b_positional_only := i + 1\<rparr> else b
                     else b))"

definition builder_param :: "string \<Rightarrow> 'v spec_param \<Rightarrow> 'v spec_builder \<Rightarrow> 'v spec_builder option" where
  "builder_param name p b =
     (case p of
        PRequired \<Rightarrow> builder_add name Required b
      | POptional \<Rightarrow> builder_add name Optional b
      | PDefaulted x \<Rightarrow> builder_add name (Defaulted x) b)"

definition builder_args :: "'v spec_builder \<Rightarrow> 'v spec_builder option" where
  "builder_args b =
     (if b_args b \<noteq> None \<or> \<not> style_rank (b_current_style b) < style_rank NamedOnly \<or> b_kwargs b \<noteq> None then None
      else let b = b\<lparr>b_params := b_params b @ [(''*args'', Args)]\<rparr>
           in Some (b\<lparr>b_args := Some (length (b_params b) - 1), b_current_style := NamedOnly\<rparr>))"

definition builder_no_more_positional_only_args :: "'v spec_builder \<Rightarrow> 'v spec_builder option" where
  "builder_no_more_positional_only_args b =
     (if b_current_style b \<noteq> PosOnly then None else Some (b\<lparr>b_current_style := PosOrNamed\<rparr>))"

definition builder_no_more_positional_args :: "'v spec_builder \<Rightarrow> 'v spec_builder option" where
  "builder_no_more_positional_args b =
     (if b_args b \<noteq> None \<or> \<not> style_rank (b_current_style b) < style_rank NamedOnly \<or> b_kwargs b \<noteq> None then None
      else Some (b\<lparr>b_current_style := NamedOnly\<rparr>))"

definition builder_kwargs :: "'v spec_builder \<Rightarrow> 'v spec_builder option" where
  "builder_kwargs b =
     (if b_kwargs b \<noteq> None then None
      else let b = b\<lparr>b_params := b_params b @ [(''**kwargs'', KWargs)], b_current_style := NoMore\<rparr>
           in Some (b\<lparr>b_kwargs := Some (length (b_params b) - 1)\<rparr>))"

definition try_u32 :: "nat option \<Rightarrow> nat option option" where
  "try_u32 x = (case x of None \<Rightarrow> Some None | Some n \<Rightarrow> map_option Some (to_u32 n))"

definition builder_finish :: "'v spec_builder \<Rightarrow> 'v parameters_spec option" where
  "builder_finish b =
     (case (to_u32 (b_positional_only b), to_u32 (b_positional b)) of
        (Some positional_only, Some positional) \<Rightarrow>
          if \<not> positional_only \<le> positional then None
          else (case (try_u32 (b_args b), try_u32 (b_kwargs b)) of
                  (Some args, Some kwargs) \<Rightarrow>
                    Some \<lparr>function_name = b_function_name b,
                          param_kinds = map snd (b_params b), param_names = map fst (b_params b),
                          spec_names = b_names b,
                          indices = \<lparr>num_positional = positional, num_positional_only = positional_only,
                                     args_index = args, kwargs_index = kwargs\<rparr>\<rparr>
                | _ \<Rightarrow> None)
      | _ \<Rightarrow> None)"

fun builder_params :: "(string \<times> 'v spec_param) list \<Rightarrow> 'v spec_builder \<Rightarrow> 'v spec_builder option" where
  "builder_params [] b = Some b"
| "builder_params ((name, p) # ps) b = Option.bind (builder_param name p b) (builder_params ps)"

definition new_parts ::
  "string \<Rightarrow> (string \<times> 'v spec_param) list \<Rightarrow> (string \<times> 'v spec_param) list \<Rightarrow> bool \<Rightarrow>
   (string \<times> 'v spec_param) list \<Rightarrow> bool \<Rightarrow> 'v parameters_spec option" where
  "new_parts name pos_only pos_or_named args named_only kwargs =
     Option.bind (builder_params pos_only (spec_with_capacity name)) (\<lambda>b.
     Option.bind (builder_no_more_positional_only_args b) (\<lambda>b.
     Option.bind (builder_params pos_or_named b) (\<lambda>b.
     Option.bind (if args then builder_args b else builder_no_more_positional_args b) (\<lambda>b.
     Option.bind (builder_params named_only b) (\<lambda>b.
     Option.bind (if kwargs then builder_kwargs b else Some b) builder_finish)))))"

subsection \<open>Arguments of a call\<close>

text \<open>
  \<open>a_args\<close> is the value given as \<open>*args\<close>: its items, or \<open>None\<close> if it cannot be iterated. \<open>a_kwargs\<close> is the value
  given as \<open>**kwargs\<close>: its entries if it is a dict, a key being \<open>None\<close> if it is not a string.
\<close>

record 'v arguments =
  a_pos :: "'v list"
  a_names :: "string list"
  a_named :: "'v list"
  a_args :: "'v list option option"
  a_kwargs :: "(string option \<times> 'v) list option option"

datatype 'v slot_value = Plain 'v | TupleOf "'v list" | DictOf "(string \<times> 'v) list"

type_synonym 'v slots = "'v slot_value option list"

datatype function_error =
    ArgsArrayIsNotIterable
  | RepeatedArg string
  | ArgsValueIsNotString
  | KwArgsIsNotDict
  | MissingPositionalOnly string string
  | MissingNamedOnly string string
  | MissingParameter string string
  | ExtraPositionalArg nat string
  | ExtraNamedArg "string list" string

text \<open>Writing to a slot out of range panics.\<close>

definition set_slot :: "nat \<Rightarrow> 'v slot_value \<Rightarrow> 'v slots \<Rightarrow> (function_error, 'v slots) outcome" where
  "set_slot i v slots = (if i < length slots then Ok (slots[i := Some v]) else Panic)"

definition set_slots_from :: "'v list \<Rightarrow> 'v slots \<Rightarrow> 'v slots" where
  "set_slots_from vs slots = map (\<lambda>v. Some (Plain v)) (take (length slots) vs) @ drop (length vs) slots"

text \<open>Positional values beyond the positional parameters go to \<open>star_args\<close>.\<close>

fun fill_positional ::
  "nat \<Rightarrow> 'v list \<Rightarrow> nat \<Rightarrow> 'v slots \<Rightarrow> 'v list \<Rightarrow> (function_error, nat \<times> 'v slots \<times> 'v list) outcome" where
  "fill_positional np [] nxt slots star = Ok (nxt, slots, star)"
| "fill_positional np (v # vs) nxt slots star =
     (if nxt < np
      then bind_outcome (set_slot nxt (Plain v) slots) (\<lambda>slots. fill_positional np vs (nxt + 1) slots star)
      else fill_positional np vs nxt slots (star @ [v]))"

fun fill_named ::
  "(string \<times> nat) list \<Rightarrow> (string \<times> 'v) list \<Rightarrow> 'v slots \<Rightarrow> (string \<times> 'v) list \<Rightarrow> nat \<Rightarrow>
   (function_error, 'v slots \<times> (string \<times> 'v) list \<times> nat) outcome" where
  "fill_named names [] slots kwargs lowest = Ok (slots, kwargs, lowest)"
| "fill_named names ((name, v) # rest) slots kwargs lowest =
     (case map_of names name of
        None \<Rightarrow> fill_named names rest slots (kwargs @ [(name, v)]) lowest
      | Some i \<Rightarrow>
          bind_outcome (set_slot i (Plain v) slots) (\<lambda>slots. fill_named names rest slots kwargs (min lowest i)))"

fun fill_kwargs ::
  "(string \<times> nat) list \<Rightarrow> (string option \<times> 'v) list \<Rightarrow> 'v slots \<Rightarrow> (string \<times> 'v) list \<Rightarrow>
   (function_error, 'v slots \<times> (string \<times> 'v) list) outcome" where
  "fill_kwargs names [] slots kwargs = Ok (slots, kwargs)"
| "fill_kwargs names ((k, v) # rest) slots kwargs =
     (case k of
        None \<Rightarrow> Err ArgsValueIsNotString
      | Some s \<Rightarrow>
          (case map_of names s of
             None \<Rightarrow>
               if map_of kwargs s \<noteq> None then Err (RepeatedArg s)
               else fill_kwargs names rest slots (alist_insert s v kwargs)
           | Some i \<Rightarrow>
               if i \<ge> length slots then Panic
               else if slots ! i \<noteq> None then Err (RepeatedArg s)
               else fill_kwargs names rest (slots[i := Some (Plain v)]) kwargs))"

text \<open>Defaults for the parameters from position \<open>i\<close> on.\<close>

fun fill_defaults :: "'v parameters_spec \<Rightarrow> nat \<Rightarrow> nat \<Rightarrow> 'v slots \<Rightarrow> (function_error, 'v slots) outcome" where
  "fill_defaults s 0 i slots = Ok slots"
| "fill_defaults s (Suc left) i slots =
     (if slots ! i \<noteq> None then fill_defaults s left (i + 1) slots
      else (case param_kinds s ! i of
              Required \<Rightarrow>
                (if i < num_positional_only (indices s)
                 then Err (MissingPositionalOnly (param_names s ! i) (function_name s))
                 else if i \<ge> num_positional (indices s)
                 then Err (MissingNamedOnly (param_names s ! i) (function_name s))
                 else Err (MissingParameter (param_names s ! i) (function_name s)))
            | Defaulted x \<Rightarrow> fill_defaults s left (i + 1) (slots[i := Some (Plain x)])
            | _ \<Rightarrow> fill_defaults s left (i + 1) slots))"

definition collect_slow :: "'v parameters_spec \<Rightarrow> 'v arguments \<Rightarrow> 'v slots \<Rightarrow> (function_error, 'v slots) outcome" where
  "collect_slow s args slots =
     (let len = length (param_kinds s); np = num_positional (indices s)
      in if \<not> length slots \<ge> len then Panic
         else
           bind_outcome
             (if length (a_pos args) \<le> np then Ok (length (a_pos args), set_slots_from (a_pos args) slots, [])
              else fill_positional np (a_pos args) 0 slots []) (\<lambda>(nxt, slots, star).
           bind_outcome (fill_named (spec_names s) (zip (a_names args) (a_named args)) slots [] usize_max)
             (\<lambda>(slots, kwargs, lowest).
           bind_outcome
             (case a_args args of
                None \<Rightarrow> Ok (nxt, slots, star)
              | Some None \<Rightarrow> Err ArgsArrayIsNotIterable
              | Some (Some vs) \<Rightarrow> fill_positional np vs nxt slots star) (\<lambda>(nxt, slots, star).
           if nxt > lowest then
             (if lowest < length (param_names s) then Err (RepeatedArg (param_names s ! lowest)) else Panic)
           else
           bind_outcome
             (case a_kwargs args of
                None \<Rightarrow> Ok (slots, kwargs)
              | Some None \<Rightarrow> Err KwArgsIsNotDict
              | Some (Some kvs) \<Rightarrow> fill_kwargs (spec_names s) kvs slots kwargs) (\<lambda>(slots, kwargs).
           bind_outcome (fill_defaults s (len - nxt) nxt slots) (\<lambda>slots.
           bind_outcome
             (case args_index (indices s) of
                Some i \<Rightarrow> set_slot i (TupleOf star) slots
              | None \<Rightarrow> if star \<noteq> [] then Err (ExtraPositionalArg (length star) (function_name s)) else Ok slots)
             (\<lambda>slots.
           case kwargs_index (indices s) of
             Some i \<Rightarrow> set_slot i (DictOf kwargs) slots
           | None \<Rightarrow>
               if kwargs \<noteq> [] then Err (ExtraNamedArg (map fst kwargs) (function_name s)) else Ok slots)))))))"

definition collect_inline :: "'v parameters_spec \<Rightarrow> 'v arguments \<Rightarrow> 'v slots \<Rightarrow> (function_error, 'v slots) outcome" where
  "collect_inline s args slots =
     (if length (a_pos args) = num_positional (indices s) \<and> length (a_pos args) = length (param_kinds s) \<and>
         a_named args = [] \<and> a_args args = None \<and> a_kwargs args = None
      then Ok (set_slots_from (a_pos args) slots)
      else collect_slow s args slots)"

text \<open>\<open>can_fill_with_args\<close>: the same question for a signature, without values.\<close>

fun cf_positional :: "'v parameters_spec \<Rightarrow> nat list \<Rightarrow> bool list \<Rightarrow> bool list option" where
  "cf_positional s [] filled = Some filled"
| "cf_positional s (p # ps) filled =
     (if p < num_positional (indices s) then cf_positional s ps (filled[p := True])
      else if args_index (indices s) \<noteq> None then cf_positional s ps filled
      else None)"

fun cf_named :: "'v parameters_spec \<Rightarrow> string list \<Rightarrow> bool list \<Rightarrow> bool list option" where
  "cf_named s [] filled = Some filled"
| "cf_named s (name # ns) filled =
     (case map_of (spec_names s) name of
        Some i \<Rightarrow> if filled ! i then None else cf_named s ns (filled[i := True])
      | None \<Rightarrow> if kwargs_index (indices s) = None then None else cf_named s ns filled)"

definition can_fill_with_args :: "'v parameters_spec \<Rightarrow> nat \<Rightarrow> string list \<Rightarrow> bool" where
  "can_fill_with_args s pos names =
     (case cf_positional s [0..<pos] (replicate (length (param_kinds s)) False) of
        None \<Rightarrow> False
      | Some filled \<Rightarrow>
          if pos > num_positional (indices s) \<and> args_index (indices s) = None then False
          else (case cf_named s names filled of
                  None \<Rightarrow> False
                | Some filled \<Rightarrow>
                    list_all (\<lambda>(f, p). f \<or> p \<noteq> Required) (zip filled (param_kinds s))))"

subsection \<open>Well-formed specifications\<close>

abbreviation collecting :: "'v parameter_kind \<Rightarrow> bool" where
  "collecting k \<equiv> k = Args \<or> k = KWargs"

definition spec_wf :: "'v parameters_spec \<Rightarrow> bool" where
  "spec_wf s \<longleftrightarrow>
     length (param_names s) = length (param_kinds s) \<and> length (param_kinds s) < 2 ^ 32 \<and>
     num_positional_only (indices s) \<le> num_positional (indices s) \<and>
     num_positional (indices s) \<le> length (param_kinds s) \<and>
     (\<forall>i < num_positional (indices s). \<not> collecting (param_kinds s ! i)) \<and>
     (\<forall>i < length (param_kinds s). param_kinds s ! i = Args \<longleftrightarrow> args_index (indices s) = Some i) \<and>
     (\<forall>i < length (param_kinds s). param_kinds s ! i = KWargs \<longleftrightarrow> kwargs_index (indices s) = Some i) \<and>
     pred_option (\<lambda>i. i < length (param_kinds s)) (args_index (indices s)) \<and>
     pred_option (\<lambda>i. i < length (param_kinds s)) (kwargs_index (indices s)) \<and>
     (\<forall>n i. map_of (spec_names s) n = Some i \<longleftrightarrow>
        num_positional_only (indices s) \<le> i \<and> i < length (param_kinds s) \<and>
        \<not> collecting (param_kinds s ! i) \<and> param_names s ! i = n)"

lemma spec_wfD:
  assumes "spec_wf s"
  shows "length (param_names s) = length (param_kinds s)" "length (param_kinds s) < 2 ^ 32"
    "num_positional (indices s) \<le> length (param_kinds s)"
    "i < num_positional (indices s) \<Longrightarrow> \<not> collecting (param_kinds s ! i)"
    "map_of (spec_names s) n = Some i \<Longrightarrow> i < length (param_kinds s) \<and> \<not> collecting (param_kinds s ! i)"
    "map_of (spec_names s) n = Some i \<Longrightarrow> map_of (spec_names s) m = Some i \<Longrightarrow> m = n"
    "args_index (indices s) = Some i \<Longrightarrow> i < length (param_kinds s) \<and> param_kinds s ! i = Args"
    "kwargs_index (indices s) = Some i \<Longrightarrow> i < length (param_kinds s) \<and> param_kinds s ! i = KWargs"
  using assms by (auto simp: spec_wf_def)

subsection \<open>What each phase does\<close>

text \<open>Named values by the index of their parameter, and those without a parameter.\<close>

definition by_index :: "(string \<times> nat) list \<Rightarrow> (string \<times> 'v) list \<Rightarrow> (nat \<times> 'v) list" where
  "by_index names nvs = List.map_filter (\<lambda>(n, v). map_option (\<lambda>i. (i, v)) (map_of names n)) nvs"

definition extra_named :: "(string \<times> nat) list \<Rightarrow> (string \<times> 'v) list \<Rightarrow> (string \<times> 'v) list" where
  "extra_named names nvs = filter (\<lambda>(n, v). map_of names n = None) nvs"

definition overlay :: "(nat \<times> 'v) list \<Rightarrow> 'v slots \<Rightarrow> 'v slots" where
  "overlay ivs slots =
     map (\<lambda>i. case map_of (rev ivs) i of Some v \<Rightarrow> Some (Plain v) | None \<Rightarrow> slots ! i) [0..<length slots]"

lemma length_overlay [simp]: "length (overlay ivs slots) = length slots"
  by (simp add: overlay_def)

lemma nth_overlay: "i < length slots \<Longrightarrow>
  overlay ivs slots ! i = (case map_of (rev ivs) i of Some v \<Rightarrow> Some (Plain v) | None \<Rightarrow> slots ! i)"
  by (simp add: overlay_def split: option.split)

lemma overlay_Nil [simp]: "overlay [] slots = slots"
  by (simp add: overlay_def map_nth)

lemma overlay_Cons: "i < length slots \<Longrightarrow> overlay ((i, v) # ivs) slots = overlay ivs (slots[i := Some (Plain v)])"
  by (rule nth_equalityI) (auto simp: nth_overlay nth_list_update map_add_def split: option.splits)

lemma by_index_simps [simp]:
  "by_index names [] = []"
  "by_index names ((n, v) # nvs) =
     (case map_of names n of None \<Rightarrow> by_index names nvs | Some i \<Rightarrow> (i, v) # by_index names nvs)"
  by (simp_all add: by_index_def map_filter_simps split: option.splits)

lemma extra_named_simps [simp]:
  "extra_named names [] = []"
  "extra_named names ((n, v) # nvs) =
     (if map_of names n = None then (n, v) # extra_named names nvs else extra_named names nvs)"
  by (simp_all add: extra_named_def)

lemma by_index_append: "by_index names (xs @ ys) = by_index names xs @ by_index names ys"
  by (induction xs) (auto split: option.splits)

lemma extra_named_append: "extra_named names (xs @ ys) = extra_named names xs @ extra_named names ys"
  by (simp add: extra_named_def)

lemma fill_named_ok:
  assumes "\<And>n i. map_of names n = Some i \<Longrightarrow> i < length slots"
  shows "fill_named names nvs slots kwargs lowest =
    Ok (overlay (by_index names nvs) slots, kwargs @ extra_named names nvs,
        Min (insert lowest (fst ` set (by_index names nvs))))"
  using assms
proof (induction names nvs slots kwargs lowest rule: fill_named.induct)
  case (2 names n v rest slots kwargs lowest)
  show ?case
  proof (cases "map_of names n")
    case None
    with 2 show ?thesis by simp
  next
    case (Some i)
    with 2 have i: "i < length slots" by blast
    let ?I = "fst ` set (by_index names rest)"
    have "Min (insert lowest (insert i ?I)) = Min (insert (min lowest i) ?I)"
      by (cases "?I = {}") (simp_all add: min.assoc)
    with 2 Some i show ?thesis by (simp add: set_slot_def overlay_Cons insert_commute)
  qed
qed simp

definition place :: "nat \<Rightarrow> 'v list \<Rightarrow> 'v slots \<Rightarrow> 'v slots" where
  "place nxt vs slots = overlay (zip [nxt..<nxt + length vs] vs) slots"

lemma place_Nil [simp]: "place nxt [] slots = slots"
  by (simp add: place_def)

lemma place_Cons: "nxt < length slots \<Longrightarrow> place nxt (v # vs) slots = place (Suc nxt) vs (slots[nxt := Some (Plain v)])"
  by (simp add: place_def upt_conv_Cons overlay_Cons del: upt_Suc)

lemma length_place [simp]: "length (place nxt vs slots) = length slots"
  by (simp add: place_def)

lemma nth_place: "i < length slots \<Longrightarrow>
  place nxt vs slots ! i = (if nxt \<le> i \<and> i < nxt + length vs then Some (Plain (vs ! (i - nxt))) else slots ! i)"
proof (induction vs arbitrary: nxt slots)
  case (Cons v vs)
  show ?case
  proof (cases "nxt < length slots")
    case True
    with Cons show ?thesis by (auto simp: place_Cons nth_list_update nth_Cons' Suc_diff_le)
  next
    case False
    with Cons.prems have "i \<notin> set [nxt..<nxt + length (v # vs)]" by simp
    then have "map_of (rev (zip [nxt..<nxt + length (v # vs)] (v # vs))) i = None"
      by (auto simp: map_of_eq_None_iff dest: set_zip_leftD simp del: upt_Suc)
    with False Cons.prems show ?thesis by (simp add: place_def nth_overlay del: upt_Suc)
  qed
qed auto

lemma fill_positional_ok:
  assumes "nxt \<le> np" and "np \<le> length slots"
  shows "fill_positional np vs nxt slots star =
    Ok (min np (nxt + length vs), place nxt (take (np - nxt) vs) slots, star @ drop (np - nxt) vs)"
  using assms
proof (induction np vs nxt slots star rule: fill_positional.induct)
  case (2 np v vs nxt slots star)
  then show ?case
    by (cases "nxt < np") (auto simp: set_slot_def place_Cons take_Cons' drop_Cons' min_def)
qed simp

lemma set_slots_from_place: "length vs \<le> length slots \<Longrightarrow> set_slots_from vs slots = place 0 vs slots"
  by (rule nth_equalityI) (auto simp: set_slots_from_def nth_place nth_append)

lemma place_append: "place nxt (xs @ ys) slots = place (nxt + length xs) ys (place nxt xs slots)"
  by (rule nth_equalityI) (auto simp: nth_place nth_append)

text \<open>The dict of \<open>**kwargs\<close>, when it is accepted.\<close>

definition string_keys :: "(string option \<times> 'v) list \<Rightarrow> (string \<times> 'v) list" where
  "string_keys kvs = map (\<lambda>(k, v). (the k, v)) kvs"

lemma alist_insert_new: "map_of xs k = None \<Longrightarrow> alist_insert k v xs = xs @ [(k, v)]"
  using key_index_None [of k xs] by (auto simp: alist_insert_def map_of_eq_None_iff)

definition free_for :: "(string \<times> nat) list \<Rightarrow> 'v slots \<Rightarrow> (string \<times> 'v) list \<Rightarrow> string \<Rightarrow> bool" where
  "free_for names slots kwargs n \<longleftrightarrow>
     (case map_of names n of None \<Rightarrow> map_of kwargs n = None | Some i \<Rightarrow> slots ! i = None)"

definition kwargs_fit ::
  "(string \<times> nat) list \<Rightarrow> (string option \<times> 'v) list \<Rightarrow> 'v slots \<Rightarrow> (string \<times> 'v) list \<Rightarrow> bool" where
  "kwargs_fit names kvs slots kwargs \<longleftrightarrow>
     None \<notin> fst ` set kvs \<and> distinct (map fst kvs) \<and>
     (\<forall>n. Some n \<in> fst ` set kvs \<longrightarrow> free_for names slots kwargs n)"

lemma kwargs_fit_step:
  assumes "free_for names slots kwargs n"
    and "\<And>m. free_for names slots' kwargs' m \<longleftrightarrow> free_for names slots kwargs m \<and> m \<noteq> n"
  shows "kwargs_fit names ((Some n, v) # rest) slots kwargs \<longleftrightarrow> kwargs_fit names rest slots' kwargs'"
  using assms by (auto simp: kwargs_fit_def image_iff)

lemma fill_kwargs_spec:
  assumes "\<And>n i. map_of names n = Some i \<Longrightarrow> i < length slots"
    and inj: "\<And>n m i. map_of names n = Some i \<Longrightarrow> map_of names m = Some i \<Longrightarrow> n = m"
  shows "if kwargs_fit names kvs slots kwargs
    then fill_kwargs names kvs slots kwargs =
      Ok (overlay (by_index names (string_keys kvs)) slots, kwargs @ extra_named names (string_keys kvs))
    else \<exists>e. fill_kwargs names kvs slots kwargs = Err e"
  using assms(1)
proof (induction kvs arbitrary: slots kwargs)
  case Nil
  then show ?case by (simp add: kwargs_fit_def string_keys_def)
next
  case (Cons kv rest)
  obtain k v where kv: "kv = (k, v)" by (cases kv)
  show ?case
  proof (cases k)
    case None
    with kv show ?thesis by (simp add: kwargs_fit_def)
  next
    case k: (Some s)
    show ?thesis
    proof (cases "map_of names s")
      case none: None
      show ?thesis
      proof (cases "map_of kwargs s")
        case None
        have "kwargs_fit names (kv # rest) slots kwargs \<longleftrightarrow> kwargs_fit names rest slots (kwargs @ [(s, v)])"
          unfolding kv k using none None
          by (intro kwargs_fit_step) (auto simp: free_for_def map_add_def split: option.splits)
        with Cons.IH [of slots "kwargs @ [(s, v)]", OF Cons.prems] none None kv k show ?thesis
          by (simp add: alist_insert_new string_keys_def split: if_splits)
      next
        case (Some w)
        with none kv k have "\<not> kwargs_fit names (kv # rest) slots kwargs" by (auto simp: kwargs_fit_def free_for_def)
        with Some none kv k show ?thesis by auto
      qed
    next
      case i: (Some i)
      have il: "i < length slots" by (rule Cons.prems [OF i])
      show ?thesis
      proof (cases "slots ! i")
        case None
        have eq: "(slots[i := Some (Plain v)] ! j = None) \<longleftrightarrow> slots ! j = None \<and> n \<noteq> s"
          if "map_of names n = Some j" for n j
          using inj [OF i, of n] il that i by (cases "j = i") auto
        have "kwargs_fit names (kv # rest) slots kwargs \<longleftrightarrow> kwargs_fit names rest (slots[i := Some (Plain v)]) kwargs"
          unfolding kv k using i None eq
          by (intro kwargs_fit_step) (auto simp: free_for_def split: option.splits)
        with Cons.IH [of "slots[i := Some (Plain v)]" kwargs, unfolded length_list_update, OF Cons.prems] i None kv k il show ?thesis
          by (simp add: string_keys_def overlay_Cons split: if_splits)
      next
        case (Some w)
        with i kv k have "\<not> kwargs_fit names (kv # rest) slots kwargs" by (auto simp: kwargs_fit_def free_for_def)
        with Some i il kv k show ?thesis by simp
      qed
    qed
  qed
qed

text \<open>Defaults: an empty slot of a required parameter is the only error.\<close>

definition default_slots :: "'v parameters_spec \<Rightarrow> nat \<Rightarrow> 'v slots \<Rightarrow> 'v slots" where
  "default_slots s i slots =
     map (\<lambda>j. if i \<le> j \<and> j < length (param_kinds s) \<and> slots ! j = None
              then (case param_kinds s ! j of Defaulted x \<Rightarrow> Some (Plain x) | _ \<Rightarrow> None)
              else slots ! j) [0..<length slots]"

definition missing :: "'v parameters_spec \<Rightarrow> nat \<Rightarrow> 'v slots \<Rightarrow> bool" where
  "missing s i slots \<longleftrightarrow>
     (\<exists>j. i \<le> j \<and> j < length (param_kinds s) \<and> slots ! j = None \<and> param_kinds s ! j = Required)"

lemma length_default_slots [simp]: "length (default_slots s i slots) = length slots"
  by (simp add: default_slots_def)

lemma nth_default_slots: "j < length slots \<Longrightarrow> default_slots s i slots ! j =
  (if i \<le> j \<and> j < length (param_kinds s) \<and> slots ! j = None
   then (case param_kinds s ! j of Defaulted x \<Rightarrow> Some (Plain x) | _ \<Rightarrow> None) else slots ! j)"
  by (simp add: default_slots_def)

lemma default_slots_end: "length (param_kinds s) \<le> i \<Longrightarrow> default_slots s i slots = slots"
  by (rule nth_equalityI) (auto simp: nth_default_slots)

lemma missing_end: "length (param_kinds s) \<le> i \<Longrightarrow> \<not> missing s i slots"
  by (auto simp: missing_def)

lemma missing_step:
  assumes "i < length (param_kinds s)" and "\<And>j. j \<noteq> i \<Longrightarrow> slots' ! j = slots ! j"
    and "\<not> (slots ! i = None \<and> param_kinds s ! i = Required)"
  shows "missing s i slots = missing s (Suc i) slots'"
proof -
  have "i \<le> j \<longleftrightarrow> j = i \<or> Suc i \<le> j" for j by auto
  then show ?thesis using assms unfolding missing_def by (metis Suc_n_not_le_n)
qed

lemma default_slots_step:
  assumes "i < length (param_kinds s)" "length (param_kinds s) \<le> length slots"
    and "slots' = (if slots ! i = None then (case param_kinds s ! i of
        Defaulted x \<Rightarrow> slots[i := Some (Plain x)] | _ \<Rightarrow> slots) else slots)"
  shows "default_slots s (Suc i) slots' = default_slots s i slots"
proof (rule nth_equalityI)
  show len: "length (default_slots s (Suc i) slots') = length (default_slots s i slots)"
    using assms(3) by (auto split: parameter_kind.split)
  fix j assume "j < length (default_slots s (Suc i) slots')"
  then have j: "j < length slots" "j < length slots'" using len by simp_all
  show "default_slots s (Suc i) slots' ! j = default_slots s i slots ! j"
  proof (cases "j = i")
    case True
    with assms j show ?thesis by (auto simp: nth_default_slots split: parameter_kind.split)
  next
    case False
    then have "slots' ! j = slots ! j" using assms(3) by (auto split: parameter_kind.split)
    with False j show ?thesis by (simp add: nth_default_slots Suc_le_eq)
  qed
qed

lemma fill_defaults_spec:
  assumes "i + left = length (param_kinds s)" and "length (param_kinds s) \<le> length slots"
  shows "if missing s i slots then \<exists>e. fill_defaults s left i slots = Err e
    else fill_defaults s left i slots = Ok (default_slots s i slots)"
  using assms
proof (induction s left i slots rule: fill_defaults.induct)
  case (1 s i slots)
  then show ?case by (simp add: missing_end default_slots_end)
next
  case (2 s left i slots)
  then have i: "i < length (param_kinds s)" by simp
  show ?case
  proof (cases "slots ! i = None")
    case False
    with 2 missing_step [OF i, of slots slots] default_slots_step [OF i, of slots slots] show ?thesis
      by (cases "missing s i slots") simp_all
  next
    case none: True
    show ?thesis
    proof (cases "param_kinds s ! i")
      case Required
      with none i have "missing s i slots" by (auto simp: missing_def)
      with none Required show ?thesis by auto
    next
      case (Defaulted x)
      let ?s = "slots[i := Some (Plain x)]"
      from 2(3) [OF _ Defaulted] "2.prems" none missing_step [OF i, of ?s slots] Defaulted
        default_slots_step [OF i _, of slots ?s]
      show ?thesis by (cases "missing s i slots") simp_all
    qed (use 2 none missing_step [OF i, of slots slots] default_slots_step [OF i, of slots slots] in auto)
  qed
qed

subsection \<open>The whole binding\<close>

text \<open>The part of \<open>collect_slow\<close> after the positional and named values are in their slots.\<close>

definition collect_finish ::
  "'v parameters_spec \<Rightarrow> (string option \<times> 'v) list option option \<Rightarrow> nat \<Rightarrow> 'v slots \<Rightarrow> (string \<times> 'v) list \<Rightarrow> 'v list \<Rightarrow>
   (function_error, 'v slots) outcome" where
  "collect_finish s kw nxt slots kwargs star =
     bind_outcome
       (case kw of
          None \<Rightarrow> Ok (slots, kwargs)
        | Some None \<Rightarrow> Err KwArgsIsNotDict
        | Some (Some kvs) \<Rightarrow> fill_kwargs (spec_names s) kvs slots kwargs) (\<lambda>(slots, kwargs).
     bind_outcome (fill_defaults s (length (param_kinds s) - nxt) nxt slots) (\<lambda>slots.
     bind_outcome
       (case args_index (indices s) of
          Some i \<Rightarrow> set_slot i (TupleOf star) slots
        | None \<Rightarrow> if star \<noteq> [] then Err (ExtraPositionalArg (length star) (function_name s)) else Ok slots)
       (\<lambda>slots.
     case kwargs_index (indices s) of
       Some i \<Rightarrow> set_slot i (DictOf kwargs) slots
     | None \<Rightarrow>
         if kwargs \<noteq> [] then Err (ExtraNamedArg (map fst kwargs) (function_name s)) else Ok slots)))"

definition star_values :: "'v arguments \<Rightarrow> 'v list" where
  "star_values args = (case a_args args of Some (Some vs) \<Rightarrow> vs | _ \<Rightarrow> [])"

definition positionals :: "'v arguments \<Rightarrow> 'v list" where
  "positionals args = a_pos args @ star_values args"

abbreviation named_values :: "'v arguments \<Rightarrow> (string \<times> 'v) list" where
  "named_values args \<equiv> zip (a_names args) (a_named args)"

abbreviation filled_positionally :: "'v parameters_spec \<Rightarrow> 'v arguments \<Rightarrow> nat" where
  "filled_positionally s args \<equiv> min (num_positional (indices s)) (length (positionals args))"

definition clash :: "'v parameters_spec \<Rightarrow> 'v arguments \<Rightarrow> bool" where
  "clash s args \<longleftrightarrow> (\<exists>i \<in> fst ` set (by_index (spec_names s) (named_values args)). i < filled_positionally s args)"

lemma in_by_index: "(i, v) \<in> set (by_index names nvs) \<longleftrightarrow> (\<exists>n. (n, v) \<in> set nvs \<and> map_of names n = Some i)"
  by (induction nvs) (auto split: option.splits)

lemma positional_phase:
  assumes "np \<le> length slots"
  shows "(if length vs \<le> np then Ok (length vs, set_slots_from vs slots, [])
      else fill_positional np vs 0 slots []) =
    Ok (min np (length vs), place 0 (take np vs) slots, drop np vs)"
  using assms by (auto simp: fill_positional_ok set_slots_from_place)

lemma overlay_place:
  assumes "\<forall>i \<in> fst ` set ivs. k + length vs \<le> i"
  shows "place k vs (overlay ivs slots) = overlay ivs (place k vs slots)"
proof (rule nth_equalityI)
  fix i assume i: "i < length (place k vs (overlay ivs slots))"
  have "map_of (rev ivs) i = None" if "i < k + length vs"
    using assms that by (force simp: map_of_eq_None_iff)
  with i show "place k vs (overlay ivs slots) ! i = overlay ivs (place k vs slots) ! i"
    by (auto simp: nth_place nth_overlay split: option.split)
qed simp

lemma collect_slow_finish:
  assumes wf: "spec_wf s" and n: "length (param_kinds s) \<le> n" and it: "a_args args \<noteq> Some None"
  defines "ivs \<equiv> by_index (spec_names s) (named_values args)"
  shows "if clash s args then \<exists>e. collect_slow s args (replicate n None) = Err e
    else collect_slow s args (replicate n None) =
      collect_finish s (a_kwargs args) (filled_positionally s args)
        (overlay ivs (place 0 (take (num_positional (indices s)) (positionals args)) (replicate n None)))
        (extra_named (spec_names s) (named_values args))
        (drop (num_positional (indices s)) (positionals args))"
proof -
  let ?np = "num_positional (indices s)" and ?len = "length (param_kinds s)"
  let ?p = "place 0 (take ?np (a_pos args)) (replicate n None)"
  define low where "low = Min (insert usize_max (fst ` set ivs))"
  have np: "?np \<le> n" using spec_wfD(3) [OF wf] n by simp
  have idx: "i < ?len" if "(i, v) \<in> set ivs" for i v
    using that spec_wfD(5) [OF wf] by (auto simp: ivs_def in_by_index)
  have named: "fill_named (spec_names s) (named_values args) ?p [] usize_max =
      Ok (overlay ivs ?p, extra_named (spec_names s) (named_values args), low)"
    using fill_named_ok [of "spec_names s" ?p "named_values args" "[]" usize_max] spec_wfD(5) [OF wf] n
    by (force simp: ivs_def low_def)
  let ?k = "min ?np (length (a_pos args))" and ?vs = "star_values args"
  have star: "(case a_args args of
        None \<Rightarrow> Ok (?k, overlay ivs ?p, drop ?np (a_pos args))
      | Some None \<Rightarrow> Err ArgsArrayIsNotIterable
      | Some (Some vs) \<Rightarrow> fill_positional ?np vs ?k (overlay ivs ?p) (drop ?np (a_pos args))) =
    Ok (filled_positionally s args, place ?k (take (?np - ?k) ?vs) (overlay ivs ?p),
        drop ?np (positionals args))"
  proof (cases "a_args args")
    case None
    then show ?thesis by (simp add: star_values_def positionals_def)
  next
    case (Some v)
    with it obtain vs where v: "v = Some vs" by auto
    have k: "?np - ?k = ?np - length (a_pos args)" by simp
    show ?thesis using Some v np k
      by (simp add: fill_positional_ok star_values_def positionals_def min_def)
  qed
  have clash_iff: "clash s args \<longleftrightarrow> low < filled_positionally s args"
  proof -
    have "filled_positionally s args \<le> usize_max"
      using spec_wfD(2,3) [OF wf] by (simp add: usize_max_def)
    then show ?thesis unfolding clash_def low_def ivs_def by (subst Min_less_iff) auto
  qed
  have slow: "collect_slow s args (replicate n None) =
      (if filled_positionally s args > low
       then (if low < length (param_names s) then Err (RepeatedArg (param_names s ! low)) else Panic)
       else collect_finish s (a_kwargs args) (filled_positionally s args)
         (place ?k (take (?np - ?k) ?vs) (overlay ivs ?p))
         (extra_named (spec_names s) (named_values args)) (drop ?np (positionals args)))"
    using n positional_phase [of ?np "replicate n None" "a_pos args"] np named star
    by (simp add: collect_slow_def collect_finish_def Let_def)
  show ?thesis
  proof (cases "clash s args")
    case True
    then have "low < length (param_names s)"
      using clash_iff spec_wfD(1,3) [OF wf] by simp
    with True clash_iff slow show ?thesis by simp
  next
    case False
    have "take ?np (positionals args) = take ?np (a_pos args) @ take (?np - ?k) ?vs"
      by (simp add: positionals_def min_def)
    then have P: "place 0 (take ?np (positionals args)) (replicate n None) =
        place ?k (take (?np - ?k) ?vs) ?p"
      by (simp add: place_append min.commute)
    have "?k + length (take (?np - ?k) ?vs) = filled_positionally s args"
      unfolding positionals_def length_append length_take by linarith
    then have "place ?k (take (?np - ?k) ?vs) (overlay ivs ?p) = overlay ivs (place ?k (take (?np - ?k) ?vs) ?p)"
      using False by (intro overlay_place) (auto simp: clash_def ivs_def)
    moreover from False clash_iff have "\<not> filled_positionally s args > low" by blast
    ultimately show ?thesis using False by (simp only: slow P if_False)
  qed
qed

definition keyword_values :: "'v arguments \<Rightarrow> (string option \<times> 'v) list" where
  "keyword_values args = (case a_kwargs args of Some (Some kvs) \<Rightarrow> kvs | _ \<Rightarrow> [])"

definition all_named :: "'v arguments \<Rightarrow> (string \<times> 'v) list" where
  "all_named args = named_values args @ string_keys (keyword_values args)"

definition store :: "nat option \<Rightarrow> 'v slot_value \<Rightarrow> 'v slots \<Rightarrow> 'v slots" where
  "store oi v slots = (case oi of None \<Rightarrow> slots | Some i \<Rightarrow> slots[i := Some v])"

lemma length_store [simp]: "length (store oi v slots) = length slots"
  by (simp add: store_def split: option.split)

lemma overlay_append:
  "\<forall>i \<in> fst ` set xs. i < length slots \<Longrightarrow> overlay (xs @ ys) slots = overlay ys (overlay xs slots)"
  by (rule nth_equalityI) (auto simp: nth_overlay map_add_def split: option.split)

lemma collect_finish_spec:
  fixes kw :: "(string option \<times> 'v) list option option" and slots :: "'v slots" and kwargs :: "(string \<times> 'v) list"
  assumes wf: "spec_wf s" and len: "length (param_kinds s) \<le> length slots" and nxt: "nxt \<le> length (param_kinds s)"
  defines "kvs \<equiv> (case kw of Some (Some kvs) \<Rightarrow> kvs | _ \<Rightarrow> [])"
  defines "slots2 \<equiv> overlay (by_index (spec_names s) (string_keys kvs)) slots"
  defines "kwargs2 \<equiv> kwargs @ extra_named (spec_names s) (string_keys kvs)"
  shows "if kw \<noteq> Some None \<and> kwargs_fit (spec_names s) kvs slots kwargs \<and> \<not> missing s nxt slots2 \<and>
      (args_index (indices s) = None \<longrightarrow> star = []) \<and> (kwargs_index (indices s) = None \<longrightarrow> kwargs2 = [])
    then collect_finish s kw nxt slots kwargs star =
      Ok (store (kwargs_index (indices s)) (DictOf kwargs2)
           (store (args_index (indices s)) (TupleOf star) (default_slots s nxt slots2)))
    else \<exists>e. collect_finish s kw nxt slots kwargs star = Err e"
proof (cases "kw = Some None")
  case True
  then show ?thesis by (simp add: collect_finish_def)
next
  case kw: False
  let ?K = "kwargs_fit (spec_names s) kvs slots kwargs"
  have fill: "if ?K then fill_kwargs (spec_names s) kvs slots kwargs = Ok (slots2, kwargs2)
      else \<exists>e. fill_kwargs (spec_names s) kvs slots kwargs = Err e"
    unfolding slots2_def kwargs2_def
    using spec_wfD(5) [OF wf] spec_wfD(6) [OF wf] len by (intro fill_kwargs_spec) fastforce+
  have same: "(case kw of None \<Rightarrow> Ok (slots, kwargs) | Some None \<Rightarrow> Err KwArgsIsNotDict
      | Some (Some kvs) \<Rightarrow> fill_kwargs (spec_names s) kvs slots kwargs) =
    fill_kwargs (spec_names s) kvs slots kwargs"
    using kw by (auto simp: kvs_def split: option.splits)
  have l2: "length slots2 = length slots" by (simp add: slots2_def)
  have def: "if missing s nxt slots2 then \<exists>e. fill_defaults s (length (param_kinds s) - nxt) nxt slots2 = Err e
      else fill_defaults s (length (param_kinds s) - nxt) nxt slots2 = Ok (default_slots s nxt slots2)"
    using fill_defaults_spec [of nxt "length (param_kinds s) - nxt" s slots2] nxt len l2 by simp
  show ?thesis
  proof (cases "?K \<and> \<not> missing s nxt slots2")
    case True
    with fill def kw same l2 len spec_wfD(7,8) [OF wf] show ?thesis
      by (auto simp: collect_finish_def set_slot_def store_def split: option.split)
  next
    case False
    with fill def same show ?thesis by (auto simp: collect_finish_def split: if_splits)
  qed
qed

text \<open>What the call binds to a parameter, and which calls are accepted.\<close>

definition named_value :: "'v parameters_spec \<Rightarrow> (string \<times> 'v) list \<Rightarrow> nat \<Rightarrow> 'v option" where
  "named_value s nvs i = (if num_positional_only (indices s) \<le> i then map_of (rev nvs) (param_names s ! i) else None)"

definition bound_value :: "'v parameters_spec \<Rightarrow> 'v arguments \<Rightarrow> nat \<Rightarrow> 'v slot_value option" where
  "bound_value s args i =
     (case param_kinds s ! i of
        Args \<Rightarrow> Some (TupleOf (drop (num_positional (indices s)) (positionals args)))
      | KWargs \<Rightarrow> Some (DictOf (extra_named (spec_names s) (all_named args)))
      | k \<Rightarrow>
          if i < filled_positionally s args then Some (Plain (positionals args ! i))
          else (case named_value s (all_named args) i of
                  Some v \<Rightarrow> Some (Plain v)
                | None \<Rightarrow> (case k of Defaulted x \<Rightarrow> Some (Plain x) | _ \<Rightarrow> None)))"

definition bound_slots :: "'v parameters_spec \<Rightarrow> 'v arguments \<Rightarrow> nat \<Rightarrow> 'v slots" where
  "bound_slots s args n = map (\<lambda>i. if i < length (param_kinds s) then bound_value s args i else None) [0..<n]"

definition accepts :: "'v parameters_spec \<Rightarrow> 'v arguments \<Rightarrow> bool" where
  "accepts s args \<longleftrightarrow>
     a_args args \<noteq> Some None \<and> a_kwargs args \<noteq> Some None \<and>
     None \<notin> fst ` set (keyword_values args) \<and> distinct (map fst (keyword_values args)) \<and>
     fst ` set (named_values args) \<inter> fst ` set (string_keys (keyword_values args)) = {} \<and>
     (\<forall>n \<in> fst ` set (all_named args). \<forall>i. map_of (spec_names s) n = Some i \<longrightarrow> filled_positionally s args \<le> i) \<and>
     (\<forall>i < length (param_kinds s). param_kinds s ! i = Required \<longrightarrow> bound_value s args i \<noteq> None) \<and>
     (args_index (indices s) = None \<longrightarrow> length (positionals args) \<le> num_positional (indices s)) \<and>
     (kwargs_index (indices s) = None \<longrightarrow> extra_named (spec_names s) (all_named args) = [])"

lemma spec_names_iff: "spec_wf s \<Longrightarrow> map_of (spec_names s) n = Some i \<longleftrightarrow>
    num_positional_only (indices s) \<le> i \<and> i < length (param_kinds s) \<and>
    \<not> collecting (param_kinds s ! i) \<and> param_names s ! i = n"
  by (simp add: spec_wf_def)

lemma map_of_by_index:
  assumes wf: "spec_wf s"
  shows "map_of (rev (by_index (spec_names s) nvs)) i =
    (if i < length (param_kinds s) \<and> \<not> collecting (param_kinds s ! i) then named_value s nvs i else None)"
proof (induction nvs rule: rev_induct)
  case (snoc nv nvs)
  obtain n v where nv: "nv = (n, v)" by (cases nv)
  show ?case
  proof (cases "map_of (spec_names s) n = Some i")
    case True
    then show ?thesis using spec_names_iff [OF wf, of n i] by (simp add: nv by_index_append named_value_def)
  next
    case False
    then have "map_of (rev (by_index (spec_names s) (nvs @ [nv]))) i = map_of (rev (by_index (spec_names s) nvs)) i"
      by (auto simp: nv by_index_append split: option.split)
    with snoc False spec_names_iff [OF wf, of n i] show ?thesis by (auto simp: nv named_value_def)
  qed
qed (simp add: named_value_def)

abbreviation base_slots :: "'v parameters_spec \<Rightarrow> 'v arguments \<Rightarrow> nat \<Rightarrow> 'v slots" where
  "base_slots s args n \<equiv> place 0 (take (num_positional (indices s)) (positionals args)) (replicate n None)"

lemma nth_base_slots: "i < n \<Longrightarrow>
  base_slots s args n ! i = (if i < filled_positionally s args then Some (Plain (positionals args ! i)) else None)"
  by (simp add: nth_place min.commute)

lemma nth_named_slots:
  assumes "spec_wf s" and "i < n"
  shows "overlay (by_index (spec_names s) nvs) (base_slots s args n) ! i =
    (case (if i < length (param_kinds s) \<and> \<not> collecting (param_kinds s ! i) then named_value s nvs i else None) of
       Some v \<Rightarrow> Some (Plain v)
     | None \<Rightarrow> if i < filled_positionally s args then Some (Plain (positionals args ! i)) else None)"
  using assms by (simp add: nth_overlay map_of_by_index nth_base_slots del: min_less_iff_conj cong: option.case_cong)

lemma map_of_rev_None: "map_of (rev xs) k = None \<longleftrightarrow> k \<notin> fst ` set xs"
  by (simp add: map_of_eq_None_iff)

lemma extra_named_None: "map_of names k = None \<Longrightarrow> map_of (extra_named names nvs) k = None \<longleftrightarrow> k \<notin> fst ` set nvs"
  by (force simp: map_of_eq_None_iff extra_named_def)

lemma free_for_named:
  assumes wf: "spec_wf s" and n: "length (param_kinds s) \<le> n"
  shows "free_for (spec_names s) (overlay (by_index (spec_names s) nvs) (base_slots s args n))
      (extra_named (spec_names s) nvs) m \<longleftrightarrow>
    m \<notin> fst ` set nvs \<and> (\<forall>i. map_of (spec_names s) m = Some i \<longrightarrow> filled_positionally s args \<le> i)"
proof (cases "map_of (spec_names s) m")
  case None
  then show ?thesis by (simp add: free_for_def extra_named_None)
next
  case (Some i)
  with spec_names_iff [OF wf, of m i] n have i: "i < n" "named_value s nvs i = map_of (rev nvs) m"
    "i < length (param_kinds s)" "\<not> collecting (param_kinds s ! i)" by (auto simp: named_value_def)
  show ?thesis
  proof (cases "map_of (rev nvs) m")
    case None
    then have "m \<notin> fst ` set nvs" by (rule map_of_rev_None [THEN iffD1])
    with None Some i nth_named_slots [OF wf i(1), of nvs args] show ?thesis
      by (simp add: free_for_def not_less del: min_less_iff_conj)
  next
    case (Some v)
    then have "m \<in> fst ` set nvs" using map_of_rev_None [of nvs m] by auto
    with Some \<open>map_of (spec_names s) m = Some i\<close> i show ?thesis
      by (simp add: free_for_def nth_named_slots [OF wf])
  qed
qed

lemma by_index_bound: "spec_wf s \<Longrightarrow> i \<in> fst ` set (by_index (spec_names s) nvs) \<Longrightarrow> i < length (param_kinds s)"
  by (auto simp: in_by_index spec_names_iff)

lemma nth_store: "i < length slots \<Longrightarrow> store oi v slots ! i = (if oi = Some i then Some v else slots ! i)"
  by (auto simp: store_def split: option.split)

lemma in_string_keys: "None \<notin> fst ` set kvs \<Longrightarrow> n \<in> fst ` set (string_keys kvs) \<longleftrightarrow> Some n \<in> fst ` set kvs"
  by (force simp: string_keys_def image_iff)

lemma clash_iff_named: "clash s args \<longleftrightarrow>
  (\<exists>n \<in> fst ` set (named_values args). \<exists>i. map_of (spec_names s) n = Some i \<and> i < filled_positionally s args)"
proof -
  have "i \<in> fst ` set (by_index names nvs) \<longleftrightarrow> (\<exists>n \<in> fst ` set nvs. map_of names n = Some i)"
    for i and names :: "(string \<times> nat) list" and nvs :: "(string \<times> 'a) list"
  proof
    assume "\<exists>n \<in> fst ` set nvs. map_of names n = Some i"
    then obtain n v where "(n, v) \<in> set nvs" "map_of names n = Some i" by auto
    then have "(i, v) \<in> set (by_index names nvs)" by (auto simp: in_by_index)
    then show "i \<in> fst ` set (by_index names nvs)" by force
  qed (force simp: in_by_index)
  then show ?thesis unfolding clash_def by blast
qed

text \<open>The kinds of a well-formed specification tell where \<open>*args\<close> and \<open>**kwargs\<close> are.\<close>

lemma spec_kinds_iff:
  assumes "spec_wf s" and "i < length (param_kinds s)"
  shows "args_index (indices s) = Some i \<longleftrightarrow> param_kinds s ! i = Args"
    and "kwargs_index (indices s) = Some i \<longleftrightarrow> param_kinds s ! i = KWargs"
  using assms by (simp_all add: spec_wf_def)

lemma bound_slots_result:
  assumes wf: "spec_wf s" and n: "length (param_kinds s) \<le> n"
    and free: "\<forall>m \<in> fst ` set (all_named args). \<forall>i. map_of (spec_names s) m = Some i \<longrightarrow> filled_positionally s args \<le> i"
  defines "slots2 \<equiv> overlay (by_index (spec_names s) (all_named args)) (base_slots s args n)"
  shows "missing s (filled_positionally s args) slots2 \<longleftrightarrow>
      (\<exists>i < length (param_kinds s). param_kinds s ! i = Required \<and> bound_value s args i = None)" (is ?A)
    and "store (kwargs_index (indices s)) (DictOf (extra_named (spec_names s) (all_named args)))
        (store (args_index (indices s)) (TupleOf (drop (num_positional (indices s)) (positionals args)))
          (default_slots s (filled_positionally s args) slots2)) = bound_slots s args n" (is ?B)
proof -
  let ?k = "filled_positionally s args"
  have len2: "length slots2 = n" by (simp add: slots2_def)
  have none: "named_value s (all_named args) i = None" if "i < ?k" for i
  proof (rule ccontr)
    assume "named_value s (all_named args) i \<noteq> None"
    then have po: "num_positional_only (indices s) \<le> i" and
      nm: "param_names s ! i \<in> fst ` set (all_named args)"
      using map_of_rev_None [of "all_named args" "param_names s ! i"] unfolding named_value_def
      by (metis, metis)
    have "map_of (spec_names s) (param_names s ! i) = Some i"
      using that po spec_wfD(3,4) [OF wf] by (auto simp: spec_names_iff [OF wf])
    with free nm that show False by (meson not_le)
  qed
  have val: "slots2 ! i = (if i < ?k then Some (Plain (positionals args ! i))
      else map_option Plain (named_value s (all_named args) i))"
    if "i < length (param_kinds s)" "\<not> collecting (param_kinds s ! i)" for i
  proof -
    from that n have "i < n" by simp
    then show ?thesis using nth_named_slots [OF wf, of i n "all_named args" args] that none [of i]
      by (simp add: slots2_def del: min_less_iff_conj split: option.split)
  qed
  have other: "slots2 ! i = None" if "i < n" "length (param_kinds s) \<le> i" for i
    using nth_named_slots [OF wf that(1), of "all_named args" args] that spec_wfD(3) [OF wf] by (simp add: slots2_def)
  show ?A
    unfolding missing_def by (intro iff_exI) (auto simp: val bound_value_def split: option.splits)
  show ?B
  proof (rule nth_equalityI)
    fix i assume "i < length (store (kwargs_index (indices s)) (DictOf (extra_named (spec_names s) (all_named args)))
        (store (args_index (indices s)) (TupleOf (drop (num_positional (indices s)) (positionals args)))
          (default_slots s ?k slots2)))"
    then have i: "i < n" by (simp add: len2)
    have out: "args_index (indices s) \<noteq> Some i \<and> kwargs_index (indices s) \<noteq> Some i" if "length (param_kinds s) \<le> i"
      using spec_wfD(7,8) [OF wf, of i] that by auto
    show "store (kwargs_index (indices s)) (DictOf (extra_named (spec_names s) (all_named args)))
        (store (args_index (indices s)) (TupleOf (drop (num_positional (indices s)) (positionals args)))
          (default_slots s ?k slots2)) ! i = bound_slots s args n ! i"
    proof (cases "i < length (param_kinds s)")
      case True
      then show ?thesis using i spec_kinds_iff [OF wf True] val [OF True]
        by (cases "param_kinds s ! i")
          (auto simp: nth_store nth_default_slots len2 bound_slots_def bound_value_def split: option.split)
    next
      case False
      with out other i show ?thesis by (simp add: nth_store nth_default_slots len2 bound_slots_def)
    qed
  qed (simp add: len2 bound_slots_def)
qed

lemma kwargs_fit_named:
  assumes wf: "spec_wf s" and n: "length (param_kinds s) \<le> n" and "\<not> clash s args"
  shows "kwargs_fit (spec_names s) (keyword_values args)
      (overlay (by_index (spec_names s) (named_values args)) (base_slots s args n))
      (extra_named (spec_names s) (named_values args)) \<longleftrightarrow>
    None \<notin> fst ` set (keyword_values args) \<and> distinct (map fst (keyword_values args)) \<and>
    fst ` set (named_values args) \<inter> fst ` set (string_keys (keyword_values args)) = {} \<and>
    (\<forall>m \<in> fst ` set (all_named args). \<forall>i. map_of (spec_names s) m = Some i \<longrightarrow> filled_positionally s args \<le> i)"
    (is "_ \<longleftrightarrow> ?N \<and> ?D \<and> ?I \<and> ?F")
proof (cases ?N)
  case True
  let ?P = "\<lambda>m. \<forall>i. map_of (spec_names s) m = Some i \<longrightarrow> filled_positionally s args \<le> i"
  from assms(3) have "?P m" if "m \<in> fst ` set (named_values args)" for m
    using that unfolding clash_iff_named by (meson not_le)
  then have F: "?F \<longleftrightarrow> (\<forall>m \<in> fst ` set (string_keys (keyword_values args)). ?P m)"
    unfolding all_named_def set_append image_Un by blast
  show ?thesis
    unfolding kwargs_fit_def free_for_named [OF wf n] F in_string_keys [OF True, symmetric] using True by blast
qed (simp add: kwargs_fit_def)

lemma collect_slow_not_iterable:
  assumes wf: "spec_wf s" and n: "length (param_kinds s) \<le> n" and "a_args args = Some None"
  shows "collect_slow s args (replicate n None) = Err ArgsArrayIsNotIterable"
proof -
  let ?np = "num_positional (indices s)"
  let ?p = "place 0 (take ?np (a_pos args)) (replicate n None)"
  have np: "?np \<le> n" using spec_wfD(3) [OF wf] n by simp
  have idx: "i < length ?p" if "map_of (spec_names s) m = Some i" for m i
    using spec_wfD(5) [OF wf that] n by simp
  show ?thesis
    using n positional_phase [of ?np "replicate n None" "a_pos args"] np assms(3)
      fill_named_ok [of "spec_names s" ?p "named_values args" "[]" usize_max, OF idx]
    by (simp add: collect_slow_def Let_def)
qed

lemma collect_slow_spec:
  assumes wf: "spec_wf s" and n: "length (param_kinds s) \<le> n"
  shows "if accepts s args then collect_slow s args (replicate n None) = Ok (bound_slots s args n)
    else \<exists>e. collect_slow s args (replicate n None) = Err e"
proof (cases "a_args args = Some None \<or> clash s args")
  case True
  then have "\<not> accepts s args"
  proof
    assume "clash s args"
    then obtain m i where "m \<in> fst ` set (all_named args)" "map_of (spec_names s) m = Some i"
      "i < filled_positionally s args"
      unfolding clash_iff_named all_named_def set_append image_Un by blast
    then show ?thesis unfolding accepts_def by (meson not_le)
  qed (simp add: accepts_def)
  moreover have "\<exists>e. collect_slow s args (replicate n None) = Err e"
    using True collect_slow_not_iterable [OF wf n, of args] collect_slow_finish [OF wf n, of args]
    by (cases "a_args args = Some None") auto
  ultimately show ?thesis by simp
next
  case False
  let ?names = "spec_names s" and ?kvs = "keyword_values args" and ?k = "filled_positionally s args"
  let ?slots1 = "overlay (by_index ?names (named_values args)) (base_slots s args n)"
  let ?slots2 = "overlay (by_index ?names (all_named args)) (base_slots s args n)"
  let ?star = "drop (num_positional (indices s)) (positionals args)"
  let ?fit = "kwargs_fit ?names ?kvs ?slots1 (extra_named ?names (named_values args))"
  have k: "?k \<le> length (param_kinds s)" using spec_wfD(3) [OF wf] by simp
  have slow: "collect_slow s args (replicate n None) =
      collect_finish s (a_kwargs args) ?k ?slots1 (extra_named ?names (named_values args)) ?star"
    using collect_slow_finish [OF wf n, of args] False by simp
  have s2: "overlay (by_index ?names (string_keys ?kvs)) ?slots1 = ?slots2"
    unfolding all_named_def by_index_append
    by (rule overlay_append [symmetric]) (use by_index_bound [OF wf] n in fastforce)
  have e2: "extra_named ?names (named_values args) @ extra_named ?names (string_keys ?kvs) =
      extra_named ?names (all_named args)"
    by (simp add: all_named_def extra_named_append)
  have fit: "?fit \<longleftrightarrow>
      None \<notin> fst ` set ?kvs \<and> distinct (map fst ?kvs) \<and>
      fst ` set (named_values args) \<inter> fst ` set (string_keys ?kvs) = {} \<and>
      (\<forall>m \<in> fst ` set (all_named args). \<forall>i. map_of ?names m = Some i \<longrightarrow> ?k \<le> i)"
    by (rule kwargs_fit_named [OF wf n]) (use False in blast)
  have len: "length (param_kinds s) \<le> length ?slots1" using n by simp
  note fin = collect_finish_spec [OF wf len k, of "a_kwargs args" "extra_named ?names (named_values args)" ?star,
      folded keyword_values_def, unfolded s2 e2, folded slow]
  show ?thesis
  proof (cases ?fit)
    case True
    with fit have free: "\<forall>m \<in> fst ` set (all_named args). \<forall>i. map_of ?names m = Some i \<longrightarrow> ?k \<le> i" by blast
    note r = bound_slots_result [OF wf n free]
    have req: "(\<forall>i < length (param_kinds s). param_kinds s ! i = Required \<longrightarrow> bound_value s args i \<noteq> None) \<longleftrightarrow>
      \<not> (\<exists>i < length (param_kinds s). param_kinds s ! i = Required \<and> bound_value s args i = None)" by metis
    have acc: "accepts s args \<longleftrightarrow> a_kwargs args \<noteq> Some None \<and> ?fit \<and> \<not> missing s ?k ?slots2 \<and>
      (args_index (indices s) = None \<longrightarrow> ?star = []) \<and>
      (kwargs_index (indices s) = None \<longrightarrow> extra_named ?names (all_named args) = [])"
      unfolding accepts_def fit drop_eq_Nil r(1) req using False by argo
    from fin show ?thesis unfolding acc [symmetric] r(2) .
  next
    case False
    then have "\<not> accepts s args" unfolding accepts_def fit by argo
    with fin show ?thesis by (simp only: False simp_thms if_False)
  qed
qed

end
