(* ===== verification/Parameter_Props.thy ===== *)
theory Parameter_Props
  imports Parameters
begin

text \<open>
  The properties of argument binding: what a call binds, the fast path of \<open>collect\<close>, the check of a
  signature without values, and that \<open>new_parts\<close> builds a well-formed specification.
\<close>

subsection \<open>The fast path\<close>

lemma exact_call_accepted:
  assumes wf: "spec_wf s" and len: "length (a_pos args) = num_positional (indices s)"
    "length (a_pos args) = length (param_kinds s)"
    and none: "a_named args = []" "a_args args = None" "a_kwargs args = None"
  shows "accepts s args" and "length (param_kinds s) \<le> n \<Longrightarrow>
    bound_slots s args n = set_slots_from (a_pos args) (replicate n None)"
proof -
  have vals: "positionals args = a_pos args" "all_named args = []" "keyword_values args = []"
    using none by (simp_all add: positionals_def star_values_def all_named_def keyword_values_def string_keys_def)
  have plain: "bound_value s args i = Some (Plain (a_pos args ! i))" if "i < length (param_kinds s)" for i
    using that len spec_wfD(4) [OF wf, of i] by (simp add: bound_value_def vals split: parameter_kind.split)
  show "accepts s args"
    using none len plain by (simp add: accepts_def vals)
  show "bound_slots s args n = set_slots_from (a_pos args) (replicate n None)" if "length (param_kinds s) \<le> n"
    using that len by (intro nth_equalityI) (auto simp: bound_slots_def plain set_slots_from_def nth_append)
qed

lemma collect_inline_slow:
  assumes "spec_wf s" and "length (param_kinds s) \<le> n"
  shows "collect_inline s args (replicate n None) = collect_slow s args (replicate n None)"
  using collect_slow_spec [OF assms, of args] exact_call_accepted [OF assms(1), of args] assms(2)
  by (auto simp: collect_inline_def)

text \<open>A small specification for the witnesses: \<open>def f(a, /, b, c = 7, *args, d, **kwargs)\<close>.\<close>

definition demo_spec :: "nat parameters_spec option" where
  "demo_spec = new_parts ''f'' [(''a'', PRequired)] [(''b'', PRequired), (''c'', PDefaulted 7)] True
     [(''d'', PRequired)] True"

subsection \<open>Checking a signature\<close>

lemma cf_positional_spec:
  assumes "\<forall>p \<in> set ps. p < length filled \<or> num_positional (indices s) \<le> p"
  shows "cf_positional s ps filled =
    (if args_index (indices s) = None \<and> (\<exists>p \<in> set ps. num_positional (indices s) \<le> p) then None
     else Some (map (\<lambda>i. filled ! i \<or> i < num_positional (indices s) \<and> i \<in> set ps) [0..<length filled]))"
  using assms
proof (induction s ps filled rule: cf_positional.induct)
  case (1 s filled)
  then show ?case by (simp add: map_nth)
next
  case (2 s p ps filled)
  let ?np = "num_positional (indices s)"
  show ?case
  proof (cases "p < ?np")
    case True
    with 2 have p: "p < length filled" by simp
    have "map (\<lambda>i. filled[p := True] ! i \<or> i < ?np \<and> i \<in> set ps) [0..<length filled] =
        map (\<lambda>i. filled ! i \<or> i < ?np \<and> i \<in> set (p # ps)) [0..<length filled]"
      using True p by (intro map_cong) (auto simp: nth_list_update)
    with True 2 show ?thesis by simp
  next
    case False
    then have "map (\<lambda>i. filled ! i \<or> i < ?np \<and> i \<in> set (p # ps)) [0..<length filled] =
        map (\<lambda>i. filled ! i \<or> i < ?np \<and> i \<in> set ps) [0..<length filled]"
      by (intro map_cong) auto
    with False 2 show ?thesis by (cases "args_index (indices s)") simp_all
  qed
qed

lemma cf_named_spec:
  assumes "distinct ns" and "\<And>n i. map_of (spec_names s) n = Some i \<Longrightarrow> i < length filled"
    and inj: "\<And>n m i. map_of (spec_names s) n = Some i \<Longrightarrow> map_of (spec_names s) m = Some i \<Longrightarrow> n = m"
  shows "cf_named s ns filled =
    (if \<forall>n \<in> set ns. (case map_of (spec_names s) n of Some i \<Rightarrow> \<not> filled ! i | None \<Rightarrow> kwargs_index (indices s) \<noteq> None)
     then Some (map (\<lambda>i. filled ! i \<or> (\<exists>n \<in> set ns. map_of (spec_names s) n = Some i)) [0..<length filled])
     else None)"
  using assms(1,2)
proof (induction ns arbitrary: filled)
  case Nil
  then show ?case by (simp add: map_nth)
next
  case (Cons n ns)
  show ?case
  proof (cases "map_of (spec_names s) n")
    case None
    with Cons show ?thesis by (auto intro!: map_cong)
  next
    case (Some i)
    have il: "i < length filled" by (rule Cons.prems(2) [OF Some])
    have other: "filled[i := True] ! j = filled ! j" if "m \<in> set ns" "map_of (spec_names s) m = Some j" for m j
      using that Cons.prems(1) inj [OF Some, of m] by (cases "i = j") auto
    have all: "(\<forall>m \<in> set ns. case map_of (spec_names s) m of Some j \<Rightarrow> \<not> filled[i := True] ! j
        | None \<Rightarrow> kwargs_index (indices s) \<noteq> None) \<longleftrightarrow>
      (\<forall>m \<in> set ns. case map_of (spec_names s) m of Some j \<Rightarrow> \<not> filled ! j
        | None \<Rightarrow> kwargs_index (indices s) \<noteq> None)"
      by (intro ball_cong refl) (auto split: option.split simp: other)
    show ?thesis
    proof (cases "filled ! i")
      case True
      with Some show ?thesis by simp
    next
      case False
      have "cf_named s (n # ns) filled = cf_named s ns (filled[i := True])" using Some False by simp
      also have "\<dots> = (if \<forall>m \<in> set ns. case map_of (spec_names s) m of Some j \<Rightarrow> \<not> filled ! j
          | None \<Rightarrow> kwargs_index (indices s) \<noteq> None
        then Some (map (\<lambda>j. filled[i := True] ! j \<or> (\<exists>m \<in> set ns. map_of (spec_names s) m = Some j)) [0..<length filled])
        else None)"
        using Cons.IH [of "filled[i := True]"] Cons.prems all by simp
      finally show ?thesis using Some False il by (auto simp: nth_list_update)
    qed
  qed
qed

subsection \<open>The builder\<close>

fun kind_of :: "'v spec_param \<Rightarrow> 'v parameter_kind" where
  "kind_of PRequired = Required"
| "kind_of POptional = Optional"
| "kind_of (PDefaulted x) = Defaulted x"

abbreviation kinds_of :: "(string \<times> 'v spec_param) list \<Rightarrow> (string \<times> 'v parameter_kind) list" where
  "kinds_of ps \<equiv> map (\<lambda>(n, p). (n, kind_of p)) ps"

lemma kind_of_plain [simp]: "kind_of p \<noteq> Args" "kind_of p \<noteq> KWargs"
  by (cases p; simp)+

lemma builder_param_add: "builder_param n p b = builder_add n (kind_of p) b"
  by (cases p) (simp_all add: builder_param_def)

lemma builder_params_pos_only:
  assumes "b_current_style b = PosOnly" "b_args b = None" "b_kwargs b = None"
    and "b_positional b = length (b_params b)" "b_positional_only b = length (b_params b)"
  shows "builder_params ps b = Some (b\<lparr>b_params := b_params b @ kinds_of ps,
    b_positional := length (b_params b) + length ps, b_positional_only := length (b_params b) + length ps\<rparr>)"
  using assms
proof (induction ps b rule: builder_params.induct)
  case (2 name p ps b)
  let ?b = "b\<lparr>b_params := b_params b @ [(name, kind_of p)], b_positional := length (b_params b) + 1,
    b_positional_only := length (b_params b) + 1\<rparr>"
  have "builder_param name p b = Some ?b"
    using "2.prems" by (simp add: builder_param_add builder_add_def Let_def)
  with 2 show ?case by simp
qed simp

text \<open>Parameters that can be named; they are positional too until \<open>*args\<close> or \<open>*\<close>.\<close>

lemma builder_params_named:
  assumes "b_current_style b = PosOrNamed \<and> b_args b = None \<and> b_positional b = length (b_params b) \<or>
      b_current_style b = NamedOnly"
    and "b_kwargs b = None" and "length (b_params b) + length ps \<le> 2 ^ 32"
    and "distinct (map fst (b_names b) @ map fst ps)"
  shows "builder_params ps b = Some (b\<lparr>b_params := b_params b @ kinds_of ps,
    b_names := b_names b @ zip (map fst ps) [length (b_params b)..<length (b_params b) + length ps],
    b_positional := (if b_current_style b = NamedOnly then b_positional b else length (b_params b) + length ps)\<rparr>)"
  using assms
proof (induction ps b rule: builder_params.induct)
  case (1 b)
  then show ?case by auto
next
  case (2 name p ps b)
  let ?b = "b\<lparr>b_params := b_params b @ [(name, kind_of p)],
    b_names := b_names b @ [(name, length (b_params b))],
    b_positional := (if b_current_style b = NamedOnly then b_positional b else length (b_params b) + 1)\<rparr>"
  have "map_of (b_names b) name = None" using "2.prems" by (auto simp: map_of_eq_None_iff)
  then have "builder_param name p b = Some ?b"
    using "2.prems" by (auto simp: builder_param_add builder_add_def to_u32_def Let_def)
  moreover have "builder_params ps ?b = Some (?b\<lparr>b_params := b_params ?b @ kinds_of ps,
    b_names := b_names ?b @ zip (map fst ps) [length (b_params ?b)..<length (b_params ?b) + length ps],
    b_positional := (if b_current_style ?b = NamedOnly then b_positional ?b else length (b_params ?b) + length ps)\<rparr>)"
    using "2.prems" calculation by (intro "2.IH") auto
  moreover have "[length (b_params b)..<length (b_params b) + length ((name, p) # ps)] =
      length (b_params b) # [Suc (length (b_params b))..<length (b_params b) + length ((name, p) # ps)]"
    by (rule upt_conv_Cons) simp
  ultimately show ?case by (simp del: upt_Suc)
qed

text \<open>The layout \<open>new_parts\<close> produces.\<close>

definition layout_params ::
  "(string \<times> 'v spec_param) list \<Rightarrow> (string \<times> 'v spec_param) list \<Rightarrow> bool \<Rightarrow> (string \<times> 'v spec_param) list \<Rightarrow> bool \<Rightarrow>
   (string \<times> 'v parameter_kind) list" where
  "layout_params po pn args no kwargs =
     kinds_of po @ kinds_of pn @ (if args then [(''*args'', Args)] else []) @ kinds_of no @
     (if kwargs then [(''**kwargs'', KWargs)] else [])"

definition layout_spec ::
  "string \<Rightarrow> (string \<times> 'v spec_param) list \<Rightarrow> (string \<times> 'v spec_param) list \<Rightarrow> bool \<Rightarrow>
   (string \<times> 'v spec_param) list \<Rightarrow> bool \<Rightarrow> 'v parameters_spec" where
  "layout_spec name po pn args no kwargs =
     (let p = length po + length pn; q = p + (if args then 1 else 0)
      in \<lparr>function_name = name,
          param_kinds = map snd (layout_params po pn args no kwargs),
          param_names = map fst (layout_params po pn args no kwargs),
          spec_names = zip (map fst pn) [length po..<p] @ zip (map fst no) [q..<q + length no],
          indices = \<lparr>num_positional = p, num_positional_only = length po,
                     args_index = (if args then Some p else None),
                     kwargs_index = (if kwargs then Some (q + length no) else None)\<rparr>\<rparr>)"

lemma new_parts_layout:
  assumes "distinct (map fst pn @ map fst no)" and "length (layout_params po pn args no kwargs) < 2 ^ 32"
  shows "new_parts name po pn args no kwargs = Some (layout_spec name po pn args no kwargs)"
proof -
  let ?p = "length po + length pn"
  define q where "q = ?p + (if args then 1 else 0)"
  have len: "length (layout_params po pn args no kwargs) = q + length no + (if kwargs then 1 else 0)"
    by (simp add: layout_params_def q_def)
  have small: "q + length no < 2 ^ 32" "?p < 2 ^ 32" "length po < 2 ^ 32"
    using assms(2) len by (auto simp: q_def)
  define b1 :: "'a spec_builder" where "b1 = (spec_with_capacity name)
    \<lparr>b_params := kinds_of po, b_positional := length po, b_positional_only := length po, b_current_style := PosOrNamed\<rparr>"
  obtain b0 where 1: "builder_params po (spec_with_capacity name) = Some b0"
      "builder_no_more_positional_only_args b0 = Some b1"
    using builder_params_pos_only [of "spec_with_capacity name :: 'a spec_builder" po]
    by (simp add: spec_with_capacity_def builder_no_more_positional_only_args_def b1_def)
  define b2 where "b2 = b1\<lparr>b_params := kinds_of po @ kinds_of pn,
    b_names := zip (map fst pn) [length po..<?p], b_positional := ?p\<rparr>"
  have 2: "builder_params pn b1 = Some b2"
    using assms(1) small by (subst builder_params_named) (simp_all add: b1_def b2_def spec_with_capacity_def)
  define b3 where "b3 = b2\<lparr>b_params := kinds_of po @ kinds_of pn @ (if args then [(''*args'', Args)] else []),
    b_args := (if args then Some ?p else None), b_current_style := NamedOnly\<rparr>"
  have 3: "(if args then builder_args b2 else builder_no_more_positional_args b2) = Some b3"
    by (simp add: builder_args_def builder_no_more_positional_args_def b1_def b2_def b3_def spec_with_capacity_def)
  have q3: "length (b_params b3) = q" by (simp add: b3_def q_def)
  define b4 where "b4 = b3\<lparr>b_params := b_params b3 @ kinds_of no,
    b_names := b_names b3 @ zip (map fst no) [q..<q + length no]\<rparr>"
  have 4: "builder_params no b3 = Some b4"
    using assms(1) small q3
    by (subst builder_params_named) (simp_all add: b1_def b2_def b3_def b4_def spec_with_capacity_def)
  have "new_parts name po pn args no kwargs =
      Option.bind (if kwargs then builder_kwargs b4 else Some b4) builder_finish"
    unfolding new_parts_def 1(1) Option.bind_lunit 1(2) 2 3 4 ..
  also have "\<dots> = Some (layout_spec name po pn args no kwargs)"
    using small q3 by (cases kwargs)
      (simp_all add: builder_kwargs_def builder_finish_def to_u32_def try_u32_def Let_def layout_spec_def
        layout_params_def b1_def b2_def b3_def b4_def spec_with_capacity_def q_def)
  finally show ?thesis .
qed

lemma nth_layout_params:
  assumes "i < length (layout_params po pn args no kwargs)"
  shows "layout_params po pn args no kwargs ! i =
    (let p = length po + length pn; q = p + (if args then 1 else 0)
     in if i < length po then (fst (po ! i), kind_of (snd (po ! i)))
        else if i < p then (fst (pn ! (i - length po)), kind_of (snd (pn ! (i - length po))))
        else if i < q then (''*args'', Args)
        else if i < q + length no then (fst (no ! (i - q)), kind_of (snd (no ! (i - q))))
        else (''**kwargs'', KWargs))"
  using assms
  by (auto simp: layout_params_def nth_append Let_def case_prod_beta simp del: length_greater_0_conv)

lemma zip_upt_set: "(n, i) \<in> set (zip (map fst ps) [a..<a + length ps]) \<longleftrightarrow>
    (a \<le> i \<and> i < a + length ps \<and> n = fst (ps ! (i - a)))"
proof
  assume "a \<le> i \<and> i < a + length ps \<and> n = fst (ps ! (i - a))"
  then show "(n, i) \<in> set (zip (map fst ps) [a..<a + length ps])"
    by (auto simp: in_set_zip intro!: exI [of _ "i - a"])
qed (auto simp: in_set_zip)

lemma layout_spec_wf:
  assumes dist: "distinct (map fst pn @ map fst no)" and len: "length (layout_params po pn args no kwargs) < 2 ^ 32"
  shows "spec_wf (layout_spec name po pn args no kwargs)"
proof -
  define p where "p = length po + length pn"
  define q where "q = p + (if args then 1 else 0)"
  let ?s = "layout_spec name po pn args no kwargs" and ?L = "layout_params po pn args no kwargs"
  have s: "param_kinds ?s = map snd ?L" "param_names ?s = map fst ?L"
    "spec_names ?s = zip (map fst pn) [length po..<length po + length pn] @ zip (map fst no) [q..<q + length no]"
    "indices ?s = \<lparr>num_positional = p, num_positional_only = length po,
       args_index = (if args then Some p else None), kwargs_index = (if kwargs then Some (q + length no) else None)\<rparr>"
    by (simp_all add: layout_spec_def Let_def p_def q_def)
  have L: "length ?L = q + length no + (if kwargs then 1 else 0)"
    by (simp add: layout_params_def p_def q_def)
  have nth: "i < length ?L \<Longrightarrow> ?L ! i =
      (if i < length po then (fst (po ! i), kind_of (snd (po ! i)))
        else if i < p then (fst (pn ! (i - length po)), kind_of (snd (pn ! (i - length po))))
        else if i < q then (''*args'', Args)
        else if i < q + length no then (fst (no ! (i - q)), kind_of (snd (no ! (i - q))))
        else (''**kwargs'', KWargs))" for i
    using nth_layout_params [of i po pn args no kwargs] by (simp add: Let_def p_def q_def)
  have "distinct (map fst (spec_names ?s))" using dist by (simp add: s)
  then have "map_of (spec_names ?s) n = Some i \<longleftrightarrow> (n, i) \<in> set (spec_names ?s)" for n i
    by (rule map_of_eq_Some_iff)
  then have names: "map_of (spec_names ?s) n = Some i \<longleftrightarrow>
      length po \<le> i \<and> i < p \<and> n = fst (pn ! (i - length po)) \<or>
      q \<le> i \<and> i < q + length no \<and> n = fst (no ! (i - q))" for n i
    unfolding s(3) set_append Un_iff zip_upt_set by (simp add: p_def)
  have pq: "length po \<le> p" "p \<le> q" "q \<le> length ?L" "q = (if args then Suc p else p)"
    by (simp_all add: p_def q_def L)
  have "map_of (spec_names ?s) n = Some i \<longleftrightarrow> length po \<le> i \<and> i < length ?L \<and>
      \<not> collecting (snd (?L ! i)) \<and> fst (?L ! i) = n" for n i
  proof (cases "i < length ?L")
    case True
    then show ?thesis unfolding names nth [OF True] using pq L by auto
  next
    case False
    then show ?thesis unfolding names using pq L by auto
  qed
  then show ?thesis
    unfolding spec_wf_def s using len L pq nth by (auto split: if_splits)
qed

lemma demo_spec_layout: "demo_spec = Some (layout_spec ''f'' [(''a'', PRequired)]
    [(''b'', PRequired), (''c'', PDefaulted 7)] True [(''d'', PRequired)] True)"
  unfolding demo_spec_def by (rule new_parts_layout) (simp_all add: layout_params_def)

lemma demo_spec_wf: "spec_wf (the demo_spec)"
  unfolding demo_spec_layout option.sel by (rule layout_spec_wf) (simp_all add: layout_params_def)

subsection \<open>Properties\<close>

text \<open>C17. \<open>new_parts\<close> accepts every list of parameters whose nameable names are distinct (none of the
  assertions of the builder fails) and builds a well-formed specification: the parameters in the order
  given, \<open>*args\<close> after the positional ones and \<open>**kwargs\<close> last.\<close>

theorem new_parts_well_formed:
  assumes "distinct (map fst pos_or_named @ map fst named_only)"
    and "length (layout_params pos_only pos_or_named args named_only kwargs) < 2 ^ 32"
  shows "\<exists>s. new_parts name pos_only pos_or_named args named_only kwargs = Some s \<and> spec_wf s \<and>
    zip (param_names s) (param_kinds s) = layout_params pos_only pos_or_named args named_only kwargs \<and>
    num_positional_only (indices s) = length pos_only \<and>
    num_positional (indices s) = length pos_only + length pos_or_named"
  using new_parts_layout [OF assms, of name] layout_spec_wf [OF assms, of name]
  by (simp add: layout_spec_def Let_def zip_map_fst_snd)

theorem new_parts_well_formed_witness:
  "\<exists>s. demo_spec = Some s \<and> spec_wf s \<and> num_positional (indices s) = 3"
  using new_parts_well_formed [of "[(''b'', PRequired), (''c'', PDefaulted 7)]" "[(''d'', PRequired)]" "[(''a'', PRequired)]"
      True True "''f''"]
  by (auto simp: demo_spec_def layout_params_def)

text \<open>C3. Binding a call. For a well-formed specification \<open>collect\<close> either returns an error value or fills
  every slot as specified: a positional parameter takes the positional value of its position (\<open>*args\<close> values
  after the plain ones), else the value given by its name, else its default; the values left over go to \<open>*args\<close>
  and \<open>**kwargs\<close>. It succeeds exactly when the call is acceptable: no parameter is given twice, every required
  one is given, nothing is left over without a parameter to collect it. It never panics.\<close>

theorem collect_binds_arguments:
  assumes "spec_wf s" and "length (param_kinds s) \<le> n"
  shows "if accepts s args then collect_inline s args (replicate n None) = Ok (bound_slots s args n)
    else \<exists>e. collect_inline s args (replicate n None) = Err e"
  unfolding collect_inline_slow [OF assms] by (rule collect_slow_spec [OF assms])

text \<open>The calls of the witnesses: \<open>f(1, 2, d = 4, x = 5, **{"y": 6})\<close> and \<open>f(1, 2)\<close>.\<close>

definition demo_call :: "nat arguments" where
  "demo_call = \<lparr>a_pos = [1, 2], a_names = [''d'', ''x''], a_named = [4, 5], a_args = None,
     a_kwargs = Some (Some [(Some ''y'', 6)])\<rparr>"

definition short_call :: "nat arguments" where
  "short_call = \<lparr>a_pos = [1, 2], a_names = [], a_named = [], a_args = None, a_kwargs = None\<rparr>"

lemma demo_spec_size: "length (param_kinds (the demo_spec)) \<le> 6"
  by (simp add: demo_spec_layout layout_spec_def layout_params_def Let_def)

lemma fill_defaults_numeral:
  "fill_defaults s (numeral k) i slots =
     (if slots ! i \<noteq> None then fill_defaults s (pred_numeral k) (i + 1) slots
      else (case param_kinds s ! i of
              Required \<Rightarrow>
                (if i < num_positional_only (indices s)
                 then Err (MissingPositionalOnly (param_names s ! i) (function_name s))
                 else if i \<ge> num_positional (indices s)
                 then Err (MissingNamedOnly (param_names s ! i) (function_name s))
                 else Err (MissingParameter (param_names s ! i) (function_name s)))
            | Defaulted x \<Rightarrow> fill_defaults s (pred_numeral k) (i + 1) (slots[i := Some (Plain x)])
            | _ \<Rightarrow> fill_defaults s (pred_numeral k) (i + 1) slots))"
  unfolding numeral_eq_Suc by (rule fill_defaults.simps)

lemma demo_slots: "replicate 6 None = [None, None, None, None, None, None]"
  by (simp add: numeral_eq_Suc)

lemma demo_usize: "\<not> usize_max < Suc (Suc n)" if "n < 8"
  using that by (simp add: usize_max_def)

lemma demo_collect:
  "collect_inline (the demo_spec) demo_call (replicate 6 None) =
    Ok [Some (Plain 1), Some (Plain 2), Some (Plain 7), Some (TupleOf []), Some (Plain 4),
       Some (DictOf [(''x'', 5), (''y'', 6)])]"
  "collect_inline (the demo_spec) short_call (replicate 6 None) = Err (MissingNamedOnly ''d'' ''f'')"
  by (simp_all add: collect_inline_def collect_slow_def demo_call_def short_call_def demo_spec_layout
      layout_spec_def layout_params_def Let_def set_slots_from_def set_slot_def demo_usize demo_slots min_def
      fill_defaults_numeral alist_insert_new)

theorem collect_binds_arguments_witness:
  "spec_wf (the demo_spec) \<and> accepts (the demo_spec) demo_call \<and>
   bound_slots (the demo_spec) demo_call 6 =
     [Some (Plain 1), Some (Plain 2), Some (Plain 7), Some (TupleOf []), Some (Plain 4),
      Some (DictOf [(''x'', 5), (''y'', 6)])] \<and>
   \<not> accepts (the demo_spec) short_call"
  using collect_binds_arguments [OF demo_spec_wf demo_spec_size, of demo_call]
    collect_binds_arguments [OF demo_spec_wf demo_spec_size, of short_call] demo_spec_wf demo_collect
  by (auto split: if_splits)

text \<open>A call with positional and named values only.\<close>

definition plain_call :: "'v list \<Rightarrow> string list \<Rightarrow> 'v list \<Rightarrow> 'v arguments" where
  "plain_call pos names named = \<lparr>a_pos = pos, a_names = names, a_named = named, a_args = None, a_kwargs = None\<rparr>"

lemma plain_call_simps [simp]:
  "positionals (plain_call pos names named) = pos" "all_named (plain_call pos names named) = zip names named"
  "keyword_values (plain_call pos names named) = []" "a_args (plain_call pos names named) = None"
  "a_kwargs (plain_call pos names named) = None"
  by (simp_all add: plain_call_def positionals_def star_values_def all_named_def keyword_values_def string_keys_def)

lemma required_bound:
  assumes wf: "spec_wf s" and len: "length named = length names" and i: "i < length (param_kinds s)"
    and req: "param_kinds s ! i = Required"
  shows "bound_value s (plain_call pos names named) i \<noteq> None \<longleftrightarrow>
    i < num_positional (indices s) \<and> i < length pos \<or> (\<exists>n \<in> set names. map_of (spec_names s) n = Some i)"
proof -
  have "named_value s (zip names named) i = None \<longleftrightarrow>
      \<not> (num_positional_only (indices s) \<le> i \<and> param_names s ! i \<in> set names)"
    using len map_of_rev_None [of "zip names named"]
    by (auto simp: named_value_def set_map [symmetric] simp del: set_map)
  moreover have "(\<exists>n \<in> set names. map_of (spec_names s) n = Some i) \<longleftrightarrow>
      num_positional_only (indices s) \<le> i \<and> param_names s ! i \<in> set names"
    using i req by (auto simp: spec_names_iff [OF wf])
  ultimately show ?thesis
    using req by (auto simp: bound_value_def split: option.splits)
qed

lemma ball_case_option: "(\<forall>n \<in> S. case f n of Some i \<Rightarrow> P i | None \<Rightarrow> Q) \<longleftrightarrow>
    (\<forall>n \<in> S. \<forall>i. f n = Some i \<longrightarrow> P i) \<and> (\<not> Q \<longrightarrow> (\<forall>n \<in> S. f n \<noteq> None))"
  by (auto split: option.splits)

lemma can_fill_accepts:
  assumes wf: "spec_wf s" and dist: "distinct names" and len: "length named = length names"
  shows "can_fill_with_args s (length pos) names \<longleftrightarrow> accepts s (plain_call pos names named)"
proof -
  let ?np = "num_positional (indices s)" and ?len = "length (param_kinds s)" and ?c = "plain_call pos names named"
  let ?A = "args_index (indices s) = None \<longrightarrow> length pos \<le> ?np"
  let ?N = "\<forall>n \<in> set names. case map_of (spec_names s) n of Some i \<Rightarrow> \<not> (i < ?np \<and> i < length pos)
    | None \<Rightarrow> kwargs_index (indices s) \<noteq> None"
  let ?R = "\<forall>i < ?len. param_kinds s ! i = Required \<longrightarrow> bound_value s ?c i \<noteq> None"
  define F where "F = map (\<lambda>i. i < ?np \<and> i < length pos) [0..<?len]"
  have np: "?np \<le> ?len" by (rule spec_wfD(3) [OF wf])
  have pos: "cf_positional s [0..<length pos] (replicate ?len False) = (if ?A then Some F else None)"
  proof -
    have "map (\<lambda>i. replicate ?len False ! i \<or> i < ?np \<and> i \<in> set [0..<length pos]) [0..<?len] = F"
      unfolding F_def by (rule map_cong) auto
    with np show ?thesis by (subst cf_positional_spec) (auto simp: not_le)
  qed
  have named: "cf_named s names F = (if ?N
      then Some (map (\<lambda>i. F ! i \<or> (\<exists>n \<in> set names. map_of (spec_names s) n = Some i)) [0..<?len]) else None)"
  proof -
    have il: "i < length F" if "map_of (spec_names s) n = Some i" for n i
      using spec_wfD(5) [OF wf that] by (simp add: F_def)
    have eq: "(\<forall>n \<in> set names. case map_of (spec_names s) n of Some i \<Rightarrow> \<not> F ! i
        | None \<Rightarrow> kwargs_index (indices s) \<noteq> None) \<longleftrightarrow> ?N"
      using il by (intro ball_cong refl) (auto simp: F_def split: option.split)
    have lF: "length F = ?len" by (simp add: F_def)
    show ?thesis unfolding eq [symmetric] lF [symmetric]
      by (rule cf_named_spec [OF dist]) (use il spec_wfD(6) [OF wf] in blast)+
  qed
  have R: "list_all (\<lambda>(f, p). f \<or> p \<noteq> Required)
      (zip (map (\<lambda>i. F ! i \<or> (\<exists>n \<in> set names. map_of (spec_names s) n = Some i)) [0..<?len]) (param_kinds s)) \<longleftrightarrow> ?R"
    using required_bound [OF wf len, of _ pos]
    by (auto simp: list_all_length F_def)
  have N: "?N \<longleftrightarrow> (\<forall>n \<in> fst ` set (all_named ?c). \<forall>i. map_of (spec_names s) n = Some i \<longrightarrow> filled_positionally s ?c \<le> i) \<and>
      (kwargs_index (indices s) = None \<longrightarrow> extra_named (spec_names s) (all_named ?c) = [])"
  proof -
    have names: "fst ` set (zip names named) = set names"
      using len by (simp add: set_map [symmetric] del: set_map)
    have "extra_named (spec_names s) (zip names named) = [] \<longleftrightarrow>
        (\<forall>n \<in> fst ` set (zip names named). map_of (spec_names s) n \<noteq> None)"
      by (auto simp: extra_named_def filter_empty_conv)
    moreover have "min ?np (length pos) \<le> i \<longleftrightarrow> \<not> (i < ?np \<and> i < length pos)" for i by linarith
    ultimately show ?thesis unfolding plain_call_simps names ball_case_option by simp
  qed
  have "can_fill_with_args s (length pos) names \<longleftrightarrow> ?A \<and> ?N \<and> ?R"
  proof (cases ?A)
    case True
    then have "\<not> (length pos > ?np \<and> args_index (indices s) = None)" by auto
    note can = can_fill_with_args_def pos [unfolded if_P [OF True]] option.case if_not_P [OF this]
    show ?thesis
    proof (cases ?N)
      case N: True
      from True N show ?thesis
        unfolding can named [unfolded if_P [OF N]] option.case R by argo
    next
      case N: False
      from N show ?thesis unfolding can named [unfolded if_not_P [OF N]] option.case by argo
    qed
  next
    case False
    show ?thesis unfolding can_fill_with_args_def pos [unfolded if_not_P [OF False]] option.case using False by argo
  qed
  also have "\<dots> \<longleftrightarrow> accepts s ?c"
    unfolding accepts_def N by (simp add: string_keys_def) blast
  finally show ?thesis .
qed

text \<open>C16. \<open>can_fill_with_args\<close>, which looks at a signature alone, answers whether a call with that many
  positional values and these (distinct) names binds.\<close>

theorem can_fill_with_args_correct:
  assumes "spec_wf s" and "distinct names" and "length named = length names"
  shows "can_fill_with_args s (length pos) names \<longleftrightarrow>
    (\<exists>slots. collect_inline s (plain_call pos names named) (replicate (length (param_kinds s)) None) = Ok slots)"
  using collect_slow_spec [OF assms(1) order_refl, of "plain_call pos names named"]
  unfolding collect_inline_slow [OF assms(1) order_refl] can_fill_accepts [OF assms]
  by (auto split: if_splits)

theorem can_fill_with_args_correct_witness:
  "(\<exists>slots. collect_inline (the demo_spec) (plain_call [1, 2, 3] [''d''] [4])
      (replicate (length (param_kinds (the demo_spec))) None) = Ok slots) \<and>
   can_fill_with_args (the demo_spec) 3 [''d'']"
proof -
  have "can_fill_with_args (the demo_spec) 3 [''d'']"
    by (simp add: can_fill_with_args_def demo_spec_layout layout_spec_def layout_params_def Let_def upt_rec)
  with can_fill_with_args_correct [OF demo_spec_wf, of "[''d'']" "[4]" "[1, 2, 3]"] show ?thesis by (simp add: numeral_3_eq_3)
qed

end
