(* ===== verification/Def_Params.thy ===== *)
theory Def_Params
  imports Parameter_Props
begin

text \<open>
  Parameter lists, from the syntax to the run time. \<^verbatim>\<open>starlark_syntax/src/syntax/def.rs\<close> validates the parameters of a
  \<open>def\<close> or \<open>lambda\<close> with a small state machine and computes the indices that split them into groups;
  the instruction \<open>InstrDef\<close> of \<^verbatim>\<open>starlark/src/eval/bc/instr_impl.rs\<close> turns the validated list into the
  specification that binds calls (\<open>Parameters\<close>); \<open>to_ty_params\<close> of \<^verbatim>\<open>starlark/src/eval/compiler/def.rs\<close> turns
  it into the typechecker's \<open>ParamSpec\<close> of \<^verbatim>\<open>starlark/src/typing/callable_param.rs\<close>.

  A span is the position of its parameter in the list. The types \<open>'t\<close> of annotations and \<open>'e\<close> of default
  expressions are parameters.
\<close>

subsection \<open>Syntax\<close>

datatype ('t, 'e) ast_param =
    ASlash
  | ANormal string "'t option" "'e option"
  | ANoArgs
  | AArgs string "'t option"
  | AKwArgs string "'t option"

fun ap_ident :: "('t, 'e) ast_param \<Rightarrow> string option" where
  "ap_ident (ANormal x _ _) = Some x"
| "ap_ident (AArgs x _) = Some x"
| "ap_ident (AKwArgs x _) = Some x"
| "ap_ident ANoArgs = None"
| "ap_ident ASlash = None"

datatype param_mode = ModePosOnly | ModePosOrName | ModeNameOnly

datatype 'e def_param_kind = Regular param_mode "'e option" | DArgs | DKwargs

record ('t, 'e) def_param =
  dp_ident :: string
  dp_kind :: "'e def_param_kind"
  dp_ty :: "'t option"

record ('t, 'e) def_params =
  d_params :: "('t, 'e) def_param list"
  d_indices :: param_indices

datatype def_error =
    DuplicatedParameterName nat
  | SlashFirst nat
  | TooManyParameters nat
  | ParameterAfterKwargs nat
  | PositionalAfterNonPositional nat
  | ArgsAfterArgsOrKwargs nat
  | MultipleStarInternal nat
  | MultipleSlash nat
  | MultipleArgsInternal nat
  | MultipleKwargs nat
  | MultipleKwargsInternal nat
  | StarLast nat
  | StarNotFollowedByNamed nat

subsection \<open>Validation\<close>

datatype def_state = StNormal | SeenSlash | SeenStar | SeenStarStar

fun st_rank :: "def_state \<Rightarrow> nat" where
  "st_rank StNormal = 0"
| "st_rank SeenSlash = 1"
| "st_rank SeenStar = 2"
| "st_rank SeenStarStar = 3"

record ('t, 'e) unpack_state =
  u_argset :: "string list"
  u_seen_optional :: bool
  u_params :: "('t, 'e) def_param list"
  u_num_positional :: nat
  u_args :: "nat option"
  u_kwargs :: "nat option"
  u_index_of_star :: "nat option"
  u_state :: def_state

definition check_param_name ::
  "nat \<Rightarrow> ('t, 'e) ast_param \<Rightarrow> string list \<Rightarrow> (def_error, string list) outcome" where
  "check_param_name i p argset =
     (case ap_ident p of
        None \<Rightarrow> Ok argset
      | Some n \<Rightarrow> if n \<in> set argset then Err (DuplicatedParameterName i) else Ok (n # argset))"

text \<open>The body of the loop over the parameters. The counter of the positional parameters is an \<open>i32\<close>; it is
  counted as a natural number, and \<open>def_unpack\<close> panics when it left the type.\<close>

definition unpack_step ::
  "nat \<Rightarrow> ('t, 'e) ast_param \<Rightarrow> ('t, 'e) unpack_state \<Rightarrow> (def_error, ('t, 'e) unpack_state) outcome" where
  "unpack_step i p u =
     bind_outcome (check_param_name i p (u_argset u)) (\<lambda>argset.
     let u = u\<lparr>u_argset := argset\<rparr>; state = u_state u
     in case p of
          ANormal n ty default_value \<Rightarrow>
            if st_rank state \<ge> st_rank SeenStarStar then Err (ParameterAfterKwargs i)
            else if default_value = None \<and> u_seen_optional u \<and> st_rank state < st_rank SeenStar
            then Err (PositionalAfterNonPositional i)
            else
              let u = (if default_value = None then u else u\<lparr>u_seen_optional := True\<rparr>);
                  u = (if st_rank state < st_rank SeenStar
                       then u\<lparr>u_num_positional := u_num_positional u + 1\<rparr> else u);
                  mode = (if st_rank state < st_rank SeenSlash then ModePosOnly
                          else if st_rank state < st_rank SeenStar then ModePosOrName
                          else ModeNameOnly)
              in Ok (u\<lparr>u_params := u_params u @ [\<lparr>dp_ident = n, dp_kind = Regular mode default_value, dp_ty = ty\<rparr>]\<rparr>)
        | ANoArgs \<Rightarrow>
            if st_rank state \<ge> st_rank SeenStar then Err (ArgsAfterArgsOrKwargs i)
            else if u_index_of_star u \<noteq> None then Err (MultipleStarInternal i)
            else Ok (u\<lparr>u_state := SeenStar, u_index_of_star := Some i\<rparr>)
        | ASlash \<Rightarrow>
            if st_rank state \<ge> st_rank SeenSlash then Err (MultipleSlash i)
            else Ok (u\<lparr>u_state := SeenSlash\<rparr>)
        | AArgs n ty \<Rightarrow>
            if st_rank state \<ge> st_rank SeenStar then Err (ArgsAfterArgsOrKwargs i)
            else if u_args u \<noteq> None then Err (MultipleArgsInternal i)
            else (case to_u32 (length (u_params u)) of
                    None \<Rightarrow> Panic
                  | Some k \<Rightarrow>
                      Ok (u\<lparr>u_state := SeenStar, u_args := Some k,
                           u_params := u_params u @ [\<lparr>dp_ident = n, dp_kind = DArgs, dp_ty = ty\<rparr>]\<rparr>))
        | AKwArgs n ty \<Rightarrow>
            if st_rank state \<ge> st_rank SeenStarStar then Err (MultipleKwargs i)
            else if u_kwargs u \<noteq> None then Err (MultipleKwargsInternal i)
            else (case to_u32 (length (u_params u)) of
                    None \<Rightarrow> Panic
                  | Some k \<Rightarrow>
                      Ok (u\<lparr>u_kwargs := Some k, u_state := SeenStarStar,
                           u_params := u_params u @ [\<lparr>dp_ident = n, dp_kind = DKwargs, dp_ty = ty\<rparr>]\<rparr>)))"

fun unpack_loop ::
  "nat \<Rightarrow> ('t, 'e) ast_param list \<Rightarrow> ('t, 'e) unpack_state \<Rightarrow> (def_error, ('t, 'e) unpack_state) outcome" where
  "unpack_loop i [] u = Ok u"
| "unpack_loop i (p # ps) u = bind_outcome (unpack_step i p u) (unpack_loop (i + 1) ps)"

definition check_star :: "('t, 'e) ast_param list \<Rightarrow> nat option \<Rightarrow> (def_error, unit) outcome" where
  "check_star ps star =
     (case star of
        None \<Rightarrow> Ok ()
      | Some i \<Rightarrow>
          if i + 1 \<ge> length ps then Err (StarLast i)
          else (case ps ! (i + 1) of ANormal _ _ _ \<Rightarrow> Ok () | _ \<Rightarrow> Err (StarNotFollowedByNamed (i + 1))))"

definition slash_position :: "('t, 'e) ast_param list \<Rightarrow> nat option" where
  "slash_position ps = find_index (\<lambda>p. case p of ASlash \<Rightarrow> True | _ \<Rightarrow> False) ps"

definition count_pos_only :: "('t, 'e) ast_param list \<Rightarrow> (def_error, nat) outcome" where
  "count_pos_only ps =
     (case slash_position ps of
        None \<Rightarrow> Ok 0
      | Some n \<Rightarrow>
          if n = 0 then Err (SlashFirst 0)
          else (case to_u32 n of Some n \<Rightarrow> Ok n | None \<Rightarrow> Err (TooManyParameters (length ps))))"

definition unpack_init :: "nat \<Rightarrow> ('t, 'e) unpack_state" where
  "unpack_init npo =
     \<lparr>u_argset = [], u_seen_optional = False, u_params = [], u_num_positional = 0, u_args = None, u_kwargs = None,
      u_index_of_star = None, u_state = (if npo = 0 then SeenSlash else StNormal)\<rparr>"

definition def_unpack :: "('t, 'e) ast_param list \<Rightarrow> (def_error, ('t, 'e) def_params) outcome" where
  "def_unpack ps =
     bind_outcome (count_pos_only ps) (\<lambda>npo.
     bind_outcome (unpack_loop 0 ps (unpack_init npo)) (\<lambda>u.
     bind_outcome (check_star ps (u_index_of_star u)) (\<lambda>_.
     if u_num_positional u \<ge> 2 ^ 31 then Panic
     else Ok \<lparr>d_params = u_params u,
              d_indices = \<lparr>num_positional = u_num_positional u, num_positional_only = npo,
                           args_index = u_args u, kwargs_index = u_kwargs u\<rparr>\<rparr>)))"

subsection \<open>Runs of regular parameters\<close>

type_synonym ('t, 'e) regular = "string \<times> 't option \<times> 'e option"

abbreviation normal :: "('t, 'e) regular \<Rightarrow> ('t, 'e) ast_param" where
  "normal r \<equiv> (case r of (n, t, d) \<Rightarrow> ANormal n t d)"

abbreviation regular_param :: "param_mode \<Rightarrow> ('t, 'e) regular \<Rightarrow> ('t, 'e) def_param" where
  "regular_param m r \<equiv> (case r of (n, t, d) \<Rightarrow> \<lparr>dp_ident = n, dp_kind = Regular m d, dp_ty = t\<rparr>)"

abbreviation has_default :: "('t, 'e) regular \<Rightarrow> bool" where
  "has_default r \<equiv> snd (snd r) \<noteq> None"

text \<open>No parameter without a default after one with a default.\<close>

fun defaults_last :: "bool \<Rightarrow> ('t, 'e) regular list \<Rightarrow> bool" where
  "defaults_last seen [] \<longleftrightarrow> True"
| "defaults_last seen (r # rs) \<longleftrightarrow> (if has_default r then defaults_last True rs else \<not> seen \<and> defaults_last seen rs)"

fun mode_of :: "def_state \<Rightarrow> param_mode" where
  "mode_of StNormal = ModePosOnly"
| "mode_of SeenSlash = ModePosOrName"
| "mode_of _ = ModeNameOnly"

definition is_err :: "('e, 'a) outcome \<Rightarrow> bool" where
  "is_err m \<longleftrightarrow> (\<exists>e. m = Err e)"

lemma is_err_simps [simp]: "is_err (Err e)" "\<not> is_err (Ok x)" "\<not> is_err Panic"
  by (simp_all add: is_err_def)

lemma is_err_bind: "is_err m \<Longrightarrow> is_err (bind_outcome m f)"
  by (auto simp: is_err_def)

definition after_regular :: "('t, 'e) regular list \<Rightarrow> ('t, 'e) unpack_state \<Rightarrow> ('t, 'e) unpack_state" where
  "after_regular rs u = u\<lparr>u_argset := rev (map fst rs) @ u_argset u,
     u_seen_optional := u_seen_optional u \<or> list_ex has_default rs,
     u_params := u_params u @ map (regular_param (mode_of (u_state u))) rs,
     u_num_positional := u_num_positional u + (if st_rank (u_state u) < 2 then length rs else 0)\<rparr>"

definition regular_ok :: "('t, 'e) regular list \<Rightarrow> ('t, 'e) unpack_state \<Rightarrow> bool" where
  "regular_ok rs u \<longleftrightarrow> distinct (map fst rs) \<and> set (map fst rs) \<inter> set (u_argset u) = {} \<and>
     (st_rank (u_state u) < 2 \<longrightarrow> defaults_last (u_seen_optional u) rs)"

lemma unpack_step_regular:
  assumes "st_rank (u_state u) < 3"
  shows "if regular_ok [r] u then unpack_step i (normal r) u = Ok (after_regular [r] u)
    else is_err (unpack_step i (normal r) u)"
  using assms
  by (cases r; cases "u_state u")
    (auto simp: unpack_step_def check_param_name_def regular_ok_def after_regular_def Let_def)

lemma after_regular_Cons: "after_regular rs (after_regular [r] u) = after_regular (r # rs) u"
  by (simp add: after_regular_def)

lemma after_regular_state [simp]: "u_state (after_regular rs u) = u_state u"
  by (simp add: after_regular_def)

lemma regular_ok_Cons: "regular_ok (r # rs) u \<longleftrightarrow> regular_ok [r] u \<and> regular_ok rs (after_regular [r] u)"
  by (cases "has_default r") (auto simp: regular_ok_def after_regular_def)

lemma unpack_loop_regular:
  assumes "st_rank (u_state u) < 3"
  shows "if regular_ok rs u
    then unpack_loop i (map normal rs @ rest) u = unpack_loop (i + length rs) rest (after_regular rs u)
    else is_err (unpack_loop i (map normal rs @ rest) u)"
  using assms
proof (induction rs arbitrary: i u)
  case Nil
  then show ?case by (simp add: regular_ok_def after_regular_def)
next
  case (Cons r rs)
  note step = unpack_step_regular [OF Cons.prems, of r i]
  note IH = Cons.IH [of "after_regular [r] u" "Suc i", unfolded after_regular_state, OF Cons.prems]
  show ?case
  proof (cases "regular_ok [r] u")
    case True
    with step IH show ?thesis
      by (simp add: regular_ok_Cons [of r rs] after_regular_Cons split: if_splits)
  next
    case False
    with step show ?thesis by (simp add: regular_ok_Cons [of r rs] is_err_bind)
  qed
qed

subsection \<open>The grammar of parameter lists\<close>

datatype 't star = NoStar | StarMarker | StarArgs string "'t option"

record ('t, 'e) signature =
  sg_pos_only :: "('t, 'e) regular list"
  sg_pos_or_name :: "('t, 'e) regular list"
  sg_star :: "'t star"
  sg_named_only :: "('t, 'e) regular list"
  sg_kwargs :: "(string \<times> 't option) option"

fun star_ast :: "'t star \<Rightarrow> ('t, 'e) ast_param list" where
  "star_ast NoStar = []"
| "star_ast StarMarker = [ANoArgs]"
| "star_ast (StarArgs n t) = [AArgs n t]"

fun kw_ast :: "(string \<times> 't option) option \<Rightarrow> ('t, 'e) ast_param list" where
  "kw_ast None = []"
| "kw_ast (Some (n, t)) = [AKwArgs n t]"

text \<open>The list that the grammar derives from a signature.\<close>

definition render :: "('t, 'e) signature \<Rightarrow> ('t, 'e) ast_param list" where
  "render sg =
     map normal (sg_pos_only sg) @ (if sg_pos_only sg = [] then [] else [ASlash]) @
     map normal (sg_pos_or_name sg) @ star_ast (sg_star sg) @ map normal (sg_named_only sg) @ kw_ast (sg_kwargs sg)"

fun star_names :: "'t star \<Rightarrow> string list" where
  "star_names (StarArgs n t) = [n]"
| "star_names _ = []"

fun kw_names :: "(string \<times> 't option) option \<Rightarrow> string list" where
  "kw_names None = []"
| "kw_names (Some (n, t)) = [n]"

definition sg_names :: "('t, 'e) signature \<Rightarrow> string list" where
  "sg_names sg = map fst (sg_pos_only sg) @ map fst (sg_pos_or_name sg) @ star_names (sg_star sg) @
     map fst (sg_named_only sg) @ kw_names (sg_kwargs sg)"

definition sg_valid :: "('t, 'e) signature \<Rightarrow> bool" where
  "sg_valid sg \<longleftrightarrow> distinct (sg_names sg) \<and> defaults_last False (sg_pos_only sg @ sg_pos_or_name sg) \<and>
     (case sg_star sg of NoStar \<Rightarrow> sg_named_only sg = [] | StarMarker \<Rightarrow> sg_named_only sg \<noteq> [] | StarArgs _ _ \<Rightarrow> True)"

fun star_params :: "'t star \<Rightarrow> ('t, 'e) def_param list" where
  "star_params (StarArgs n t) = [\<lparr>dp_ident = n, dp_kind = DArgs, dp_ty = t\<rparr>]"
| "star_params _ = []"

fun kw_params :: "(string \<times> 't option) option \<Rightarrow> ('t, 'e) def_param list" where
  "kw_params None = []"
| "kw_params (Some (n, t)) = [\<lparr>dp_ident = n, dp_kind = DKwargs, dp_ty = t\<rparr>]"

text \<open>The validated parameters of a signature: the markers gone, the groups given by the indices.\<close>

definition sg_params :: "('t, 'e) signature \<Rightarrow> ('t, 'e) def_param list" where
  "sg_params sg = map (regular_param ModePosOnly) (sg_pos_only sg) @
     map (regular_param ModePosOrName) (sg_pos_or_name sg) @ star_params (sg_star sg) @
     map (regular_param ModeNameOnly) (sg_named_only sg) @ kw_params (sg_kwargs sg)"

definition sg_indices :: "('t, 'e) signature \<Rightarrow> param_indices" where
  "sg_indices sg =
     (let p = length (sg_pos_only sg) + length (sg_pos_or_name sg)
      in \<lparr>num_positional = p, num_positional_only = length (sg_pos_only sg),
          args_index = (case sg_star sg of StarArgs _ _ \<Rightarrow> Some p | _ \<Rightarrow> None),
          kwargs_index = (case sg_kwargs sg of None \<Rightarrow> None | Some _ \<Rightarrow> Some (length (sg_params sg :: ('t, 'e) def_param list) - 1))\<rparr>)"

subsection \<open>The loop accepts exactly the grammar\<close>

lemma loop_regular_Ok:
  assumes "st_rank (u_state u) < 3"
  shows "unpack_loop i (map normal rs @ rest) u = Ok u' \<longleftrightarrow>
    regular_ok rs u \<and> unpack_loop (i + length rs) rest (after_regular rs u) = Ok u'"
  using unpack_loop_regular [OF assms, of rs i rest] by (auto simp: is_err_def split: if_splits)

lemma loop_slash_Ok: "unpack_loop i (ASlash # rest) u = Ok u' \<longleftrightarrow>
    u_state u = StNormal \<and> unpack_loop (i + 1) rest (u\<lparr>u_state := SeenSlash\<rparr>) = Ok u'"
  by (cases "u_state u") (auto simp: unpack_step_def check_param_name_def)

fun star_ok :: "'t star \<Rightarrow> ('t, 'e) unpack_state \<Rightarrow> bool" where
  "star_ok (StarArgs n t) u \<longleftrightarrow> n \<notin> set (u_argset u) \<and> length (u_params u) < 2 ^ 32"
| "star_ok _ u \<longleftrightarrow> True"

fun after_star :: "nat \<Rightarrow> 't star \<Rightarrow> ('t, 'e) unpack_state \<Rightarrow> ('t, 'e) unpack_state" where
  "after_star i NoStar u = u"
| "after_star i StarMarker u = u\<lparr>u_state := SeenStar, u_index_of_star := Some i\<rparr>"
| "after_star i (StarArgs n t) u = u\<lparr>u_argset := n # u_argset u, u_state := SeenStar, u_args := Some (length (u_params u)),
     u_params := u_params u @ star_params (StarArgs n t)\<rparr>"

lemma loop_star_Ok:
  assumes "u_args u = None" "u_index_of_star u = None" and "st \<noteq> NoStar"
  shows "unpack_loop i (star_ast st @ rest) u = Ok u' \<longleftrightarrow>
    st_rank (u_state u) < 2 \<and> star_ok st u \<and> unpack_loop (i + 1) rest (after_star i st u) = Ok u'"
  using assms by (cases st)
    (auto simp: unpack_step_def check_param_name_def Let_def to_u32_def split: if_splits)

fun kw_ok :: "(string \<times> 't option) option \<Rightarrow> ('t, 'e) unpack_state \<Rightarrow> bool" where
  "kw_ok None u \<longleftrightarrow> True"
| "kw_ok (Some (n, t)) u \<longleftrightarrow> n \<notin> set (u_argset u) \<and> length (u_params u) < 2 ^ 32"

fun after_kw :: "(string \<times> 't option) option \<Rightarrow> ('t, 'e) unpack_state \<Rightarrow> ('t, 'e) unpack_state" where
  "after_kw None u = u"
| "after_kw (Some (n, t)) u = u\<lparr>u_argset := n # u_argset u, u_kwargs := Some (length (u_params u)), u_state := SeenStarStar,
     u_params := u_params u @ kw_params (Some (n, t))\<rparr>"

lemma loop_after_kw: "u_state u = SeenStarStar \<Longrightarrow> unpack_loop i (p # ps) u \<noteq> Ok u'"
  by (cases p) (auto simp: unpack_step_def check_param_name_def bind_outcome_Ok_iff split: if_splits)

lemma loop_kw_Ok:
  assumes "st_rank (u_state u) < 3" "u_kwargs u = None"
  shows "unpack_loop i (AKwArgs n t # rest) u = Ok u' \<longleftrightarrow>
    rest = [] \<and> kw_ok (Some (n, t)) u \<and> u' = after_kw (Some (n, t)) u"
proof -
  have "unpack_loop (i + 1) rest (after_kw (Some (n, t)) u) = Ok u' \<longleftrightarrow> rest = [] \<and> u' = after_kw (Some (n, t)) u"
    by (cases rest) (auto simp: loop_after_kw simp del: unpack_loop.simps(2))
  with assms show ?thesis
    by (auto simp: unpack_step_def check_param_name_def Let_def to_u32_def split: if_splits)
qed

lemma split_regular:
  obtains rs rest where "ps = map normal rs @ rest"
    and "rest = [] \<or> (\<exists>p r. rest = p # r \<and> (\<forall>n t d. p \<noteq> ANormal n t d))"
proof -
  have "\<exists>rs rest. ps = map normal rs @ rest \<and> (rest = [] \<or> (\<exists>p r. rest = p # r \<and> (\<forall>n t d. p \<noteq> ANormal n t d)))"
  proof (induction ps)
    case (Cons p ps)
    then obtain rs rest where *: "ps = map normal rs @ rest"
      "rest = [] \<or> (\<exists>p r. rest = p # r \<and> (\<forall>n t d. p \<noteq> ANormal n t d))" by blast
    show ?case
    proof (cases "\<exists>n t d. p = ANormal n t d")
      case True
      then obtain r where "p = normal r" by fastforce
      then have "p # ps = map normal (r # rs) @ rest" using *(1) by simp
      with *(2) show ?thesis by blast
    next
      case False
      then show ?thesis by (intro exI [of _ "[]"] exI [of _ "p # ps"]) auto
    qed
  qed simp
  with that show thesis by blast
qed

lemma after_simps [simp]:
  "u_args (after_regular rs u) = u_args u" "u_kwargs (after_regular rs u) = u_kwargs u"
  "u_index_of_star (after_regular rs u) = u_index_of_star u"
  "u_kwargs (after_star i st u) = u_kwargs u"
  "st \<noteq> NoStar \<Longrightarrow> u_state (after_star i st u) = SeenStar"
  by (simp_all add: after_regular_def) (cases st; simp)+

lemma tail_kw_Ok:
  assumes "st_rank (u_state u) < 3" "u_kwargs u = None"
    and "rest = [] \<or> (\<exists>p r. rest = p # r \<and> (\<forall>n t d. p \<noteq> ANormal n t d))"
    and "st_rank (u_state u) \<noteq> 2 \<longrightarrow> rest = [] \<or> (\<exists>n t. hd rest = AKwArgs n t)" and "u_state u \<noteq> StNormal"
  shows "unpack_loop i rest u = Ok u' \<longleftrightarrow> (\<exists>kw. rest = kw_ast kw \<and> kw_ok kw u \<and> u' = after_kw kw u)"
proof (cases "\<exists>n t r. rest = AKwArgs n t # r")
  case True
  then obtain n t r where r: "rest = AKwArgs n t # r" by blast
  have "rest = kw_ast kw \<longleftrightarrow> kw = Some (n, t) \<and> r = []" for kw :: "(string \<times> 'a option) option"
    using r by (cases kw rule: kw_ast.cases) auto
  then show ?thesis unfolding r loop_kw_Ok [OF assms(1,2)] using r by auto
next
  case no_kw: False
  show ?thesis
  proof (cases rest)
    case Nil
    have none: "[] = kw_ast kw \<longleftrightarrow> kw = None" for kw :: "(string \<times> 'a option) option"
      by (cases kw rule: kw_ast.cases) auto
    show ?thesis unfolding Nil none by auto
  next
    case (Cons p r)
    with assms no_kw have p: "p \<in> {ASlash, ANoArgs} \<or> (\<exists>n t. p = AArgs n t)" "u_state u = SeenStar"
      by (cases p; cases "u_state u"; fastforce)+
    then have "unpack_loop i rest u \<noteq> Ok u'"
      unfolding Cons by (auto simp: unpack_step_def check_param_name_def bind_outcome_Ok_iff split: if_splits)
    moreover have "rest \<noteq> kw_ast kw" for kw :: "(string \<times> 'a option) option"
      using Cons no_kw by (cases kw rule: kw_ast.cases) auto
    ultimately show ?thesis by auto
  qed
qed

lemma tail_named_Ok:
  assumes "u_state u = SeenStar" "u_kwargs u = None"
  shows "unpack_loop i ps u = Ok u' \<longleftrightarrow>
    (\<exists>no kw. ps = map normal no @ kw_ast kw \<and> regular_ok no u \<and> kw_ok kw (after_regular no u) \<and>
      u' = after_kw kw (after_regular no u))" (is "_ \<longleftrightarrow> ?R")
proof
  assume ok: "unpack_loop i ps u = Ok u'"
  obtain no rest where ps: "ps = map normal no @ rest"
    and rest: "rest = [] \<or> (\<exists>p r. rest = p # r \<and> (\<forall>n t d. p \<noteq> ANormal n t d))" by (rule split_regular)
  from ok ps assms have "regular_ok no u" "unpack_loop (i + length no) rest (after_regular no u) = Ok u'"
    by (simp_all add: loop_regular_Ok)
  with ps rest assms show ?R by (simp add: tail_kw_Ok) blast
next
  assume ?R
  then obtain no kw where *: "ps = map normal no @ kw_ast kw" "regular_ok no u" "kw_ok kw (after_regular no u)"
    "u' = after_kw kw (after_regular no u)" by blast
  have "unpack_loop (i + length no) (kw_ast kw) (after_regular no u) = Ok u'"
    using * assms by (cases kw rule: kw_ast.cases) (simp_all add: loop_kw_Ok del: unpack_loop.simps(2))
  with * assms show "unpack_loop i ps u = Ok u'" by (simp add: loop_regular_Ok)
qed

definition tail_result ::
  "nat \<Rightarrow> ('t, 'e) regular list \<Rightarrow> 't star \<Rightarrow> ('t, 'e) regular list \<Rightarrow> (string \<times> 't option) option \<Rightarrow>
   ('t, 'e) unpack_state \<Rightarrow> ('t, 'e) unpack_state" where
  "tail_result i pn st no kw u =
     after_kw kw (after_regular no (after_star (i + length pn) st (after_regular pn u)))"

definition tail_ok ::
  "nat \<Rightarrow> ('t, 'e) regular list \<Rightarrow> 't star \<Rightarrow> ('t, 'e) regular list \<Rightarrow> (string \<times> 't option) option \<Rightarrow>
   ('t, 'e) unpack_state \<Rightarrow> bool" where
  "tail_ok i pn st no kw u \<longleftrightarrow> (st = NoStar \<longrightarrow> no = []) \<and> regular_ok pn u \<and> star_ok st (after_regular pn u) \<and>
     regular_ok no (after_star (i + length pn) st (after_regular pn u)) \<and>
     kw_ok kw (after_regular no (after_star (i + length pn) st (after_regular pn u)))"

lemma regular_none [simp]: "regular_ok [] u" "after_regular [] u = u"
  by (simp_all add: regular_ok_def after_regular_def)

lemma star_head: "st \<noteq> NoStar \<longleftrightarrow> (\<exists>p. star_ast st = [p] \<and> (\<forall>n t d. p \<noteq> ANormal n t d) \<and> p \<noteq> ASlash \<and> (\<forall>n t. p \<noteq> AKwArgs n t))"
  by (cases st) auto

lemma tail_positional_Ok:
  assumes u: "u_state u = SeenSlash" "u_args u = None" "u_kwargs u = None" "u_index_of_star u = None"
  shows "unpack_loop i ps u = Ok u' \<longleftrightarrow>
    (\<exists>pn st no kw. ps = map normal pn @ star_ast st @ map normal no @ kw_ast kw \<and>
      tail_ok i pn st no kw u \<and> u' = tail_result i pn st no kw u)" (is "_ \<longleftrightarrow> ?R")
proof
  assume ok: "unpack_loop i ps u = Ok u'"
  obtain pn rest where ps: "ps = map normal pn @ rest"
    and rest: "rest = [] \<or> (\<exists>p r. rest = p # r \<and> (\<forall>n t d. p \<noteq> ANormal n t d))" by (rule split_regular)
  from ok ps u have reg: "regular_ok pn u" and loop: "unpack_loop (i + length pn) rest (after_regular pn u) = Ok u'"
    by (simp_all add: loop_regular_Ok)
  show ?R
  proof (cases "rest = [] \<or> (\<exists>n t. hd rest = AKwArgs n t)")
    case True
    with loop rest u obtain kw where "rest = kw_ast kw" "kw_ok kw (after_regular pn u)"
      "u' = after_kw kw (after_regular pn u)" by (auto simp: tail_kw_Ok)
    with ps reg show ?thesis
      by (intro exI [of _ pn] exI [of _ NoStar] exI [of _ "[]"] exI [of _ kw]) (simp add: tail_ok_def tail_result_def)
  next
    case False
    with rest obtain p r where r: "rest = p # r" "\<forall>n t d. p \<noteq> ANormal n t d" "\<forall>n t. p \<noteq> AKwArgs n t" by auto
    have "p \<noteq> ASlash" using loop u r by (auto simp: loop_slash_Ok simp del: unpack_loop.simps(2))
    with r obtain st where st: "st \<noteq> NoStar" "rest = star_ast st @ r"
      by (cases p) (force intro: that [of StarMarker] that [of "StarArgs _ _"])+
    with loop u have sok: "star_ok st (after_regular pn u)" and
      l2: "unpack_loop (i + length pn + 1) r (after_star (i + length pn) st (after_regular pn u)) = Ok u'"
      by (simp_all add: loop_star_Ok)
    from l2 st u obtain no kw where "r = map normal no @ kw_ast kw"
      "regular_ok no (after_star (i + length pn) st (after_regular pn u))"
      "kw_ok kw (after_regular no (after_star (i + length pn) st (after_regular pn u)))"
      "u' = tail_result i pn st no kw u"
      by (auto simp: tail_named_Ok tail_result_def)
    with ps st reg sok show ?thesis
      by (intro exI [of _ pn] exI [of _ st] exI [of _ no] exI [of _ kw]) (simp add: tail_ok_def)
  qed
next
  assume ?R
  then obtain pn st no kw where ps: "ps = map normal pn @ star_ast st @ map normal no @ kw_ast kw"
    and ok: "tail_ok i pn st no kw u" and u': "u' = tail_result i pn st no kw u" by blast
  let ?u1 = "after_regular pn u"
  have "unpack_loop (i + length pn) (star_ast st @ map normal no @ kw_ast kw) ?u1 = Ok u'"
  proof (cases "st = NoStar")
    case True
    with ok u' have "no = []" "kw_ok kw ?u1" "u' = after_kw kw ?u1" by (auto simp: tail_ok_def tail_result_def)
    with True u show ?thesis
      by (cases kw rule: kw_ast.cases) (simp_all add: loop_kw_Ok del: unpack_loop.simps(2))
  next
    case False
    with ok u' u have "unpack_loop (i + length pn + 1) (map normal no @ kw_ast kw)
        (after_star (i + length pn) st ?u1) = Ok u'"
      by (subst tail_named_Ok) (auto simp: tail_ok_def tail_result_def)
    with False ok u show ?thesis by (simp add: loop_star_Ok tail_ok_def)
  qed
  with ok u show "unpack_loop i ps u = Ok u'" unfolding ps by (simp add: loop_regular_Ok tail_ok_def)
qed

lemma loop_late_slash:
  assumes "st_rank (u_state u) \<ge> 1" and "ASlash \<in> set ps"
  shows "unpack_loop i ps u \<noteq> Ok u'"
  using assms
proof (induction ps arbitrary: i u)
  case (Cons p ps)
  show ?case
  proof
    assume ok: "unpack_loop i (p # ps) u = Ok u'"
    then obtain w where w: "unpack_step i p u = Ok w" "unpack_loop (i + 1) ps w = Ok u'"
      by (auto simp: bind_outcome_Ok_iff)
    have "p \<noteq> ASlash" using ok Cons.prems by (auto simp: loop_slash_Ok simp del: unpack_loop.simps(2))
    moreover have "st_rank (u_state w) \<ge> 1" using w(1) Cons.prems(1)
      by (cases p) (auto simp: unpack_step_def check_param_name_def Let_def bind_outcome_Ok_iff
          split: if_splits option.splits)
    ultimately show False using Cons w(2) by auto
  qed
qed simp

definition start_state :: "('t, 'e) regular list \<Rightarrow> ('t, 'e) unpack_state" where
  "start_state po = \<lparr>u_argset = rev (map fst po), u_seen_optional = list_ex has_default po,
     u_params = map (regular_param ModePosOnly) po, u_num_positional = length po, u_args = None, u_kwargs = None,
     u_index_of_star = None, u_state = SeenSlash\<rparr>"

lemma start_state_simps:
  "u_state (start_state po) = SeenSlash" "u_args (start_state po) = None" "u_kwargs (start_state po) = None"
  "u_index_of_star (start_state po) = None"
  by (simp_all add: start_state_def)

abbreviation slash_size :: "('t, 'e) regular list \<Rightarrow> nat" where
  "slash_size po \<equiv> (if po = [] then 0 else Suc (length po))"

lemma start_state_slash: "po \<noteq> [] \<Longrightarrow>
    (after_regular po (unpack_init (length po)))\<lparr>u_state := SeenSlash\<rparr> = start_state po"
  by (simp add: after_regular_def unpack_init_def start_state_def)

lemma slash_position_regular: "slash_position (map normal po @ ASlash # rest) = Some (length po)"
  by (induction po) (auto simp: slash_position_def split: prod.split)

lemma slash_position_None: "slash_position ps = None \<longleftrightarrow> ASlash \<notin> set ps"
  by (auto simp: slash_position_def find_index_None_iff split: ast_param.splits)

lemma slash_free: "ASlash \<notin> set (map normal rs)" "ASlash \<notin> set (star_ast st)" "ASlash \<notin> set (kw_ast kw)"
  by (auto, (cases st; simp), (cases kw rule: kw_ast.cases; simp))

lemma def_loop_Ok:
  fixes ps :: "('t, 'e) ast_param list"
  assumes "length ps < 2 ^ 31"
  shows "count_pos_only ps = Ok npo \<and> unpack_loop 0 ps (unpack_init npo) = Ok u' \<longleftrightarrow>
    (\<exists>po pn st no kw. npo = length po \<and>
      ps = render \<lparr>sg_pos_only = po, sg_pos_or_name = pn, sg_star = st, sg_named_only = no, sg_kwargs = kw\<rparr> \<and>
      regular_ok po (unpack_init npo) \<and> tail_ok (slash_size po) pn st no kw (start_state po) \<and>
      u' = tail_result (slash_size po) pn st no kw (start_state po))" (is "_ \<longleftrightarrow> ?R")
proof
  assume ok: "count_pos_only ps = Ok npo \<and> unpack_loop 0 ps (unpack_init npo) = Ok u'"
  show ?R
  proof (cases "npo = 0")
    case True
    have init: "unpack_init 0 = start_state []" by (simp add: unpack_init_def start_state_def)
    from True ok show ?thesis
      by (auto simp: init tail_positional_Ok start_state_def render_def intro!: exI [of _ "[]"])
  next
    case False
    with ok have sl: "slash_position ps = Some npo" "ASlash \<in> set ps"
      using slash_position_None [of ps]
      by (auto simp: count_pos_only_def to_u32_def split: option.splits if_splits)
    obtain po rest where ps: "ps = map normal po @ rest"
      and rest: "rest = [] \<or> (\<exists>p r. rest = p # r \<and> (\<forall>n t d. p \<noteq> ANormal n t d))" by (rule split_regular)
    with sl slash_free(1) obtain p r where r: "rest = p # r" "\<forall>n t d. p \<noteq> ANormal n t d" by fastforce
    let ?u = "after_regular po (unpack_init npo :: ('t, 'e) unpack_state)"
    from ok False have reg: "regular_ok po (unpack_init npo)" and loop: "unpack_loop (length po) rest ?u = Ok u'"
      unfolding ps by (subst (asm) loop_regular_Ok; simp add: unpack_init_def)+
    have "p = ASlash"
    proof (rule ccontr)
      assume p: "p \<noteq> ASlash"
      from loop r obtain w where w: "unpack_step (length po) p ?u = Ok w" "unpack_loop (Suc (length po)) r w = Ok u'"
        by (auto simp: bind_outcome_Ok_iff)
      have "st_rank (u_state w) \<ge> 1" using w(1) p r(2)
        by (cases p) (auto simp: unpack_step_def check_param_name_def Let_def bind_outcome_Ok_iff
            split: if_splits option.splits)
      moreover have "ASlash \<in> set r" using sl(2) p slash_free(1) [of po] unfolding ps r by auto
      ultimately show False using loop_late_slash w(2) by blast
    qed
    then have npo: "npo = length po" using sl(1) r ps slash_position_regular [of po r] by simp
    with False have ne: "po \<noteq> []" by auto
    from loop r \<open>p = ASlash\<close> have "unpack_loop (Suc (length po)) r (start_state po) = Ok u'"
      unfolding start_state_slash [OF ne, symmetric] npo [symmetric] by (simp add: loop_slash_Ok del: unpack_loop.simps(2))
    then obtain pn st no kw where "r = map normal pn @ star_ast st @ map normal no @ kw_ast kw"
      "tail_ok (Suc (length po)) pn st no kw (start_state po)"
      "u' = tail_result (Suc (length po)) pn st no kw (start_state po)"
      unfolding tail_positional_Ok [OF start_state_simps] by blast
    with npo ne ps r \<open>p = ASlash\<close> reg show ?thesis
      by (intro exI [of _ po] exI [of _ pn] exI [of _ st] exI [of _ no] exI [of _ kw]) (simp add: render_def)
  qed
next
  assume ?R
  then obtain po pn st no kw where npo: "npo = length po" and
    ps: "ps = render \<lparr>sg_pos_only = po, sg_pos_or_name = pn, sg_star = st, sg_named_only = no, sg_kwargs = kw\<rparr>" and
    ok: "regular_ok po (unpack_init npo)" "tail_ok (slash_size po) pn st no kw (start_state po)"
      "u' = tail_result (slash_size po) pn st no kw (start_state po)" by blast
  let ?tail = "map normal pn @ star_ast st @ map normal no @ kw_ast kw"
  have tail: "unpack_loop (slash_size po) ?tail (start_state po) = Ok u'"
    unfolding tail_positional_Ok [OF start_state_simps] using ok by blast
  show "count_pos_only ps = Ok npo \<and> unpack_loop 0 ps (unpack_init npo) = Ok u'"
  proof (cases "po = []")
    case True
    have "slash_position ps = None" unfolding slash_position_None ps render_def using True slash_free by auto
    with True npo tail ps show ?thesis by (simp add: count_pos_only_def render_def unpack_init_def start_state_def)
  next
    case False
    have ps': "ps = map normal po @ ASlash # ?tail" using False by (simp add: ps render_def)
    have "count_pos_only ps = Ok npo"
      using False npo assms unfolding ps' by (simp add: count_pos_only_def slash_position_regular to_u32_def)
    moreover have "unpack_loop 0 ps (unpack_init npo) = Ok u'"
      unfolding ps' using False npo ok(1) tail start_state_slash [OF False]
      by (subst loop_regular_Ok) (simp_all add: unpack_init_def loop_slash_Ok del: unpack_loop.simps(2))
    ultimately show ?thesis by blast
  qed
qed

lemma defaults_last_append: "defaults_last seen (xs @ ys) \<longleftrightarrow>
    defaults_last seen xs \<and> defaults_last (seen \<or> list_ex has_default xs) ys"
  by (induction xs arbitrary: seen) auto

lemma tail_argset:
  "set (u_argset (after_regular rs u)) = set (map fst rs) \<union> set (u_argset u)"
  "set (u_argset (after_star i st u)) = set (star_names st) \<union> set (u_argset u)"
  "length (u_params (after_regular rs u)) = length (u_params u) + length rs"
  "length (u_params (after_star i st u)) = length (u_params u) + length (star_names st)"
  "u_seen_optional (after_regular rs u) \<longleftrightarrow> u_seen_optional u \<or> list_ex has_default rs"
  by (auto simp: after_regular_def) (cases st; auto)+

lemma star_kw_ok:
  "length (u_params u) < 2 ^ 32 \<Longrightarrow> star_ok st u \<longleftrightarrow> set (star_names st) \<inter> set (u_argset u) = {}"
  "length (u_params u) < 2 ^ 32 \<Longrightarrow> kw_ok kw u \<longleftrightarrow> set (kw_names kw) \<inter> set (u_argset u) = {}"
  by (cases st; simp) (cases kw rule: kw_ast.cases; simp)

lemma star_state: "st_rank (u_state (after_star i st u)) < 2 \<longleftrightarrow> st = NoStar \<and> st_rank (u_state u) < 2"
  by (cases st) auto

lemma distinct_star_kw [simp]: "distinct (star_names st)" "distinct (kw_names kw)"
  by (cases st; simp) (cases kw rule: kw_ast.cases; simp)

lemma tail_ok_iff:
  assumes "length po + length pn + length no + 1 < 2 ^ 32"
  shows "regular_ok po (unpack_init (length po)) \<and> tail_ok i pn st no kw (start_state po) \<longleftrightarrow>
    distinct (map fst po @ map fst pn @ star_names st @ map fst no @ kw_names kw) \<and>
    defaults_last False (po @ pn) \<and> (st = NoStar \<longrightarrow> no = [])"
proof -
  have st1: "length (star_names st) \<le> 1" by (cases st) auto
  let ?u1 = "after_regular pn (start_state po)"
  let ?u2 = "after_star (i + length pn) st ?u1"
  let ?u3 = "after_regular no ?u2"
  have small: "length (u_params ?u1) < 2 ^ 32" "length (u_params ?u3) < 2 ^ 32"
    using assms st1 by (simp_all add: tail_argset start_state_def)
  have 0: "regular_ok po (unpack_init (length po)) \<longleftrightarrow> distinct (map fst po) \<and> defaults_last False po"
    by (simp add: regular_ok_def unpack_init_def)
  have 1: "regular_ok pn (start_state po) \<longleftrightarrow> distinct (map fst pn) \<and> set (map fst pn) \<inter> set (map fst po) = {} \<and>
      defaults_last (list_ex has_default po) pn"
    by (simp add: regular_ok_def start_state_def)
  have 2: "star_ok st ?u1 \<longleftrightarrow> set (star_names st) \<inter> (set (map fst pn) \<union> set (map fst po)) = {}"
    unfolding star_kw_ok(1) [OF small(1)] tail_argset by (simp add: start_state_def)
  have 3: "regular_ok no ?u2 \<longleftrightarrow> distinct (map fst no) \<and>
      set (map fst no) \<inter> (set (star_names st) \<union> (set (map fst pn) \<union> set (map fst po))) = {}"
    if "st = NoStar \<longrightarrow> no = []"
    using that unfolding regular_ok_def tail_argset star_state by (auto simp: start_state_def)
  have 4: "kw_ok kw ?u3 \<longleftrightarrow> set (kw_names kw) \<inter>
      (set (map fst no) \<union> (set (star_names st) \<union> (set (map fst pn) \<union> set (map fst po)))) = {}"
    unfolding star_kw_ok(2) [OF small(2)] tail_argset by (simp add: start_state_def)
  show ?thesis
  proof (cases "st = NoStar \<longrightarrow> no = []")
    case True
    then show ?thesis
      unfolding tail_ok_def 0 1 2 3 [OF True] 4 distinct_append defaults_last_append set_append HOL.simp_thms
      using distinct_star_kw by blast
  qed (simp add: tail_ok_def)
qed

lemma after_kw_fields:
  "u_params (after_kw kw u) = u_params u @ kw_params kw" "u_args (after_kw kw u) = u_args u"
  "u_num_positional (after_kw kw u) = u_num_positional u" "u_index_of_star (after_kw kw u) = u_index_of_star u"
  "u_kwargs (after_kw kw u) = (case kw of None \<Rightarrow> u_kwargs u | Some _ \<Rightarrow> Some (length (u_params u)))"
  by (cases kw rule: kw_ast.cases; simp)+

lemma after_star_fields:
  "u_params (after_star i st u) = u_params u @ star_params st"
  "u_args (after_star i st u) = (case st of StarArgs _ _ \<Rightarrow> Some (length (u_params u)) | _ \<Rightarrow> u_args u)"
  "u_num_positional (after_star i st u) = u_num_positional u"
  "u_index_of_star (after_star i st u) = (if st = StarMarker then Some i else u_index_of_star u)"
  "u_state (after_star i st u) = (if st = NoStar then u_state u else SeenStar)"
  by (cases st; simp)+

lemma after_regular_fields:
  "u_params (after_regular rs u) = u_params u @ map (regular_param (mode_of (u_state u))) rs"
  "u_num_positional (after_regular rs u) = u_num_positional u + (if st_rank (u_state u) < 2 then length rs else 0)"
  by (simp_all add: after_regular_def)

lemma start_state_fields: "u_params (start_state po) = map (regular_param ModePosOnly) po" "u_num_positional (start_state po) = length po"
  by (simp_all add: start_state_def)

lemma tail_result_fields:
  fixes po pn :: "('t, 'e) regular list" and kw :: "(string \<times> 't option) option"
  assumes "st = NoStar \<longrightarrow> no = []"
  defines "sg \<equiv> \<lparr>sg_pos_only = po, sg_pos_or_name = pn, sg_star = st, sg_named_only = no, sg_kwargs = kw\<rparr>"
  shows "u_params (tail_result i pn st no kw (start_state po)) = sg_params sg"
    and "u_num_positional (tail_result i pn st no kw (start_state po)) = num_positional (sg_indices sg)"
    and "u_args (tail_result i pn st no kw (start_state po)) = args_index (sg_indices sg)"
    and "u_kwargs (tail_result i pn st no kw (start_state po)) = kwargs_index (sg_indices sg)"
    and "u_index_of_star (tail_result i pn st no kw (start_state po)) = (if st = StarMarker then Some (i + length pn) else None)"
  using assms(1) unfolding sg_def tail_result_def sg_params_def sg_indices_def
  by (auto simp: after_kw_fields after_star_fields after_regular_fields start_state_fields start_state_simps Let_def
      split: option.split star.split)

lemma nth_Suc_append: "(xs @ y # ys) ! Suc (length xs) = ys ! 0"
  by (simp add: nth_append)

lemma check_star_render:
  fixes ps :: "('t, 'e) ast_param list"
  assumes "index = (if st = StarMarker then Some (slash_size po + length pn) else None)"
    and "ps = render \<lparr>sg_pos_only = po, sg_pos_or_name = pn, sg_star = st, sg_named_only = no, sg_kwargs = kw\<rparr>"
  shows "if st = StarMarker \<and> no = [] then is_err (check_star ps index) else check_star ps index = Ok ()"
proof (cases "st = StarMarker")
  case True
  let ?pre = "map normal po @ (if po = [] then [] else [ASlash]) @ map normal pn"
  have ps: "ps = ?pre @ ANoArgs # map normal no @ kw_ast kw" using True assms(2) by (simp add: render_def)
  have pre: "length ?pre = slash_size po + length pn" by simp
  have nth: "ps ! (Suc (slash_size po + length pn)) = (map normal no @ kw_ast kw) ! 0"
    unfolding ps pre [symmetric] by (rule nth_Suc_append)
  have len: "length ps = slash_size po + length pn + Suc (length no + length (kw_ast kw :: ('t, 'e) ast_param list))"
    unfolding ps length_append pre by simp
  show ?thesis
  proof (cases no)
    case Nil
    then show ?thesis using True assms(1) nth len
      by (cases kw rule: kw_ast.cases) (auto simp: check_star_def)
  next
    case (Cons r no')
    then show ?thesis using True assms(1) nth len by (auto simp: check_star_def split: prod.splits)
  qed
qed (simp add: assms(1) check_star_def)

abbreviation sg_def_params :: "('t, 'e) signature \<Rightarrow> ('t, 'e) def_params" where
  "sg_def_params sg \<equiv> \<lparr>d_params = sg_params sg, d_indices = sg_indices sg\<rparr>"

lemma length_render: "length (sg_pos_only sg) + length (sg_pos_or_name sg) + length (sg_named_only sg) \<le> length (render sg)"
  by (simp add: render_def)

lemma sg_valid_tail:
  assumes "length (render sg) < 2 ^ 31"
  shows "sg_valid sg \<longleftrightarrow> regular_ok (sg_pos_only sg) (unpack_init (length (sg_pos_only sg))) \<and>
      tail_ok i (sg_pos_or_name sg) (sg_star sg) (sg_named_only sg) (sg_kwargs sg) (start_state (sg_pos_only sg)) \<and>
      \<not> (sg_star sg = StarMarker \<and> sg_named_only sg = [])"
proof -
  have small: "length (sg_pos_only sg) + length (sg_pos_or_name sg) + length (sg_named_only sg) + 1 < 2 ^ 32"
    using length_render [of sg] assms by simp
  have star: "(case sg_star sg of NoStar \<Rightarrow> sg_named_only sg = [] | StarMarker \<Rightarrow> sg_named_only sg \<noteq> [] | StarArgs _ _ \<Rightarrow> True) \<longleftrightarrow>
      (sg_star sg = NoStar \<longrightarrow> sg_named_only sg = []) \<and> \<not> (sg_star sg = StarMarker \<and> sg_named_only sg = [])"
    by (cases "sg_star sg") auto
  show ?thesis unfolding sg_valid_def sg_names_def star
    using tail_ok_iff [OF small, of i "sg_star sg" "sg_kwargs sg"] by argo
qed

abbreviation sg_result :: "('t, 'e) signature \<Rightarrow> ('t, 'e) unpack_state" where
  "sg_result sg \<equiv> tail_result (slash_size (sg_pos_only sg)) (sg_pos_or_name sg) (sg_star sg) (sg_named_only sg) (sg_kwargs sg)
     (start_state (sg_pos_only sg))"

lemma unpack_finish:
  assumes "ps = render sg" and len: "length ps < 2 ^ 31" and no: "sg_star sg = NoStar \<longrightarrow> sg_named_only sg = []"
  shows "bind_outcome (check_star ps (u_index_of_star (sg_result sg))) (\<lambda>_. if u_num_positional (sg_result sg) \<ge> 2 ^ 31 then Panic
        else Ok \<lparr>d_params = u_params (sg_result sg),
          d_indices = \<lparr>num_positional = u_num_positional (sg_result sg), num_positional_only = length (sg_pos_only sg),
            args_index = u_args (sg_result sg), kwargs_index = u_kwargs (sg_result sg)\<rparr>\<rparr>) = Ok d \<longleftrightarrow>
      \<not> (sg_star sg = StarMarker \<and> sg_named_only sg = []) \<and> d = sg_def_params sg"
proof -
  note f = tail_result_fields [OF no, of "slash_size (sg_pos_only sg)" "sg_pos_or_name sg" "sg_kwargs sg" "sg_pos_only sg"]
  have sg: "\<lparr>sg_pos_only = sg_pos_only sg, sg_pos_or_name = sg_pos_or_name sg, sg_star = sg_star sg,
      sg_named_only = sg_named_only sg, sg_kwargs = sg_kwargs sg\<rparr> = sg" by simp
  have np: "\<not> num_positional (sg_indices sg) \<ge> 2 ^ 31"
    using length_render [of sg] len assms(1) by (simp add: sg_indices_def Let_def)
  have idx: "\<lparr>num_positional = num_positional (sg_indices sg), num_positional_only = length (sg_pos_only sg),
      args_index = args_index (sg_indices sg), kwargs_index = kwargs_index (sg_indices sg)\<rparr> = sg_indices sg"
    by (simp add: sg_indices_def Let_def)
  have star: "if sg_star sg = StarMarker \<and> sg_named_only sg = [] then is_err (check_star ps (u_index_of_star (sg_result sg)))
      else check_star ps (u_index_of_star (sg_result sg)) = Ok ()"
    using check_star_render [OF f(5), of ps "sg_named_only sg" "sg_kwargs sg"] assms(1) unfolding sg by blast
  show ?thesis
    unfolding f(1-4) sg idx if_not_P [OF np] using star
    by (cases "sg_star sg = StarMarker \<and> sg_named_only sg = []") (auto simp: is_err_def)
qed

lemma def_unpack_Ok:
  assumes len: "length ps < 2 ^ 31"
  shows "def_unpack ps = Ok d \<longleftrightarrow> (\<exists>sg. sg_valid sg \<and> ps = render sg \<and> d = sg_def_params sg)" (is "?L \<longleftrightarrow> ?R")
proof
  assume ?L
  then obtain npo u where loop: "count_pos_only ps = Ok npo \<and> unpack_loop 0 ps (unpack_init npo) = Ok u"
    and fin: "bind_outcome (check_star ps (u_index_of_star u)) (\<lambda>_. if u_num_positional u \<ge> 2 ^ 31 then Panic
        else Ok \<lparr>d_params = u_params u, d_indices = \<lparr>num_positional = u_num_positional u, num_positional_only = npo,
          args_index = u_args u, kwargs_index = u_kwargs u\<rparr>\<rparr>) = Ok d"
    by (auto simp: def_unpack_def bind_outcome_Ok_iff)
  from loop [unfolded def_loop_Ok [OF len]] obtain sg where sg: "npo = length (sg_pos_only sg)" "ps = render sg"
    "regular_ok (sg_pos_only sg) (unpack_init npo)"
    "tail_ok (slash_size (sg_pos_only sg)) (sg_pos_or_name sg) (sg_star sg) (sg_named_only sg) (sg_kwargs sg) (start_state (sg_pos_only sg))"
    "u = sg_result sg" by (metis signature.select_convs)
  have no: "sg_star sg = NoStar \<longrightarrow> sg_named_only sg = []" using sg(4) by (simp add: tail_ok_def)
  from fin have "\<not> (sg_star sg = StarMarker \<and> sg_named_only sg = []) \<and> d = sg_def_params sg"
    unfolding sg(1,5) unpack_finish [OF sg(2) len no] .
  with sg len show ?R using sg_valid_tail [of sg "slash_size (sg_pos_only sg)"] by blast
next
  assume ?R
  then obtain sg where sg: "sg_valid sg" "ps = render sg" "d = sg_def_params sg" by blast
  with len sg_valid_tail [of sg "slash_size (sg_pos_only sg)"]
  have ok: "regular_ok (sg_pos_only sg) (unpack_init (length (sg_pos_only sg)))"
    "tail_ok (slash_size (sg_pos_only sg)) (sg_pos_or_name sg) (sg_star sg) (sg_named_only sg) (sg_kwargs sg) (start_state (sg_pos_only sg))"
    "\<not> (sg_star sg = StarMarker \<and> sg_named_only sg = [])" by blast+
  then have no: "sg_star sg = NoStar \<longrightarrow> sg_named_only sg = []" by (simp add: tail_ok_def)
  have "ps = render \<lparr>sg_pos_only = sg_pos_only sg, sg_pos_or_name = sg_pos_or_name sg, sg_star = sg_star sg,
      sg_named_only = sg_named_only sg, sg_kwargs = sg_kwargs sg\<rparr>" using sg(2) by (cases sg) simp
  with ok have "count_pos_only ps = Ok (length (sg_pos_only sg)) \<and>
      unpack_loop 0 ps (unpack_init (length (sg_pos_only sg))) = Ok (sg_result sg)"
    unfolding def_loop_Ok [OF len] by blast
  with ok(3) sg(3) show ?L
    using unpack_finish [OF sg(2) len no, of d] by (simp add: def_unpack_def)
qed

end
