(* ===== verification/Def_Instr.thy ===== *)
theory Def_Instr
  imports Def_Params
begin

text \<open>
  From the validated parameters of a \<open>def\<close> to the values that exist at run time. The compiler
  (\<^verbatim>\<open>starlark/src/eval/compiler/def.rs\<close>) keeps the parameters with their indices, the bytecode writer
  (\<^verbatim>\<open>starlark/src/eval/bc/compiler/def.rs\<close>) replaces every default expression by the number of the stack slot
  that will hold its value, and \<open>InstrDef\<close> (\<^verbatim>\<open>starlark/src/eval/bc/instr_impl.rs\<close>) feeds the builder of
  \<open>ParametersSpec\<close>. The same compiled parameters give the typechecker's \<open>ParamSpec\<close>.

  Compiling an expression or a type, evaluating an expression and matching a value with a type are
  arguments of the definitions.
\<close>

subsection \<open>Compiled parameters\<close>

record param_name =
  pname :: string
  captured :: bool

datatype ('c, 'x) param_compiled =
    CNormal param_name "'c option" "'x option"
  | CArgs param_name "'c option"
  | CKwArgs param_name "'c option"

fun map_expr :: "('x \<Rightarrow> 'y) \<Rightarrow> ('c, 'x) param_compiled \<Rightarrow> ('c, 'y) param_compiled" where
  "map_expr f (CNormal n ty t) = CNormal n ty (map_option f t)"
| "map_expr f (CArgs n ty) = CArgs n ty"
| "map_expr f (CKwArgs n ty) = CKwArgs n ty"

fun accepts_positional :: "('c, 'x) param_compiled \<Rightarrow> bool" where
  "accepts_positional (CNormal _ _ _) = True"
| "accepts_positional _ = False"

fun name_ty :: "('c, 'x) param_compiled \<Rightarrow> param_name \<times> 'c option" where
  "name_ty (CNormal n t _) = (n, t)"
| "name_ty (CArgs n t) = (n, t)"
| "name_ty (CKwArgs n t) = (n, t)"

definition pc_captured :: "('c, 'x) param_compiled \<Rightarrow> bool" where
  "pc_captured p = captured (fst (name_ty p))"

definition has_type :: "('c, 'x) param_compiled \<Rightarrow> bool" where
  "has_type p = (snd (name_ty p) \<noteq> None)"

definition pc_ty :: "'c \<Rightarrow> ('c, 'x) param_compiled \<Rightarrow> 'c" where
  "pc_ty any p = (case snd (name_ty p) of Some t \<Rightarrow> t | None \<Rightarrow> any)"

datatype param_is_required = ReqYes | ReqNo

fun pc_required :: "('c, 'x) param_compiled \<Rightarrow> param_is_required" where
  "pc_required (CNormal _ _ None) = ReqYes"
| "pc_required (CNormal _ _ (Some _)) = ReqNo"
| "pc_required (CArgs _ _) = ReqNo"
| "pc_required (CKwArgs _ _) = ReqNo"

fun is_star_or_star_star :: "('c, 'x) param_compiled \<Rightarrow> bool" where
  "is_star_or_star_star (CArgs _ _) = True"
| "is_star_or_star_star (CKwArgs _ _) = True"
| "is_star_or_star_star (CNormal _ _ _) = False"

record ('c, 'x) params_compiled =
  c_params :: "('c, 'x) param_compiled list"
  c_indices :: param_indices

fun expr_count :: "('c, 'x) param_compiled \<Rightarrow> nat" where
  "expr_count (CNormal _ _ (Some _)) = 1"
| "expr_count _ = 0"

definition count_exprs :: "('c, 'x) params_compiled \<Rightarrow> nat" where
  "count_exprs ps = sum_list (map expr_count (c_params ps))"

definition has_types :: "('c, 'x) params_compiled \<Rightarrow> bool" where
  "has_types ps = list_ex has_type (c_params ps)"

definition pc_has_args_or_kwargs :: "('c, 'x) params_compiled \<Rightarrow> bool" where
  "pc_has_args_or_kwargs ps = list_ex is_star_or_star_star (c_params ps)"

definition parameter_captures :: "('c, 'x) params_compiled \<Rightarrow> nat list" where
  "parameter_captures ps = map fst (filter (\<lambda>(i, p). pc_captured p) (List.enumerate 0 (c_params ps)))"

definition compile_parameter ::
  "(string \<Rightarrow> bool) \<Rightarrow> ('t \<Rightarrow> 'c) \<Rightarrow> ('e \<Rightarrow> 'x) \<Rightarrow> ('t, 'e) def_param \<Rightarrow> ('c, 'x) param_compiled" where
  "compile_parameter cap tc ex p =
     (let n = \<lparr>pname = dp_ident p, captured = cap (dp_ident p)\<rparr>; t = map_option tc (dp_ty p)
      in case dp_kind p of
           Regular _ default_value \<Rightarrow> CNormal n t (map_option ex default_value)
         | DArgs \<Rightarrow> CArgs n t
         | DKwargs \<Rightarrow> CKwArgs n t)"

definition compile_params ::
  "(string \<Rightarrow> bool) \<Rightarrow> ('t \<Rightarrow> 'c) \<Rightarrow> ('e \<Rightarrow> 'x) \<Rightarrow> ('t, 'e) def_params \<Rightarrow> ('c, 'x) params_compiled" where
  "compile_params cap tc ex d = \<lparr>c_params = map (compile_parameter cap tc ex) (d_params d), c_indices = d_indices d\<rparr>"

text \<open>The writer numbers the default expressions; the list is what it writes to the slots, in order.\<close>

fun number_exprs :: "nat \<Rightarrow> ('c, 'x) param_compiled list \<Rightarrow> ('c, nat) param_compiled list \<times> 'x list" where
  "number_exprs k [] = ([], [])"
| "number_exprs k (p # ps) =
     (case p of
        CNormal n t (Some e) \<Rightarrow>
          (let (qs, es) = number_exprs (k + 1) ps in (CNormal n t (Some k) # qs, e # es))
      | CNormal n t None \<Rightarrow> (let (qs, es) = number_exprs k ps in (CNormal n t None # qs, es))
      | CArgs n t \<Rightarrow> (let (qs, es) = number_exprs k ps in (CArgs n t # qs, es))
      | CKwArgs n t \<Rightarrow> (let (qs, es) = number_exprs k ps in (CKwArgs n t # qs, es)))"

definition write_def :: "('c, 'x) params_compiled \<Rightarrow> ('c, nat) params_compiled \<times> 'x list" where
  "write_def ps = (let (qs, es) = number_exprs 0 (c_params ps) in (\<lparr>c_params = qs, c_indices = c_indices ps\<rparr>, es))"

subsection \<open>The instruction\<close>

datatype instr_def_error = DefaultTypeMismatch string

abbreviation unwrap :: "'a option \<Rightarrow> ('e, 'a) outcome" where
  "unwrap x \<equiv> (case x of Some y \<Rightarrow> Ok y | None \<Rightarrow> Panic)"

fun instr_def_loop ::
  "('c \<Rightarrow> 'v \<Rightarrow> bool) \<Rightarrow> param_indices \<Rightarrow> 'v list \<Rightarrow> nat \<Rightarrow> ('c, nat) param_compiled list \<Rightarrow> nat \<Rightarrow> (nat \<times> string \<times> 'c) list \<Rightarrow>
   'v spec_builder \<Rightarrow> (instr_def_error, nat \<times> (nat \<times> string \<times> 'c) list \<times> 'v spec_builder) outcome" where
  "instr_def_loop matches idx pop i [] pop_index types b = Ok (pop_index, types, b)"
| "instr_def_loop matches idx pop i (x # xs) pop_index types b =
     bind_outcome (if i = num_positional_only idx \<and> \<not> is_star_or_star_star x
                   then unwrap (builder_no_more_positional_only_args b) else Ok b) (\<lambda>b.
     bind_outcome (if i = num_positional idx \<and> \<not> is_star_or_star_star x
                   then unwrap (builder_no_more_positional_args b) else Ok b) (\<lambda>b.
     let types = (case name_ty x of (n, Some t) \<Rightarrow> types @ [(i, pname n, t)] | (n, None) \<Rightarrow> types)
     in case x of
          CNormal n ty None \<Rightarrow>
            bind_outcome (unwrap (builder_add (pname n) Required b)) (instr_def_loop matches idx pop (i + 1) xs pop_index types)
        | CNormal n ty (Some v) \<Rightarrow>
            if v \<noteq> pop_index then Panic
            else if \<not> pop_index < length pop then Panic
            else
              let val = pop ! pop_index
              in if ty \<noteq> None \<and> \<not> matches (snd (snd (last types))) val then Err (DefaultTypeMismatch (pname n))
                 else bind_outcome (unwrap (builder_add (pname n) (Defaulted val) b))
                        (instr_def_loop matches idx pop (i + 1) xs (pop_index + 1) types)
        | CArgs _ _ \<Rightarrow>
            bind_outcome (unwrap (builder_args b)) (instr_def_loop matches idx pop (i + 1) xs pop_index types)
        | CKwArgs _ _ \<Rightarrow>
            bind_outcome (unwrap (builder_kwargs b)) (instr_def_loop matches idx pop (i + 1) xs pop_index types)))"

definition instr_def ::
  "('c \<Rightarrow> 'v \<Rightarrow> bool) \<Rightarrow> string \<Rightarrow> ('c, nat) params_compiled \<Rightarrow> 'v list \<Rightarrow>
   (instr_def_error, (nat \<times> string \<times> 'c) list \<times> 'v parameters_spec) outcome" where
  "instr_def matches name ps pop =
     bind_outcome (instr_def_loop matches (c_indices ps) pop 0 (c_params ps) 0 [] (spec_with_capacity name))
       (\<lambda>(pop_index, types, b).
     if pop_index \<noteq> length pop then Panic
     else bind_outcome (unwrap (builder_finish b)) (\<lambda>s. Ok (types, s)))"

subsection \<open>The typechecker's parameters\<close>

datatype 'c ty_param_mode =
    TPosOnly param_is_required | TPosOrName string param_is_required | TNameOnly string param_is_required | TArgs | TKwargs

record 'c ty_param =
  tp_mode :: "'c ty_param_mode"
  tp_ty :: 'c

record 'c param_spec =
  ps_params :: "'c ty_param list"
  ps_indices :: param_indices

datatype ty_param_error = DuplicateParameterName string

fun allows_pos :: "'c ty_param_mode \<Rightarrow> bool" where
  "allows_pos (TPosOnly _) = True"
| "allows_pos (TPosOrName _ _) = True"
| "allows_pos TArgs = True"
| "allows_pos (TNameOnly _ _) = False"
| "allows_pos TKwargs = False"

fun tp_name :: "'c ty_param_mode \<Rightarrow> string option" where
  "tp_name (TPosOrName x _) = Some x"
| "tp_name (TNameOnly x _) = Some x"
| "tp_name _ = None"

fun add_named ::
  "(string \<Rightarrow> param_is_required \<Rightarrow> 'c ty_param_mode) \<Rightarrow> (string \<times> param_is_required \<times> 'c) list \<Rightarrow> string list \<Rightarrow> 'c ty_param list \<Rightarrow>
   (ty_param_error, string list \<times> 'c ty_param list) outcome" where
  "add_named mode [] seen params = Ok (seen, params)"
| "add_named mode ((name, req, ty) # rest) seen params =
     (if name \<in> set seen then Err (DuplicateParameterName name)
      else add_named mode rest (name # seen) (params @ [\<lparr>tp_mode = mode name req, tp_ty = ty\<rparr>]))"

text \<open>A cast to \<open>u32\<close> wraps around.\<close>

definition as_u32 :: "nat \<Rightarrow> nat" where
  "as_u32 n = n mod 2 ^ 32"

definition param_spec_new_parts ::
  "(param_is_required \<times> 'c) list \<Rightarrow> (string \<times> param_is_required \<times> 'c) list \<Rightarrow> 'c option \<Rightarrow>
   (string \<times> param_is_required \<times> 'c) list \<Rightarrow> 'c option \<Rightarrow> (ty_param_error, 'c param_spec) outcome" where
  "param_spec_new_parts pos_only pos_or_name args named_only kwargs =
     (let params = map (\<lambda>(req, ty). \<lparr>tp_mode = TPosOnly req, tp_ty = ty\<rparr>) pos_only;
          npo = as_u32 (length params)
      in bind_outcome (add_named TPosOrName pos_or_name [] params) (\<lambda>(seen, params).
      let np = as_u32 (length params);
          (index_of_args, params) = (case args of
             None \<Rightarrow> (None, params)
           | Some ty \<Rightarrow> (Some (as_u32 (length params)), params @ [\<lparr>tp_mode = TArgs, tp_ty = ty\<rparr>]))
      in bind_outcome (add_named TNameOnly named_only seen params) (\<lambda>(seen, params).
      let (index_of_kwargs, params) = (case kwargs of
             None \<Rightarrow> (None, params)
           | Some ty \<Rightarrow> (Some (as_u32 (length params)), params @ [\<lparr>tp_mode = TKwargs, tp_ty = ty\<rparr>]))
      in Ok \<lparr>ps_params = params,
             ps_indices = \<lparr>num_positional = np, num_positional_only = npo,
                           args_index = index_of_args, kwargs_index = index_of_kwargs\<rparr>\<rparr>)))"

definition idx_pos_only :: "param_indices \<Rightarrow> nat \<times> nat" where
  "idx_pos_only x = (0, num_positional_only x)"

definition idx_pos_or_named :: "param_indices \<Rightarrow> nat \<times> nat" where
  "idx_pos_or_named x = (num_positional_only x, num_positional x)"

definition idx_named_only :: "param_indices \<Rightarrow> nat \<Rightarrow> nat \<times> nat" where
  "idx_named_only x param_count =
     ((case args_index x of Some a \<Rightarrow> a + 1 | None \<Rightarrow> num_positional x),
      (case kwargs_index x of Some k \<Rightarrow> k | None \<Rightarrow> as_u32 param_count))"

text \<open>Reading the positions of a range one by one panics out of range; a slice panics also when the range is
  reversed.\<close>

definition params_at :: "'p list \<Rightarrow> nat \<times> nat \<Rightarrow> ('e, 'p list) outcome" where
  "params_at ps r =
     (if list_all (\<lambda>i. i < length ps) [fst r..<snd r] then Ok (map (\<lambda>i. ps ! i) [fst r..<snd r]) else Panic)"

definition params_slice :: "'p list \<Rightarrow> nat \<times> nat \<Rightarrow> ('e, 'p list) outcome" where
  "params_slice ps r =
     (if fst r \<le> snd r \<and> snd r \<le> length ps then Ok (take (snd r - fst r) (drop (fst r) ps)) else Panic)"

definition param_at :: "'p list \<Rightarrow> nat option \<Rightarrow> ('e, 'p option) outcome" where
  "param_at ps oi = (case oi of None \<Rightarrow> Ok None | Some i \<Rightarrow> if i < length ps then Ok (Some (ps ! i)) else Panic)"

definition to_ty_params :: "'c \<Rightarrow> ('c, 'x) params_compiled \<Rightarrow> (ty_param_error, 'c param_spec) outcome" where
  "to_ty_params any ps =
     (let named = (\<lambda>p. (pname (fst (name_ty p)), pc_required p, pc_ty any p)); params = c_params ps; idx = c_indices ps
      in bind_outcome (params_at params (idx_pos_only idx)) (\<lambda>po.
      bind_outcome (params_at params (idx_pos_or_named idx)) (\<lambda>pn.
      bind_outcome (param_at params (args_index idx)) (\<lambda>args.
      bind_outcome (params_at params (idx_named_only idx (length params))) (\<lambda>no.
      bind_outcome (param_at params (kwargs_index idx)) (\<lambda>kwargs.
      case param_spec_new_parts (map (\<lambda>p. (pc_required p, pc_ty any p)) po) (map named pn) (map_option (pc_ty any) args)
             (map named no) (map_option (pc_ty any) kwargs) of
        Ok s \<Rightarrow> Ok s
      | _ \<Rightarrow> Panic))))))"

record 'c param_spec_parts =
  sp_pos_only :: "'c ty_param list"
  sp_pos_or_named :: "'c ty_param list"
  sp_args :: "'c ty_param option"
  sp_named_only :: "'c ty_param list"
  sp_kwargs :: "'c ty_param option"

definition param_spec_split :: "'c param_spec \<Rightarrow> (ty_param_error, 'c param_spec_parts) outcome" where
  "param_spec_split s =
     bind_outcome (params_slice (ps_params s) (idx_pos_only (ps_indices s))) (\<lambda>po.
     bind_outcome (params_slice (ps_params s) (idx_pos_or_named (ps_indices s))) (\<lambda>pn.
     bind_outcome (param_at (ps_params s) (args_index (ps_indices s))) (\<lambda>args.
     bind_outcome (params_slice (ps_params s) (idx_named_only (ps_indices s) (length (ps_params s)))) (\<lambda>no.
     bind_outcome (param_at (ps_params s) (kwargs_index (ps_indices s))) (\<lambda>kwargs.
     Ok \<lparr>sp_pos_only = po, sp_pos_or_named = pn, sp_args = args, sp_named_only = no, sp_kwargs = kwargs\<rparr>)))))"

subsection \<open>Running the instruction\<close>

definition trigger :: "param_indices \<Rightarrow> nat \<Rightarrow> 'v spec_builder \<Rightarrow> ('e, 'v spec_builder) outcome" where
  "trigger idx i b =
     bind_outcome (if i = num_positional_only idx then unwrap (builder_no_more_positional_only_args b) else Ok b) (\<lambda>b.
     if i = num_positional idx then unwrap (builder_no_more_positional_args b) else Ok b)"

fun types_of :: "nat \<Rightarrow> ('c, 'x) param_compiled list \<Rightarrow> (nat \<times> string \<times> 'c) list" where
  "types_of i [] = []"
| "types_of i (p # ps) = (case name_ty p of (n, Some t) \<Rightarrow> [(i, pname n, t)] | (n, None) \<Rightarrow> []) @ types_of (i + 1) ps"

lemma types_of_append: "types_of i (xs @ ys) = types_of i xs @ types_of (i + length xs) ys"
  by (induction xs arbitrary: i) auto

lemma number_exprs_append:
  "fst (number_exprs k (xs @ ys)) = fst (number_exprs k xs) @ fst (number_exprs (k + length (snd (number_exprs k xs))) ys)"
  "snd (number_exprs k (xs @ ys)) = snd (number_exprs k xs) @ snd (number_exprs (k + length (snd (number_exprs k xs))) ys)"
  by (induction xs arbitrary: k)
    (auto simp: Let_def case_prod_beta split: param_compiled.split option.split)

lemma length_number_exprs: "length (snd (number_exprs k ps)) = sum_list (map expr_count ps)"
  by (induction ps arbitrary: k)
    (auto simp: Let_def case_prod_beta split: param_compiled.split option.split)

text \<open>Evaluating the default of a regular parameter, and matching it with the annotation.\<close>

fun spec_of :: "('e \<Rightarrow> 'v) \<Rightarrow> ('t, 'e) regular \<Rightarrow> string \<times> 'v spec_param" where
  "spec_of ev (n, t, d) = (n, case d of None \<Rightarrow> PRequired | Some e \<Rightarrow> PDefaulted (ev e))"

fun default_matches :: "('c \<Rightarrow> 'v \<Rightarrow> bool) \<Rightarrow> ('t \<Rightarrow> 'c) \<Rightarrow> ('e \<Rightarrow> 'v) \<Rightarrow> ('t, 'e) regular \<Rightarrow> bool" where
  "default_matches matches tc ev (n, Some t, Some e) = matches (tc t) (ev e)"
| "default_matches matches tc ev _ = True"

abbreviation creg :: "(string \<Rightarrow> bool) \<Rightarrow> ('t \<Rightarrow> 'c) \<Rightarrow> ('e \<Rightarrow> 'x) \<Rightarrow> ('t, 'e) regular \<Rightarrow> ('c, 'x) param_compiled" where
  "creg cap tc ex r \<equiv> (case r of (n, t, d) \<Rightarrow> CNormal \<lparr>pname = n, captured = cap n\<rparr> (map_option tc t) (map_option ex d))"

abbreviation exprs :: "nat \<Rightarrow> ('c, 'x) param_compiled list \<Rightarrow> 'x list" where
  "exprs k ps \<equiv> snd (number_exprs k ps)"

definition pop_ok :: "('x \<Rightarrow> 'v) \<Rightarrow> 'v list \<Rightarrow> nat \<Rightarrow> ('c, 'x) param_compiled list \<Rightarrow> bool" where
  "pop_ok ev pop k ps \<longleftrightarrow> (\<exists>post. drop k pop = map ev (exprs k ps) @ post)"

lemma pop_ok_append:
  assumes "pop_ok ev pop k (xs @ ys)"
  shows "pop_ok ev pop k xs" "pop_ok ev pop (k + length (exprs k xs)) ys"
proof -
  from assms obtain post where *: "drop k pop = map ev (exprs k xs) @ map ev (exprs (k + length (exprs k xs)) ys) @ post"
    by (auto simp: pop_ok_def number_exprs_append)
  then show "pop_ok ev pop k xs" by (auto simp: pop_ok_def)
  have "drop (k + length (exprs k xs)) pop = drop (length (exprs k xs)) (drop k pop)" by (simp add: add.commute)
  with * show "pop_ok ev pop (k + length (exprs k xs)) ys" by (auto simp: pop_ok_def)
qed

lemma instr_def_step_regular:
  assumes "default_matches matches tc (ev \<circ> ex) r"
    and "pop_ok ev pop k [creg cap tc ex r]"
  shows "instr_def_loop matches idx pop i (fst (number_exprs k [creg cap tc ex r]) @ rest) k types b =
    bind_outcome (trigger idx i b) (\<lambda>b.
    bind_outcome (unwrap (builder_param (fst (spec_of (ev \<circ> ex) r)) (snd (spec_of (ev \<circ> ex) r)) b)) (\<lambda>b.
      instr_def_loop matches idx pop (i + 1) rest (k + length (snd (number_exprs k [creg cap tc ex r])))
        (types @ types_of i [creg cap tc ex r]) b))"
proof -
  obtain n t d where r: "r = (n, t, d)" by (cases r)
  show ?thesis
  proof (cases d)
    case None
    then show ?thesis
      by (cases t; cases "trigger idx i b :: (instr_def_error, _) outcome")
        (auto simp: r trigger_def builder_param_add Let_def split: option.splits if_splits)
  next
    case (Some e)
    with assms(2) r obtain post where "drop k pop = ev (ex e) # post" by (auto simp: pop_ok_def)
    then have pop: "k < length pop" "pop ! k = ev (ex e)"
      using drop_eq_Nil [of k pop] by (simp_all add: nth_via_drop not_le [symmetric] del: drop_eq_Nil)
    from Some show ?thesis using pop assms(1)
      by (cases t; cases "trigger idx i b :: (instr_def_error, _) outcome")
        (auto simp: r trigger_def builder_param_add Let_def split: option.splits if_splits)
  qed
qed

lemma instr_def_segment:
  assumes "\<forall>r \<in> set rs. default_matches matches tc (ev \<circ> ex) r"
    and "num_positional_only idx \<notin> {i..<i + length rs}" "num_positional idx \<notin> {i..<i + length rs}"
    and "pop_ok ev pop k (map (creg cap tc ex) rs)"
  shows "instr_def_loop matches idx pop i (fst (number_exprs k (map (creg cap tc ex) rs)) @ rest) k types b =
    bind_outcome (unwrap (builder_params (map (spec_of (ev \<circ> ex)) rs) b))
      (instr_def_loop matches idx pop (i + length rs) rest (k + length (exprs k (map (creg cap tc ex) rs)))
        (types @ types_of i (map (creg cap tc ex) rs)))"
  using assms
proof (induction rs arbitrary: i k types b)
  case (Cons r rs)
  let ?x = "creg cap tc ex r" and ?xs = "map (creg cap tc ex) rs"
  let ?k = "k + length (exprs k [?x])"
  note num = number_exprs_append [of k "[?x]" ?xs, simplified append_Cons append_Nil]
  have pops: "pop_ok ev pop k [?x]" "pop_ok ev pop ?k ?xs"
    using pop_ok_append [of ev pop k "[?x]" ?xs] Cons.prems(4) by simp_all
  have "i \<noteq> num_positional_only idx" "i \<noteq> num_positional idx" using Cons.prems(2,3) by auto
  then have trig: "(trigger idx i b :: (instr_def_error, _) outcome) = Ok b" by (simp add: trigger_def)
  note step = instr_def_step_regular [OF _ pops(1)]
  have IH: "instr_def_loop matches idx pop (i + 1) (fst (number_exprs ?k ?xs) @ rest) ?k types' b' =
    bind_outcome (unwrap (builder_params (map (spec_of (ev \<circ> ex)) rs) b'))
      (instr_def_loop matches idx pop (i + 1 + length rs) rest (?k + length (exprs ?k ?xs)) (types' @ types_of (i + 1) ?xs))"
    for types' b'
    using Cons.prems pops(2) by (intro Cons.IH) auto
  obtain n sp where sp: "spec_of (ev \<circ> ex) r = (n, sp)" by (cases "spec_of (ev \<circ> ex) r")
  have "instr_def_loop matches idx pop i (fst (number_exprs k (?x # ?xs)) @ rest) k types b =
    bind_outcome (unwrap (builder_param n sp b)) (\<lambda>b.
      instr_def_loop matches idx pop (i + 1) (fst (number_exprs ?k ?xs) @ rest) ?k (types @ types_of i [?x]) b)"
    unfolding num append_assoc using step [of matches idx i "fst (number_exprs ?k ?xs) @ rest" types b] Cons.prems(1) trig sp
    by (simp del: number_exprs.simps types_of.simps)
  also have "\<dots> = bind_outcome (unwrap (builder_params (map (spec_of (ev \<circ> ex)) (r # rs)) b))
      (instr_def_loop matches idx pop (i + length (r # rs)) rest (k + length (exprs k (?x # ?xs)))
        (types @ types_of i (?x # ?xs)))"
    unfolding IH num by (simp add: sp add.assoc types_of_append [of i "[?x]" ?xs, simplified] del: number_exprs.simps split: option.split)
  finally show ?case by (simp only: list.map)
qed simp

lemma instr_def_segment_first:
  assumes "rs \<noteq> []" and "\<forall>r \<in> set rs. default_matches matches tc (ev \<circ> ex) r"
    and "num_positional_only idx \<notin> {i<..<i + length rs}" "num_positional idx \<notin> {i<..<i + length rs}"
    and "pop_ok ev pop k (map (creg cap tc ex) rs)" and "trigger idx i b = (Ok b' :: (instr_def_error, _) outcome)"
  shows "instr_def_loop matches idx pop i (fst (number_exprs k (map (creg cap tc ex) rs)) @ rest) k types b =
    bind_outcome (unwrap (builder_params (map (spec_of (ev \<circ> ex)) rs) b'))
      (instr_def_loop matches idx pop (i + length rs) rest (k + length (exprs k (map (creg cap tc ex) rs)))
        (types @ types_of i (map (creg cap tc ex) rs)))"
proof -
  obtain r rs' where rs: "rs = r # rs'" using assms(1) by (cases rs) auto
  let ?x = "creg cap tc ex r" and ?xs = "map (creg cap tc ex) rs'"
  let ?k = "k + length (exprs k [?x])"
  note num = number_exprs_append [of k "[?x]" ?xs, simplified append_Cons append_Nil]
  have pops: "pop_ok ev pop k [?x]" "pop_ok ev pop ?k ?xs"
    using pop_ok_append [of ev pop k "[?x]" ?xs] assms(5) by (simp_all add: rs)
  note step = instr_def_step_regular [OF _ pops(1)]
  note seg = instr_def_segment [OF _ _ _ pops(2), of matches idx "i + 1"]
  obtain n sp where sp: "spec_of (ev \<circ> ex) r = (n, sp)" by (cases "spec_of (ev \<circ> ex) r")
  have "instr_def_loop matches idx pop i (fst (number_exprs k (?x # ?xs)) @ rest) k types b =
    bind_outcome (unwrap (builder_param n sp b')) (\<lambda>b.
      instr_def_loop matches idx pop (i + 1) (fst (number_exprs ?k ?xs) @ rest) ?k (types @ types_of i [?x]) b)"
    unfolding num append_assoc using step [of matches idx i "fst (number_exprs ?k ?xs) @ rest" types b] assms(2,6) rs sp
    by (simp del: number_exprs.simps types_of.simps)
  also have "\<dots> = bind_outcome (unwrap (builder_params (map (spec_of (ev \<circ> ex)) (r # rs')) b'))
      (instr_def_loop matches idx pop (i + length (r # rs')) rest (k + length (exprs k (?x # ?xs)))
        (types @ types_of i (?x # ?xs)))"
    unfolding num using assms(2-4) rs
    by (subst seg) (auto simp: sp add.assoc types_of_append [of i "[?x]" ?xs, simplified] simp del: number_exprs.simps split: option.split)
  finally show ?thesis unfolding rs by (simp only: list.map)
qed

subsection \<open>The four groups of parameters\<close>

text \<open>The builder after the positional-only parameters, the other positional ones, and the named-only ones.\<close>

definition built_po :: "string \<Rightarrow> (string \<times> 'v spec_param) list \<Rightarrow> 'v spec_builder" where
  "built_po name po = (spec_with_capacity name)\<lparr>b_params := kinds_of po, b_positional := length po,
     b_positional_only := length po\<rparr>"

definition built_pn :: "string \<Rightarrow> (string \<times> 'v spec_param) list \<Rightarrow> (string \<times> 'v spec_param) list \<Rightarrow> 'v spec_builder" where
  "built_pn name po pn = (built_po name po)\<lparr>b_params := kinds_of po @ kinds_of pn,
     b_names := zip (map fst pn) [length po..<length po + length pn], b_positional := length po + length pn,
     b_current_style := (if pn = [] then PosOnly else PosOrNamed)\<rparr>"

definition built_star ::
  "string \<Rightarrow> (string \<times> 'v spec_param) list \<Rightarrow> (string \<times> 'v spec_param) list \<Rightarrow> bool \<Rightarrow> 'v spec_builder" where
  "built_star name po pn args = (built_pn name po pn)\<lparr>
     b_params := kinds_of po @ kinds_of pn @ (if args then [(''*args'', Args)] else []),
     b_args := (if args then Some (length po + length pn) else None), b_current_style := NamedOnly\<rparr>"

definition built_no ::
  "string \<Rightarrow> (string \<times> 'v spec_param) list \<Rightarrow> (string \<times> 'v spec_param) list \<Rightarrow> bool \<Rightarrow> (string \<times> 'v spec_param) list \<Rightarrow>
   'v spec_builder" where
  "built_no name po pn args no =
     (let q = length po + length pn + (if args then 1 else 0)
      in (built_star name po pn args)\<lparr>b_params := b_params (built_star name po pn args) @ kinds_of no,
            b_names := zip (map fst pn) [length po..<length po + length pn] @ zip (map fst no) [q..<q + length no]\<rparr>)"

lemmas built_defs = built_po_def built_pn_def built_star_def built_no_def spec_with_capacity_def

lemma build_po: "builder_params po (spec_with_capacity name) = Some (built_po name po)"
  by (subst builder_params_pos_only) (simp_all add: built_defs)

lemma build_pn:
  assumes "pn \<noteq> []" "length po + length pn < 2 ^ 32" "distinct (map fst pn)"
  shows "builder_params pn ((built_po name po)\<lparr>b_current_style := PosOrNamed\<rparr>) = Some (built_pn name po pn)"
  using assms by (subst builder_params_named) (simp_all add: built_defs)

lemma build_no:
  assumes "length po + length pn + 1 + length no \<le> 2 ^ 32" "distinct (map fst pn @ map fst no)"
  shows "builder_params no (built_star name po pn args) = Some (built_no name po pn args no)"
  using assms by (subst builder_params_named) (auto simp: built_defs Let_def)

lemma build_finish:
  assumes "length (layout_params po pn args no kwargs) < 2 ^ 32"
  shows "Option.bind (if kwargs then builder_kwargs (built_no name po pn args no) else Some (built_no name po pn args no))
    builder_finish = Some (layout_spec name po pn args no kwargs)"
proof -
  have "length po + length pn + (if args then 1 else 0) + length no < 2 ^ 32"
    using assms by (auto simp: layout_params_def split: if_splits)
  then show ?thesis
    by (cases kwargs; cases args)
      (simp_all add: builder_kwargs_def builder_finish_def to_u32_def try_u32_def Let_def layout_spec_def
        layout_params_def built_defs)
qed

text \<open>Without named-only parameters and without \<open>*args\<close> the style of the builder does not matter.\<close>

lemma builder_finish_style: "builder_finish (b\<lparr>b_current_style := st\<rparr>) = builder_finish b"
proof (cases b)
  case (fields n ps ns po p st' a k)
  show ?thesis unfolding fields builder_finish_def spec_builder.simps ..
qed

lemma build_finish_style:
  "Option.bind (if kwargs then builder_kwargs (b\<lparr>b_current_style := st\<rparr>) else Some (b\<lparr>b_current_style := st\<rparr>)) builder_finish =
   Option.bind (if kwargs then builder_kwargs b else Some b) builder_finish"
  by (simp add: builder_kwargs_def builder_finish_style)

definition star_compiled :: "(string \<Rightarrow> bool) \<Rightarrow> ('t \<Rightarrow> 'c) \<Rightarrow> 't star \<Rightarrow> ('c, 'x) param_compiled list" where
  "star_compiled cap tc st =
     (case st of StarArgs n t \<Rightarrow> [CArgs \<lparr>pname = n, captured = cap n\<rparr> (map_option tc t)] | _ \<Rightarrow> [])"

definition kw_compiled ::
  "(string \<Rightarrow> bool) \<Rightarrow> ('t \<Rightarrow> 'c) \<Rightarrow> (string \<times> 't option) option \<Rightarrow> ('c, 'x) param_compiled list" where
  "kw_compiled cap tc kw =
     (case kw of Some (n, t) \<Rightarrow> [CKwArgs \<lparr>pname = n, captured = cap n\<rparr> (map_option tc t)] | None \<Rightarrow> [])"

lemma compile_sg_params: "map (compile_parameter cap tc ex) (sg_params sg) =
    map (creg cap tc ex) (sg_pos_only sg) @ map (creg cap tc ex) (sg_pos_or_name sg) @ star_compiled cap tc (sg_star sg) @
    map (creg cap tc ex) (sg_named_only sg) @ kw_compiled cap tc (sg_kwargs sg)"
  by (auto simp: sg_params_def compile_parameter_def star_compiled_def kw_compiled_def split: star.split option.split)

definition is_star_args :: "'t star \<Rightarrow> bool" where
  "is_star_args st \<longleftrightarrow> (case st of StarArgs _ _ \<Rightarrow> True | _ \<Rightarrow> False)"

lemma phase_star_args:
  "instr_def_loop matches idx pop (length po + length pn)
     (fst (number_exprs k (star_compiled cap tc (StarArgs n t))) @ rest) k types (built_pn name po pn) =
   instr_def_loop matches idx pop (length po + length pn + 1) rest k
     (types @ types_of (length po + length pn) (star_compiled cap tc (StarArgs n t) :: ('c, 'x) param_compiled list)) (built_star name po pn True)"
  by (cases t) (simp_all add: star_compiled_def builder_args_def built_defs)

lemma trigger_marker:
  assumes "num_positional_only idx = length po" "num_positional idx = length po + length pn"
  shows "trigger idx (length po + length pn) (built_pn name po pn) = Ok (built_star name po pn False)"
  using assms by (simp add: trigger_def builder_no_more_positional_only_args_def builder_no_more_positional_args_def built_defs)

lemma trigger_pos_or_named:
  assumes "pn \<noteq> []" "num_positional_only idx = length po" "num_positional idx = length po + length pn"
  shows "trigger idx (length po) (built_po name po) = Ok ((built_po name po)\<lparr>b_current_style := PosOrNamed\<rparr>)"
  using assms by (simp add: trigger_def builder_no_more_positional_only_args_def built_defs)

lemma spec_of_fst: "map fst (map (spec_of ev) rs) = map fst rs"
  by (induction rs) auto

lemma phase_positional:
  fixes po pn :: "('t, 'e) regular list"
  assumes idx: "num_positional_only idx = length po" "num_positional idx = length po + length pn"
    and dm: "\<forall>r \<in> set (po @ pn). default_matches matches tc (ev \<circ> ex) r"
    and pop: "pop_ok ev pop 0 (map (creg cap tc ex) po @ map (creg cap tc ex) pn)"
    and small: "length po + length pn < 2 ^ 32" and dist: "distinct (map fst pn)"
  defines "P \<equiv> map (creg cap tc ex) po @ map (creg cap tc ex) pn" and "sp \<equiv> map (spec_of (ev \<circ> ex))"
  shows "instr_def_loop matches idx pop 0 (fst (number_exprs 0 P) @ rest) 0 [] (spec_with_capacity name) =
    instr_def_loop matches idx pop (length po + length pn) rest (length (exprs 0 P)) (types_of 0 P)
      (built_pn name (sp po) (sp pn))"
proof -
  let ?k = "length (exprs 0 (map (creg cap tc ex) po))"
  note pops = pop_ok_append [OF pop]
  have po: "instr_def_loop matches idx pop 0 (fst (number_exprs 0 (map (creg cap tc ex) po)) @ rest') 0 [] (spec_with_capacity name) =
      instr_def_loop matches idx pop (length po) rest' ?k (types_of 0 (map (creg cap tc ex) po)) (built_po name (sp po))"
    for rest'
    using idx dm pops(1) by (subst instr_def_segment) (auto simp: build_po sp_def)
  have pn: "instr_def_loop matches idx pop (length po) (fst (number_exprs ?k (map (creg cap tc ex) pn)) @ rest) ?k
        (types_of 0 (map (creg cap tc ex) po)) (built_po name (sp po)) =
      instr_def_loop matches idx pop (length po + length pn) rest (?k + length (exprs ?k (map (creg cap tc ex) pn)))
        (types_of 0 (map (creg cap tc ex) po) @ types_of (length po) (map (creg cap tc ex) pn)) (built_pn name (sp po) (sp pn))"
  proof (cases "pn = []")
    case True
    have "built_pn name (sp po) [] = built_po name (sp po)" by (simp add: built_defs)
    with True show ?thesis by (simp add: sp_def)
  next
    case False
    have t: "trigger idx (length po) (built_po name (sp po)) =
        (Ok ((built_po name (sp po))\<lparr>b_current_style := PosOrNamed\<rparr>) :: (instr_def_error, _) outcome)"
      using trigger_pos_or_named [of "sp pn" idx "sp po" name] False idx by (simp add: sp_def)
    have b: "builder_params (sp pn) ((built_po name (sp po))\<lparr>b_current_style := PosOrNamed\<rparr>) = Some (built_pn name (sp po) (sp pn))"
      using False small dist by (intro build_pn) (simp_all add: sp_def spec_of_fst del: map_map)
    have "\<forall>r \<in> set pn. default_matches matches tc (ev \<circ> ex) r" using dm by auto
    from instr_def_segment_first [OF False this _ _ pops(2) [simplified] t] idx b show ?thesis
      by (simp add: sp_def)
  qed
  show ?thesis
    unfolding P_def number_exprs_append append_assoc po types_of_append using pn by simp
qed
lemma phase_named:
  fixes po pn no :: "('t, 'e) regular list" and ex :: "'e \<Rightarrow> 'x" and tc :: "'t \<Rightarrow> 'c"
  assumes idx: "num_positional_only idx = length po" "num_positional idx = length po + length pn"
    and dm: "\<forall>r \<in> set no. default_matches matches tc (ev \<circ> ex) r"
    and pop: "pop_ok ev pop k (star_compiled cap tc st @ map (creg cap tc ex) no)"
    and small: "length po + length pn + 1 + length no \<le> 2 ^ 32" and dist: "distinct (map fst pn @ map fst no)"
    and star: "st = NoStar \<longrightarrow> no = []" "st = StarMarker \<longrightarrow> no \<noteq> []"
  defines "sp \<equiv> map (spec_of (ev \<circ> ex))" and "p \<equiv> length po + length pn"
    and "N \<equiv> star_compiled cap tc st @ map (creg cap tc ex) no"
  shows "\<exists>style. instr_def_loop matches idx pop p (fst (number_exprs k N) @ rest) k types (built_pn name (sp po) (sp pn)) =
    instr_def_loop matches idx pop (p + length N) rest (k + length (exprs k N)) (types @ types_of p N)
      ((built_no name (sp po) (sp pn) (is_star_args st) (sp no))\<lparr>b_current_style := style\<rparr>)"
proof -
  have bno: "builder_params (sp no) (built_star name (sp po) (sp pn) args) = Some (built_no name (sp po) (sp pn) args (sp no))" for args
    using small dist unfolding sp_def by (intro build_no) (simp_all only: spec_of_fst length_map)
  have lens: "length (sp xs) = length xs" for xs by (simp add: sp_def)
  have style: "(built_no name (sp po) (sp pn) args (sp no))\<lparr>b_current_style := NamedOnly\<rparr> = built_no name (sp po) (sp pn) args (sp no)" for args
    by (simp add: built_defs Let_def)
  show ?thesis
  proof (cases st)
    case NoStar
    with star have no: "no = []" by simp
    have "(built_no name (sp po) (sp pn) False [])\<lparr>b_current_style := b_current_style (built_pn name (sp po) (sp pn))\<rparr> =
        built_pn name (sp po) (sp pn)" by (simp add: built_defs Let_def)
    with NoStar no show ?thesis
      by (intro exI [of _ "b_current_style (built_pn name (sp po) (sp pn))"])
        (simp add: N_def star_compiled_def is_star_args_def sp_def)
  next
    case StarMarker
    with star have no: "no \<noteq> []" by simp
    have t: "trigger idx p (built_pn name (sp po) (sp pn)) = (Ok (built_star name (sp po) (sp pn) False) :: (instr_def_error, _) outcome)"
      using trigger_marker [of idx "sp po" "sp pn" name] idx by (simp add: lens p_def)
    from StarMarker have N: "N = map (creg cap tc ex) no" by (simp add: N_def star_compiled_def)
    have pop': "pop_ok ev pop k (map (creg cap tc ex) no)" using pop StarMarker by (simp add: star_compiled_def)
    have "instr_def_loop matches idx pop p (fst (number_exprs k N) @ rest) k types (built_pn name (sp po) (sp pn)) =
        instr_def_loop matches idx pop (p + length N) rest (k + length (exprs k N)) (types @ types_of p N)
          (built_no name (sp po) (sp pn) False (sp no))"
      unfolding N using idx bno
      by (subst instr_def_segment_first [OF no dm _ _ pop' t]) (simp_all add: p_def sp_def)
    with StarMarker show ?thesis by (intro exI [of _ NamedOnly]) (simp only: style is_star_args_def star.case)
  next
    case (StarArgs n t)
    let ?S = "star_compiled cap tc st :: ('c, 'x) param_compiled list"
    have S: "length ?S = 1" "exprs k ?S = []" using StarArgs by (simp_all add: star_compiled_def)
    have "pop_ok ev pop k (map (creg cap tc ex) no)" using pop_ok_append(2) [OF pop] S by simp
    then have "instr_def_loop matches idx pop (p + 1) (fst (number_exprs k (map (creg cap tc ex) no)) @ rest) k types' (built_star name (sp po) (sp pn) True) =
        instr_def_loop matches idx pop (p + 1 + length no) rest (k + length (exprs k (map (creg cap tc ex) no)))
          (types' @ types_of (p + 1) (map (creg cap tc ex) no)) (built_no name (sp po) (sp pn) True (sp no))" for types'
      using idx bno by (subst instr_def_segment [OF dm]) (simp_all add: p_def sp_def)
    then have "instr_def_loop matches idx pop p (fst (number_exprs k N) @ rest) k types (built_pn name (sp po) (sp pn)) =
        instr_def_loop matches idx pop (p + length N) rest (k + length (exprs k N)) (types @ types_of p N)
          (built_no name (sp po) (sp pn) True (sp no))"
      using phase_star_args [of matches idx pop "sp po" "sp pn" k cap tc n t "fst (number_exprs k (map (creg cap tc ex) no)) @ rest" types name] S
      by (simp add: N_def number_exprs_append types_of_append StarArgs lens p_def [symmetric])
    with StarArgs show ?thesis by (intro exI [of _ NamedOnly]) (simp only: style is_star_args_def star.case)
  qed
qed
lemma layout_size:
  "length (layout_params (map (spec_of ev) (sg_pos_only sg)) (map (spec_of ev) (sg_pos_or_name sg)) (is_star_args (sg_star sg))
     (map (spec_of ev) (sg_named_only sg)) (sg_kwargs sg \<noteq> None)) = length (sg_params sg)"
  by (cases "sg_kwargs sg" rule: kw_params.cases; cases "sg_star sg")
    (simp_all add: layout_params_def sg_params_def is_star_args_def)

lemma sg_valid_star:
  assumes "sg_valid sg"
  shows "sg_star sg = NoStar \<longrightarrow> sg_named_only sg = []" "sg_star sg = StarMarker \<longrightarrow> sg_named_only sg \<noteq> []"
    "distinct (map fst (sg_pos_or_name sg) @ map fst (sg_named_only sg))"
  using assms by (auto simp: sg_valid_def sg_names_def split: star.splits)

lemma instr_def_signature:
  fixes sg :: "('t, 'e) signature" and cap :: "string \<Rightarrow> bool" and ex :: "'e \<Rightarrow> 'x" and tc :: "'t \<Rightarrow> 'c" and ev :: "'x \<Rightarrow> 'v"
  assumes valid: "sg_valid sg" and small: "length (sg_params sg) < 2 ^ 32"
    and dm: "\<forall>r \<in> set (sg_pos_only sg @ sg_pos_or_name sg @ sg_named_only sg). default_matches matches tc (ev \<circ> ex) r"
  defines "C \<equiv> compile_params cap tc ex (sg_def_params sg)" and "sp \<equiv> map (spec_of (ev \<circ> ex))"
  shows "instr_def matches name (fst (write_def C)) (map ev (snd (write_def C))) =
    Ok (types_of 0 (c_params C),
        layout_spec name (sp (sg_pos_only sg)) (sp (sg_pos_or_name sg)) (is_star_args (sg_star sg)) (sp (sg_named_only sg)) (sg_kwargs sg \<noteq> None))"
proof -
  let ?po = "sg_pos_only sg" and ?pn = "sg_pos_or_name sg" and ?no = "sg_named_only sg" and ?st = "sg_star sg"
  define P where "P = map (creg cap tc ex) ?po @ map (creg cap tc ex) ?pn"
  define N where "N = star_compiled cap tc ?st @ map (creg cap tc ex) ?no"
  let ?K = "kw_compiled cap tc (sg_kwargs sg) :: ('c, 'x) param_compiled list"
  have C: "c_params C = P @ N @ ?K" "c_indices C = sg_indices sg"
    by (simp_all add: C_def compile_params_def compile_sg_params P_def N_def)
  define pop where "pop = map ev (exprs 0 (P @ N @ ?K))"
  let ?k = "length (exprs 0 P)"
  let ?k2 = "?k + length (exprs ?k N)"
  have "pop_ok ev pop 0 (P @ N @ ?K)" by (simp add: pop_ok_def pop_def)
  note pops = this [THEN pop_ok_append(1)] this [THEN pop_ok_append(2), THEN pop_ok_append(1), simplified]
  have idx: "num_positional_only (sg_indices sg) = length ?po" "num_positional (sg_indices sg) = length ?po + length ?pn"
    by (simp_all add: sg_indices_def Let_def)
  note star = sg_valid_star [OF valid]
  have len: "length ?po + length ?pn + length ?no \<le> length (sg_params sg)" by (simp add: sg_params_def)
  have dmP: "\<forall>r \<in> set (?po @ ?pn). default_matches matches tc (ev \<circ> ex) r"
    and dmN: "\<forall>r \<in> set ?no. default_matches matches tc (ev \<circ> ex) r" using dm by auto
  have lP: "length P = length ?po + length ?pn" by (simp add: P_def)
  have small2: "length ?po + length ?pn + 1 + length ?no \<le> 2 ^ 32" using len small by simp
  let ?b = "built_no name (sp ?po) (sp ?pn) (is_star_args ?st) (sp ?no)"
  let ?kw = "sg_kwargs sg \<noteq> None"
  let ?spec = "layout_spec name (sp ?po) (sp ?pn) (is_star_args ?st) (sp ?no) ?kw"
  have fin: "Option.bind (if ?kw then builder_kwargs (?b\<lparr>b_current_style := style\<rparr>) else Some (?b\<lparr>b_current_style := style\<rparr>)) builder_finish =
      Some ?spec" for style
    unfolding build_finish_style using small layout_size [of "ev \<circ> ex" sg] by (intro build_finish) (simp add: sp_def)
  have pos: "instr_def_loop matches (sg_indices sg) pop 0 (fst (number_exprs 0 P) @ rest) 0 [] (spec_with_capacity name) =
      instr_def_loop matches (sg_indices sg) pop (length P) rest ?k (types_of 0 P) (built_pn name (sp ?po) (sp ?pn))" for rest
    using phase_positional [OF idx dmP, of pop cap rest name] pops(1) len small star(3)
    by (simp add: P_def sp_def)
  obtain style where named: "instr_def_loop matches (sg_indices sg) pop (length P) (fst (number_exprs ?k N) @ fst (number_exprs ?k2 ?K)) ?k (types_of 0 P)
        (built_pn name (sp ?po) (sp ?pn)) =
      instr_def_loop matches (sg_indices sg) pop (length P + length N) (fst (number_exprs ?k2 ?K)) ?k2
        (types_of 0 P @ types_of (length P) N) (?b\<lparr>b_current_style := style\<rparr>)"
    using phase_named [OF idx dmN pops(2) [unfolded N_def] small2 star(3) star(1,2), folded N_def lP, folded sp_def] by blast
  have kw: "bind_outcome (instr_def_loop matches (sg_indices sg) pop i (fst (number_exprs ?k2 ?K)) ?k2 types (?b\<lparr>b_current_style := style\<rparr>))
      (\<lambda>(pop_index, types, b). if pop_index \<noteq> length pop then Panic
        else bind_outcome (unwrap (builder_finish b)) (\<lambda>s. Ok (types, s))) = Ok (types @ types_of i ?K, ?spec)" for i types
  proof -
    have "length pop = ?k2" by (auto simp: pop_def number_exprs_append kw_compiled_def split: option.split)
    with fin [of style] show ?thesis
      by (cases "sg_kwargs sg") (auto simp: kw_compiled_def bind_eq_Some_conv split: option.splits)
  qed
  have "instr_def matches name (fst (write_def C)) pop = Ok (types_of 0 (P @ N @ ?K), ?spec)"
    unfolding instr_def_def write_def_def C
    using pos [of "fst (number_exprs ?k N) @ fst (number_exprs ?k2 ?K)"] named kw
    by (simp add: case_prod_beta number_exprs_append types_of_append)
  then show ?thesis by (simp add: C pop_def write_def_def case_prod_beta)
qed
subsection \<open>The typechecker's view\<close>

lemma params_at_middle:
  assumes "ps = xs @ ys @ zs" "r = (length xs, length xs + length ys)"
  shows "params_at ps r = Ok ys" "params_slice ps r = Ok ys"
proof -
  have "map (\<lambda>i. ps ! i) [length xs..<length xs + length ys] = ys"
    by (rule nth_equalityI) (simp_all add: assms(1) nth_append)
  then show "params_at ps r = Ok ys" using assms by (simp add: params_at_def list_all_iff)
  show "params_slice ps r = Ok ys" using assms by (simp add: params_slice_def)
qed

lemma param_at_middle: "ps = xs @ y # zs \<Longrightarrow> param_at ps (Some (length xs)) = Ok (Some y)"
  by (simp add: param_at_def)

definition ty_named :: "(string \<Rightarrow> param_is_required \<Rightarrow> 'c ty_param_mode) \<Rightarrow> (string \<times> param_is_required \<times> 'c) list \<Rightarrow> 'c ty_param list" where
  "ty_named mode xs = map (\<lambda>(n, req, ty). \<lparr>tp_mode = mode n req, tp_ty = ty\<rparr>) xs"

lemma add_named_ok:
  "distinct (map fst xs) \<Longrightarrow> set (map fst xs) \<inter> set seen = {} \<Longrightarrow>
   add_named mode xs seen params = Ok (rev (map fst xs) @ seen, params @ ty_named mode xs)"
  by (induction mode xs seen params rule: add_named.induct) (auto simp: ty_named_def)

definition ty_groups ::
  "(param_is_required \<times> 'c) list \<Rightarrow> (string \<times> param_is_required \<times> 'c) list \<Rightarrow> 'c option \<Rightarrow>
   (string \<times> param_is_required \<times> 'c) list \<Rightarrow> 'c option \<Rightarrow> 'c param_spec_parts" where
  "ty_groups po pn args no kwargs =
     \<lparr>sp_pos_only = map (\<lambda>(req, ty). \<lparr>tp_mode = TPosOnly req, tp_ty = ty\<rparr>) po,
      sp_pos_or_named = ty_named TPosOrName pn,
      sp_args = map_option (\<lambda>ty. \<lparr>tp_mode = TArgs, tp_ty = ty\<rparr>) args,
      sp_named_only = ty_named TNameOnly no,
      sp_kwargs = map_option (\<lambda>ty. \<lparr>tp_mode = TKwargs, tp_ty = ty\<rparr>) kwargs\<rparr>"

abbreviation opt_list :: "'a option \<Rightarrow> 'a list" where
  "opt_list x \<equiv> (case x of None \<Rightarrow> [] | Some y \<Rightarrow> [y])"

definition ty_layout :: "'c param_spec_parts \<Rightarrow> 'c param_spec" where
  "ty_layout g =
     (let p = length (sp_pos_only g) + length (sp_pos_or_named g);
          q = p + length (opt_list (sp_args g)) + length (sp_named_only g)
      in \<lparr>ps_params = sp_pos_only g @ sp_pos_or_named g @ opt_list (sp_args g) @ sp_named_only g @ opt_list (sp_kwargs g),
          ps_indices = \<lparr>num_positional = p, num_positional_only = length (sp_pos_only g),
                        args_index = map_option (\<lambda>_. p) (sp_args g), kwargs_index = map_option (\<lambda>_. q) (sp_kwargs g)\<rparr>\<rparr>)"

lemma param_spec_new_parts_ok:
  assumes "distinct (map fst pn @ map fst no)" and "length po + length pn + length no + 1 < 2 ^ 32"
  shows "param_spec_new_parts po pn args no kwargs = Ok (ty_layout (ty_groups po pn args no kwargs))"
proof -
  have 1: "add_named TPosOrName pn [] params = Ok (rev (map fst pn), params @ ty_named TPosOrName pn)" for params
    using assms(1) by (subst add_named_ok) simp_all
  have 2: "add_named TNameOnly no (rev (map fst pn)) params = Ok (rev (map fst no) @ rev (map fst pn), params @ ty_named TNameOnly no)" for params
    using assms(1) by (subst add_named_ok) auto
  show ?thesis
    using assms(2) unfolding param_spec_new_parts_def
    by (cases args; cases kwargs) (simp_all add: 1 2 ty_layout_def ty_groups_def as_u32_def Let_def ty_named_def)
qed

lemma param_spec_split_layout:
  assumes "length (ps_params (ty_layout g)) < 2 ^ 32"
  shows "param_spec_split (ty_layout g) = Ok g"
proof -
  let ?ps = "ps_params (ty_layout g)" and ?idx = "ps_indices (ty_layout g)"
  have po: "params_slice ?ps (idx_pos_only ?idx) = Ok (sp_pos_only g)"
    by (rule params_at_middle(2) [of _ "[]"]) (auto simp: ty_layout_def idx_pos_only_def Let_def)
  have pn: "params_slice ?ps (idx_pos_or_named ?idx) = Ok (sp_pos_or_named g)"
    by (rule params_at_middle(2) [of _ "sp_pos_only g"]) (auto simp: ty_layout_def idx_pos_or_named_def Let_def)
  have no: "params_slice ?ps (idx_named_only ?idx (length ?ps)) = Ok (sp_named_only g)"
    using assms
    by (intro params_at_middle(2) [of _ "sp_pos_only g @ sp_pos_or_named g @ opt_list (sp_args g)" _ "opt_list (sp_kwargs g)"])
      (auto simp: ty_layout_def idx_named_only_def as_u32_def Let_def split: option.split)
  have args: "param_at ?ps (args_index ?idx) = Ok (sp_args g)"
    by (cases "sp_args g") (auto simp: ty_layout_def param_at_def Let_def nth_append)
  have kw: "param_at ?ps (kwargs_index ?idx) = Ok (sp_kwargs g)"
    by (cases "sp_kwargs g"; cases "sp_args g") (auto simp: ty_layout_def param_at_def Let_def nth_append)
  show ?thesis unfolding param_spec_split_def po pn no args kw bind_outcome.simps by simp
qed

end
