(* ===== verification/Def_Props.thy ===== *)
theory Def_Props
  imports Def_Instr
begin

text \<open>
  What the path from a parameter list in the source to the run-time specification guarantees: the
  grammar that validation accepts, that \<open>InstrDef\<close> then always succeeds with a well-formed specification,
  and that the typechecker's parameters exist and split into the same groups.
\<close>

lemma to_ty_params_signature:
  fixes sg :: "('t, 'e) signature" and cap :: "string \<Rightarrow> bool" and ex :: "'e \<Rightarrow> 'x" and tc :: "'t \<Rightarrow> 'c"
  assumes valid: "sg_valid sg" and small: "length (sg_params sg) < 2 ^ 31"
  defines "C \<equiv> compile_params cap tc ex (sg_def_params sg)"
  shows "\<exists>g. to_ty_params any C = Ok (ty_layout g) \<and> ps_indices (ty_layout g) = sg_indices sg \<and>
    map tp_ty (ps_params (ty_layout g)) = map (pc_ty any) (c_params C) \<and> length (ps_params (ty_layout g)) < 2 ^ 32"
proof -
  let ?c = "map (creg cap tc ex)" and ?po = "sg_pos_only sg" and ?pn = "sg_pos_or_name sg" and ?no = "sg_named_only sg"
  let ?S = "star_compiled cap tc (sg_star sg) :: ('c, 'x) param_compiled list"
  let ?K = "kw_compiled cap tc (sg_kwargs sg) :: ('c, 'x) param_compiled list"
  let ?nm = "\<lambda>p. (pname (fst (name_ty p)), pc_required p, pc_ty any p)"
  let ?hd = "\<lambda>xs. case xs of [] \<Rightarrow> None | x # _ \<Rightarrow> Some x"
  have C: "c_params C = ?c ?po @ ?c ?pn @ ?S @ ?c ?no @ ?K" "c_indices C = sg_indices sg"
    by (simp_all add: C_def compile_params_def compile_sg_params)
  have len: "length (c_params C) = length (sg_params sg)" by (simp add: C_def compile_params_def)
  have S: "args_index (sg_indices sg) = (if ?S = [] then None else Some (length ?po + length ?pn))" "length ?S \<le> 1"
    by (auto simp: sg_indices_def star_compiled_def Let_def split: star.split)
  have K: "kwargs_index (sg_indices sg) = (if ?K = [] then None else Some (length (?c ?po @ ?c ?pn @ ?S @ ?c ?no)))" "length ?K \<le> 1"
    using len unfolding C(1) by (auto simp: sg_indices_def kw_compiled_def Let_def split: option.split)
  have po: "params_at (c_params C) (idx_pos_only (sg_indices sg)) = Ok (?c ?po)"
    by (rule params_at_middle(1) [of _ "[]"]) (auto simp: C sg_indices_def idx_pos_only_def Let_def)
  have pn: "params_at (c_params C) (idx_pos_or_named (sg_indices sg)) = Ok (?c ?pn)"
    by (rule params_at_middle(1) [of _ "?c ?po"]) (auto simp: C sg_indices_def idx_pos_or_named_def Let_def)
  have np: "num_positional (sg_indices sg) = length ?po + length ?pn" by (simp add: sg_indices_def Let_def)
  have no: "params_at (c_params C) (idx_named_only (sg_indices sg) (length (c_params C))) = Ok (?c ?no)"
    using S K small len
    by (intro params_at_middle(1) [of _ "?c ?po @ ?c ?pn @ ?S" _ ?K])
      (auto simp: C np idx_named_only_def as_u32_def le_Suc_eq)
  have args: "param_at (c_params C) (args_index (sg_indices sg)) = Ok (?hd ?S)"
    using S by (cases ?S) (auto simp: C param_at_def nth_append)
  have kw: "param_at (c_params C) (kwargs_index (sg_indices sg)) = Ok (?hd ?K)"
    using K by (cases ?K) (auto simp: C param_at_def nth_append)
  let ?g = "ty_groups (map (\<lambda>p. (pc_required p, pc_ty any p)) (?c ?po)) (map ?nm (?c ?pn)) (map_option (pc_ty any) (?hd ?S))
    (map ?nm (?c ?no)) (map_option (pc_ty any) (?hd ?K))"
  have names: "map fst (map ?nm (?c rs)) = map fst rs" for rs
    by (auto split: prod.split)
  have "length ?po + length ?pn + length ?no \<le> length (sg_params sg)" by (simp add: sg_params_def)
  then have "param_spec_new_parts (map (\<lambda>p. (pc_required p, pc_ty any p)) (?c ?po)) (map ?nm (?c ?pn)) (map_option (pc_ty any) (?hd ?S))
      (map ?nm (?c ?no)) (map_option (pc_ty any) (?hd ?K)) = Ok (ty_layout ?g)"
    using sg_valid_star(3) [OF valid] small by (intro param_spec_new_parts_ok) (simp_all only: names length_map, simp)
  then have "to_ty_params any C = Ok (ty_layout ?g)"
    unfolding to_ty_params_def Let_def C(2) po pn no args kw bind_outcome.simps by simp
  moreover have tys: "map tp_ty (ps_params (ty_layout ?g)) = map (pc_ty any) (c_params C)"
    using S(2) K(2) unfolding C ty_layout_def ty_groups_def ty_named_def
    by (cases ?S; cases ?K) (auto simp: Let_def)
  moreover have "ps_indices (ty_layout ?g) = sg_indices sg"
    using S K np by (cases ?S; cases ?K) (auto intro!: param_indices.equality
      simp: ty_layout_def ty_groups_def ty_named_def Let_def sg_indices_def)
  moreover have "length (ps_params (ty_layout ?g)) < 2 ^ 32"
    using arg_cong [where f = length, OF tys] len small by simp
  ultimately show ?thesis by blast
qed

lemma unpack_step_Panic: "unpack_step i p u = Panic \<Longrightarrow> length (u_params u) \<ge> 2 ^ 32"
  by (cases p) (auto simp: unpack_step_def check_param_name_def Let_def to_u32_def split: if_splits)

lemma unpack_step_length: "unpack_step i p u = Ok w \<Longrightarrow> length (u_params w) \<le> Suc (length (u_params u))"
  by (cases p) (auto simp: unpack_step_def check_param_name_def Let_def bind_outcome_Ok_iff
      split: if_splits option.splits)

lemma unpack_loop_no_panic: "length (u_params u) + length ps < 2 ^ 32 \<Longrightarrow> unpack_loop i ps u \<noteq> Panic"
proof (induction ps arbitrary: i u)
  case (Cons p ps)
  show ?case
  proof (cases "unpack_step i p u")
    case (Ok w)
    with unpack_step_length [OF Ok] Cons show ?thesis by simp
  next
    case Panic
    with unpack_step_Panic [OF Panic] Cons.prems show ?thesis by simp
  qed simp
qed simp

lemma def_unpack_no_panic:
  assumes len: "length ps < 2 ^ 31"
  shows "def_unpack ps \<noteq> Panic"
proof
  assume p: "def_unpack ps = Panic"
  have 1: "count_pos_only ps \<noteq> Panic" by (auto simp: count_pos_only_def split: option.splits)
  have 2: "unpack_loop 0 ps (unpack_init npo) \<noteq> Panic" for npo
    using len by (intro unpack_loop_no_panic) (simp add: unpack_init_def)
  have 3: "check_star ps s \<noteq> Panic" for s by (auto simp: check_star_def split: option.splits ast_param.splits)
  from p 1 2 3 obtain npo u where "count_pos_only ps = Ok npo \<and> unpack_loop 0 ps (unpack_init npo) = Ok u"
    and big: "u_num_positional u \<ge> 2 ^ 31"
    by (auto simp: def_unpack_def bind_outcome_Panic_iff split: if_splits)
  from this(1) [unfolded def_loop_Ok [OF len]] obtain sg where sg: "ps = render sg" "u = sg_result sg"
    "sg_star sg = NoStar \<longrightarrow> sg_named_only sg = []"
    unfolding tail_ok_def by (metis signature.select_convs)
  have "u_num_positional u = length (sg_pos_only sg) + length (sg_pos_or_name sg)"
    unfolding sg(2) tail_result_fields(2) [OF sg(3)] by (simp add: sg_indices_def Let_def)
  with big len length_render [of sg] sg(1) show False by simp
qed

text \<open>The defaults of a validated list match their annotations.\<close>

definition defaults_typed :: "('c \<Rightarrow> 'v \<Rightarrow> bool) \<Rightarrow> ('t \<Rightarrow> 'c) \<Rightarrow> ('e \<Rightarrow> 'v) \<Rightarrow> ('t, 'e) def_params \<Rightarrow> bool" where
  "defaults_typed matches tc ev d \<longleftrightarrow>
     list_all (\<lambda>p. case (dp_ty p, dp_kind p) of (Some t, Regular _ (Some e)) \<Rightarrow> matches (tc t) (ev e) | _ \<Rightarrow> True) (d_params d)"

lemma defaults_typed_signature:
  assumes "defaults_typed matches tc ev (sg_def_params sg)"
  shows "\<forall>r \<in> set (sg_pos_only sg @ sg_pos_or_name sg @ sg_named_only sg). default_matches matches tc ev r"
proof
  have one: "default_matches matches tc ev r \<longleftrightarrow>
      (case (dp_ty (regular_param m r), dp_kind (regular_param m r)) of (Some t, Regular _ (Some e)) \<Rightarrow> matches (tc t) (ev e) | _ \<Rightarrow> True)"
    for m r
  proof -
    obtain n t d where "r = (n, t, d)" by (cases r)
    then show ?thesis by (cases t; cases d) auto
  qed
  fix r assume "r \<in> set (sg_pos_only sg @ sg_pos_or_name sg @ sg_named_only sg)"
  then obtain m where "regular_param m r \<in> set (sg_params sg)" by (auto simp: sg_params_def)
  then show "default_matches matches tc ev r"
    using assms unfolding defaults_typed_def list_all_iff one [of r m] by simp
qed

lemma length_sg_params: "length (sg_params sg) \<le> length (render sg)"
  by (cases "sg_star sg"; cases "sg_kwargs sg" rule: kw_params.cases) (auto simp: sg_params_def render_def)

lemma layout_indices:
  "indices (layout_spec name (map (spec_of ev) (sg_pos_only sg)) (map (spec_of ev) (sg_pos_or_name sg)) (is_star_args (sg_star sg))
     (map (spec_of ev) (sg_named_only sg)) (sg_kwargs sg \<noteq> None)) = sg_indices sg"
  by (cases "sg_star sg"; cases "sg_kwargs sg" rule: kw_params.cases)
    (auto simp: layout_spec_def sg_indices_def sg_params_def is_star_args_def Let_def)

text \<open>A definition for the witnesses: \<open>def f(a, /, b, c = 7, *, d, **kw)\<close>.\<close>

definition demo_def :: "(unit, nat) ast_param list" where
  "demo_def = [ANormal ''a'' None None, ASlash, ANormal ''b'' None None, ANormal ''c'' None (Some 7), ANoArgs,
     ANormal ''d'' None None, AKwArgs ''kw'' None]"

definition demo_params :: "(unit, nat) def_params" where
  "demo_params = \<lparr>d_params =
      [\<lparr>dp_ident = ''a'', dp_kind = Regular ModePosOnly None, dp_ty = None\<rparr>,
       \<lparr>dp_ident = ''b'', dp_kind = Regular ModePosOrName None, dp_ty = None\<rparr>,
       \<lparr>dp_ident = ''c'', dp_kind = Regular ModePosOrName (Some 7), dp_ty = None\<rparr>,
       \<lparr>dp_ident = ''d'', dp_kind = Regular ModeNameOnly None, dp_ty = None\<rparr>,
       \<lparr>dp_ident = ''kw'', dp_kind = DKwargs, dp_ty = None\<rparr>],
     d_indices = \<lparr>num_positional = 3, num_positional_only = 1, args_index = None, kwargs_index = Some 4\<rparr>\<rparr>"

lemma demo_unpack: "def_unpack demo_def = Ok demo_params"
  by (simp add: def_unpack_def demo_def_def demo_params_def count_pos_only_def slash_position_def to_u32_def
      unpack_step_def check_param_name_def unpack_init_def check_star_def Let_def)

lemma demo_def_length: "length demo_def < 2 ^ 31"
  by (simp add: demo_def_def)

subsection \<open>Properties\<close>

text \<open>C4. The validation of a parameter list accepts exactly the lists of the grammar: positional-only parameters
  and \<open>/\<close>, positional ones, \<open>*\<close> (with a named-only parameter after it) or \<open>*args\<close>, named-only ones, \<open>**kwargs\<close>; all names
  distinct and no positional parameter without a default after one with a default. For these it returns the
  parameters without markers and the indices of the groups. Every other list is an error value: nothing panics.\<close>

theorem def_unpack_accepts_grammar:
  assumes "length ps < 2 ^ 31"
  shows "(def_unpack ps = Ok d \<longleftrightarrow>
      (\<exists>sg. sg_valid sg \<and> ps = render sg \<and> d = \<lparr>d_params = sg_params sg, d_indices = sg_indices sg\<rparr>)) \<and>
    def_unpack ps \<noteq> Panic"
  using def_unpack_Ok [OF assms] def_unpack_no_panic [OF assms] by blast

theorem def_unpack_accepts_grammar_witness:
  "(\<exists>sg. sg_valid sg \<and> demo_def = render sg \<and> demo_params = \<lparr>d_params = sg_params sg, d_indices = sg_indices sg\<rparr>) \<and>
   def_unpack demo_def = Ok demo_params"
  using def_unpack_accepts_grammar [OF demo_def_length, of demo_params] demo_unpack by blast

text \<open>C5. From syntax to run time. A validated parameter list can always be turned into the specification that
  binds calls, if the default values have the types of their parameters (a value of another type is an error): none of the
  assertions of \<open>InstrDef\<close> and of the builder fails, the specification is well formed, has a slot for every parameter, and
  its indices are those that validation computed.\<close>

theorem def_runs_to_specification:
  assumes "length ps < 2 ^ 31" and "def_unpack ps = Ok d" and "defaults_typed matches tc (ev \<circ> ex) d"
  shows "\<exists>types s. instr_def matches name (fst (write_def (compile_params cap tc ex d)))
        (map ev (snd (write_def (compile_params cap tc ex d)))) = Ok (types, s) \<and>
      spec_wf s \<and> indices s = d_indices d \<and> length (param_kinds s) = length (d_params d)"
proof -
  obtain sg where sg: "sg_valid sg" "ps = render sg" "d = sg_def_params sg"
    using assms(1,2) by (auto simp: def_unpack_Ok)
  have small: "length (sg_params sg) < 2 ^ 32" using length_sg_params [of sg] assms(1) sg(2) by simp
  let ?sp = "map (spec_of (ev \<circ> ex))"
  let ?s = "layout_spec name (?sp (sg_pos_only sg)) (?sp (sg_pos_or_name sg)) (is_star_args (sg_star sg))
    (?sp (sg_named_only sg)) (sg_kwargs sg \<noteq> None)"
  have "spec_wf ?s"
    using sg_valid_star(3) [OF sg(1)] small layout_size [of "ev \<circ> ex" sg]
    by (intro layout_spec_wf) (simp_all only: spec_of_fst)
  moreover have "length (param_kinds ?s) = length (sg_params sg)"
    using layout_size [of "ev \<circ> ex" sg] by (simp add: layout_spec_def Let_def)
  ultimately show ?thesis
    using instr_def_signature [OF sg(1) small defaults_typed_signature, of matches tc ev ex name cap] assms(3) sg(3)
      layout_indices [of name "ev \<circ> ex" sg] by auto
qed

theorem def_runs_to_specification_witness:
  "\<exists>types s. instr_def (\<lambda>(t::unit) v. True) ''f'' (fst (write_def (compile_params (\<lambda>_. False) id id demo_params)))
        (map id (snd (write_def (compile_params (\<lambda>_. False) id id demo_params)))) = Ok (types, s) \<and>
      spec_wf s \<and> indices s = d_indices demo_params \<and> length (param_kinds s) = length (d_params demo_params)"
  by (rule def_runs_to_specification [OF demo_def_length demo_unpack])
    (simp add: defaults_typed_def demo_params_def)

text \<open>The \<open>unwrap\<close> in \<open>to_ty_params\<close> never fails for a validated parameter list: the typechecker's parameters
  exist, have the types of the parameters in order and the same indices, and splitting them by these
  indices never reads out of range and loses nothing.\<close>

theorem to_ty_params_total:
  assumes "length ps < 2 ^ 31" and "def_unpack ps = Ok d"
  shows "\<exists>s g. to_ty_params any (compile_params cap tc ex d) = Ok s \<and> ps_indices s = d_indices d \<and>
    map tp_ty (ps_params s) = map (pc_ty any) (c_params (compile_params cap tc ex d)) \<and>
    param_spec_split s = Ok g \<and>
    ps_params s = sp_pos_only g @ sp_pos_or_named g @ opt_list (sp_args g) @ sp_named_only g @ opt_list (sp_kwargs g)"
proof -
  obtain sg where sg: "sg_valid sg" "ps = render sg" "d = sg_def_params sg"
    using assms by (auto simp: def_unpack_Ok)
  have small: "length (sg_params sg) < 2 ^ 31" using length_sg_params [of sg] assms(1) sg(2) by simp
  from to_ty_params_signature [OF sg(1) small, of any cap tc ex] obtain g where
    "to_ty_params any (compile_params cap tc ex d) = Ok (ty_layout g)" "ps_indices (ty_layout g) = d_indices d"
    "map tp_ty (ps_params (ty_layout g)) = map (pc_ty any) (c_params (compile_params cap tc ex d))"
    "length (ps_params (ty_layout g)) < 2 ^ 32" unfolding sg(3) by auto
  moreover have "ps_params (ty_layout g) =
      sp_pos_only g @ sp_pos_or_named g @ opt_list (sp_args g) @ sp_named_only g @ opt_list (sp_kwargs g)"
    by (simp add: ty_layout_def Let_def)
  ultimately show ?thesis using param_spec_split_layout [of g] by blast
qed

theorem to_ty_params_total_witness:
  "\<exists>s g. to_ty_params () (compile_params (\<lambda>_. False) id (id :: nat \<Rightarrow> nat) demo_params) = Ok s \<and> ps_indices s = d_indices demo_params \<and>
    map tp_ty (ps_params s) = map (pc_ty ()) (c_params (compile_params (\<lambda>_. False) id (id :: nat \<Rightarrow> nat) demo_params)) \<and>
    param_spec_split s = Ok g \<and>
    ps_params s = sp_pos_only g @ sp_pos_or_named g @ opt_list (sp_args g) @ sp_named_only g @ opt_list (sp_kwargs g)"
  by (rule to_ty_params_total [OF demo_def_length demo_unpack])

end
