(* ===== verification/Call_Args.thy ===== *)
theory Call_Args
  imports Rust_Int
begin

text \<open>
  Arguments of a call expression: \<^verbatim>\<open>starlark_syntax/src/syntax/call.rs\<close>. \<open>CallArgsUnpack::unpack\<close> walks over the
  arguments with a stage that only grows, counts the positional and named ones and cuts the list into its
  four parts. A span is the position of its argument in the list; the type \<open>'e\<close> of expressions is a parameter.
\<close>

datatype 'e argument = Positional 'e | Named string 'e | ArgsArg 'e | KwArgsArg 'e

datatype args_stage = StagePositional | StageNamed | StageArgs | StageKwargs

fun stage_rank :: "args_stage \<Rightarrow> nat" where
  "stage_rank StagePositional = 0"
| "stage_rank StageNamed = 1"
| "stage_rank StageArgs = 2"
| "stage_rank StageKwargs = 3"

datatype call_error =
    PositionalAfterNonPositionalArg nat
  | NamedAfterArgsOrKwargs nat
  | RepeatedNamedArgument nat
  | ArgsAfterAnotherArgsOrKwargs nat
  | MultipleArgsArgInternal nat
  | MultipleKwargsArg nat
  | MultipleKwargsArgInternal nat
  | ArgumentCountMismatch

record 'e call_state =
  cs_stage :: args_stage
  cs_named_args :: "string list"
  cs_num_pos :: nat
  cs_num_named :: nat
  cs_star :: "'e argument option"
  cs_star_star :: "'e argument option"

record 'e call_args_unpack =
  ca_pos :: "'e argument list"
  ca_named :: "'e argument list"
  ca_star :: "'e argument option"
  ca_star_star :: "'e argument option"

definition call_step :: "nat \<Rightarrow> 'e argument \<Rightarrow> 'e call_state \<Rightarrow> (call_error, 'e call_state) outcome" where
  "call_step i arg c =
     (case arg of
        Positional _ \<Rightarrow>
          if cs_stage c \<noteq> StagePositional then Err (PositionalAfterNonPositionalArg i)
          else Ok (c\<lparr>cs_num_pos := cs_num_pos c + 1\<rparr>)
      | Named n _ \<Rightarrow>
          if stage_rank (cs_stage c) > stage_rank StageNamed then Err (NamedAfterArgsOrKwargs i)
          else if n \<in> set (cs_named_args c) then Err (RepeatedNamedArgument i)
          else Ok (c\<lparr>cs_named_args := n # cs_named_args c, cs_stage := StageNamed, cs_num_named := cs_num_named c + 1\<rparr>)
      | ArgsArg _ \<Rightarrow>
          if stage_rank (cs_stage c) > stage_rank StageNamed then Err (ArgsAfterAnotherArgsOrKwargs i)
          else if cs_star c \<noteq> None then Err (MultipleArgsArgInternal i)
          else Ok (c\<lparr>cs_stage := StageArgs, cs_star := Some arg\<rparr>)
      | KwArgsArg _ \<Rightarrow>
          if cs_stage c = StageKwargs then Err (MultipleKwargsArg i)
          else if cs_star_star c \<noteq> None then Err (MultipleKwargsArgInternal i)
          else Ok (c\<lparr>cs_stage := StageKwargs, cs_star_star := Some arg\<rparr>))"

fun call_loop :: "nat \<Rightarrow> 'e argument list \<Rightarrow> 'e call_state \<Rightarrow> (call_error, 'e call_state) outcome" where
  "call_loop i [] c = Ok c"
| "call_loop i (a # as) c = bind_outcome (call_step i a c) (call_loop (i + 1) as)"

definition call_init :: "'e call_state" where
  "call_init = \<lparr>cs_stage = StagePositional, cs_named_args = [], cs_num_pos = 0, cs_num_named = 0,
     cs_star = None, cs_star_star = None\<rparr>"

definition call_unpack :: "'e argument list \<Rightarrow> (call_error, 'e call_args_unpack) outcome" where
  "call_unpack as =
     bind_outcome (call_loop 0 as call_init) (\<lambda>c.
     if cs_num_pos c + cs_num_named c + of_bool (cs_star c \<noteq> None) + of_bool (cs_star_star c \<noteq> None) \<noteq> length as
     then Err ArgumentCountMismatch
     else Ok \<lparr>ca_pos = take (cs_num_pos c) as,
              ca_named = take (cs_num_named c) (drop (cs_num_pos c) as),
              ca_star = cs_star c, ca_star_star = cs_star_star c\<rparr>)"

subsection \<open>The grammar of arguments\<close>

fun opt_args :: "('e \<Rightarrow> 'e argument) \<Rightarrow> 'e option \<Rightarrow> 'e argument list" where
  "opt_args f None = []"
| "opt_args f (Some e) = [f e]"

abbreviation named_arg :: "string \<times> 'e \<Rightarrow> 'e argument" where
  "named_arg x \<equiv> Named (fst x) (snd x)"

lemma loop_positional:
  assumes "cs_stage c = StagePositional"
  shows "call_loop i (map Positional es @ rest) c = call_loop (i + length es) rest (c\<lparr>cs_num_pos := cs_num_pos c + length es\<rparr>)"
  using assms by (induction es arbitrary: i c) (simp_all add: call_step_def)

lemma loop_positional_late:
  assumes "stage_rank (cs_stage c) > 0"
  shows "call_loop i (Positional e # rest) c \<noteq> Ok c'"
  using assms by (cases "cs_stage c") (simp_all add: call_step_def)

lemma loop_named:
  assumes "stage_rank (cs_stage c) \<le> 1"
  shows "call_loop i (map named_arg ns @ rest) c = Ok c' \<longleftrightarrow>
    distinct (map fst ns) \<and> set (map fst ns) \<inter> set (cs_named_args c) = {} \<and>
    call_loop (i + length ns) rest (c\<lparr>cs_named_args := rev (map fst ns) @ cs_named_args c,
      cs_stage := (if ns = [] then cs_stage c else StageNamed), cs_num_named := cs_num_named c + length ns\<rparr>) = Ok c'"
  using assms
proof (induction ns arbitrary: i c)
  case (Cons n ns)
  let ?c = "c\<lparr>cs_named_args := fst n # cs_named_args c, cs_stage := StageNamed, cs_num_named := cs_num_named c + 1\<rparr>"
  have rank: "\<not> stage_rank (cs_stage c) > stage_rank StageNamed" using Cons.prems by simp
  have "call_loop i (map named_arg (n # ns) @ rest) c = Ok c' \<longleftrightarrow>
      fst n \<notin> set (cs_named_args c) \<and> call_loop (Suc i) (map named_arg ns @ rest) ?c = Ok c'"
    using rank by (auto simp: call_step_def)
  then show ?case using Cons.IH [of ?c "Suc i"] by auto
qed simp

lemma loop_kwargs_end:
  assumes "cs_stage c = StageKwargs"
  shows "call_loop i rest c = Ok c' \<longleftrightarrow> rest = [] \<and> c' = c"
proof (cases rest)
  case (Cons a as)
  then show ?thesis using assms by (cases a) (auto simp: call_step_def)
qed auto

lemma loop_kwargs:
  assumes "cs_stage c \<noteq> StageKwargs" "cs_star_star c = None"
  shows "call_loop i (KwArgsArg e # rest) c = Ok c' \<longleftrightarrow>
    rest = [] \<and> c' = c\<lparr>cs_stage := StageKwargs, cs_star_star := Some (KwArgsArg e)\<rparr>"
  using assms by (simp add: call_step_def loop_kwargs_end)

text \<open>What is left after the positional and named arguments.\<close>

definition after_stars :: "'e option \<Rightarrow> 'e option \<Rightarrow> 'e call_state \<Rightarrow> 'e call_state" where
  "after_stars st ss c =
     (let c = (case st of None \<Rightarrow> c | Some e \<Rightarrow> c\<lparr>cs_stage := StageArgs, cs_star := Some (ArgsArg e)\<rparr>)
      in case ss of None \<Rightarrow> c | Some e \<Rightarrow> c\<lparr>cs_stage := StageKwargs, cs_star_star := Some (KwArgsArg e)\<rparr>)"

lemma loop_after_args:
  assumes "cs_stage c = StageArgs" "cs_star_star c = None"
  shows "call_loop i rest c = Ok c' \<longleftrightarrow> (\<exists>ss. rest = opt_args KwArgsArg ss \<and> c' = after_stars None ss c)"
proof (cases rest)
  case Nil
  have "[] = opt_args KwArgsArg ss \<longleftrightarrow> ss = None" for ss :: "'a option" by (cases ss) auto
  with Nil show ?thesis by (auto simp: after_stars_def)
next
  case (Cons a as)
  show ?thesis
  proof (cases "\<exists>e. a = KwArgsArg e")
    case True
    then obtain e where a: "a = KwArgsArg e" by blast
    have "rest = opt_args KwArgsArg ss \<longleftrightarrow> ss = Some e \<and> as = []" for ss by (cases ss) (auto simp: Cons a)
    then show ?thesis using assms unfolding Cons a
      by (subst loop_kwargs) (auto simp: after_stars_def)
  next
    case False
    then have "call_loop i rest c \<noteq> Ok c'" using assms Cons by (cases a) (auto simp: call_step_def)
    moreover have "rest \<noteq> opt_args KwArgsArg ss" for ss using False Cons by (cases ss) auto
    ultimately show ?thesis by blast
  qed
qed

lemma loop_stars:
  assumes "stage_rank (cs_stage c) \<le> 1" "cs_star c = None" "cs_star_star c = None"
    and "\<forall>a. rest \<noteq> [] \<and> a = hd rest \<longrightarrow> (\<forall>n e. a \<noteq> Named n e) \<and> (\<forall>e. a = Positional e \<longrightarrow> stage_rank (cs_stage c) = 1)"
  shows "call_loop i rest c = Ok c' \<longleftrightarrow>
    (\<exists>st ss. rest = opt_args ArgsArg st @ opt_args KwArgsArg ss \<and> c' = after_stars st ss c)" (is "_ \<longleftrightarrow> ?R")
proof -
  have nil: "([] = opt_args ArgsArg st @ opt_args KwArgsArg ss) \<longleftrightarrow> st = None \<and> ss = None" for st ss :: "'a option"
    by (cases st; cases ss) auto
  have args: "(ArgsArg e # as = opt_args ArgsArg st @ opt_args KwArgsArg ss) \<longleftrightarrow> st = Some e \<and> as = opt_args KwArgsArg ss"
    for e as and st ss :: "'a option"
    by (cases st; cases ss) auto
  have kw: "(KwArgsArg e # as = opt_args ArgsArg st @ opt_args KwArgsArg ss) \<longleftrightarrow> st = None \<and> ss = Some e \<and> as = []"
    for e as and st ss :: "'a option"
    by (cases st; cases ss) auto
  have rank: "cs_stage c \<noteq> StageKwargs" "\<not> stage_rank (cs_stage c) > stage_rank StageNamed"
    using assms(1) by (cases "cs_stage c"; simp)+
  show ?thesis
  proof (cases rest)
    case Nil
    show ?thesis unfolding Nil nil by (auto simp: after_stars_def)
  next
    case (Cons a as)
    show ?thesis
    proof (cases a)
      case (Positional e)
      with Cons assms(4) have "call_loop i rest c \<noteq> Ok c'" using loop_positional_late [of c i e as c'] by simp
      moreover have "\<not> ?R"
      proof
        assume ?R
        then obtain st ss where "rest = opt_args ArgsArg st @ opt_args KwArgsArg ss" by blast
        with Cons Positional show False by (cases st; cases ss) auto
      qed
      ultimately show ?thesis by blast
    next
      case (Named n e)
      with Cons assms(4) show ?thesis by simp
    next
      case (ArgsArg e)
      let ?c = "c\<lparr>cs_stage := StageArgs, cs_star := Some (ArgsArg e)\<rparr>"
      have "call_loop i rest c = Ok c' \<longleftrightarrow> call_loop (i + 1) as ?c = Ok c'"
        using Cons ArgsArg rank assms(2) by (simp add: call_step_def)
      also have "\<dots> \<longleftrightarrow> (\<exists>ss. as = opt_args KwArgsArg ss \<and> c' = after_stars None ss ?c)"
        using assms(3) by (intro loop_after_args) simp_all
      also have "\<dots> \<longleftrightarrow> ?R" unfolding Cons ArgsArg args by (auto simp: after_stars_def)
      finally show ?thesis .
    next
      case (KwArgsArg e)
      show ?thesis unfolding Cons KwArgsArg kw loop_kwargs [OF rank(1) assms(3)] by (auto simp: after_stars_def)
    qed
  qed
qed

lemma split_arguments:
  obtains es ns rest where "as = map Positional es @ map named_arg ns @ rest"
    and "\<forall>a. rest \<noteq> [] \<and> a = hd rest \<longrightarrow> (\<forall>n e. a \<noteq> Named n e) \<and> (\<forall>e. a = Positional e \<longrightarrow> ns \<noteq> [])"
proof -
  have span: "\<exists>xs rest. as = map f xs @ rest \<and> (rest = [] \<or> hd rest \<notin> range f)" for f :: "'b \<Rightarrow> 'a argument" and as
  proof (induction as)
    case (Cons a as)
    then obtain xs rest where *: "as = map f xs @ rest" "rest = [] \<or> hd rest \<notin> range f" by blast
    show ?case
    proof (cases "a \<in> range f")
      case True
      then obtain x where "a = f x" by blast
      with * show ?thesis by (intro exI [of _ "x # xs"] exI [of _ rest]) simp
    next
      case False
      then show ?thesis by (intro exI [of _ "[]"] exI [of _ "a # as"]) simp
    qed
  qed simp
  obtain es r1 where 1: "as = map Positional es @ r1" "r1 = [] \<or> hd r1 \<notin> range Positional" using span by blast
  obtain ns rest where 2: "r1 = map named_arg ns @ rest" "rest = [] \<or> hd rest \<notin> range named_arg" using span by blast
  have "hd rest \<noteq> Named n e" if "rest \<noteq> []" for n e using 2(2) that image_eqI [of "Named n e" named_arg "(n, e)" UNIV] by auto
  moreover have "ns \<noteq> []" if "rest \<noteq> []" "hd rest = Positional e" for e using 1(2) 2(1) that by auto
  ultimately show thesis using 1(1) 2(1) by (intro that [of es ns rest]) auto
qed

lemma call_loop_Ok:
  "call_loop 0 as call_init = Ok c \<longleftrightarrow>
    (\<exists>es ns st ss. distinct (map fst ns) \<and>
      as = map Positional es @ map named_arg ns @ opt_args ArgsArg st @ opt_args KwArgsArg ss \<and>
      c = after_stars st ss (call_init\<lparr>cs_num_pos := length es, cs_named_args := rev (map fst ns),
        cs_stage := (if ns = [] then StagePositional else StageNamed), cs_num_named := length ns\<rparr>))"
  (is "?L as \<longleftrightarrow> (\<exists>es ns st ss. ?S es ns st ss as)")
proof -
  let ?c = "\<lambda>es ns. call_init\<lparr>cs_num_pos := length es, cs_named_args := rev (map fst ns),
      cs_stage := (if ns = [] then StagePositional else StageNamed), cs_num_named := length ns\<rparr>"
  have run: "?L (map Positional es @ map named_arg ns @ rest) \<longleftrightarrow> distinct (map fst ns) \<and>
      call_loop (length es + length ns) rest (?c es ns) = Ok c" for es :: "'a list" and ns rest
    by (subst loop_positional) (auto simp: call_init_def loop_named)
  show ?thesis
  proof
    assume ok: "?L as"
    obtain es ns rest where as: "as = map Positional es @ map named_arg ns @ rest"
      and rest: "\<forall>a. rest \<noteq> [] \<and> a = hd rest \<longrightarrow> (\<forall>n e. a \<noteq> Named n e) \<and> (\<forall>e. a = Positional e \<longrightarrow> ns \<noteq> [])"
      by (rule split_arguments)
    from ok have d: "distinct (map fst ns)" and l: "call_loop (length es + length ns) rest (?c es ns) = Ok c"
      unfolding as run by blast+
    have "\<exists>st ss. rest = opt_args ArgsArg st @ opt_args KwArgsArg ss \<and> c = after_stars st ss (?c es ns)"
      using l rest by (subst (asm) loop_stars) (auto simp: call_init_def)
    with d as show "\<exists>es ns st ss. ?S es ns st ss as" by blast
  next
    assume "\<exists>es ns st ss. ?S es ns st ss as"
    then obtain es ns st ss where s: "?S es ns st ss as" by blast
    have "call_loop (length es + length ns) (opt_args ArgsArg st @ opt_args KwArgsArg ss) (?c es ns) = Ok c"
      using s by (cases st; cases ss) (auto simp: call_init_def call_step_def after_stars_def)
    with s show "?L as" using run by blast
  qed
qed

definition call_parts :: "'e list \<Rightarrow> (string \<times> 'e) list \<Rightarrow> 'e option \<Rightarrow> 'e option \<Rightarrow> 'e call_args_unpack" where
  "call_parts es ns st ss = \<lparr>ca_pos = map Positional es, ca_named = map named_arg ns,
     ca_star = map_option ArgsArg st, ca_star_star = map_option KwArgsArg ss\<rparr>"

lemma call_unpack_Ok:
  "call_unpack as = Ok r \<longleftrightarrow>
    (\<exists>es ns st ss. distinct (map fst ns) \<and>
      as = map Positional es @ map named_arg ns @ opt_args ArgsArg st @ opt_args KwArgsArg ss \<and>
      r = call_parts es ns st ss)"
proof -
  have after: "cs_num_pos (after_stars st ss c) = cs_num_pos c" "cs_num_named (after_stars st ss c) = cs_num_named c"
    "cs_star c = None \<Longrightarrow> cs_star (after_stars st ss c) = map_option ArgsArg st"
    "cs_star_star c = None \<Longrightarrow> cs_star_star (after_stars st ss c) = map_option KwArgsArg ss" for st ss and c :: "'a call_state"
    by (cases st; cases ss; simp add: after_stars_def)+
  have len: "length (opt_args f x) = of_bool (map_option f x \<noteq> None)" for f and x :: "'a option" by (cases x) auto
  have fin: "cs_num_pos c + cs_num_named c + of_bool (cs_star c \<noteq> None) + of_bool (cs_star_star c \<noteq> None) = length as \<and>
      \<lparr>ca_pos = take (cs_num_pos c) as, ca_named = take (cs_num_named c) (drop (cs_num_pos c) as),
        ca_star = cs_star c, ca_star_star = cs_star_star c\<rparr> = call_parts es ns st ss"
    if "as = map Positional es @ map named_arg ns @ opt_args ArgsArg st @ opt_args KwArgsArg ss"
      "c = after_stars st ss (call_init\<lparr>cs_num_pos := length es, cs_named_args := rev (map fst ns),
        cs_stage := (if ns = [] then StagePositional else StageNamed), cs_num_named := length ns\<rparr>)"
    for c as es ns and st ss :: "'a option"
    unfolding that by (simp add: after call_init_def call_parts_def len)
  have unp: "call_unpack as = Ok r \<longleftrightarrow> (\<exists>c. call_loop 0 as call_init = Ok c \<and>
      cs_num_pos c + cs_num_named c + of_bool (cs_star c \<noteq> None) + of_bool (cs_star_star c \<noteq> None) = length as \<and>
      r = \<lparr>ca_pos = take (cs_num_pos c) as, ca_named = take (cs_num_named c) (drop (cs_num_pos c) as),
        ca_star = cs_star c, ca_star_star = cs_star_star c\<rparr>)"
    unfolding call_unpack_def bind_outcome_Ok_iff by auto
  have gen: "(\<exists>c. call_loop 0 as call_init = Ok c \<and> P c) \<longleftrightarrow>
      (\<exists>es ns st ss. distinct (map fst ns) \<and>
        as = map Positional es @ map named_arg ns @ opt_args ArgsArg st @ opt_args KwArgsArg ss \<and> Q es ns st ss)"
    if "\<And>c es ns st ss. as = map Positional es @ map named_arg ns @ opt_args ArgsArg st @ opt_args KwArgsArg ss \<Longrightarrow>
      c = after_stars st ss (call_init\<lparr>cs_num_pos := length es, cs_named_args := rev (map fst ns),
        cs_stage := (if ns = [] then StagePositional else StageNamed), cs_num_named := length ns\<rparr>) \<Longrightarrow> P c = Q es ns st ss"
    for P Q using that unfolding call_loop_Ok by (metis (no_types, lifting))
  show ?thesis unfolding unp by (rule gen) (drule (1) fin, auto)
qed

subsection \<open>The internal errors cannot happen\<close>

definition call_inv :: "nat \<Rightarrow> 'e call_state \<Rightarrow> bool" where
  "call_inv i c \<longleftrightarrow> (cs_star c \<noteq> None \<longrightarrow> stage_rank (cs_stage c) > 1) \<and> (cs_star_star c \<noteq> None \<longrightarrow> cs_stage c = StageKwargs) \<and>
     cs_num_pos c + cs_num_named c + of_bool (cs_star c \<noteq> None) + of_bool (cs_star_star c \<noteq> None) = i"

fun is_internal :: "call_error \<Rightarrow> bool" where
  "is_internal (MultipleArgsArgInternal _) = True"
| "is_internal (MultipleKwargsArgInternal _) = True"
| "is_internal ArgumentCountMismatch = True"
| "is_internal _ = False"

lemma call_step_inv:
  assumes "call_inv i c"
  shows "case call_step i a c of Ok c' \<Rightarrow> call_inv (Suc i) c' | Err e \<Rightarrow> \<not> is_internal e | Panic \<Rightarrow> False"
  using assms by (cases a; cases "cs_stage c") (auto simp: call_step_def call_inv_def)

lemma call_loop_inv:
  assumes "call_inv i c"
  shows "case call_loop i as c of Ok c' \<Rightarrow> call_inv (i + length as) c' | Err e \<Rightarrow> \<not> is_internal e | Panic \<Rightarrow> False"
  using assms
proof (induction as arbitrary: i c)
  case (Cons a as)
  note step = call_step_inv [OF Cons.prems, of a]
  show ?case
  proof (cases "call_step i a c")
    case (Ok c')
    with step have "call_inv (Suc i) c'" by simp
    from Cons.IH [OF this] Ok show ?thesis by (cases "call_loop (Suc i) as c'") simp_all
  qed (use step in simp_all)
qed simp

text \<open>C18. Validation of the arguments of a call accepts exactly the lists of positional arguments, named
  arguments with distinct names, at most one \<open>*args\<close> and at most one \<open>**kwargs\<close>, in this order, and cuts the list into
  these parts. The errors the code reports as internal ones never occur, and nothing panics.\<close>

theorem call_unpack_accepts_grammar:
  "(call_unpack as = Ok r \<longleftrightarrow>
    (\<exists>es ns st ss. distinct (map fst ns) \<and>
      as = map Positional es @ map (\<lambda>x. Named (fst x) (snd x)) ns @ opt_args ArgsArg st @ opt_args KwArgsArg ss \<and>
      r = call_parts es ns st ss)) \<and>
   call_unpack as \<noteq> Panic \<and> (\<nexists>e. call_unpack as = Err e \<and> is_internal e)"
proof -
  have "call_inv 0 call_init" by (simp add: call_inv_def call_init_def)
  from call_loop_inv [OF this, of as] have "call_unpack as \<noteq> Panic \<and> (\<nexists>e. call_unpack as = Err e \<and> is_internal e)"
    by (cases "call_loop 0 as call_init") (auto simp: call_unpack_def call_inv_def)
  with call_unpack_Ok show ?thesis by blast
qed

end
