(* ===== verification/Utf8.thy ===== *)
theory Utf8
  imports Rust_Int
begin

text \<open>
  Strings of Rust: UTF-8. A \<open>str\<close> is its list of bytes; \<open>encode\<close> is \<open>char::encode_utf8\<close>, \<open>next_char\<close> is \<open>Chars::next\<close> and
  \<open>chars\<close> the list that the iterator yields. A character is its code point.
\<close>

definition is_scalar :: "nat \<Rightarrow> bool" where
  "is_scalar c \<longleftrightarrow> c < 0x110000 \<and> \<not> (0xD800 \<le> c \<and> c < 0xE000)"

text \<open>\<open>char::from_u32\<close>.\<close>

definition char_from_u32 :: "nat \<Rightarrow> nat option" where
  "char_from_u32 c = (if is_scalar c then Some c else None)"

abbreviation byte :: "char \<Rightarrow> nat" where
  "byte c \<equiv> of_char c"

definition encode :: "nat \<Rightarrow> string" where
  "encode c =
     (if c < 0x80 then [char_of c]
      else if c < 0x800 then [char_of (0xC0 + c div 64), char_of (0x80 + c mod 64)]
      else if c < 0x10000 then [char_of (0xE0 + c div 4096), char_of (0x80 + c div 64 mod 64), char_of (0x80 + c mod 64)]
      else [char_of (0xF0 + c div 262144), char_of (0x80 + c div 4096 mod 64), char_of (0x80 + c div 64 mod 64),
            char_of (0x80 + c mod 64)])"

definition utf8 :: "nat list \<Rightarrow> string" where
  "utf8 cs = concat (map encode cs)"

definition cont :: "string \<Rightarrow> nat \<Rightarrow> nat" where
  "cont s i = byte (s ! i) mod 64"

definition char_width :: "char \<Rightarrow> nat" where
  "char_width b = (if byte b < 0xC0 then 1 else if byte b < 0xE0 then 2 else if byte b < 0xF0 then 3 else 4)"

definition decode :: "string \<Rightarrow> nat" where
  "decode s =
     (let b = byte (s ! 0)
      in if b < 0xC0 then b
         else if b < 0xE0 then b mod 32 * 64 + cont s 1
         else if b < 0xF0 then b mod 16 * 4096 + cont s 1 * 64 + cont s 2
         else b mod 8 * 262144 + cont s 1 * 4096 + cont s 2 * 64 + cont s 3)"

definition next_char :: "string \<Rightarrow> (nat \<times> string) option" where
  "next_char s = (case s of [] \<Rightarrow> None | b # _ \<Rightarrow> Some (decode s, drop (char_width b) s))"

lemma char_width_pos [simp]: "0 < char_width b"
  by (simp add: char_width_def)

lemma next_char_Nil [simp]: "next_char [] = None"
  by (simp add: next_char_def)

lemma next_char_None [simp]: "next_char s = None \<longleftrightarrow> s = []"
  by (simp add: next_char_def split: list.split)

lemma next_char_shorter: "next_char s = Some (c, r) \<Longrightarrow> length r < length s"
  by (auto simp: next_char_def split: list.splits)

lemma next_char_suffix: "next_char s = Some (c, r) \<Longrightarrow> \<exists>n. r = drop n s"
  by (auto simp: next_char_def split: list.splits)

function chars :: "string \<Rightarrow> nat list" where
  "chars s = (case next_char s of None \<Rightarrow> [] | Some (c, r) \<Rightarrow> c # chars r)"
  by pat_completeness auto
termination by (relation "measure length") (auto dest: next_char_shorter)

declare chars.simps [simp del]

lemma byte_char_of: "n < 256 \<Longrightarrow> byte (char_of n) = n"
  by simp

lemma eq_char_of_iff: "c = char_of n \<longleftrightarrow> byte c = take_bit 8 (n :: nat)"
  using char_of_eq_iff [of n c] by (metis)

lemma ascii_take_bit: "c < 128 \<Longrightarrow> take_bit 8 c = (c :: nat)"
  by (simp add: take_bit_eq_mod)

lemma scalar_lt: "is_scalar c \<Longrightarrow> c < 0x110000"
  by (simp add: is_scalar_def)

lemma lead_mod: "x < (k::nat) \<Longrightarrow> (n * k + x) mod k = x"
  by simp

lemma cont_mod: "(128 + x mod 64) mod 64 = x mod (64::nat)"
  using lead_mod [of "x mod 64" 64 2] by simp

lemma cont_byte: "(128 + x mod 64) mod 256 = 128 + x mod (64::nat)"
  by (rule mod_less) (use mod_less_divisor [of 64 x] in linarith)

lemma split_4096: "(c::nat) div 4096 * 4096 + c div 64 mod 64 * 64 + c mod 64 = c"
proof -
  have "c div 4096 = c div 64 div 64" by (simp add: div_mult2_eq [symmetric])
  then have "c div 4096 * 64 + c div 64 mod 64 = c div 64" by simp
  then have "(c div 4096 * 64 + c div 64 mod 64) * 64 + c mod 64 = c" by simp
  then show ?thesis by (simp add: distrib_right)
qed

lemma split_262144: "(c::nat) div 262144 * 262144 + c div 4096 mod 64 * 4096 + c div 64 mod 64 * 64 + c mod 64 = c"
proof -
  have "c div 262144 = c div 4096 div 64" by (simp add: div_mult2_eq [symmetric])
  then have "c div 262144 * 64 + c div 4096 mod 64 = c div 4096" by simp
  then have "(c div 262144 * 64 + c div 4096 mod 64) * 4096 + c div 64 mod 64 * 64 + c mod 64 = c"
    using split_4096 [of c] by simp
  then show ?thesis by (simp add: distrib_right)
qed

lemma next_char_encode [simp]:
  assumes "is_scalar c"
  shows "next_char (encode c @ r) = Some (c, r)"
proof -
  consider "c < 0x80" | "0x80 \<le> c" "c < 0x800" | "0x800 \<le> c" "c < 0x10000" | "0x10000 \<le> c" "c < 0x110000"
    using scalar_lt [OF assms] by linarith
  then show ?thesis
  proof cases
    case 1
    then show ?thesis by (simp add: encode_def next_char_def decode_def char_width_def)
  next
    case 2
    have b: "c div 64 < 32" using 2 by auto
    have "(192 + c div 64) mod 32 = c div 64" using lead_mod [OF b, of 6] by simp
    with 2 b show ?thesis
      by (simp add: encode_def next_char_def decode_def char_width_def cont_def byte_char_of cont_mod cont_byte)
  next
    case 3
    have b: "c div 4096 < 16" using 3 by auto
    have "(224 + c div 4096) mod 16 = c div 4096" using lead_mod [OF b, of 14] by simp
    with 3 b split_4096 [of c] show ?thesis
      by (simp add: encode_def next_char_def decode_def char_width_def cont_def byte_char_of cont_mod cont_byte)
  next
    case 4
    have b: "c div 262144 < 5" using 4 by auto
    have "(240 + c div 262144) mod 8 = c div 262144" using lead_mod [of "c div 262144" 8 30] b by simp
    with 4 b split_262144 [of c] show ?thesis
      by (simp add: encode_def next_char_def decode_def char_width_def cont_def byte_char_of cont_mod cont_byte)
  qed
qed

lemma encode_nonempty [simp]: "encode c \<noteq> []"
  by (simp add: encode_def)

lemma utf8_simps [simp]: "utf8 [] = []" "utf8 (c # cs) = encode c @ utf8 cs" "utf8 (cs @ ds) = utf8 cs @ utf8 ds"
  by (simp_all add: utf8_def)

lemma chars_utf8: "list_all is_scalar cs \<Longrightarrow> chars (utf8 cs) = cs"
proof (induction cs)
  case Nil
  then show ?case by (subst chars.simps) simp
next
  case (Cons c cs)
  then show ?case by (subst chars.simps) simp
qed

lemma encode_ascii [simp]: "c < 0x80 \<Longrightarrow> encode c = [char_of c]"
  by (simp add: encode_def)

lemma ascii_scalar [simp]: "c < 0x80 \<Longrightarrow> is_scalar c"
  by (simp add: is_scalar_def)

lemma next_char_ascii [simp]: "byte b < 0x80 \<Longrightarrow> next_char (b # r) = Some (byte b, r)"
  by (simp add: next_char_def decode_def char_width_def)

lemma encode_high: "is_scalar c \<Longrightarrow> 0x80 \<le> c \<Longrightarrow> \<forall>b\<in>set (encode c). 0x80 \<le> byte b"
  using scalar_lt [of c] by (auto simp: encode_def byte_char_of)

lemma utf8_head_ascii:
  assumes "utf8 cs = b # r" "list_all is_scalar cs" "byte b < 0x80"
  shows "\<exists>ds. cs = byte b # ds \<and> r = utf8 ds"
proof (cases cs)
  case (Cons c ds)
  with assms encode_high [of c] have "c < 0x80" by (cases "encode c") (auto simp: not_less [symmetric])
  with Cons assms(1) show ?thesis by auto
qed (use assms in simp)

subsection \<open>Boundaries of characters\<close>

text \<open>
  The bytes of a character start with one that is no continuation byte and go on with continuation bytes.
  \<open>&s[a..b]\<close> panics when the range is not inside the string or an end of it is not on a boundary of characters.
\<close>

definition continuation :: "char \<Rightarrow> bool" where
  "continuation b \<longleftrightarrow> 0x80 \<le> byte b \<and> byte b < 0xC0"

definition is_char_boundary :: "string \<Rightarrow> nat \<Rightarrow> bool" where
  "is_char_boundary s i \<longleftrightarrow> i = 0 \<or> i = length s \<or> i < length s \<and> \<not> continuation (s ! i)"

definition str_index :: "string \<Rightarrow> nat \<Rightarrow> nat \<Rightarrow> ('e, string) outcome" where
  "str_index s a b = (if a \<le> b \<and> is_char_boundary s a \<and> is_char_boundary s b then Ok (take (b - a) (drop a s)) else Panic)"

lemma encode_shape:
  assumes "is_scalar c"
  shows "\<not> continuation (encode c ! 0) \<and> list_all continuation (tl (encode c))"
proof -
  have "x mod 64 < (64 :: nat)" for x by simp
  moreover have "c div 262144 < 5" "c < 65536 \<Longrightarrow> c div 4096 < 16" "c < 2048 \<Longrightarrow> c div 64 < 32"
    using scalar_lt [OF assms] by auto
  ultimately show ?thesis by (auto simp: encode_def continuation_def byte_char_of cont_byte)
qed

lemma boundary_le: "is_char_boundary s i \<Longrightarrow> i \<le> length s"
  by (auto simp: is_char_boundary_def)

lemma boundary_ascii: "i < length s \<Longrightarrow> byte (s ! i) < 0x80 \<Longrightarrow> is_char_boundary s i"
  by (simp add: is_char_boundary_def continuation_def)

text \<open>In UTF-8 no continuation byte follows an ASCII character, so that both sides of an ASCII character are boundaries.\<close>

definition ascii_cuts :: "string \<Rightarrow> bool" where
  "ascii_cuts s \<longleftrightarrow> (\<forall>i. Suc i < length s \<longrightarrow> byte (s ! i) < 0x80 \<longrightarrow> \<not> continuation (s ! Suc i))"

lemma boundary_after_ascii: "ascii_cuts s \<Longrightarrow> i < length s \<Longrightarrow> byte (s ! i) < 0x80 \<Longrightarrow> is_char_boundary s (Suc i)"
  by (auto simp: is_char_boundary_def ascii_cuts_def)

lemma ascii_cuts_Cons: "ascii_cuts (b # s) \<longleftrightarrow> (s \<noteq> [] \<longrightarrow> byte b < 0x80 \<longrightarrow> \<not> continuation (hd s)) \<and> ascii_cuts s"
proof -
  have "(\<forall>i. P i) \<longleftrightarrow> P 0 \<and> (\<forall>i. P (Suc i))" for P :: "nat \<Rightarrow> bool" by (metis nat.exhaust)
  from this [of "\<lambda>i. Suc i < length (b # s) \<longrightarrow> byte ((b # s) ! i) < 0x80 \<longrightarrow> \<not> continuation ((b # s) ! Suc i)"]
  show ?thesis unfolding ascii_cuts_def by (simp add: hd_conv_nth)
qed

lemma ascii_cuts_high: "\<forall>b\<in>set p. 0x80 \<le> byte b \<Longrightarrow> ascii_cuts s \<Longrightarrow> ascii_cuts (p @ s)"
  by (induction p) (auto simp: ascii_cuts_Cons)

lemma ascii_cuts_utf8: "list_all is_scalar cs \<Longrightarrow> ascii_cuts (utf8 cs)"
proof (induction cs)
  case Nil
  show ?case by (simp add: ascii_cuts_def)
next
  case (Cons c cs)
  have "\<not> continuation (hd (utf8 cs))" if "utf8 cs \<noteq> []"
    using that Cons.prems encode_shape by (cases cs) (auto simp: hd_append hd_conv_nth)
  with Cons encode_high [of c] show ?case
    by (cases "c < 0x80") (auto simp: ascii_cuts_Cons intro!: ascii_cuts_high)
qed

end
