(* ===== verification/Format_String.thy ===== *)
theory Format_String
  imports Utf8
begin

text \<open>
  Format strings: \<^verbatim>\<open>starlark_syntax/src/dot_format_parser.rs\<close> (the tokens of \<open>"...{}...".format(...)\<close> and of f-strings) and
  \<^verbatim>\<open>starlark/src/values/types/string/dot_format.rs\<close> (evaluation, and the shortcut for a string with a single \<open>{}\<close>).

  A string is its list of bytes. Slicing it (\<open>str_index\<close>) panics outside the string and inside a character, and so do the
  two assertions of the parser; that neither happens is proved from the string being UTF-8.
\<close>

subsection \<open>The parser\<close>

datatype format_conv = ConvStr | ConvRepr

datatype escape_curly_brace = EscOpen | EscClose

fun esc_as_str :: "escape_curly_brace \<Rightarrow> string" where
  "esc_as_str EscOpen = ''{''"
| "esc_as_str EscClose = ''}''"

fun back_to_escape :: "escape_curly_brace \<Rightarrow> string" where
  "back_to_escape EscOpen = ''{{''"
| "back_to_escape EscClose = ''}}''"

datatype format_token = Text string | Capture string nat format_conv | Escape escape_curly_brace

datatype format_error =
    MissingConversion string
  | InvalidConversion string
  | UnmatchedBrace string
  | StandaloneBrace string
  | MixedFieldNumbering
  | NotEnoughParameters
  | BadIndex string
  | FieldIndexOutOfBound int
  | InvalidCharacter char
  | FieldKeyNotFound string

record string_view =
  sv_s :: string
  sv_i :: nat

definition sv_new :: "string \<Rightarrow> string_view" where
  "sv_new s = \<lparr>sv_s = s, sv_i = 0\<rparr>"

text \<open>\<open>sv_rest\<close> are the bytes not yet read; \<open>rem\<close> and \<open>eat\<close> slice the string and can panic.\<close>

definition sv_rest :: "string_view \<Rightarrow> string" where
  "sv_rest v = drop (sv_i v) (sv_s v)"

definition sv_rem :: "string_view \<Rightarrow> (format_error, string) outcome" where
  "sv_rem v = str_index (sv_s v) (sv_i v) (length (sv_s v))"

definition sv_eat :: "nat \<Rightarrow> string_view \<Rightarrow> (format_error, string \<times> string_view) outcome" where
  "sv_eat n v =
     bind_outcome (str_index (sv_s v) (sv_i v) (sv_i v + n)) (\<lambda>ret. Ok (ret, v\<lparr>sv_i := sv_i v + n\<rparr>))"

type_synonym next_result = "(format_error, format_token option \<times> string_view) outcome"

definition conversion :: "string \<Rightarrow> nat \<Rightarrow> string_view \<Rightarrow> next_result" where
  "conversion capture pos v =
     bind_outcome (sv_rem v) (\<lambda>r.
       case r of
         c # _ \<Rightarrow>
           if c = CHR ''r'' \<or> c = CHR ''s'' then
             bind_outcome (sv_eat 1 v) (\<lambda>(_, v).
             bind_outcome (sv_rem v) (\<lambda>r.
               case r of
                 d # _ \<Rightarrow>
                   if d = CHR ''}''
                   then bind_outcome (sv_eat 1 v) (\<lambda>(_, v).
                          Ok (Some (Capture capture pos (if c = CHR ''r'' then ConvRepr else ConvStr)), v))
                   else Err (UnmatchedBrace (sv_s v))
               | [] \<Rightarrow> Err (UnmatchedBrace (sv_s v))))
           else if c = CHR ''}'' then Err (MissingConversion (sv_s v))
           else Err (InvalidConversion (sv_s v))
       | [] \<Rightarrow> Err (InvalidConversion (sv_s v)))"

lemma bind_outcome_cong [fundef_cong]:
  "m = m' \<Longrightarrow> (\<And>x. m' = Ok x \<Longrightarrow> f x = f' x) \<Longrightarrow> bind_outcome m f = bind_outcome m' f'"
  by (cases m') simp_all

lemma sv_rem_Ok_iff: "sv_rem v = Ok r \<longleftrightarrow> is_char_boundary (sv_s v) (sv_i v) \<and> r = sv_rest v"
  using boundary_le [of "sv_s v" "sv_i v"]
  by (auto simp: sv_rem_def str_index_def sv_rest_def is_char_boundary_def [of _ "length _"])

text \<open>The inner loop, after an opening brace.\<close>

function capture_loop :: "nat \<Rightarrow> nat \<Rightarrow> string_view \<Rightarrow> next_result" where
  "capture_loop i pos v =
     bind_outcome (sv_rem v) (\<lambda>r.
       if i < length r then
         (if r ! i = CHR ''}'' then
            bind_outcome (sv_eat (i + 1) v) (\<lambda>(eaten, v).
            bind_outcome (str_index eaten 1 i) (\<lambda>capture. Ok (Some (Capture capture pos ConvStr), v)))
          else if r ! i = CHR ''!'' then
            bind_outcome (sv_eat (i + 1) v) (\<lambda>(eaten, v).
            bind_outcome (str_index eaten 1 i) (\<lambda>capture. conversion capture pos v))
          else if r ! i = CHR ''{'' then
            (if i = 1 then bind_outcome (sv_eat 2 v) (\<lambda>(_, v). Ok (Some (Escape EscOpen), v))
             else Err (UnmatchedBrace (sv_s v)))
          else capture_loop (i + 1) pos v)
       else Err (UnmatchedBrace (sv_s v)))"
  by pat_completeness auto
termination by (relation "measure (\<lambda>(i, pos, v). length (sv_rest v) - i)") (auto simp: sv_rem_Ok_iff)

text \<open>The outer loop. A failed \<open>assert!(i == 0)\<close> panics.\<close>

function next_loop :: "nat \<Rightarrow> string_view \<Rightarrow> next_result" where
  "next_loop i v =
     bind_outcome (sv_rem v) (\<lambda>r.
       if i < length r then
         (if (r ! i = CHR ''{'' \<or> r ! i = CHR ''}'') \<and> i \<noteq> 0 then
            bind_outcome (sv_eat i v) (\<lambda>(text, v). Ok (Some (Text text), v))
          else if r ! i = CHR ''{'' then
            (if i = 0 then capture_loop 1 (sv_i v + 1) v else Panic)
          else if r ! i = CHR ''}'' then
            (if i = 0 then
               if take 2 r = ''}}'' then bind_outcome (sv_eat 2 v) (\<lambda>(_, v). Ok (Some (Escape EscClose), v))
               else Err (StandaloneBrace (sv_s v))
             else Panic)
          else next_loop (i + 1) v)
       else if i = 0 then Ok (None, v)
       else Ok (Some (Text r), sv_new []))"
  by pat_completeness auto
termination by (relation "measure (\<lambda>(i, v). length (sv_rest v) - i)") (auto simp: sv_rem_Ok_iff)

declare capture_loop.simps [simp del] next_loop.simps [simp del] bind_outcome_cong [fundef_cong del]

definition fp_next :: "string_view \<Rightarrow> next_result" where
  "fp_next v = next_loop 0 v"

subsection \<open>One token\<close>

definition brace_free :: "string \<Rightarrow> bool" where
  "brace_free t \<longleftrightarrow> CHR ''{'' \<notin> set t \<and> CHR ''}'' \<notin> set t"

definition field_ok :: "string \<Rightarrow> bool" where
  "field_ok c \<longleftrightarrow> brace_free c \<and> CHR ''!'' \<notin> set c"

text \<open>The bytes a token can come from.\<close>

fun token_src :: "format_token \<Rightarrow> string \<Rightarrow> bool" where
  "token_src (Text t) src \<longleftrightarrow> src = t \<and> t \<noteq> [] \<and> brace_free t"
| "token_src (Capture c pos ConvStr) src \<longleftrightarrow> field_ok c \<and> (src = ''{'' @ c @ ''}'' \<or> src = ''{'' @ c @ ''!s}'')"
| "token_src (Capture c pos ConvRepr) src \<longleftrightarrow> field_ok c \<and> src = ''{'' @ c @ ''!r}''"
| "token_src (Escape e) src \<longleftrightarrow> src = back_to_escape e"

text \<open>The view after reading \<open>src\<close>: advanced, except that the last text leaves an empty view.\<close>

definition advanced :: "string \<Rightarrow> string_view \<Rightarrow> string_view \<Rightarrow> bool" where
  "advanced src v v' \<longleftrightarrow> sv_rest v = src @ sv_rest v' \<and>
     (v' = v\<lparr>sv_i := sv_i v + length src\<rparr> \<or> v' = sv_new [] \<and> brace_free src)"

fun token_pos :: "format_token \<Rightarrow> nat option" where
  "token_pos (Capture c pos conv) = Some pos"
| "token_pos _ = None"

definition token_step :: "string_view \<Rightarrow> format_token \<Rightarrow> string_view \<Rightarrow> bool" where
  "token_step v t v' \<longleftrightarrow> (\<exists>src. token_src t src \<and> advanced src v v') \<and> pred_option (\<lambda>pos. pos = sv_i v + 1) (token_pos t)"

lemma sv_rest_eat: "sv_rest (v\<lparr>sv_i := sv_i v + n\<rparr>) = drop n (sv_rest v)"
  by (simp add: sv_rest_def add.commute)

lemma advancedI: "sv_rest v = src @ rest \<Longrightarrow> advanced src v (v\<lparr>sv_i := sv_i v + length src\<rparr>)"
  by (simp add: advanced_def sv_rest_eat)

subsection \<open>Slices that do not panic\<close>

text \<open>A view of a UTF-8 string, on a boundary.\<close>

definition sv_ok :: "string_view \<Rightarrow> bool" where
  "sv_ok v \<longleftrightarrow> ascii_cuts (sv_s v) \<and> is_char_boundary (sv_s v) (sv_i v)"

lemma sv_ok_new: "ascii_cuts s \<Longrightarrow> sv_ok (sv_new s)"
  by (simp add: sv_ok_def sv_new_def is_char_boundary_def)

lemma sv_ok_empty [simp]: "sv_ok (sv_new [])"
  by (rule sv_ok_new) (simp add: ascii_cuts_def)

lemma sv_rem_ok: "sv_ok v \<Longrightarrow> sv_rem v = Ok (sv_rest v)"
  by (simp add: sv_rem_Ok_iff sv_ok_def)

lemma sv_rem_result: "sv_rem v = Ok (sv_rest v) \<or> sv_rem v = Panic"
  using sv_rem_Ok_iff [of v "sv_rest v"] by (auto simp: sv_rem_def str_index_def split: if_splits)

lemma sv_eat_result:
  "sv_eat n v = Panic \<or> sv_eat n v = Ok (take n (sv_rest v), v\<lparr>sv_i := sv_i v + n\<rparr>) \<and> (sv_ok v \<longrightarrow> sv_ok (v\<lparr>sv_i := sv_i v + n\<rparr>))"
  by (auto simp: sv_eat_def str_index_def sv_rest_def sv_ok_def)

lemma sv_eat_Ok_iff:
  "sv_ok v \<Longrightarrow> sv_eat n v = Ok (take n (sv_rest v), v\<lparr>sv_i := sv_i v + n\<rparr>) \<longleftrightarrow> is_char_boundary (sv_s v) (sv_i v + n)"
  by (auto simp: sv_eat_def str_index_def sv_rest_def sv_ok_def split: if_splits)

lemma sv_rest_nth: "n < length (sv_rest v) \<Longrightarrow> sv_rest v ! n = sv_s v ! (sv_i v + n) \<and> sv_i v + n < length (sv_s v)"
  by (auto simp: sv_rest_def)

lemma sv_eat_before_ascii:
  "sv_ok v \<Longrightarrow> n < length (sv_rest v) \<Longrightarrow> byte (sv_rest v ! n) < 0x80 \<Longrightarrow>
   sv_eat n v = Ok (take n (sv_rest v), v\<lparr>sv_i := sv_i v + n\<rparr>)"
  using sv_rest_nth [of n v] boundary_ascii [of "sv_i v + n" "sv_s v"] by (simp add: sv_eat_Ok_iff)

lemma sv_eat_after_ascii:
  "sv_ok v \<Longrightarrow> n < length (sv_rest v) \<Longrightarrow> byte (sv_rest v ! n) < 0x80 \<Longrightarrow>
   sv_eat (Suc n) v = Ok (take (Suc n) (sv_rest v), v\<lparr>sv_i := sv_i v + Suc n\<rparr>)"
  using sv_rest_nth [of n v] boundary_after_ascii [of "sv_s v" "sv_i v + n"] sv_eat_Ok_iff [of v "Suc n"]
  by (simp add: sv_ok_def)

text \<open>The name of a field, \<open>eaten[1..i]\<close>: after the brace and before an ASCII character.\<close>

lemma capture_index:
  assumes "sv_ok v" "1 \<le> i" "i < length (sv_rest v)" "byte (sv_rest v ! 0) < 0x80" "byte (sv_rest v ! i) < 0x80"
  shows "str_index (take (i + 1) (sv_rest v)) 1 i = Ok (drop 1 (take i (sv_rest v)))"
proof -
  let ?e = "take (i + 1) (sv_rest v)"
  have "is_char_boundary ?e i" by (rule boundary_ascii) (use assms in simp_all)
  moreover from assms(2,3) have "0 < length (sv_rest v)" "1 < length (sv_rest v)" by linarith+
  then have "is_char_boundary ?e 1"
    using boundary_after_ascii [of "sv_s v" "sv_i v"] sv_rest_nth [of 0 v] sv_rest_nth [of 1 v] assms
    by (auto simp: sv_ok_def is_char_boundary_def)
  ultimately show ?thesis using assms(2,3) by (simp add: str_index_def drop_take min_def)
qed

text \<open>One call of \<open>next\<close>, seen from the view \<open>v\<close> it starts at: a panic needs a string that is not UTF-8.\<close>

definition step_result :: "string_view \<Rightarrow> next_result \<Rightarrow> bool" where
  "step_result v r \<longleftrightarrow> (case r of Ok (Some t, w) \<Rightarrow> token_step v t w \<and> (sv_ok v \<longrightarrow> sv_ok w)
     | Ok (None, w) \<Rightarrow> False | Err e \<Rightarrow> True | Panic \<Rightarrow> \<not> sv_ok v)"

lemma step_result_simps [simp]:
  "step_result v (Ok (Some t, w)) \<longleftrightarrow> token_step v t w \<and> (sv_ok v \<longrightarrow> sv_ok w)"
  "step_result v (Ok (None, w)) = False" "step_result v (Err e)" "step_result v Panic \<longleftrightarrow> \<not> sv_ok v"
  by (simp_all add: step_result_def)

lemma step_result_rem:
  "(sv_ok v \<Longrightarrow> sv_ok u) \<Longrightarrow> step_result v (f (sv_rest u)) \<Longrightarrow> step_result v (bind_outcome (sv_rem u) f)"
  using sv_rem_result [of u] sv_rem_ok [of u] by (cases "sv_ok v") auto

lemma step_result_eat:
  assumes "sv_ok v \<Longrightarrow> sv_ok u" and "sv_ok u \<Longrightarrow> sv_eat n u \<noteq> Panic"
    and "(sv_ok v \<Longrightarrow> sv_ok (u\<lparr>sv_i := sv_i u + n\<rparr>)) \<Longrightarrow> step_result v (f (take n (sv_rest u), u\<lparr>sv_i := sv_i u + n\<rparr>))"
  shows "step_result v (bind_outcome (sv_eat n u) f)"
  using sv_eat_result [of n u] assms by (cases "sv_ok v") auto

lemma step_result_index:
  assumes "sv_ok v \<Longrightarrow> str_index x a b \<noteq> (Panic :: (format_error, string) outcome)" and "step_result v (f (take (b - a) (drop a x)))"
  shows "step_result v (bind_outcome (str_index x a b) f)"
  using assms by (cases "sv_ok v") (auto simp: str_index_def split: if_splits)

lemma sv_eat_one: "sv_ok v \<Longrightarrow> sv_rest v = b # r \<Longrightarrow> byte b < 0x80 \<Longrightarrow> sv_eat 1 v \<noteq> Panic"
  using sv_eat_after_ascii [of v 0] by simp

lemma conversion_cases:
  assumes r: "sv_rest v = ''{'' @ c @ ''!'' @ rest" and c: "field_ok c"
    and v': "v' = v\<lparr>sv_i := sv_i v + (length c + 2)\<rparr>" and pos: "pos = sv_i v + 1" and ok: "sv_ok v \<Longrightarrow> sv_ok v'"
  shows "step_result v (conversion c pos v')"
proof -
  have rest: "sv_rest v' = rest" unfolding v' sv_rest_eat by (simp add: r)
  define w where "w = v'\<lparr>sv_i := sv_i v' + 1\<rparr>"
  have rest_w: "sv_rest w = tl rest" unfolding w_def sv_rest_eat by (simp add: rest drop_Suc)
  define z where "z = w\<lparr>sv_i := sv_i w + 1\<rparr>"
  have step: "token_step v (Capture c pos (if k = CHR ''r'' then ConvRepr else ConvStr)) z"
    if "rest = k # CHR ''}'' # rest'" "k = CHR ''r'' \<or> k = CHR ''s''" for k rest'
  proof -
    let ?src = "''{'' @ c @ [CHR ''!'', k, CHR ''}'']"
    have "advanced ?src v (v\<lparr>sv_i := sv_i v + length ?src\<rparr>)" by (rule advancedI [of _ _ rest']) (simp add: r that)
    then show ?thesis using c that(2) unfolding token_step_def z_def w_def v' by (auto simp: pos intro!: exI [of _ ?src])
  qed
  note eat = sv_eat_result [of 1 v', folded w_def] sv_eat_result [of 1 w, folded z_def]
  show ?thesis
  proof (cases "\<exists>k rest'. rest = k # rest' \<and> (k = CHR ''r'' \<or> k = CHR ''s'')")
    case True
    then obtain k rest' where k: "rest = k # rest'" "k = CHR ''r'' \<or> k = CHR ''s''" by blast
    have "sv_ok v' \<Longrightarrow> sv_eat 1 v' \<noteq> Panic" using sv_eat_one [of v' k rest'] rest k by auto
    moreover have "sv_ok w \<Longrightarrow> rest' = CHR ''}'' # x \<Longrightarrow> sv_eat 1 w \<noteq> Panic" for x
      using sv_eat_one [of w "CHR ''}''" x] rest_w k by simp
    ultimately show ?thesis
      using k ok eat sv_rem_result [of v'] sv_rem_result [of w] sv_rem_ok [of v'] sv_rem_ok [of w] step
      by (auto simp: conversion_def rest rest_w split: list.split)
  next
    case False
    then show ?thesis using sv_rem_result [of v'] sv_rem_ok [of v'] ok
      by (auto simp: conversion_def rest split: list.split)
  qed
qed

lemma capture_loop_cases:
  assumes r: "sv_rest v = CHR ''{'' # body" and i: "1 \<le> i" "i \<le> length (sv_rest v)"
    and scanned: "field_ok (take (i - 1) body)"
  shows "step_result v (capture_loop i (sv_i v + 1) v)"
  using i scanned
proof (induction "length (sv_rest v) - i" arbitrary: i rule: less_induct)
  case less
  let ?r = "sv_rest v" and ?v = "v\<lparr>sv_i := sv_i v + (i + 1)\<rparr>"
  let ?name = "str_index (take (i + 1) ?r) 1 i :: (format_error, string) outcome"
  show ?case
  proof (cases "i < length ?r")
    case False
    then show ?thesis by (subst capture_loop.simps) (rule step_result_rem, simp_all)
  next
    case True
    define c where "c = take (i - 1) body"
    have lc: "length c + 2 = i + 1" using True r less.prems(1) by (simp add: c_def)
    have nth: "?r ! i = body ! (i - 1)" using less.prems(1) by (simp add: r nth_Cons')
    have b1: "i - 1 < length body" using True r less.prems(1) by simp
    have split: "body = c @ body ! (i - 1) # drop i body"
      using id_take_nth_drop [OF b1] less.prems(1) by (simp add: c_def)
    have eaten: "drop 1 (take i ?r) = c" using less.prems(1) True by (simp add: r c_def take_Cons')
    have no_panic: "sv_eat (i + 1) v \<noteq> Panic" "?name = Ok c"
      if "sv_ok v" "byte (?r ! i) < 0x80"
      using sv_eat_after_ascii [of v i] capture_index [of v i] eaten that True less.prems(1) by (simp_all add: r)
    have index: "?name = Ok c \<or> ?name = Panic"
      using True eaten by (simp add: str_index_def drop_take min_def)
    note eat = sv_rem_result [of v] sv_rem_ok [of v] sv_eat_result [of "i + 1" v]
    consider (close) "?r ! i = CHR ''}''" | (bang) "?r ! i = CHR ''!''" | (open_) "?r ! i = CHR ''{''"
      | (other) "?r ! i \<notin> {CHR ''}'', CHR ''!'', CHR ''{''}" by blast
    then show ?thesis
    proof cases
      case close
      have "advanced (''{'' @ c @ ''}'') v (v\<lparr>sv_i := sv_i v + length (''{'' @ c @ ''}'')\<rparr>)"
        by (rule advancedI [of _ _ "drop i body"]) (use split close nth in \<open>simp add: r\<close>)
      moreover have "length (''{'' @ c @ ''}'') = i + 1" using lc by simp
      ultimately have "token_step v (Capture c (sv_i v + 1) ConvStr) ?v"
        using less.prems(3) unfolding token_step_def by (auto simp: c_def)
      then show ?thesis using True close eat index no_panic by (subst capture_loop.simps) auto
    next
      case bang
      have "sv_rest v = ''{'' @ c @ ''!'' @ drop i body" using split bang nth by (simp add: r)
      from conversion_cases [OF this, of ?v "sv_i v + 1"] less.prems(3) lc
      have "(sv_ok v \<Longrightarrow> sv_ok ?v) \<Longrightarrow> step_result v (conversion c (sv_i v + 1) ?v)" by (simp add: c_def)
      then show ?thesis using True bang eat index no_panic by (subst capture_loop.simps) auto
    next
      case open_
      show ?thesis
      proof (cases "i = 1")
        case True
        have "advanced ''{{'' v (v\<lparr>sv_i := sv_i v + length ''{{''\<rparr>)"
          by (rule advancedI [of _ _ "drop i body"]) (use split open_ nth lc True in \<open>simp add: r\<close>)
        then have "token_step v (Escape EscOpen) ?v"
          using True unfolding token_step_def by (auto intro!: exI [of _ "''{{''"])
        then show ?thesis using \<open>i < length ?r\<close> open_ True eat no_panic(1) by (subst capture_loop.simps) (auto simp: numeral_2_eq_2)
      next
        case False
        then show ?thesis using \<open>i < length ?r\<close> open_ eat by (subst capture_loop.simps) auto
      qed
    next
      case other
      have "field_ok (take (i + 1 - 1) body)"
        using less.prems(1,3) other nth b1 take_Suc_conv_app_nth [OF b1] by (auto simp: field_ok_def brace_free_def)
      with less.hyps [of "i + 1"] True have IH: "step_result v (capture_loop (i + 1) (sv_i v + 1) v)" by simp
      with True other eat show ?thesis by (subst capture_loop.simps) auto
    qed
  qed
qed

fun is_text :: "format_token \<Rightarrow> bool" where
  "is_text (Text t) = True"
| "is_text _ = False"

abbreviation stops_text :: "string \<Rightarrow> bool" where
  "stops_text r \<equiv> r = [] \<or> hd r = CHR ''{'' \<or> hd r = CHR ''}''"

lemma open_token_not_text: "sv_rest v = CHR ''{'' # body \<Longrightarrow> token_step v t w \<Longrightarrow> \<not> is_text t"
  by (cases t) (auto simp: token_step_def advanced_def brace_free_def Cons_eq_append_conv)

definition next_spec :: "string_view \<Rightarrow> next_result \<Rightarrow> bool" where
  "next_spec v r \<longleftrightarrow>
     (case r of
        Ok (Some t, w) \<Rightarrow> token_step v t w \<and> (sv_ok v \<longrightarrow> sv_ok w) \<and> (is_text t \<longrightarrow> stops_text (sv_rest w))
      | Ok (None, w) \<Rightarrow> sv_rest v = []
      | Err e \<Rightarrow> True
      | Panic \<Rightarrow> \<not> sv_ok v)"

lemma next_spec_simps [simp]:
  "next_spec v (Ok (Some t, w)) \<longleftrightarrow> token_step v t w \<and> (sv_ok v \<longrightarrow> sv_ok w) \<and> (is_text t \<longrightarrow> stops_text (sv_rest w))"
  "next_spec v (Ok (None, w)) \<longleftrightarrow> sv_rest v = []" "next_spec v (Err e)" "next_spec v Panic \<longleftrightarrow> \<not> sv_ok v"
  by (simp_all add: next_spec_def)

lemma next_loop_cases:
  assumes "i \<le> length (sv_rest v)" and "brace_free (take i (sv_rest v))"
  shows "next_spec v (next_loop i v)"
  using assms
proof (induction "length (sv_rest v) - i" arbitrary: i rule: less_induct)
  case less
  let ?r = "sv_rest v"
  note rem = sv_rem_result [of v] sv_rem_ok [of v]
  show ?case
  proof (cases "i < length ?r")
    case False
    with less.prems(1) have i: "i = length ?r" by simp
    have "token_step v (Text ?r) (sv_new [])" if "i \<noteq> 0"
      using that i less.prems(2) by (auto simp: token_step_def advanced_def sv_new_def sv_rest_def)
    moreover have "sv_rest (sv_new []) = []" by (simp add: sv_new_def sv_rest_def)
    ultimately show ?thesis using False i rem by (subst next_loop.simps) auto
  next
    case True
    consider (stop) "?r ! i = CHR ''{'' \<or> ?r ! i = CHR ''}''" "i \<noteq> 0" | (open_) "?r ! i = CHR ''{''" "i = 0"
      | (close) "?r ! i = CHR ''}''" "i = 0" | (other) "?r ! i \<noteq> CHR ''{''" "?r ! i \<noteq> CHR ''}''" by blast
    then show ?thesis
    proof cases
      case stop
      have "advanced (take i ?r) v (v\<lparr>sv_i := sv_i v + length (take i ?r)\<rparr>)" by (rule advancedI [of _ _ "drop i ?r"]) simp
      with True stop less.prems(2) have "token_step v (Text (take i ?r)) (v\<lparr>sv_i := sv_i v + i\<rparr>)"
        by (auto simp: token_step_def)
      moreover have "stops_text (sv_rest (v\<lparr>sv_i := sv_i v + i\<rparr>))"
        using True stop unfolding sv_rest_eat by (simp add: hd_drop_conv_nth)
      moreover have "sv_ok v \<Longrightarrow> sv_eat i v \<noteq> Panic" using sv_eat_before_ascii [of v i] True stop by auto
      ultimately show ?thesis using True stop rem sv_eat_result [of i v] by (subst next_loop.simps) auto
    next
      case open_
      then obtain body where body: "?r = CHR ''{'' # body" using True by (cases ?r) auto
      from capture_loop_cases [OF this, of 1] have step: "step_result v (capture_loop 1 (sv_i v + 1) v)"
        by (simp add: body field_ok_def brace_free_def)
      have "next_spec v (capture_loop 1 (sv_i v + 1) v)"
        using step open_token_not_text [OF body] by (auto simp: step_result_def next_spec_def split: outcome.splits option.splits)
      with True open_ rem show ?thesis by (subst next_loop.simps) auto
    next
      case close
      show ?thesis
      proof (cases "take 2 ?r = ''}}''")
        case two: True
        then have r2: "?r = ''}}'' @ drop 2 ?r" by (metis append_take_drop_id)
        then have "advanced ''}}'' v (v\<lparr>sv_i := sv_i v + length ''}}''\<rparr>)" by (rule advancedI)
        then have "token_step v (Escape EscClose) (v\<lparr>sv_i := sv_i v + 2\<rparr>)"
          unfolding token_step_def by (auto intro!: exI [of _ "''}}''"])
        moreover have "?r ! 1 = CHR ''}''" "1 < length ?r" by (subst r2, simp)+
        then have "sv_ok v \<Longrightarrow> sv_eat 2 v \<noteq> Panic" using sv_eat_after_ascii [of v 1] by (auto simp: numeral_2_eq_2)
        ultimately show ?thesis using True close two rem sv_eat_result [of 2 v] by (subst next_loop.simps) auto
      next
        case False
        then show ?thesis using True close rem by (subst next_loop.simps) auto
      qed
    next
      case other
      have "brace_free (take (i + 1) ?r)"
        using less.prems(2) other take_Suc_conv_app_nth [OF True] by (auto simp: brace_free_def)
      with less.hyps [of "i + 1"] True have IH: "next_spec v (next_loop (i + 1) v)" by simp
      with True other rem show ?thesis by (subst next_loop.simps) auto
    qed
  qed
qed

lemma fp_next_cases: "next_spec v (fp_next v)"
  using next_loop_cases [of 0 v] by (simp add: fp_next_def brace_free_def)

lemma token_src_nonempty: "token_src t src \<Longrightarrow> src \<noteq> []"
  by (cases "(t, src)" rule: token_src.cases) (auto split: escape_curly_brace.splits, (cases src; auto elim!: back_to_escape.elims)+)

lemma token_step_shrinks: "token_step v t w \<Longrightarrow> length (sv_rest w) < length (sv_rest v)"
  unfolding token_step_def advanced_def using token_src_nonempty by fastforce

lemma fp_next_shrinks: "fp_next v = Ok (Some t, w) \<Longrightarrow> length (sv_rest w) < length (sv_rest v)"
  using fp_next_cases [of v] token_step_shrinks [of v t w] by simp

text \<open>All tokens, as the loops of the clients see them.\<close>

function format_tokens :: "string_view \<Rightarrow> (format_error, format_token list) outcome" where
  "format_tokens v =
     (case fp_next v of
        Ok (None, w) \<Rightarrow> Ok []
      | Ok (Some t, w) \<Rightarrow> bind_outcome (format_tokens w) (\<lambda>ts. Ok (t # ts))
      | Err e \<Rightarrow> Err e
      | Panic \<Rightarrow> Panic)"
  by pat_completeness auto
termination by (relation "measure (\<lambda>v. length (sv_rest v))") (auto dest: fp_next_shrinks)

declare format_tokens.simps [simp del]

subsection \<open>Reading back a token\<close>

lemma next_loop_scan: "k \<le> length (sv_rest v) \<Longrightarrow> brace_free (take k (sv_rest v)) \<Longrightarrow> next_loop 0 v = next_loop k v"
proof (induction k)
  case (Suc k)
  then have k: "k < length (sv_rest v)" by simp
  from Suc.prems(2) have b: "brace_free (take k (sv_rest v))" "sv_rest v ! k \<noteq> CHR ''{''" "sv_rest v ! k \<noteq> CHR ''}''"
    using take_Suc_conv_app_nth [OF k] by (auto simp: brace_free_def)
  have "next_loop k v = next_loop (Suc k) v"
    using k b sv_rem_result [of v] next_loop.simps [of "Suc k" v] by (subst next_loop.simps) auto
  with Suc.IH k b(1) show ?case by simp
qed simp

lemma capture_loop_scan:
  assumes "sv_rest v = CHR ''{'' # body"
  shows "k \<le> length body \<Longrightarrow> field_ok (take k body) \<Longrightarrow> capture_loop 1 p v = capture_loop (Suc k) p v"
proof (induction k)
  case (Suc k)
  then have k: "k < length body" by simp
  from Suc.prems(2) have b: "field_ok (take k body)" "body ! k \<notin> {CHR ''{'', CHR ''}'', CHR ''!''}"
    using take_Suc_conv_app_nth [OF k] by (auto simp: field_ok_def brace_free_def)
  have "capture_loop (Suc k) p v = capture_loop (Suc (Suc k)) p v"
    using k b assms sv_rem_result [of v] capture_loop.simps [of "Suc (Suc k)" p v] by (subst capture_loop.simps) auto
  with Suc.IH k b(1) show ?case by simp
qed simp

lemma fp_next_open: "sv_ok v \<Longrightarrow> sv_rest v = CHR ''{'' # body \<Longrightarrow> fp_next v = capture_loop 1 (sv_i v + 1) v"
  unfolding fp_next_def by (subst next_loop.simps) (simp add: sv_rem_ok)

lemma fp_next_text:
  assumes "sv_rest v = t @ rest" "t \<noteq> []" "brace_free t" "stops_text rest" and ok: "sv_ok v"
  shows "\<exists>w. fp_next v = Ok (Some (Text t), w) \<and> advanced t v w"
proof -
  have "fp_next v = next_loop (length t) v"
    unfolding fp_next_def by (rule next_loop_scan) (use assms in simp_all)
  moreover have "\<exists>w. next_loop (length t) v = Ok (Some (Text t), w) \<and> advanced t v w"
  proof (cases "rest = []")
    case True
    with assms show ?thesis
      by (subst next_loop.simps) (simp add: sv_rem_ok [OF ok], simp add: advanced_def sv_new_def sv_rest_def)
  next
    case False
    then have "sv_rest v ! length t = hd rest" using assms(1) by (cases rest) (simp_all add: nth_append)
    then have "next_loop (length t) v = Ok (Some (Text t), v\<lparr>sv_i := sv_i v + length t\<rparr>)"
      using assms False sv_eat_before_ascii [OF ok, of "length t"]
      by (subst next_loop.simps) (auto simp: sv_rem_ok [OF ok])
    with advancedI [OF assms(1)] show ?thesis by blast
  qed
  ultimately show ?thesis by simp
qed

lemma conversion_reads:
  assumes "sv_ok v" "sv_rest v = k # CHR ''}'' # rest" "k = CHR ''r'' \<or> k = CHR ''s''"
  shows "conversion c pos v =
    Ok (Some (Capture c pos (if k = CHR ''r'' then ConvRepr else ConvStr)), v\<lparr>sv_i := sv_i v + 2\<rparr>)"
proof -
  let ?w = "v\<lparr>sv_i := sv_i v + 1\<rparr>"
  have eat: "sv_eat 1 v = Ok (take 1 (sv_rest v), ?w)" using sv_eat_one [OF assms(1,2)] assms(3) sv_eat_result [of 1 v] by auto
  then have w: "sv_ok ?w" "sv_rest ?w = CHR ''}'' # rest"
    using assms(1,2) sv_eat_result [of 1 v] sv_rest_eat [of v 1] by simp_all
  have "sv_eat 1 ?w = Ok (take 1 (sv_rest ?w), ?w\<lparr>sv_i := sv_i ?w + 1\<rparr>)"
    using sv_eat_one [OF w] sv_eat_result [of 1 ?w] by auto
  with eat w assms show ?thesis by (auto simp: conversion_def sv_rem_ok)
qed

lemma fp_next_capture:
  assumes "sv_rest v = src @ rest" "token_src (Capture c pos conv) src" "pos = sv_i v + 1" and ok: "sv_ok v"
  shows "\<exists>w. fp_next v = Ok (Some (Capture c pos conv), w) \<and> advanced src v w"
proof -
  obtain mid where src: "src = CHR ''{'' # c @ mid" and c: "field_ok c"
    and mid: "mid = ''}'' \<and> conv = ConvStr \<or> mid = ''!s}'' \<and> conv = ConvStr \<or> mid = ''!r}'' \<and> conv = ConvRepr"
    using assms(2) by (cases conv) auto
  have r: "sv_rest v = CHR ''{'' # c @ mid @ rest" using assms(1) src by simp
  have "fp_next v = capture_loop 1 (sv_i v + 1) v" by (rule fp_next_open [OF ok r])
  also have "\<dots> = capture_loop (Suc (length c)) (sv_i v + 1) v"
    by (rule capture_loop_scan [OF r]) (use c in simp_all)
  also have "\<dots> = Ok (Some (Capture c pos conv), v\<lparr>sv_i := sv_i v + length src\<rparr>)"
  proof -
    define i where "i = Suc (length c)"
    have i: "i < length (sv_rest v)" "sv_rest v ! i = hd mid" "byte (sv_rest v ! 0) < 0x80" "byte (sv_rest v ! i) < 0x80"
      using mid by (auto simp: r i_def nth_append)
    let ?w = "v\<lparr>sv_i := sv_i v + Suc i\<rparr>"
    have eat: "sv_eat (Suc i) v = Ok (take (Suc i) (sv_rest v), ?w)" by (rule sv_eat_after_ascii [OF ok i(1,4)])
    then have w: "sv_ok ?w" using ok sv_eat_result [of "Suc i" v] by simp
    have name: "(str_index (take (Suc i) (sv_rest v)) 1 i :: (format_error, string) outcome) = Ok c"
      using capture_index [OF ok _ i(1,3,4)] by (simp add: i_def r)
    have rest_w: "sv_rest ?w = tl mid @ rest" unfolding sv_rest_eat using mid by (auto simp: r i_def)
    show ?thesis
    proof (cases "mid = ''}''")
      case True
      have "capture_loop i (sv_i v + 1) v = Ok (Some (Capture c pos conv), ?w)"
        using True i eat name mid by (subst capture_loop.simps) (auto simp: sv_rem_ok [OF ok] assms(3))
      with True show ?thesis by (simp add: src i_def)
    next
      case False
      have "capture_loop i (sv_i v + 1) v = conversion c pos ?w"
        using False i eat name mid by (subst capture_loop.simps) (auto simp: sv_rem_ok [OF ok] assms(3))
      also have "\<dots> = Ok (Some (Capture c pos conv), v\<lparr>sv_i := sv_i v + length src\<rparr>)"
        using conversion_reads [OF w, of "hd (tl mid)" rest c pos] rest_w False mid by (auto simp: src i_def)
      finally show ?thesis by (simp add: i_def)
    qed
  qed
  finally show ?thesis using advancedI [OF assms(1)] by blast
qed

lemma fp_next_escape:
  assumes "sv_rest v = back_to_escape e @ rest" and ok: "sv_ok v"
  shows "\<exists>w. fp_next v = Ok (Some (Escape e), w) \<and> advanced (back_to_escape e) v w"
proof (cases e)
  case EscOpen
  with assms have r: "sv_rest v = CHR ''{'' # CHR ''{'' # rest" by simp
  have "fp_next v = Ok (Some (Escape EscOpen), v\<lparr>sv_i := sv_i v + length (back_to_escape e)\<rparr>)"
    unfolding fp_next_open [OF ok r] using EscOpen sv_eat_after_ascii [OF ok, of 1]
    by (subst capture_loop.simps) (simp add: r sv_rem_ok [OF ok] numeral_2_eq_2)
  with EscOpen advancedI [OF assms(1)] show ?thesis by blast
next
  case EscClose
  with assms have r: "sv_rest v = CHR ''}'' # CHR ''}'' # rest" by simp
  have "fp_next v = Ok (Some (Escape EscClose), v\<lparr>sv_i := sv_i v + length (back_to_escape e)\<rparr>)"
    unfolding fp_next_def using EscClose sv_eat_after_ascii [OF ok, of 1]
    by (subst next_loop.simps) (simp add: r sv_rem_ok [OF ok] numeral_2_eq_2)
  with EscClose advancedI [OF assms(1)] show ?thesis by blast
qed

subsection \<open>All tokens\<close>

text \<open>Token lists that printing can produce and the source they come from, at an offset.\<close>

fun tokens_at :: "nat \<Rightarrow> format_token list \<Rightarrow> string \<Rightarrow> bool" where
  "tokens_at off [] s \<longleftrightarrow> s = []"
| "tokens_at off (t # ts) s \<longleftrightarrow> (\<exists>src rest. s = src @ rest \<and> token_src t src \<and>
     pred_option (\<lambda>pos. pos = off + 1) (token_pos t) \<and> (is_text t \<longrightarrow> stops_text rest) \<and> tokens_at (off + length src) ts rest)"

lemma fp_next_complete:
  assumes "sv_rest v = src @ rest" "token_src t src" "pred_option (\<lambda>pos. pos = sv_i v + 1) (token_pos t)"
    and "is_text t \<longrightarrow> stops_text rest" and ok: "sv_ok v"
  shows "\<exists>w. fp_next v = Ok (Some t, w) \<and> advanced src v w"
proof (cases t)
  case (Text x)
  with assms show ?thesis using fp_next_text [of v x rest] by simp
next
  case (Capture c pos conv)
  with assms show ?thesis using fp_next_capture [OF assms(1)] by simp
next
  case (Escape e)
  with assms show ?thesis using fp_next_escape [of v e rest] by simp
qed

lemma advanced_rest: "advanced src v w \<Longrightarrow> sv_rest v = src @ rest \<Longrightarrow> sv_rest w = rest"
  by (auto simp: advanced_def)

lemma advanced_pos: "advanced src v w \<Longrightarrow> sv_rest w \<noteq> [] \<Longrightarrow> sv_i w = sv_i v + length src"
  by (auto simp: advanced_def sv_new_def sv_rest_def)

lemma tokens_at_empty: "tokens_at off ts [] \<longleftrightarrow> ts = []"
  by (cases ts) (auto dest: token_src_nonempty)

lemma format_tokens_complete: "sv_ok v \<Longrightarrow> tokens_at (sv_i v) ts (sv_rest v) \<Longrightarrow> format_tokens v = Ok ts"
proof (induction ts arbitrary: v)
  case Nil
  then show ?case by (subst format_tokens.simps) (simp add: fp_next_def next_loop.simps sv_rem_ok)
next
  case (Cons t ts)
  then obtain src rest where *: "sv_rest v = src @ rest" "token_src t src"
    "pred_option (\<lambda>pos. pos = sv_i v + 1) (token_pos t)" "is_text t \<longrightarrow> stops_text rest"
    "tokens_at (sv_i v + length src) ts rest" by auto
  obtain w where w: "fp_next v = Ok (Some t, w)" "advanced src v w" using fp_next_complete [OF *(1-4) Cons.prems(1)] by blast
  with fp_next_cases [of v] Cons.prems(1) have ok: "sv_ok w" by simp
  have rest: "sv_rest w = rest" by (rule advanced_rest [OF w(2) *(1)])
  have "tokens_at (sv_i w) ts (sv_rest w)"
  proof (cases "rest = []")
    case True
    with *(5) rest show ?thesis by (simp add: tokens_at_empty)
  next
    case False
    with *(5) rest advanced_pos [OF w(2)] show ?thesis by simp
  qed
  from Cons.IH [OF ok this] w(1) show ?case by (subst format_tokens.simps) simp
qed

lemma format_tokens_sound: "format_tokens v = Ok ts \<Longrightarrow> tokens_at (sv_i v) ts (sv_rest v)"
proof (induction ts arbitrary: v)
  case Nil
  with fp_next_cases [of v] show ?case
    by (subst (asm) format_tokens.simps) (auto split: outcome.splits option.splits simp: bind_outcome_Ok_iff)
next
  case (Cons t ts)
  then obtain w where w: "fp_next v = Ok (Some t, w)" "format_tokens w = Ok ts"
    by (subst (asm) format_tokens.simps) (auto split: outcome.splits option.splits simp: bind_outcome_Ok_iff)
  with fp_next_cases [of v] have step: "token_step v t w" "is_text t \<longrightarrow> stops_text (sv_rest w)" by simp_all
  then obtain src where src: "token_src t src" "advanced src v w" "pred_option (\<lambda>pos. pos = sv_i v + 1) (token_pos t)"
    by (auto simp: token_step_def)
  from Cons.IH [OF w(2)] have IH: "tokens_at (sv_i w) ts (sv_rest w)" .
  have "tokens_at (sv_i v + length src) ts (sv_rest w)"
  proof (cases "sv_rest w = []")
    case True
    with IH show ?thesis by (simp add: tokens_at_empty)
  next
    case False
    with IH advanced_pos [OF src(2)] show ?thesis by simp
  qed
  moreover have "sv_rest v = src @ sv_rest w" using src(2) by (simp add: advanced_def)
  ultimately show ?case using src step(2) by auto
qed

lemma format_tokens_no_panic: "sv_ok v \<Longrightarrow> format_tokens v \<noteq> Panic"
proof (induction v rule: format_tokens.induct)
  case (1 v)
  have IH: "format_tokens w \<noteq> Panic" if "fp_next v = Ok (Some t, w)" for t w
    using 1 fp_next_cases [of v] that by simp
  with "1.prems" fp_next_cases [of v] show ?case
    by (subst format_tokens.simps) (auto split: outcome.split option.split simp: bind_outcome_Panic_iff)
qed

text \<open>A format specifier after a conversion, empty or not, is an error.\<close>

lemma format_spec_rejected:
  assumes s: "s = ''{'' @ c @ ''!'' @ [k, CHR '':''] @ rest" and c: "field_ok c" and k: "k = CHR ''r'' \<or> k = CHR ''s''"
    and ok: "ascii_cuts s"
  shows "format_tokens (sv_new s) = Err (UnmatchedBrace s)"
proof -
  define v i where "v = sv_new s" and "i = Suc (length c)"
  have v: "sv_ok v" "sv_rest v = CHR ''{'' # c @ CHR ''!'' # k # CHR '':'' # rest" "sv_s v = s"
    using sv_ok_new [OF ok] s by (simp_all add: v_def sv_new_def sv_rest_def)
  have i: "i < length (sv_rest v)" "sv_rest v ! i = CHR ''!''" "1 \<le> i" by (simp_all add: v(2) i_def nth_append)
  let ?w = "v\<lparr>sv_i := sv_i v + Suc i\<rparr>"
  have eat: "sv_eat (Suc i) v = Ok (take (Suc i) (sv_rest v), ?w)" by (rule sv_eat_after_ascii [OF v(1) i(1)]) (simp add: i)
  have name: "(str_index (take (Suc i) (sv_rest v)) 1 i :: (format_error, string) outcome) = Ok c"
    using capture_index [OF v(1) i(3,1)] i(2) by (simp add: v(2) i_def)
  have w: "sv_ok ?w" "sv_rest ?w = k # CHR '':'' # rest" "sv_s ?w = s"
    using eat v(1,3) sv_eat_result [of "Suc i" v] unfolding sv_rest_eat by (simp_all add: v(2) i_def)
  let ?z = "?w\<lparr>sv_i := sv_i ?w + 1\<rparr>"
  have eat1: "sv_eat 1 ?w = Ok (take 1 (sv_rest ?w), ?z)" using sv_eat_one [OF w(1,2)] k sv_eat_result [of 1 ?w] by auto
  have z: "sv_ok ?z" "sv_rest ?z = CHR '':'' # rest"
    using eat1 w(1) sv_eat_result [of 1 ?w] unfolding sv_rest_eat [of ?w 1] w(2) by simp_all
  have "fp_next v = capture_loop i (sv_i v + 1) v"
    unfolding fp_next_open [OF v(1,2)] i_def by (rule capture_loop_scan [OF v(2)]) (use c in simp_all)
  also have "\<dots> = conversion c (sv_i v + 1) ?w"
    using i eat name by (subst capture_loop.simps) (simp add: sv_rem_ok [OF v(1)])
  also have "\<dots> = Err (UnmatchedBrace s)"
    unfolding conversion_def sv_rem_ok [OF w(1)] w(2) using k eat1 sv_rem_ok [OF z(1)] z(2) v(3) by auto
  finally show ?thesis by (subst format_tokens.simps) (simp add: v_def)
qed

lemma format_tokens_new_iff: "ascii_cuts s \<Longrightarrow> format_tokens (sv_new s) = Ok ts \<longleftrightarrow> tokens_at 0 ts s"
  using format_tokens_complete [OF sv_ok_new, of s ts] format_tokens_sound [of "sv_new s" ts]
  by (auto simp: sv_new_def sv_rest_def)

text \<open>
  C20. Parsing a format string, for every UTF-8 string. \<open>format_tokens\<close> runs \<open>FormatParser::next\<close> until it returns \<open>None\<close>.
  It returns a list of tokens exactly when the string is the concatenation of source texts of these tokens,
  with text tokens non-empty, free of braces and as long as possible, and with the position of every captured
  field the byte after its opening brace. No slice is out of range or inside a character and no assertion fails.
  The format specifier after a conversion, which the documentation of \<open>str.format\<close> allows when it is empty, is
  always an error.
\<close>

theorem format_parser_exact:
  assumes "list_all is_scalar cs" and "s = utf8 cs"
  shows "(format_tokens (sv_new s) = Ok ts \<longleftrightarrow> tokens_at 0 ts s) \<and> format_tokens (sv_new s) \<noteq> Panic \<and>
    (s = ''{'' @ c @ ''!'' @ [k, CHR '':''] @ rest \<and> field_ok c \<and> (k = CHR ''r'' \<or> k = CHR ''s'') \<longrightarrow>
       format_tokens (sv_new s) = Err (UnmatchedBrace s))"
proof -
  have ok: "ascii_cuts s" using ascii_cuts_utf8 assms by simp
  then show ?thesis
    using format_tokens_new_iff [OF ok, of ts] format_tokens_no_panic [OF sv_ok_new [OF ok]] format_spec_rejected [of s c k rest]
    by blast
qed

text \<open>A string with a character of two bytes, an automatic field and a conversion; and \<open>{x!r:}\<close>.\<close>

theorem format_parser_exact_witness:
  "format_tokens (sv_new (utf8 [233, 123, 125])) = Ok [Text (utf8 [233]), Capture [] 3 ConvStr] \<and>
   format_tokens (sv_new ''{x!r:}'') = Err (UnmatchedBrace ''{x!r:}'')"
proof
  have s: "list_all is_scalar [233, 123, 125]" by (simp add: is_scalar_def)
  have "tokens_at 0 [Text (utf8 [233]), Capture [] 3 ConvStr] (utf8 [233, 123, 125])"
    by (auto simp: encode_def brace_free_def field_ok_def eq_char_of_iff char_of_eq_iff take_bit_eq_mod)
  then show "format_tokens (sv_new (utf8 [233, 123, 125])) = Ok [Text (utf8 [233]), Capture [] 3 ConvStr]"
    using format_parser_exact [OF s refl, of "[Text (utf8 [233]), Capture [] 3 ConvStr]"] by blast
  have s: "list_all is_scalar [123, 120, 33, 114, 58, 125]" "''{x!r:}'' = utf8 [123, 120, 33, 114, 58, 125]"
    by (simp_all add: encode_def eq_char_of_iff char_of_eq_iff take_bit_eq_mod)
  show "format_tokens (sv_new ''{x!r:}'') = Err (UnmatchedBrace ''{x!r:}'')"
    using format_parser_exact [OF s, of "[]" "''x''" "CHR ''r''" "''}''"] by (simp add: field_ok_def brace_free_def)
qed

end
