(* ===== verification/Dot_Format.thy ===== *)
theory Dot_Format
  imports Format_String Starlark_Int
begin

text \<open>
  Evaluation of format strings, \<^verbatim>\<open>starlark/src/values/types/string/dot_format.rs\<close>: \<open>format\<close> with its
  arguments state \<open>FormatArgs\<close>, and the shortcut \<open>parse_format_one\<close>/\<open>format_one\<close> which the compiler takes for
  a literal with a single \<open>{}\<close>.

  A value is seen through \<open>view\<close>, which says whether it is a string, a tuple, a number or something else;
  its \<open>repr\<close> is an argument. Allocation on the heap and the string pool are not modelled: a string value is its bytes.
\<close>

subsection \<open>Values as formatting sees them\<close>

datatype ('v, 'f) value_view =
    ViewStr string
  | ViewTuple "'v list"
  | ViewInt starlark_int
  | ViewFloat 'f
  | ViewOther

fun unpack_str :: "('v, 'f) value_view \<Rightarrow> string option" where
  "unpack_str (ViewStr s) = Some s"
| "unpack_str _ = None"

definition collect_str :: "('v \<Rightarrow> ('v, 'f) value_view) \<Rightarrow> ('v \<Rightarrow> string) \<Rightarrow> 'v \<Rightarrow> string" where
  "collect_str view repr v = (case unpack_str (view v) of Some s \<Rightarrow> s | None \<Rightarrow> repr v)"

subsection \<open>The arguments\<close>

record 'v format_args =
  fa_iterator :: "'v list"
  fa_args :: "'v list"
  fa_by_index :: bool
  fa_by_order :: bool

definition fa_new :: "'v list \<Rightarrow> 'v format_args" where
  "fa_new it = \<lparr>fa_iterator = it, fa_args = [], fa_by_index = False, fa_by_order = False\<rparr>"

definition fa_next_ordered :: "'v format_args \<Rightarrow> (format_error, 'v \<times> 'v format_args) outcome" where
  "fa_next_ordered fa =
     (if fa_by_index fa then Err MixedFieldNumbering
      else let fa = fa\<lparr>fa_by_order := True\<rparr>
           in case fa_iterator fa of
                [] \<Rightarrow> Err NotEnoughParameters
              | x # rest \<Rightarrow> Ok (x, fa\<lparr>fa_iterator := rest\<rparr>))"

definition fa_get_by_index :: "nat \<Rightarrow> 'v format_args \<Rightarrow> (format_error, 'v \<times> 'v format_args) outcome" where
  "fa_get_by_index index fa =
     (if fa_by_order fa then Err MixedFieldNumbering
      else let fa = (if fa_by_index fa then fa
                     else fa\<lparr>fa_args := fa_args fa @ fa_iterator fa, fa_iterator := [], fa_by_index := True\<rparr>)
           in if index < length (fa_args fa) then Ok (fa_args fa ! index, fa)
              else Err (FieldIndexOutOfBound (wrap_i32 (int index))))"

subsection \<open>Fields\<close>

definition is_ascii_digit :: "char \<Rightarrow> bool" where
  "is_ascii_digit c \<longleftrightarrow> 48 \<le> (of_char c :: nat) \<and> (of_char c :: nat) \<le> 57"

text \<open>\<open>usize::from_str\<close> on a non-empty string of digits: its value, unless it overflows.\<close>

definition digits_value :: "string \<Rightarrow> nat" where
  "digits_value s = foldl (\<lambda>n c. n * 10 + (of_char c - 48)) 0 s"

definition usize_from_digits :: "string \<Rightarrow> nat option" where
  "usize_from_digits s = (if digits_value s \<le> usize_max then Some (digits_value s) else None)"

definition reserved_in_field :: "char \<Rightarrow> bool" where
  "reserved_in_field c \<longleftrightarrow> c \<in> {CHR ''.'', CHR '','', CHR ''['', CHR '']''}"

definition apply_conv :: "('v \<Rightarrow> ('v, 'f) value_view) \<Rightarrow> ('v \<Rightarrow> string) \<Rightarrow> format_conv \<Rightarrow> 'v \<Rightarrow> string" where
  "apply_conv view repr conv v = (case conv of ConvStr \<Rightarrow> collect_str view repr v | ConvRepr \<Rightarrow> repr v)"

definition format_capture ::
  "('v \<Rightarrow> ('v, 'f) value_view) \<Rightarrow> ('v \<Rightarrow> string) \<Rightarrow> string \<Rightarrow> format_conv \<Rightarrow> 'v format_args \<Rightarrow> (string \<Rightarrow> 'v option) \<Rightarrow>
   string \<Rightarrow> (format_error, 'v format_args \<times> string) outcome" where
  "format_capture view repr field conv fa kwargs result =
     (if field = [] then
        bind_outcome (fa_next_ordered fa) (\<lambda>(v, fa). Ok (fa, result @ apply_conv view repr conv v))
      else if list_all is_ascii_digit field then
        (case usize_from_digits field of
           None \<Rightarrow> Err (BadIndex field)
         | Some i \<Rightarrow> bind_outcome (fa_get_by_index i fa) (\<lambda>(v, fa). Ok (fa, result @ apply_conv view repr conv v)))
      else
        (case find reserved_in_field field of
           Some x \<Rightarrow> Err (InvalidCharacter x)
         | None \<Rightarrow>
             (case kwargs field of
                None \<Rightarrow> Err (FieldKeyNotFound field)
              | Some v \<Rightarrow> Ok (fa, result @ apply_conv view repr conv v))))"

subsection \<open>Formatting\<close>

function format_loop ::
  "('v \<Rightarrow> ('v, 'f) value_view) \<Rightarrow> ('v \<Rightarrow> string) \<Rightarrow> (string \<Rightarrow> 'v option) \<Rightarrow> string_view \<Rightarrow> 'v format_args \<Rightarrow>
   string \<Rightarrow> (format_error, string) outcome" where
  "format_loop view repr kwargs p fa result =
     (case fp_next p of
        Ok (None, p') \<Rightarrow> Ok result
      | Ok (Some token, p') \<Rightarrow>
          (case token of
             Text text \<Rightarrow> format_loop view repr kwargs p' fa (result @ text)
           | Escape e \<Rightarrow> format_loop view repr kwargs p' fa (result @ esc_as_str e)
           | Capture capture pos conv \<Rightarrow>
               (case format_capture view repr capture conv fa kwargs result of
                  Ok (fa', result') \<Rightarrow> format_loop view repr kwargs p' fa' result'
                | Err e \<Rightarrow> Err e
                | Panic \<Rightarrow> Panic))
      | Err e \<Rightarrow> Err e
      | Panic \<Rightarrow> Panic)"
  by pat_completeness auto
termination
  by (relation "measure (\<lambda>(view, repr, kwargs, p, fa, result). length (sv_rest p))") (auto dest: fp_next_shrinks)

declare format_loop.simps [simp del]

definition format_str ::
  "('v \<Rightarrow> ('v, 'f) value_view) \<Rightarrow> ('v \<Rightarrow> string) \<Rightarrow> string \<Rightarrow> 'v list \<Rightarrow> (string \<Rightarrow> 'v option) \<Rightarrow> (format_error, string) outcome" where
  "format_str view repr this args kwargs = format_loop view repr kwargs (sv_new this) (fa_new args) []"

subsection \<open>The shortcut for a single field\<close>

text \<open>
  An error of the parser, or a capture that is not \<open>{}\<close>, gives \<open>None\<close>. A panic of the parser would be a panic here; it is
  also \<open>None\<close> in this model, since \<open>fp_next_cases\<close> excludes it for every UTF-8 string.
\<close>

function parse_one_before :: "string_view \<Rightarrow> string \<Rightarrow> (string \<times> string_view) option" where
  "parse_one_before p before =
     (case fp_next p of
        Ok (Some token, p') \<Rightarrow>
          (case token of
             Text text \<Rightarrow> parse_one_before p' (before @ text)
           | Escape e \<Rightarrow> parse_one_before p' (before @ esc_as_str e)
           | Capture capture pos conv \<Rightarrow> if capture = [] \<and> conv = ConvStr then Some (before, p') else None)
      | _ \<Rightarrow> None)"
  by pat_completeness auto
termination by (relation "measure (\<lambda>(p, before). length (sv_rest p))") (auto dest: fp_next_shrinks)

function parse_one_after :: "string_view \<Rightarrow> string \<Rightarrow> string option" where
  "parse_one_after p after =
     (case fp_next p of
        Ok (Some token, p') \<Rightarrow>
          (case token of
             Text text \<Rightarrow> parse_one_after p' (after @ text)
           | Escape e \<Rightarrow> parse_one_after p' (after @ esc_as_str e)
           | Capture _ _ _ \<Rightarrow> None)
      | Ok (None, p') \<Rightarrow> Some after
      | _ \<Rightarrow> None)"
  by pat_completeness auto
termination by (relation "measure (\<lambda>(p, after). length (sv_rest p))") (auto dest: fp_next_shrinks)

declare parse_one_before.simps [simp del] parse_one_after.simps [simp del]

definition parse_format_one :: "string \<Rightarrow> (string \<times> string) option" where
  "parse_format_one s =
     (case parse_one_before (sv_new s) [] of
        None \<Rightarrow> None
      | Some (before, p) \<Rightarrow> map_option (\<lambda>after. (before, after)) (parse_one_after p []))"

definition format_one :: "('v \<Rightarrow> ('v, 'f) value_view) \<Rightarrow> ('v \<Rightarrow> string) \<Rightarrow> string \<Rightarrow> 'v \<Rightarrow> string \<Rightarrow> string" where
  "format_one view repr before arg after =
     (case unpack_str (view arg) of
        Some s \<Rightarrow> before @ s @ after
      | None \<Rightarrow> before @ repr arg @ after)"

subsection \<open>What a format string stands for\<close>

text \<open>
  The argument a field refers to, when \<open>k\<close> automatically numbered fields come before it, and the text of a
  token list. The rule that the two ways of numbering cannot be mixed is separate.
\<close>

definition field_arg :: "'v list \<Rightarrow> (string \<Rightarrow> 'v option) \<Rightarrow> nat \<Rightarrow> string \<Rightarrow> 'v option" where
  "field_arg args kwargs k c =
     (if c = [] then (if k < length args then Some (args ! k) else None)
      else if list_all is_ascii_digit c then
        (if digits_value c \<le> usize_max \<and> digits_value c < length args then Some (args ! digits_value c) else None)
      else if list_ex reserved_in_field c then None
      else kwargs c)"

fun render_tokens ::
  "('v \<Rightarrow> ('v, 'f) value_view) \<Rightarrow> ('v \<Rightarrow> string) \<Rightarrow> 'v list \<Rightarrow> (string \<Rightarrow> 'v option) \<Rightarrow> nat \<Rightarrow> format_token list \<Rightarrow> string option" where
  "render_tokens view repr args kwargs k [] = Some []"
| "render_tokens view repr args kwargs k (Text t # ts) = map_option (append t) (render_tokens view repr args kwargs k ts)"
| "render_tokens view repr args kwargs k (Escape e # ts) =
     map_option (append (esc_as_str e)) (render_tokens view repr args kwargs k ts)"
| "render_tokens view repr args kwargs k (Capture c pos conv # ts) =
     (case field_arg args kwargs k c of
        None \<Rightarrow> None
      | Some v \<Rightarrow> map_option (append (apply_conv view repr conv v))
          (render_tokens view repr args kwargs (if c = [] then Suc k else k) ts))"

fun auto_field :: "format_token \<Rightarrow> bool" where
  "auto_field (Capture c pos conv) \<longleftrightarrow> c = []"
| "auto_field _ \<longleftrightarrow> False"

fun manual_field :: "format_token \<Rightarrow> bool" where
  "manual_field (Capture c pos conv) \<longleftrightarrow> c \<noteq> [] \<and> list_all is_ascii_digit c"
| "manual_field _ \<longleftrightarrow> False"

subsection \<open>The loop on a token list\<close>

fun eval_tokens ::
  "('v \<Rightarrow> ('v, 'f) value_view) \<Rightarrow> ('v \<Rightarrow> string) \<Rightarrow> (string \<Rightarrow> 'v option) \<Rightarrow> format_token list \<Rightarrow> 'v format_args \<Rightarrow>
   string \<Rightarrow> (format_error, string) outcome" where
  "eval_tokens view repr kwargs [] fa result = Ok result"
| "eval_tokens view repr kwargs (Text text # ts) fa result = eval_tokens view repr kwargs ts fa (result @ text)"
| "eval_tokens view repr kwargs (Escape e # ts) fa result = eval_tokens view repr kwargs ts fa (result @ esc_as_str e)"
| "eval_tokens view repr kwargs (Capture c pos conv # ts) fa result =
     bind_outcome (format_capture view repr c conv fa kwargs result) (\<lambda>(fa, result). eval_tokens view repr kwargs ts fa result)"

lemma format_tokens_Ok_iff:
  "format_tokens p = Ok ts \<longleftrightarrow>
     (\<exists>w. fp_next p = Ok (None, w) \<and> ts = []) \<or> (\<exists>t w us. fp_next p = Ok (Some t, w) \<and> format_tokens w = Ok us \<and> ts = t # us)"
  by (subst format_tokens.simps) (auto split: outcome.splits option.splits simp: bind_outcome_Ok_iff)

lemma format_loop_tokens:
  "format_loop view repr kwargs p fa result = Ok r \<longleftrightarrow>
     (\<exists>ts. format_tokens p = Ok ts \<and> eval_tokens view repr kwargs ts fa result = Ok r)"
proof (induction view repr kwargs p fa result rule: format_loop.induct)
  case (1 view repr kwargs p fa result)
  show ?case
  proof (cases "fp_next p")
    case (Ok tw)
    obtain t w where tw: "tw = (t, w)" by (cases tw)
    show ?thesis
    proof (cases t)
      case None
      then show ?thesis using Ok tw
        by (subst format_loop.simps) (auto simp: format_tokens_Ok_iff [of p])
    next
      case (Some u)
      have step: "format_tokens p = Ok ts \<longleftrightarrow> (\<exists>us. format_tokens w = Ok us \<and> ts = u # us)" for ts
        using Ok tw Some by (simp add: format_tokens_Ok_iff [of p])
      show ?thesis
      proof (cases u)
        case (Text x)
        with Ok tw Some 1(1) show ?thesis by (subst format_loop.simps) (auto simp: step)
      next
        case (Capture c pos conv)
        show ?thesis
        proof (cases "format_capture view repr c conv fa kwargs result")
          case (Ok y)
          with \<open>fp_next p = Ok tw\<close> tw Some Capture 1(2) show ?thesis
            by (subst format_loop.simps) (cases y, auto simp: step)
        next
          case (Err e)
          with Ok tw Some Capture show ?thesis by (subst format_loop.simps) (auto simp: step)
        next
          case Panic
          with Ok tw Some Capture show ?thesis by (subst format_loop.simps) (auto simp: step)
        qed
      next
        case (Escape e)
        with Ok tw Some 1(3) show ?thesis by (subst format_loop.simps) (auto simp: step)
      qed
    qed
  next
    case (Err e)
    then show ?thesis by (subst format_loop.simps) (auto simp: format_tokens_Ok_iff [of p])
  next
    case Panic
    then show ?thesis by (subst format_loop.simps) (auto simp: format_tokens_Ok_iff [of p])
  qed
qed

lemma format_capture_no_panic: "format_capture view repr c conv fa kwargs result \<noteq> Panic"
  by (auto simp: format_capture_def fa_next_ordered_def fa_get_by_index_def Let_def bind_outcome_Panic_iff
      split: option.split if_split list.split)

lemma format_loop_no_panic: "sv_ok p \<Longrightarrow> format_loop view repr kwargs p fa result \<noteq> Panic"
proof (induction view repr kwargs p fa result rule: format_loop.induct)
  case (1 view repr kwargs p fa result)
  have w: "sv_ok w" if "fp_next p = Ok (Some t, w)" for t w using fp_next_cases [of p] that "1.prems" by simp
  show ?case
  proof (cases "fp_next p")
    case (Ok tw)
    obtain t w where tw: "tw = (t, w)" by (cases tw)
    with Ok 1 w format_capture_no_panic [of view repr _ _ fa kwargs result] show ?thesis
      by (subst format_loop.simps) (auto split: outcome.split option.split format_token.split)
  next
    case Panic
    with fp_next_cases [of p] "1.prems" show ?thesis by simp
  qed (simp add: format_loop.simps)
qed

text \<open>A colon is an ordinary character of a field, so that \<open>{c:}\<close> is the keyword argument named \<open>c:\<close>.\<close>

lemma format_spec_is_name:
  assumes s: "s = ''{'' @ c @ '':}''" and c: "field_ok c" "\<not> list_ex reserved_in_field c" and ok: "ascii_cuts s"
  shows "format_str view repr s args kwargs =
    (case kwargs (c @ '':'') of None \<Rightarrow> Err (FieldKeyNotFound (c @ '':'')) | Some v \<Rightarrow> Ok (apply_conv view repr ConvStr v))"
proof -
  let ?c = "c @ '':''"
  have s': "sv_rest (sv_new s) = s @ []" "sv_i (sv_new s) = 0" by (simp_all add: sv_rest_def sv_new_def)
  have "token_src (Capture ?c 1 ConvStr) s" using c(1) by (auto simp: s field_ok_def brace_free_def)
  then obtain w where w: "fp_next (sv_new s) = Ok (Some (Capture ?c 1 ConvStr), w)" "advanced s (sv_new s) w"
    using fp_next_capture [OF s'(1) _ _ sv_ok_new [OF ok], of ?c 1 ConvStr] s'(2) by auto
  have "sv_rest w = []" by (rule advanced_rest [OF w(2) s'(1)])
  moreover have "sv_ok w" using fp_next_cases [of "sv_new s"] w(1) sv_ok_new [OF ok] by simp
  ultimately have last: "fp_next w = Ok (None, w)" by (simp add: fp_next_def next_loop.simps sv_rem_ok)
  have "find reserved_in_field ?c = None"
    using c(2) by (auto simp: find_None_iff list_ex_iff reserved_in_field_def)
  moreover have "\<not> is_ascii_digit CHR '':''" by (simp add: is_ascii_digit_def)
  ultimately have capture: "format_capture view repr ?c ConvStr fa kwargs [] =
      (case kwargs ?c of None \<Rightarrow> Err (FieldKeyNotFound ?c) | Some v \<Rightarrow> Ok (fa, apply_conv view repr ConvStr v))" for fa
    by (simp add: format_capture_def split: option.split)
  show ?thesis
    unfolding format_str_def using w(1) last
    by (subst format_loop.simps) (simp add: capture format_loop.simps [of _ _ _ w] split: option.split)
qed

subsection \<open>The state of the arguments\<close>

text \<open>After \<open>k\<close> automatically numbered fields.\<close>

definition fa_inv :: "'v list \<Rightarrow> nat \<Rightarrow> 'v format_args \<Rightarrow> bool" where
  "fa_inv args k fa \<longleftrightarrow> \<not> (fa_by_order fa \<and> fa_by_index fa) \<and>
     (if fa_by_index fa then fa_args fa = args else fa_iterator fa = drop k args \<and> fa_args fa = []) \<and>
     (\<not> fa_by_order fa \<longrightarrow> k = 0)"

lemma fa_inv_new: "fa_inv args 0 (fa_new args)"
  by (simp add: fa_inv_def fa_new_def)

lemma fa_next_ordered_spec:
  assumes "fa_inv args k fa"
  shows "fa_next_ordered fa = Ok y \<longleftrightarrow> (\<exists>fa'. y = (args ! k, fa') \<and> k < length args \<and> \<not> fa_by_index fa \<and>
           fa' = fa\<lparr>fa_by_order := True, fa_iterator := drop (Suc k) args\<rparr>)"
proof (cases "k < length args")
  case True
  from Cons_nth_drop_Suc [OF True] have "drop k args = args ! k # drop (Suc k) args" by simp
  with assms True show ?thesis by (auto simp: fa_inv_def fa_next_ordered_def Let_def)
next
  case False
  with assms show ?thesis by (auto simp: fa_inv_def fa_next_ordered_def Let_def)
qed

lemma fa_get_by_index_spec:
  assumes "fa_inv args k fa"
  shows "fa_get_by_index i fa = Ok y \<longleftrightarrow> (\<exists>fa'. y = (args ! i, fa') \<and> i < length args \<and> \<not> fa_by_order fa \<and>
           fa' = (if fa_by_index fa then fa else fa\<lparr>fa_args := args, fa_iterator := [], fa_by_index := True\<rparr>))"
  using assms by (auto simp: fa_inv_def fa_get_by_index_def Let_def)

lemma find_reserved: "find reserved_in_field c = None \<longleftrightarrow> \<not> list_ex reserved_in_field c"
  by (auto simp: find_None_iff list_ex_iff)

lemma format_capture_Ok_iff:
  assumes inv: "fa_inv args k fa"
  shows "format_capture view repr c conv fa kwargs result = Ok (fa', r) \<longleftrightarrow>
     (\<exists>v. field_arg args kwargs k c = Some v \<and> r = result @ apply_conv view repr conv v) \<and>
     \<not> (c = [] \<and> fa_by_index fa) \<and> \<not> (c \<noteq> [] \<and> list_all is_ascii_digit c \<and> fa_by_order fa) \<and>
     fa' = (if c = [] then fa\<lparr>fa_by_order := True, fa_iterator := drop (Suc k) args\<rparr>
            else if list_all is_ascii_digit c \<and> \<not> fa_by_index fa then fa\<lparr>fa_args := args, fa_iterator := [], fa_by_index := True\<rparr>
            else fa)"
proof (cases "c = []")
  case True
  then show ?thesis
    by (auto simp: format_capture_def bind_outcome_Ok_iff fa_next_ordered_spec [OF inv] field_arg_def)
next
  case False
  show ?thesis
  proof (cases "list_all is_ascii_digit c")
    case True
    with False show ?thesis
      by (auto simp: format_capture_def bind_outcome_Ok_iff usize_from_digits_def fa_get_by_index_spec [OF inv] field_arg_def)
  next
    case no_digits: False
    with False show ?thesis
      using find_reserved [of c]
      by (cases "find reserved_in_field c") (auto simp: format_capture_def field_arg_def split: option.split)
  qed
qed

lemma fa_inv_capture:
  "fa_inv args k fa \<Longrightarrow> format_capture view repr c conv fa kwargs result = Ok (fa', r) \<Longrightarrow>
   fa_inv args (if c = [] then Suc k else k) fa'"
  using format_capture_Ok_iff [of args k fa view repr c conv kwargs result fa' r]
  by (cases "c = []") (auto simp: fa_inv_def)

lemma eval_tokens_Ok_iff:
  "fa_inv args k fa \<Longrightarrow> eval_tokens view repr kwargs ts fa result = Ok r \<longleftrightarrow>
     (\<exists>x. render_tokens view repr args kwargs k ts = Some x \<and> r = result @ x) \<and>
     \<not> ((fa_by_order fa \<or> list_ex auto_field ts) \<and> (fa_by_index fa \<or> list_ex manual_field ts))"
proof (induction view repr kwargs ts fa result arbitrary: k rule: eval_tokens.induct)
  case (1 view repr kwargs fa result)
  then show ?case by (auto simp: fa_inv_def)
next
  case (2 view repr kwargs t ts fa result)
  from "2.IH" [OF "2.prems"] show ?case by auto
next
  case (3 view repr kwargs e ts fa result)
  from "3.IH" [OF "3.prems"] show ?case by auto
next
  case (4 view repr kwargs c pos conv ts fa result)
  show ?case
  proof (cases "\<exists>fa' r'. format_capture view repr c conv fa kwargs result = Ok (fa', r')")
    case True
    then obtain fa' r' where *: "format_capture view repr c conv fa kwargs result = Ok (fa', r')" by blast
    note IH = "4.IH" [OF fa_inv_capture [OF "4.prems" *]]
    from * IH format_capture_Ok_iff [OF "4.prems", of view repr c conv kwargs result fa' r'] show ?thesis
      by (cases "c = []") auto
  next
    case False
    then have "\<not> (eval_tokens view repr kwargs (Capture c pos conv # ts) fa result = Ok r)"
      by (auto simp: bind_outcome_Ok_iff)
    moreover from False have "field_arg args kwargs k c = None \<or> (c = [] \<and> fa_by_index fa) \<or>
        (c \<noteq> [] \<and> list_all is_ascii_digit c \<and> fa_by_order fa)"
      by (auto simp: format_capture_Ok_iff [OF "4.prems"])
    ultimately show ?thesis by auto
  qed
qed

lemma eval_tokens_fresh:
  "eval_tokens view repr kwargs ts (fa_new args) [] = Ok r \<longleftrightarrow>
     render_tokens view repr args kwargs 0 ts = Some r \<and> \<not> (list_ex auto_field ts \<and> list_ex manual_field ts)"
  by (auto simp: eval_tokens_Ok_iff [OF fa_inv_new]) (simp_all add: fa_new_def)

text \<open>
  C19. What \<open>str.format\<close> computes, for every UTF-8 format string. It succeeds exactly when the format string parses, its
  fields are not both automatically and manually numbered, and every field refers to an argument (by position,
  by index or by name). The result is then the text with every field replaced by the \<open>str\<close> or \<open>repr\<close> of its
  argument. No slice of the parser panics. The empty format specifier that the documentation of \<open>str.format\<close> allows is
  not recognised: \<open>{c:}\<close> is the keyword argument with the name \<open>c:\<close>.
\<close>

theorem format_correct:
  assumes "list_all is_scalar cs" and "s = utf8 cs"
  shows "(format_str view repr s args kwargs = Ok r \<longleftrightarrow>
     (\<exists>ts. tokens_at 0 ts s \<and> \<not> (list_ex auto_field ts \<and> list_ex manual_field ts) \<and>
        render_tokens view repr args kwargs 0 ts = Some r)) \<and>
   format_str view repr s args kwargs \<noteq> Panic \<and>
   (s = ''{'' @ c @ '':}'' \<and> field_ok c \<and> \<not> list_ex reserved_in_field c \<longrightarrow>
      format_str view repr s args kwargs =
        (case kwargs (c @ '':'') of None \<Rightarrow> Err (FieldKeyNotFound (c @ '':'')) | Some v \<Rightarrow> Ok (apply_conv view repr ConvStr v)))"
proof -
  have ok: "ascii_cuts s" using ascii_cuts_utf8 assms by simp
  have "format_str view repr s args kwargs = Ok r \<longleftrightarrow>
     (\<exists>ts. tokens_at 0 ts s \<and> \<not> (list_ex auto_field ts \<and> list_ex manual_field ts) \<and>
        render_tokens view repr args kwargs 0 ts = Some r)"
    by (auto simp: format_str_def format_loop_tokens eval_tokens_fresh format_tokens_new_iff [OF ok])
  then show ?thesis
    using format_loop_no_panic [OF sv_ok_new [OF ok]] format_spec_is_name [of s c] ok unfolding format_str_def by blast
qed

theorem format_correct_witness:
  "format_str (\<lambda>n::nat. ViewOther :: (nat, unit) value_view) (\<lambda>n. ''7'') ''{}'' [7] (\<lambda>_. None) = Ok ''7'' \<and>
   format_str (\<lambda>n::nat. ViewOther :: (nat, unit) value_view) (\<lambda>n. ''7'') ''{x:}'' [] [''x'' \<mapsto> 7] = Err (FieldKeyNotFound ''x:'')"
proof
  have s: "list_all is_scalar [123, 125]" "''{}'' = utf8 [123, 125]"
    by (simp_all add: encode_def eq_char_of_iff char_of_eq_iff take_bit_eq_mod)
  have "tokens_at 0 [Capture [] 1 ConvStr] ''{}''" by (simp add: field_ok_def brace_free_def)
  then show "format_str (\<lambda>n::nat. ViewOther :: (nat, unit) value_view) (\<lambda>n. ''7'') ''{}'' [7] (\<lambda>_. None) = Ok ''7''"
    using format_correct [OF s, of "\<lambda>n::nat. ViewOther :: (nat, unit) value_view" "\<lambda>n. ''7''" "[7]" "\<lambda>_. None" "''7''"]
    by (auto simp: field_arg_def apply_conv_def collect_str_def intro!: exI [of _ "[Capture [] 1 ConvStr]"])
  have s: "list_all is_scalar [123, 120, 58, 125]" "''{x:}'' = utf8 [123, 120, 58, 125]"
    by (simp_all add: encode_def eq_char_of_iff char_of_eq_iff take_bit_eq_mod)
  show "format_str (\<lambda>n::nat. ViewOther :: (nat, unit) value_view) (\<lambda>n. ''7'') ''{x:}'' [] [''x'' \<mapsto> 7] = Err (FieldKeyNotFound ''x:'')"
    using format_correct [OF s, of "\<lambda>n::nat. ViewOther :: (nat, unit) value_view" "\<lambda>n. ''7''" "[]" "[''x'' \<mapsto> 7]" "[]" "''x''"]
    by (simp add: field_ok_def brace_free_def reserved_in_field_def)
qed

subsection \<open>The single field\<close>

lemma parse_one_after_tokens:
  "parse_one_after p x = Some a \<Longrightarrow> \<exists>ts y. format_tokens p = Ok ts \<and> a = x @ y \<and>
     render_tokens view repr args kwargs k ts = Some y \<and> list_all (\<lambda>t. \<not> auto_field t \<and> \<not> manual_field t) ts"
proof (induction p x arbitrary: a rule: parse_one_after.induct)
  case (1 p x)
  from "1.prems" fp_next_cases [of p] consider
      (none) w where "fp_next p = Ok (None, w)" "a = x"
    | (lit) t w where "fp_next p = Ok (Some (Text t), w)" "parse_one_after w (x @ t) = Some a"
    | (esc) e w where "fp_next p = Ok (Some (Escape e), w)" "parse_one_after w (x @ esc_as_str e) = Some a"
    by (subst (asm) parse_one_after.simps) (auto split: outcome.splits option.splits format_token.splits)
  then show ?case
  proof cases
    case none
    then show ?thesis by (simp add: format_tokens_Ok_iff [of p])
  next
    case lit
    from "1.IH"(1) [OF lit(1) refl refl refl lit(2)] lit(1) show ?thesis
      by (fastforce simp: format_tokens_Ok_iff [of p])
  next
    case esc
    from "1.IH"(2) [OF esc(1) refl refl refl esc(2)] esc(1) show ?thesis
      by (fastforce simp: format_tokens_Ok_iff [of p])
  qed
qed

lemma parse_one_before_tokens:
  "parse_one_before p x = Some (b, w) \<Longrightarrow> \<exists>us y pos. b = x @ y \<and>
     (\<forall>ts. format_tokens w = Ok ts \<longrightarrow> format_tokens p = Ok (us @ Capture [] pos ConvStr # ts)) \<and>
     (\<forall>rest. render_tokens view repr args kwargs k (us @ rest) = map_option (append y) (render_tokens view repr args kwargs k rest)) \<and>
     list_all (\<lambda>t. \<not> auto_field t \<and> \<not> manual_field t) us"
proof (induction p x arbitrary: b w rule: parse_one_before.induct)
  case (1 p x)
  from "1.prems" consider
      (capture) pos where "fp_next p = Ok (Some (Capture [] pos ConvStr), w)" "b = x"
    | (lit) t w' where "fp_next p = Ok (Some (Text t), w')" "parse_one_before w' (x @ t) = Some (b, w)"
    | (esc) e w' where "fp_next p = Ok (Some (Escape e), w')" "parse_one_before w' (x @ esc_as_str e) = Some (b, w)"
    by (subst (asm) parse_one_before.simps) (auto split: outcome.splits option.splits format_token.splits if_splits)
  then show ?case
  proof cases
    case capture
    then show ?thesis
      by (intro exI [of _ "[]"] exI [of _ pos]) (auto simp: format_tokens_Ok_iff [of p] option.map_ident)
  next
    case lit
    from "1.IH"(1) [OF lit(1) refl refl refl lit(2)] obtain us y pos where *: "b = (x @ t) @ y"
      "\<forall>ts. format_tokens w = Ok ts \<longrightarrow> format_tokens w' = Ok (us @ Capture [] pos ConvStr # ts)"
      "\<forall>rest. render_tokens view repr args kwargs k (us @ rest) = map_option (append y) (render_tokens view repr args kwargs k rest)"
      "list_all (\<lambda>t. \<not> auto_field t \<and> \<not> manual_field t) us" by blast
    with lit(1) show ?thesis
      by (intro exI [of _ "Text t # us"] exI [of _ "t @ y"] exI [of _ pos])
        (auto simp: format_tokens_Ok_iff [of p] option.map_comp comp_def)
  next
    case esc
    from "1.IH"(2) [OF esc(1) refl refl refl esc(2)] obtain us y pos where *: "b = (x @ esc_as_str e) @ y"
      "\<forall>ts. format_tokens w = Ok ts \<longrightarrow> format_tokens w' = Ok (us @ Capture [] pos ConvStr # ts)"
      "\<forall>rest. render_tokens view repr args kwargs k (us @ rest) = map_option (append y) (render_tokens view repr args kwargs k rest)"
      "list_all (\<lambda>t. \<not> auto_field t \<and> \<not> manual_field t) us" by blast
    with esc(1) show ?thesis
      by (intro exI [of _ "Escape e # us"] exI [of _ "esc_as_str e @ y"] exI [of _ pos])
        (auto simp: format_tokens_Ok_iff [of p] option.map_comp comp_def)
  qed
qed

lemma list_ex_plain: "list_all (\<lambda>t. \<not> auto_field t \<and> \<not> manual_field t) ts \<Longrightarrow> \<not> list_ex auto_field ts \<and> \<not> list_ex manual_field ts"
  by (auto simp: list_all_iff list_ex_iff)

lemma format_one_apply: "format_one view repr b v a = b @ apply_conv view repr ConvStr v @ a"
  by (simp add: format_one_def apply_conv_def collect_str_def split: option.split)

text \<open>
  The shortcut for a single field. When \<open>parse_format_one\<close> splits a format string, the compiled form
  \<open>format_one\<close> of it gives on every argument the string that \<open>format\<close> gives on the original format string.
\<close>

theorem format_one_shortcut:
  assumes "parse_format_one s = Some (b, a)"
  shows "format_str view repr s [v] kwargs = Ok (format_one view repr b v a)"
proof -
  from assms obtain p where p: "parse_one_before (sv_new s) [] = Some (b, p)" "parse_one_after p [] = Some a"
    by (auto simp: parse_format_one_def split: option.splits)
  obtain ts where ts: "format_tokens p = Ok ts" "render_tokens view repr [v] kwargs 1 ts = Some a"
    "list_all (\<lambda>t. \<not> auto_field t \<and> \<not> manual_field t) ts"
    using parse_one_after_tokens [OF p(2), of view repr "[v]" kwargs 1] by auto
  obtain us pos where us: "format_tokens (sv_new s) = Ok (us @ Capture [] pos ConvStr # ts)"
    "render_tokens view repr [v] kwargs 0 (us @ Capture [] pos ConvStr # ts) =
       map_option (append b) (render_tokens view repr [v] kwargs 0 (Capture [] pos ConvStr # ts))"
    "list_all (\<lambda>t. \<not> auto_field t \<and> \<not> manual_field t) us"
    using parse_one_before_tokens [OF p(1), of view repr "[v]" kwargs 0] ts(1) by auto
  have "eval_tokens view repr kwargs (us @ Capture [] pos ConvStr # ts) (fa_new [v]) [] = Ok (format_one view repr b v a)"
    using us(2) ts(2) list_ex_plain [OF us(3)] list_ex_plain [OF ts(3)]
    by (simp add: eval_tokens_fresh field_arg_def format_one_apply)
  with us(1) show ?thesis unfolding format_str_def format_loop_tokens by blast
qed

theorem format_one_shortcut_witness:
  "parse_format_one ''a{{{!s}}}c'' = Some (''a{'', ''}c'') \<and>
   format_str (\<lambda>n::nat. ViewOther :: (nat, unit) value_view) (\<lambda>n. ''7'') ''a{{{!s}}}c'' [7] (\<lambda>_. None) = Ok ''a{7}c''"
proof
  show *: "parse_format_one ''a{{{!s}}}c'' = Some (''a{'', ''}c'')" by code_simp
  show "format_str (\<lambda>n::nat. ViewOther :: (nat, unit) value_view) (\<lambda>n. ''7'') ''a{{{!s}}}c'' [7] (\<lambda>_. None) = Ok ''a{7}c''"
    using format_one_shortcut [OF *, of "\<lambda>n::nat. ViewOther :: (nat, unit) value_view" "\<lambda>n. ''7''" 7 "\<lambda>_. None"]
    by (simp add: format_one_def)
qed

end
