(* ===== verification/Percent_Format.thy ===== *)
theory Percent_Format
  imports Dot_Format
begin

text \<open>
  The operator \<open>%\<close> on strings, \<^verbatim>\<open>starlark/src/values/types/string/interpolation.rs\<close>: the iterator
  \<open>PercentFormatParser\<close>, \<open>percent\<close>, and the shortcut \<open>parse_percent_s_one\<close>/\<open>percent_s_one\<close> for a single \<open>%s\<close>.

  Floats are an argument type \<open>'f\<close> with the operations of \<open>float_ops\<close> (truncation and the conversions and
  printers of \<^verbatim>\<open>float.rs\<close> and \<^verbatim>\<open>num/value.rs\<close>, which compute with \<open>f64\<close>). Strings are lists of bytes, valid UTF-8.
\<close>

subsection \<open>The parser\<close>

datatype 'v interpolation_error =
    PercentTooManyParameters
  | PercentNotEnoughParameters
  | IncompleteFormat
  | UnsupportedFormatCharacter string
  | ExpectingFormatCharacter
  | UnsupportedType 'v string
  | NotANumber 'v

datatype percent_s_format =
    PStr | PRepr | PDec | POct | PHex | PHexUpper | PExp | PExpUpper | PFloat | PFloatCompact | PFloatCompactUpper

record percent_item =
  pi_literal :: string
  pi_format :: "percent_s_format option"

text \<open>The bytes of the first character of a UTF-8 string.\<close>

definition first_char :: "string \<Rightarrow> string option" where
  "first_char s =
     (case s of
        [] \<Rightarrow> None
      | c # _ \<Rightarrow> let b = (of_char c :: nat) in Some (take (if b < 0xC0 then 1 else if b < 0xE0 then 2 else if b < 0xF0 then 3 else 4) s))"

definition percent_format_of :: "char \<Rightarrow> percent_s_format option" where
  "percent_format_of f =
     (if f = CHR ''s'' then Some PStr
      else if f = CHR ''r'' then Some PRepr
      else if f = CHR ''d'' then Some PDec
      else if f = CHR ''o'' then Some POct
      else if f = CHR ''x'' then Some PHex
      else if f = CHR ''X'' then Some PHexUpper
      else if f = CHR ''e'' then Some PExp
      else if f = CHR ''E'' then Some PExpUpper
      else if f = CHR ''f'' \<or> f = CHR ''F'' then Some PFloat
      else if f = CHR ''g'' then Some PFloatCompact
      else if f = CHR ''G'' then Some PFloatCompactUpper
      else None)"

definition percent_next :: "string \<Rightarrow> ('v interpolation_error, percent_item option \<times> string) outcome" where
  "percent_next rem =
     (case find_index (\<lambda>c. c = CHR ''%'') rem of
        Some index_of_percent \<Rightarrow>
          (let prev_rem = rem; literal = take index_of_percent rem; rem = drop index_of_percent rem
           in if length rem \<le> 1 then Err IncompleteFormat
              else let f = rem ! 1
                   in if f = CHR ''%'' then
                        Ok (Some \<lparr>pi_literal = take (index_of_percent + 1) prev_rem, pi_format = None\<rparr>, drop 2 rem)
                      else (case percent_format_of f of
                              Some k \<Rightarrow> Ok (Some \<lparr>pi_literal = literal, pi_format = Some k\<rparr>, drop 2 rem)
                            | None \<Rightarrow>
                                (case first_char (drop 1 rem) of
                                   None \<Rightarrow> Err ExpectingFormatCharacter
                                 | Some c \<Rightarrow> Err (UnsupportedFormatCharacter c))))
      | None \<Rightarrow>
          if rem = [] then Ok (None, rem)
          else Ok (Some \<lparr>pi_literal = rem, pi_format = None\<rparr>, []))"

lemma percent_next_shrinks: "percent_next rem = Ok (Some item, rem') \<Longrightarrow> length rem' < length rem"
  by (auto simp: percent_next_def Let_def split: option.splits if_splits)

subsection \<open>Printing integers\<close>

definition radix_digit :: "bool \<Rightarrow> nat \<Rightarrow> char" where
  "radix_digit upper d = char_of (if d < 10 then 48 + d else (if upper then 55 else 87) + d)"

function radix_digits :: "bool \<Rightarrow> nat \<Rightarrow> nat \<Rightarrow> string" where
  "radix_digits upper b n =
     (if b < 2 \<or> n < b then [radix_digit upper n] else radix_digits upper b (n div b) @ [radix_digit upper (n mod b)])"
  by pat_completeness auto
termination by (relation "measure (\<lambda>(upper, b, n). n)") auto

declare radix_digits.simps [simp del]

definition show_dec :: "int \<Rightarrow> string" where
  "show_dec v = (if v < 0 then ''-'' else []) @ radix_digits False 10 (nat \<bar>v\<bar>)"

definition i32_min_octal :: string where "i32_min_octal = ''-20000000000''"

definition i32_min_hex :: string where "i32_min_hex = ''-80000000''"

definition show_radix :: "bool \<Rightarrow> nat \<Rightarrow> string \<Rightarrow> starlark_int \<Rightarrow> string" where
  "show_radix upper b i32_min_text i =
     (case i of
        Small v \<Rightarrow>
          (case checked_i32 \<bar>v\<bar> of
             Some vp \<Rightarrow> (if v < 0 then ''-'' else []) @ radix_digits upper b (nat vp)
           | None \<Rightarrow> i32_min_text)
      | Big v \<Rightarrow> (if v < 0 then ''-'' else []) @ radix_digits upper b (nat \<bar>v\<bar>))"

subsection \<open>Evaluation\<close>

record 'f float_ops =
  float_trunc_as_int :: "'f \<Rightarrow> int option"
  float_of_int :: "starlark_int \<Rightarrow> 'f"
  write_scientific :: "'f \<Rightarrow> char \<Rightarrow> string"
  write_decimal :: "'f \<Rightarrow> string"
  write_compact :: "'f \<Rightarrow> char \<Rightarrow> string"

definition unpack_float :: "'f float_ops \<Rightarrow> ('v \<Rightarrow> ('v, 'f) value_view) \<Rightarrow> 'v \<Rightarrow> ('v interpolation_error, 'f) outcome" where
  "unpack_float F view v =
     (case view v of ViewInt i \<Rightarrow> Ok (float_of_int F i) | ViewFloat f \<Rightarrow> Ok f | _ \<Rightarrow> Err (NotANumber v))"

definition show_int_arg ::
  "('v \<Rightarrow> ('v, 'f) value_view) \<Rightarrow> string \<Rightarrow> (starlark_int \<Rightarrow> string) \<Rightarrow> 'v \<Rightarrow> ('v interpolation_error, string) outcome" where
  "show_int_arg view op show_int v = (case view v of ViewInt i \<Rightarrow> Ok (show_int i) | _ \<Rightarrow> Err (UnsupportedType v op))"

definition percent_arg ::
  "'f float_ops \<Rightarrow> ('v \<Rightarrow> ('v, 'f) value_view) \<Rightarrow> ('v \<Rightarrow> string) \<Rightarrow> percent_s_format \<Rightarrow> 'v \<Rightarrow> ('v interpolation_error, string) outcome" where
  "percent_arg F view repr fmt v =
     (case fmt of
        PStr \<Rightarrow> (case unpack_str (view v) of None \<Rightarrow> Ok (repr v) | Some s \<Rightarrow> Ok s)
      | PRepr \<Rightarrow> Ok (repr v)
      | PDec \<Rightarrow>
          (case view v of
             ViewInt i \<Rightarrow> Ok (show_dec (si_to_big i))
           | ViewFloat f \<Rightarrow>
               (case float_trunc_as_int F f of
                  Some i \<Rightarrow> Ok (show_dec i)
                | None \<Rightarrow> Err (UnsupportedType v ''format(%d)''))
           | _ \<Rightarrow> Err (UnsupportedType v ''format(%d)''))
      | POct \<Rightarrow> show_int_arg view ''format(%o)'' (show_radix False 8 i32_min_octal) v
      | PHex \<Rightarrow> show_int_arg view ''format(%x)'' (show_radix False 16 i32_min_hex) v
      | PHexUpper \<Rightarrow> show_int_arg view ''format(%X)'' (show_radix True 16 i32_min_hex) v
      | PExp \<Rightarrow> bind_outcome (unpack_float F view v) (\<lambda>f. Ok (write_scientific F f (CHR ''e'')))
      | PExpUpper \<Rightarrow> bind_outcome (unpack_float F view v) (\<lambda>f. Ok (write_scientific F f (CHR ''E'')))
      | PFloat \<Rightarrow> bind_outcome (unpack_float F view v) (\<lambda>f. Ok (write_decimal F f))
      | PFloatCompact \<Rightarrow> bind_outcome (unpack_float F view v) (\<lambda>f. Ok (write_compact F f (CHR ''e'')))
      | PFloatCompactUpper \<Rightarrow> bind_outcome (unpack_float F view v) (\<lambda>f. Ok (write_compact F f (CHR ''E''))))"

function percent_loop ::
  "'f float_ops \<Rightarrow> ('v \<Rightarrow> ('v, 'f) value_view) \<Rightarrow> ('v \<Rightarrow> string) \<Rightarrow> string \<Rightarrow> 'v list \<Rightarrow> string \<Rightarrow>
   ('v interpolation_error, string) outcome" where
  "percent_loop F view repr rem values res =
     (case percent_next rem of
        Ok (None, rem') \<Rightarrow> if values \<noteq> [] then Err PercentTooManyParameters else Ok res
      | Ok (Some item, rem') \<Rightarrow>
          (let res = res @ pi_literal item
           in case pi_format item of
                None \<Rightarrow> percent_loop F view repr rem' values res
              | Some fmt \<Rightarrow>
                  (case values of
                     [] \<Rightarrow> Err PercentNotEnoughParameters
                   | v # values' \<Rightarrow>
                       (case percent_arg F view repr fmt v of
                          Ok out \<Rightarrow> percent_loop F view repr rem' values' (res @ out)
                        | Err e \<Rightarrow> Err e
                        | Panic \<Rightarrow> Panic)))
      | Err e \<Rightarrow> Err e
      | Panic \<Rightarrow> Panic)"
  by pat_completeness auto
termination
  by (relation "measure (\<lambda>(F, view, repr, rem, values, res). length rem)") (auto dest: percent_next_shrinks)

declare percent_loop.simps [simp del]

definition percent ::
  "'f float_ops \<Rightarrow> ('v \<Rightarrow> ('v, 'f) value_view) \<Rightarrow> ('v \<Rightarrow> string) \<Rightarrow> string \<Rightarrow> 'v \<Rightarrow> ('v interpolation_error, string) outcome" where
  "percent F view repr format v = percent_loop F view repr format (case view v of ViewTuple xs \<Rightarrow> xs | _ \<Rightarrow> [v]) []"

subsection \<open>The shortcut for a single \<open>%s\<close>\<close>

fun percent_s_before :: "string \<Rightarrow> string \<Rightarrow> (string \<times> string) option" where
  "percent_s_before before [] = None"
| "percent_s_before before (c # format) =
     (if c = CHR ''%'' then
        (case format of
           [] \<Rightarrow> None
         | d # format' \<Rightarrow>
             if d = CHR ''%'' then percent_s_before (before @ ''%'') format'
             else if d = CHR ''s'' then Some (before, format')
             else None)
      else percent_s_before (before @ [c]) format)"

fun percent_s_after :: "string \<Rightarrow> string \<Rightarrow> string option" where
  "percent_s_after after [] = Some after"
| "percent_s_after after (c # format) =
     (if c = CHR ''%'' then
        (case format of
           [] \<Rightarrow> None
         | d # format' \<Rightarrow> if d = CHR ''%'' then percent_s_after (after @ ''%'') format' else None)
      else percent_s_after (after @ [c]) format)"

definition parse_percent_s_one :: "string \<Rightarrow> (string \<times> string) option" where
  "parse_percent_s_one format =
     (case percent_s_before [] format of
        None \<Rightarrow> None
      | Some (before, format) \<Rightarrow> map_option (\<lambda>after. (before, after)) (percent_s_after [] format))"

definition percent_s_one ::
  "('v \<Rightarrow> ('v, 'f) value_view) \<Rightarrow> ('v \<Rightarrow> string) \<Rightarrow> string \<Rightarrow> 'v \<Rightarrow> string \<Rightarrow> ('v interpolation_error, string) outcome" where
  "percent_s_one view repr before arg after =
     (case unpack_str (view arg) of
        Some s \<Rightarrow> Ok (before @ s @ after)
      | None \<Rightarrow>
          (case view arg of
             ViewTuple content \<Rightarrow>
               (case content of
                  [] \<Rightarrow> Err PercentNotEnoughParameters
                | [v] \<Rightarrow> Ok (format_one view repr before v after)
                | _ \<Rightarrow> Err PercentTooManyParameters)
           | _ \<Rightarrow> Ok (format_one view repr before arg after)))"

subsection \<open>The loop character by character\<close>

lemma percent_next_char:
  "c \<noteq> CHR ''%'' \<Longrightarrow> percent_next (c # r) =
     (case percent_next r of
        Ok (Some item, r') \<Rightarrow> Ok (Some (item\<lparr>pi_literal := c # pi_literal item\<rparr>), r')
      | Ok (None, r') \<Rightarrow> Ok (Some \<lparr>pi_literal = [c], pi_format = None\<rparr>, [])
      | Err e \<Rightarrow> Err e
      | Panic \<Rightarrow> Panic)"
  by (cases "find_index (\<lambda>c. c = CHR ''%'') r") (auto simp: percent_next_def Let_def split: option.split)

lemma percent_next_escape:
  "percent_next (CHR ''%'' # CHR ''%'' # r) = Ok (Some \<lparr>pi_literal = ''%'', pi_format = None\<rparr>, r)"
  by (simp add: percent_next_def)

lemma percent_next_s:
  "percent_next (CHR ''%'' # CHR ''s'' # r) = Ok (Some \<lparr>pi_literal = [], pi_format = Some PStr\<rparr>, r)"
  by (simp add: percent_next_def percent_format_of_def)

lemma percent_next_nil [simp]: "percent_next [] = Ok (None, [])"
  by (simp add: percent_next_def)

lemma percent_next_None: "percent_next r = Ok (None, r') \<Longrightarrow> r = []"
  by (auto simp: percent_next_def Let_def split: option.splits if_splits)

lemma percent_loop_char:
  assumes "c \<noteq> CHR ''%''"
  shows "percent_loop F view repr (c # r) values res = percent_loop F view repr r values (res @ [c])"
proof (cases "percent_next r :: ('a interpolation_error, _) outcome")
  case (Ok y)
  obtain item r' where y: "y = (item, r')" by (cases y)
  show ?thesis
  proof (cases item)
    case None
    with Ok y percent_next_None [of r r'] have "r = []" by blast
    then show ?thesis
      using assms by (subst percent_loop.simps) (simp add: percent_next_char)
  next
    case (Some it)
    with Ok y assms show ?thesis
      by (subst (1 2) percent_loop.simps) (simp add: percent_next_char Let_def)
  qed
next
  case (Err e)
  with assms show ?thesis by (subst (1 2) percent_loop.simps) (simp add: percent_next_char)
next
  case Panic
  with assms show ?thesis by (subst (1 2) percent_loop.simps) (simp add: percent_next_char)
qed

lemma percent_loop_escape:
  "percent_loop F view repr (CHR ''%'' # CHR ''%'' # r) values res = percent_loop F view repr r values (res @ ''%'')"
  by (subst percent_loop.simps) (simp add: percent_next_escape Let_def)

lemma percent_loop_s:
  "percent_loop F view repr (CHR ''%'' # CHR ''s'' # r) values res =
     (case values of [] \<Rightarrow> Err PercentNotEnoughParameters
      | v # values' \<Rightarrow> percent_loop F view repr r values' (res @ collect_str view repr v))"
  by (subst percent_loop.simps)
    (simp add: percent_next_s Let_def percent_arg_def collect_str_def split: list.split option.split)

lemma percent_loop_nil:
  "percent_loop F view repr [] values res = (if values \<noteq> [] then Err PercentTooManyParameters else Ok res)"
  by (subst percent_loop.simps) simp

lemma percent_s_after_loop:
  "percent_s_after a format = Some a' \<Longrightarrow>
   percent_loop F view repr format values (res @ a) = (if values \<noteq> [] then Err PercentTooManyParameters else Ok (res @ a'))"
proof (induction a format rule: percent_s_after.induct)
  case (2 a c format)
  then show ?case
    by (auto simp: percent_loop_char percent_loop_escape split: if_splits list.splits)
qed (simp add: percent_loop_nil)

lemma percent_s_before_loop:
  "percent_s_before b format = Some (b', rest) \<Longrightarrow>
   percent_loop F view repr format values b = percent_loop F view repr (CHR ''%'' # CHR ''s'' # rest) values b'"
proof (induction b format rule: percent_s_before.induct)
  case (2 b c format)
  then show ?case
    by (auto simp: percent_loop_char percent_loop_escape split: if_splits list.splits)
qed simp

text \<open>
  The shortcut for a single \<open>%s\<close>. When \<open>parse_percent_s_one\<close> splits a format string, \<open>percent_s_one\<close> on the
  two parts returns on every argument (a string, a tuple of any length or another value) what the
  general \<open>percent\<close> returns on the original format string, errors included.
\<close>

theorem percent_s_one_shortcut:
  assumes "parse_percent_s_one format = Some (b, a)"
  shows "percent F view repr format v = percent_s_one view repr b v a"
proof -
  from assms obtain rest where *: "percent_s_before [] format = Some (b, rest)" "percent_s_after [] rest = Some a"
    by (auto simp: parse_percent_s_one_def split: option.splits)
  have "percent_loop F view repr format vs [] =
     (case vs of [] \<Rightarrow> Err PercentNotEnoughParameters
      | v # values' \<Rightarrow> if values' \<noteq> [] then Err PercentTooManyParameters else Ok (b @ collect_str view repr v @ a))" for vs
    using percent_s_before_loop [OF *(1), of F view repr vs] percent_s_after_loop [OF *(2), of F view repr]
    by (auto simp: percent_loop_s split: list.split)
  then show ?thesis
    by (auto simp: percent_def percent_s_one_def format_one_def collect_str_def split: value_view.split list.split option.split)
qed

theorem percent_s_one_shortcut_witness:
  "parse_percent_s_one ''a%%b%sc'' = Some (''a%b'', ''c'') \<and>
   percent \<lparr>float_trunc_as_int = (\<lambda>_::unit. None), float_of_int = (\<lambda>_. ()), write_scientific = (\<lambda>_ _. []),
     write_decimal = (\<lambda>_. []), write_compact = (\<lambda>_ _. [])\<rparr>
     (\<lambda>n::nat. ViewTuple [n, n]) (\<lambda>_. ''r'') ''a%%b%sc'' 4 = Err PercentTooManyParameters"
proof
  show *: "parse_percent_s_one ''a%%b%sc'' = Some (''a%b'', ''c'')" by code_simp
  show "percent \<lparr>float_trunc_as_int = (\<lambda>_::unit. None), float_of_int = (\<lambda>_. ()), write_scientific = (\<lambda>_ _. []),
     write_decimal = (\<lambda>_. []), write_compact = (\<lambda>_ _. [])\<rparr>
     (\<lambda>n::nat. ViewTuple [n, n]) (\<lambda>_. ''r'') ''a%%b%sc'' 4 = Err PercentTooManyParameters"
    unfolding percent_s_one_shortcut [OF *] by (simp add: percent_s_one_def)
qed

subsection \<open>Reading integers back\<close>

definition digit_value :: "char \<Rightarrow> nat" where
  "digit_value c = (let b = of_char c in if b < 58 then b - 48 else if b < 97 then b - 55 else b - 87)"

definition nat_of_radix :: "nat \<Rightarrow> string \<Rightarrow> nat" where
  "nat_of_radix b s = foldl (\<lambda>n c. n * b + digit_value c) 0 s"

definition int_of_radix :: "nat \<Rightarrow> string \<Rightarrow> int" where
  "int_of_radix b s =
     (case s of c # t \<Rightarrow> if c = CHR ''-'' then - int (nat_of_radix b t) else int (nat_of_radix b s) | [] \<Rightarrow> 0)"

definition signed_digits :: "bool \<Rightarrow> nat \<Rightarrow> int \<Rightarrow> string" where
  "signed_digits upper b n = (if n < 0 then ''-'' else []) @ radix_digits upper b (nat \<bar>n\<bar>)"

lemma digit_value_radix_digit: "d < 16 \<Longrightarrow> digit_value (radix_digit upper d) = d"
  by (auto simp: digit_value_def radix_digit_def)

lemma radix_digit_not_minus: "d < 16 \<Longrightarrow> radix_digit upper d \<noteq> CHR ''-''"
proof
  assume "d < 16" "radix_digit upper d = CHR ''-''"
  then have "(of_char (radix_digit upper d) :: nat) = 45" by simp
  with \<open>d < 16\<close> show False by (auto simp: radix_digit_def split: if_splits)
qed

lemma nat_of_radix_digits: "2 \<le> b \<Longrightarrow> b \<le> 16 \<Longrightarrow> nat_of_radix b (radix_digits upper b n) = n"
proof (induction upper b n rule: radix_digits.induct)
  case (1 upper b n)
  show ?case
  proof (cases "n < b")
    case True
    with "1.prems" show ?thesis
      by (subst radix_digits.simps) (simp add: nat_of_radix_def digit_value_radix_digit)
  next
    case False
    have "n mod b < 16" using "1.prems" mod_less_divisor [of b n] by linarith
    with 1 False show ?thesis
      by (subst radix_digits.simps) (simp add: nat_of_radix_def digit_value_radix_digit)
  qed
qed

lemma radix_digits_hd: "2 \<le> b \<Longrightarrow> b \<le> 16 \<Longrightarrow> \<exists>d t. d < 16 \<and> radix_digits upper b n = radix_digit upper d # t"
proof (induction upper b n rule: radix_digits.induct)
  case (1 upper b n)
  show ?case
  proof (cases "n < b")
    case True
    with "1.prems" show ?thesis by (subst radix_digits.simps) (auto intro!: exI [of _ n])
  next
    case False
    with 1 show ?thesis by (subst radix_digits.simps) fastforce
  qed
qed

lemma int_of_radix_signed_digits:
  assumes "2 \<le> b" "b \<le> 16"
  shows "int_of_radix b (signed_digits upper b n) = n"
proof -
  obtain d t where "d < 16" "radix_digits upper b (nat \<bar>n\<bar>) = radix_digit upper d # t"
    using radix_digits_hd [OF assms] by blast
  with nat_of_radix_digits [OF assms, of upper "nat \<bar>n\<bar>"] radix_digit_not_minus [of d upper] show ?thesis
    by (auto simp: int_of_radix_def signed_digits_def)
qed

lemma i32_min_texts:
  "signed_digits False 8 i32_min = i32_min_octal"
  "signed_digits upper 16 i32_min = i32_min_hex"
  by (simp_all add: signed_digits_def i32_min_def i32_min_octal_def i32_min_hex_def radix_digits.simps radix_digit_def char_of_eq_iff)

lemma show_radix_exact:
  assumes "bits = 32 \<or> bits = 29" "si_wf bits i" "signed_digits upper b i32_min = txt"
  shows "show_radix upper b txt i = signed_digits upper b (si_to_big i)"
proof (cases i)
  case (Small v)
  then have v: "in_i32 v" using assms(1,2) by (auto simp: in_inline_def i32_defs)
  show ?thesis
  proof (cases "v = i32_min")
    case True
    then have "checked_i32 \<bar>v\<bar> = None" by (simp add: checked_i32_def i32_defs)
    with Small True assms(3) show ?thesis by (simp add: show_radix_def)
  next
    case False
    with v have "in_i32 \<bar>v\<bar>" by (auto simp: i32_defs)
    with Small show ?thesis by (cases "v < 0") (simp_all add: show_radix_def signed_digits_def checked_i32_def)
  qed
qed (simp add: show_radix_def signed_digits_def)

lemma percent_next_format:
  "percent_format_of c = Some fmt \<Longrightarrow> c \<noteq> CHR ''%'' \<Longrightarrow>
   percent_next [CHR ''%'', c] = Ok (Some \<lparr>pi_literal = [], pi_format = Some fmt\<rparr>, [])"
  by (simp add: percent_next_def)

lemma percent_single:
  assumes "percent_format_of c = Some fmt" "c \<noteq> CHR ''%''" "\<forall>xs. view v \<noteq> ViewTuple xs"
  shows "percent F view repr [CHR ''%'', c] v = percent_arg F view repr fmt v"
proof -
  have "(case view v of ViewTuple xs \<Rightarrow> xs | _ \<Rightarrow> [v]) = [v]" using assms(3) by (cases "view v") auto
  then show ?thesis
    unfolding percent_def
    by (subst percent_loop.simps)
      (cases "percent_arg F view repr fmt v"; simp add: percent_loop_nil percent_next_format [OF assms(1,2)])
qed

lemma show_dec_signed: "show_dec n = signed_digits False 10 n"
  by (simp add: show_dec_def signed_digits_def)

text \<open>
  C21. \<open>%d\<close>, \<open>%o\<close>, \<open>%x\<close> and \<open>%X\<close> on integers. The result is the sign and the digits of the absolute value in the
  base, for inline and big integers alike, the hard-coded texts for the smallest \<open>i32\<close> included, and
  reading it back in that base gives the integer.
\<close>

theorem percent_integers_exact:
  assumes "bits = 32 \<or> bits = 29" and "view v = ViewInt i" and "si_wf bits i"
  shows "percent F view repr ''%d'' v = Ok (signed_digits False 10 (si_to_big i)) \<and>
    percent F view repr ''%o'' v = Ok (signed_digits False 8 (si_to_big i)) \<and>
    percent F view repr ''%x'' v = Ok (signed_digits False 16 (si_to_big i)) \<and>
    percent F view repr ''%X'' v = Ok (signed_digits True 16 (si_to_big i)) \<and>
    int_of_radix 10 (signed_digits False 10 (si_to_big i)) = si_to_big i \<and>
    int_of_radix 8 (signed_digits False 8 (si_to_big i)) = si_to_big i \<and>
    int_of_radix 16 (signed_digits upper 16 (si_to_big i)) = si_to_big i"
proof -
  note shown = show_radix_exact [OF assms(1,3) i32_min_texts(1)] show_radix_exact [OF assms(1,3) i32_min_texts(2)]
  have single: "percent_format_of c = Some fmt \<Longrightarrow> c \<noteq> CHR ''%'' \<Longrightarrow>
      percent F view repr [CHR ''%'', c] v = percent_arg F view repr fmt v" for c fmt
    using assms(2) by (intro percent_single) simp_all
  show ?thesis
    by (simp add: single percent_format_of_def percent_arg_def show_int_arg_def assms(2) shown
        int_of_radix_signed_digits show_dec_signed)
qed

theorem percent_integers_exact_witness:
  "\<forall>F :: unit float_ops. percent F (\<lambda>x. ViewInt (Small x)) (\<lambda>_. []) ''%x'' (- 2147483648) = Ok ''-80000000'' \<and>
   percent F (\<lambda>x. ViewInt (Small x)) (\<lambda>_. []) ''%X'' 255 = Ok ''FF''"
proof
  fix F :: "unit float_ops"
  have digits: "signed_digits False 16 (- 2147483648) = ''-80000000''" "signed_digits True 16 255 = ''FF''"
    by (simp_all add: signed_digits_def radix_digits.simps radix_digit_def char_of_eq_iff)
  show "percent F (\<lambda>x. ViewInt (Small x)) (\<lambda>_. []) ''%x'' (- 2147483648) = Ok ''-80000000'' \<and>
    percent F (\<lambda>x. ViewInt (Small x)) (\<lambda>_. []) ''%X'' 255 = Ok ''FF''"
    using percent_integers_exact [of 32 "\<lambda>x. ViewInt (Small x)" "- 2147483648" "Small (- 2147483648)" F "\<lambda>_. []"]
      percent_integers_exact [of 32 "\<lambda>x. ViewInt (Small x)" 255 "Small 255" F "\<lambda>_. []"]
    by (simp add: in_inline_def digits)
qed

end
