(* ===== verification/String_Repr.thy ===== *)
theory String_Repr
  imports Utf8 Percent_Format
begin

text \<open>
  \<open>repr\<close> of strings, \<^verbatim>\<open>starlark/src/values/types/string/repr.rs\<close>, with the vector operations of
  \<^verbatim>\<open>starlark/src/values/types/string/simd.rs\<close>. The vectorised loop looks at \<open>w\<close> bytes at a time and stores whole vectors
  into the spare capacity \<open>cap\<close> of the buffer, overlapping what it has written; a store outside of the
  buffer is \<open>None\<close>. The Unicode table \<open>char::is_alphanumeric\<close> is the argument \<open>alnum\<close>.
\<close>

abbreviation backslash :: char where "backslash \<equiv> CHR 0x5C"

abbreviation dquote :: char where "dquote \<equiv> CHR 0x22"

subsection \<open>Escapes\<close>

text \<open>The format \<open>{:0wx}\<close>.\<close>

definition hex_pad :: "nat \<Rightarrow> nat \<Rightarrow> string" where
  "hex_pad w n = (let d = radix_digits False 16 n in replicate (w - length d) (CHR ''0'') @ d)"

definition push_escape :: "nat \<Rightarrow> string \<Rightarrow> string" where
  "push_escape c buffer = buffer @
     (if c = 0x0A then [backslash, CHR ''n'']
      else if c = 0x0D then [backslash, CHR ''r'']
      else if c = 0x09 then [backslash, CHR ''t'']
      else if c = 0x5C then [backslash, backslash]
      else if c = 0x22 then [backslash, dquote]
      else if c < 0x100 then [backslash, CHR ''x''] @ hex_pad 2 c
      else if c < 0x10000 then [backslash, CHR ''u''] @ hex_pad 4 c
      else [backslash, CHR ''U''] @ hex_pad 8 c)"

definition need_escape :: "(nat \<Rightarrow> bool) \<Rightarrow> nat \<Rightarrow> bool" where
  "need_escape alnum c \<longleftrightarrow>
     (if c < 0x20 then True
      else if c = 0x22 then True
      else if c = 0x5C then True
      else if c < 0x7F then False
      else if c \<le> 0xFF then True
      else \<not> alnum c)"

fun loop_unicode_chars :: "(nat \<Rightarrow> bool) \<Rightarrow> nat list \<Rightarrow> string \<Rightarrow> string" where
  "loop_unicode_chars alnum [] buffer = buffer"
| "loop_unicode_chars alnum (x # xs) buffer =
     loop_unicode_chars alnum xs (if need_escape alnum x then push_escape x buffer else buffer @ encode x)"

definition loop_unicode :: "(nat \<Rightarrow> bool) \<Rightarrow> string \<Rightarrow> string \<Rightarrow> string" where
  "loop_unicode alnum val buffer = loop_unicode_chars alnum (chars val) buffer"

fun loop_ascii :: "(nat \<Rightarrow> bool) \<Rightarrow> string \<Rightarrow> string \<Rightarrow> string" where
  "loop_ascii alnum [] buffer = buffer"
| "loop_ascii alnum (x # val) buffer =
     (if byte x \<ge> 0x7F then loop_unicode alnum (x # val) buffer
      else if need_escape alnum (byte x) then loop_ascii alnum val (push_escape (byte x) buffer)
      else loop_ascii alnum val (buffer @ [x]))"

subsection \<open>Vectors\<close>

definition signed_byte :: "nat \<Rightarrow> int" where
  "signed_byte b = (if b < 128 then int b else int b - 256)"

definition v_splat :: "nat \<Rightarrow> nat \<Rightarrow> nat list" where
  "v_splat w b = replicate w b"

definition v_load :: "nat \<Rightarrow> string \<Rightarrow> nat \<Rightarrow> nat list" where
  "v_load w s off = map byte (take w (drop off s))"

definition v_cmplt :: "nat list \<Rightarrow> nat list \<Rightarrow> nat list" where
  "v_cmplt a b = map2 (\<lambda>x y. if signed_byte x < signed_byte y then 0xFF else 0) a b"

definition v_cmpeq :: "nat list \<Rightarrow> nat list \<Rightarrow> nat list" where
  "v_cmpeq a b = map2 (\<lambda>x y. if x = y then 0xFF else 0) a b"

definition v_or :: "nat list \<Rightarrow> nat list \<Rightarrow> nat list" where
  "v_or a b = map2 or a b"

fun v_movemask :: "nat list \<Rightarrow> nat" where
  "v_movemask [] = 0"
| "v_movemask (b # bs) = b div 128 + 2 * v_movemask bs"

definition or4 :: "nat list \<Rightarrow> nat list \<Rightarrow> nat list \<Rightarrow> nat list \<Rightarrow> nat list" where
  "or4 a b c d = v_or (v_or a b) (v_or c d)"

definition chunk_non_ascii_or_need_escape :: "nat list \<Rightarrow> bool" where
  "chunk_non_ascii_or_need_escape chunk =
     (let w = length chunk;
          any_control_or_non_ascii = v_cmplt chunk (v_splat w 32);
          any_7f = v_cmpeq chunk (v_splat w 0x7F);
          any_double_quote = v_cmpeq chunk (v_splat w 0x22);
          any_backslash = v_cmpeq chunk (v_splat w 0x5C)
      in v_movemask (or4 any_control_or_non_ascii any_7f any_double_quote any_backslash) \<noteq> 0)"

subsection \<open>The vectorised loop\<close>

definition push_vec_tail :: "nat \<Rightarrow> nat \<Rightarrow> string \<Rightarrow> nat list \<Rightarrow> nat \<Rightarrow> string option" where
  "push_vec_tail w cap buffer vec tail_len =
     (let new_buffer_len = length buffer + tail_len
      in if w \<le> new_buffer_len \<and> new_buffer_len \<le> cap
         then Some (take (new_buffer_len - w) buffer @ map char_of vec)
         else None)"

definition simd_tail :: "(nat \<Rightarrow> bool) \<Rightarrow> nat \<Rightarrow> nat \<Rightarrow> string \<Rightarrow> nat \<Rightarrow> string \<Rightarrow> string option" where
  "simd_tail alnum w cap val val_offset buffer =
     (if val_offset < length val then
        (let chunk_len = length val - val_offset;
             chunk = v_load w val (length val - w)
         in if chunk_non_ascii_or_need_escape chunk then Some (loop_ascii alnum (drop val_offset val) buffer)
            else push_vec_tail w cap buffer chunk chunk_len)
      else Some buffer)"

function simd_chunks :: "(nat \<Rightarrow> bool) \<Rightarrow> nat \<Rightarrow> nat \<Rightarrow> string \<Rightarrow> nat \<Rightarrow> string \<Rightarrow> string option" where
  "simd_chunks alnum w cap val val_offset buffer =
     (if 0 < w \<and> val_offset + w \<le> length val then
        (let chunk = v_load w val val_offset
         in if chunk_non_ascii_or_need_escape chunk then Some (loop_ascii alnum (drop val_offset val) buffer)
            else (case push_vec_tail w cap buffer chunk w of
                    None \<Rightarrow> None
                  | Some buffer' \<Rightarrow> simd_chunks alnum w cap val (val_offset + w) buffer'))
      else simd_tail alnum w cap val val_offset buffer)"
  by pat_completeness auto
termination
  by (relation "measure (\<lambda>(alnum, w, cap, val, val_offset, buffer). length val - val_offset)") auto

declare simd_chunks.simps [simp del]

definition loop_ascii_simd :: "(nat \<Rightarrow> bool) \<Rightarrow> nat \<Rightarrow> nat \<Rightarrow> string \<Rightarrow> string \<Rightarrow> string option" where
  "loop_ascii_simd alnum w cap val buffer =
     (if length val < w then Some (loop_ascii alnum val buffer) else simd_chunks alnum w cap val 0 buffer)"

text \<open>\<open>simd\<close> is the size of a vector where the platform has one; \<open>cap\<close> is the capacity after \<open>buffer.reserve\<close>.\<close>

definition string_repr :: "(nat \<Rightarrow> bool) \<Rightarrow> nat option \<Rightarrow> nat \<Rightarrow> string \<Rightarrow> string \<Rightarrow> string option" where
  "string_repr alnum simd cap s buffer =
     (let buffer = buffer @ [dquote];
          r = (case simd of None \<Rightarrow> Some (loop_ascii alnum s buffer) | Some w \<Rightarrow> loop_ascii_simd alnum w cap s buffer)
      in map_option (\<lambda>b. b @ [dquote]) r)"

subsection \<open>The reference\<close>

definition repr_char :: "(nat \<Rightarrow> bool) \<Rightarrow> nat \<Rightarrow> string" where
  "repr_char alnum c = (if need_escape alnum c then push_escape c [] else encode c)"

definition repr_chars :: "(nat \<Rightarrow> bool) \<Rightarrow> nat list \<Rightarrow> string" where
  "repr_chars alnum cs = concat (map (repr_char alnum) cs)"

lemma push_escape_append: "push_escape c buffer = buffer @ push_escape c []"
  by (simp add: push_escape_def)

lemma loop_unicode_chars_eq: "loop_unicode_chars alnum cs buffer = buffer @ repr_chars alnum cs"
proof (induction cs arbitrary: buffer)
  case (Cons c cs)
  then show ?case
    using push_escape_append [of c buffer] by (simp add: repr_chars_def repr_char_def)
qed (simp add: repr_chars_def)

lemma repr_chars_simps [simp]:
  "repr_chars alnum [] = []" "repr_chars alnum (c # cs) = repr_char alnum c @ repr_chars alnum cs"
  "repr_chars alnum (cs @ ds) = repr_chars alnum cs @ repr_chars alnum ds"
  by (simp_all add: repr_chars_def)

lemma loop_unicode_utf8: "list_all is_scalar cs \<Longrightarrow> loop_unicode alnum (utf8 cs) buffer = buffer @ repr_chars alnum cs"
  by (simp add: loop_unicode_def chars_utf8 loop_unicode_chars_eq)

lemma loop_ascii_utf8: "list_all is_scalar cs \<Longrightarrow> loop_ascii alnum (utf8 cs) buffer = buffer @ repr_chars alnum cs"
proof (induction cs arbitrary: buffer)
  case (Cons c cs)
  show ?case
  proof (cases "c < 0x7F")
    case True
    with Cons push_escape_append [of c buffer] show ?thesis by (simp add: repr_char_def)
  next
    case False
    with Cons.prems encode_high [of c] obtain b bs where e: "encode c = b # bs" "0x7F \<le> byte b"
      by (cases "c = 0x7F"; cases "encode c") (auto simp: encode_def split: if_splits)
    then have "loop_ascii alnum (utf8 (c # cs)) buffer = loop_unicode alnum (utf8 (c # cs)) buffer" by simp
    with Cons.prems show ?thesis by (simp only: loop_unicode_utf8)
  qed
qed simp

subsection \<open>Plain bytes\<close>

definition plain_byte :: "nat \<Rightarrow> bool" where
  "plain_byte b \<longleftrightarrow> 32 \<le> b \<and> b < 0x7F \<and> b \<noteq> 0x22 \<and> b \<noteq> 0x5C"

lemma v_movemask_flags: "v_movemask (map (\<lambda>b. if P b then 0 else 255) v) = 0 \<longleftrightarrow> list_all P v"
  by (induction v) auto

lemma chunk_flag:
  "(\<forall>b\<in>set chunk. b < 256) \<Longrightarrow> \<not> chunk_non_ascii_or_need_escape chunk \<longleftrightarrow> list_all plain_byte chunk"
proof -
  assume bytes: "\<forall>b\<in>set chunk. b < 256"
  have "or4 (v_cmplt chunk (v_splat w 32)) (v_cmpeq chunk (v_splat w 0x7F)) (v_cmpeq chunk (v_splat w 0x22))
      (v_cmpeq chunk (v_splat w 0x5C)) = map (\<lambda>b. if plain_byte b then 0 else 255) chunk" if "w = length chunk" for w
    using bytes unfolding that
    by (induction chunk) (auto simp: or4_def v_or_def v_cmplt_def v_cmpeq_def v_splat_def plain_byte_def signed_byte_def)
  then show ?thesis
    by (simp add: chunk_non_ascii_or_need_escape_def Let_def v_movemask_flags)
qed

lemma load_flag:
  "\<not> chunk_non_ascii_or_need_escape (v_load w s off) \<longleftrightarrow> list_all (\<lambda>b. plain_byte (byte b)) (take w (drop off s))"
proof -
  have "\<forall>b\<in>set (v_load w s off). b < 256" by (auto simp: v_load_def)
  from chunk_flag [OF this] show ?thesis by (simp add: v_load_def list.pred_map comp_def)
qed

text \<open>A prefix of plain bytes is a prefix of characters that stand for themselves.\<close>

lemma plain_prefix:
  assumes "list_all is_scalar cs" "n \<le> length (utf8 cs)" "list_all (\<lambda>b. plain_byte (byte b)) (take n (utf8 cs))"
  shows "\<exists>ds es. cs = ds @ es \<and> take n (utf8 cs) = repr_chars alnum ds \<and> drop n (utf8 cs) = utf8 es"
  using assms
proof (induction n arbitrary: cs)
  case 0
  then show ?case by (intro exI [of _ "[]"] exI [of _ cs]) simp
next
  case (Suc n)
  then obtain b r where br: "utf8 cs = b # r" by (cases "utf8 cs") auto
  with Suc.prems have b: "plain_byte (byte b)" by simp
  then obtain cs' where cs: "cs = byte b # cs'" "r = utf8 cs'"
    using utf8_head_ascii [OF br Suc.prems(1)] by (auto simp: plain_byte_def)
  obtain ds es where *: "cs' = ds @ es" "take n (utf8 cs') = repr_chars alnum ds" "drop n (utf8 cs') = utf8 es"
    using Suc.IH [of cs'] Suc.prems br cs by auto
  have "repr_char alnum (byte b) = [b]"
    using b by (auto simp: repr_char_def need_escape_def plain_byte_def)
  with * br cs show ?case by (intro exI [of _ "byte b # ds"] exI [of _ es]) simp
qed

lemma bail_out:
  assumes "list_all is_scalar cs" "n \<le> length (utf8 cs)" "list_all (\<lambda>b. plain_byte (byte b)) (take n (utf8 cs))"
  shows "loop_ascii alnum (drop n (utf8 cs)) (buffer @ take n (utf8 cs)) = buffer @ repr_chars alnum cs"
proof -
  obtain ds es where *: "cs = ds @ es" "take n (utf8 cs) = repr_chars alnum ds" "drop n (utf8 cs) = utf8 es"
    using plain_prefix [OF assms] by blast
  then have "list_all is_scalar es" using assms(1) by simp
  with * loop_ascii_utf8 [of es] show ?thesis by simp
qed

lemma all_plain:
  assumes "list_all is_scalar cs" "list_all (\<lambda>b. plain_byte (byte b)) (utf8 cs)"
  shows "repr_chars alnum cs = utf8 cs"
  using bail_out [of cs "length (utf8 cs)" alnum "[]"] assms by simp

lemma push_vec_tail_next:
  assumes "n + k \<le> length val" "k \<le> w" "w \<le> length buffer + n + k" "w \<le> n + k" "length buffer + n + k \<le> cap"
  shows "push_vec_tail w cap (buffer @ take n val) (v_load w val (n + k - w)) k = Some (buffer @ take (n + k) val)"
proof -
  have "take (n + k - w) val @ take w (drop (n + k - w) val) = take (n + k) val"
    using assms(4) by (simp add: take_add [symmetric])
  moreover have "take (length buffer + n + k - w) (buffer @ take n val) = buffer @ take (n + k - w) val"
    using assms by (simp add: min_absorb1)
  ultimately show ?thesis
    using assms by (simp add: push_vec_tail_def Let_def v_load_def comp_def min_absorb2 add.assoc)
qed

lemma simd_chunks_eq:
  assumes "list_all is_scalar cs" "val = utf8 cs" "0 < w" "w \<le> length val" "length buffer + length val \<le> cap"
  shows "off \<le> length val \<Longrightarrow> list_all (\<lambda>b. plain_byte (byte b)) (take off val) \<Longrightarrow>
    simd_chunks alnum w cap val off (buffer @ take off val) = Some (buffer @ repr_chars alnum cs)"
proof (induction "length val - off" arbitrary: off rule: less_induct)
  case less
  have bail: "loop_ascii alnum (drop off val) (buffer @ take off val) = buffer @ repr_chars alnum cs"
    using bail_out [of cs off alnum buffer] assms(1,2) less.prems by simp
  show ?case
  proof (cases "off + w \<le> length val")
    case True
    have grow: "take (off + w) val = take off val @ take w (drop off val)" by (simp add: take_add)
    have "push_vec_tail w cap (buffer @ take off val) (v_load w val off) w = Some (buffer @ take (off + w) val)"
      using push_vec_tail_next [of off w val w buffer cap] True assms by simp
    moreover have "simd_chunks alnum w cap val (off + w) (buffer @ take (off + w) val) = Some (buffer @ repr_chars alnum cs)"
      if "\<not> chunk_non_ascii_or_need_escape (v_load w val off)"
      using less.hyps [of "off + w"] less.prems True assms(3) that by (simp add: load_flag grow)
    ultimately show ?thesis
      using True assms(3) bail by (subst simd_chunks.simps) (simp add: Let_def)
  next
    case False
    have "simd_tail alnum w cap val off (buffer @ take off val) = Some (buffer @ repr_chars alnum cs)"
    proof (cases "off < length val \<and> \<not> chunk_non_ascii_or_need_escape (v_load w val (length val - w))")
      case True
      have "push_vec_tail w cap (buffer @ take off val) (v_load w val (length val - w)) (length val - off) = Some (buffer @ val)"
        using push_vec_tail_next [of off "length val - off" val w buffer cap] True False assms less.prems by simp
      moreover have "list_all (\<lambda>b. plain_byte (byte b)) val"
      proof -
        have "set val = set (take off val) \<union> set (drop off val)" by (metis append_take_drop_id set_append)
        moreover have "set (drop off val) \<subseteq> set (drop (length val - w) val)"
          using False by (intro set_drop_subset_set_drop) simp
        ultimately show ?thesis
          using less.prems(2) True assms(4) by (auto simp: load_flag list_all_iff)
      qed
      ultimately show ?thesis
        using True all_plain [OF assms(1), of alnum] assms(2) by (simp add: simd_tail_def)
    next
      case False
      then show ?thesis using bail less.prems by (auto simp: simd_tail_def Let_def)
    qed
    with False assms(3) show ?thesis by (subst simd_chunks.simps) simp
  qed
qed

lemma string_repr_utf8:
  assumes "list_all is_scalar cs" "simd \<noteq> Some 0" "length buffer + 2 + length (utf8 cs) \<le> cap"
  shows "string_repr alnum simd cap (utf8 cs) buffer = Some (buffer @ [dquote] @ repr_chars alnum cs @ [dquote])"
proof (cases simd)
  case None
  with assms show ?thesis by (simp add: string_repr_def loop_ascii_utf8)
next
  case (Some w)
  with assms simd_chunks_eq [of cs "utf8 cs" w "buffer @ [dquote]" cap 0 alnum] show ?thesis
    by (simp add: string_repr_def loop_ascii_simd_def loop_ascii_utf8 Let_def)
qed

text \<open>
  C22. \<open>repr\<close> of a string. With vectors of any size or without them, the fast paths produce exactly the text of the
  simple loop over the characters, between double quotes and after what the buffer held, for every valid
  UTF-8 string; and every vector store stays within the capacity that was reserved.
\<close>

theorem string_repr_exact:
  assumes "list_all is_scalar cs" and "simd \<noteq> Some 0" and "length buffer + 2 + length (utf8 cs) \<le> cap"
  shows "string_repr alnum simd cap (utf8 cs) buffer = Some (buffer @ [dquote] @ repr_chars alnum cs @ [dquote])"
  using assms by (rule string_repr_utf8)

theorem string_repr_exact_witness:
  "string_repr (\<lambda>_. False) (Some 4) 64 ''hello w'' [] = Some (dquote # ''hello w'' @ [dquote]) \<and>
   string_repr (\<lambda>_. False) (Some 4) 64 (utf8 [0x68, 0x69, 0x200B]) [] = Some (dquote # ''hi'' @ [backslash] @ ''u200b'' @ [dquote])"
proof
  have s: "''hello w'' = utf8 [104, 101, 108, 108, 111, 32, 119]" by code_simp
  show "string_repr (\<lambda>_. False) (Some 4) 64 ''hello w'' [] = Some (dquote # ''hello w'' @ [dquote])"
    using string_repr_exact [of "[104, 101, 108, 108, 111, 32, 119]" "Some 4" "[]" 64 "\<lambda>_. False"]
    unfolding s by (simp add: repr_char_def need_escape_def)
  show "string_repr (\<lambda>_. False) (Some 4) 64 (utf8 [0x68, 0x69, 0x200B]) [] = Some (dquote # ''hi'' @ [backslash] @ ''u200b'' @ [dquote])"
    using string_repr_exact [of "[0x68, 0x69, 0x200B]" "Some 4" "[]" 64 "\<lambda>_. False"]
    by (simp add: repr_char_def need_escape_def push_escape_def hex_pad_def radix_digits.simps radix_digit_def is_scalar_def
        encode_def char_of_eq_iff)
qed

end
