(* ===== verification/Lexer_String.thy ===== *)
theory Lexer_String
  imports String_Repr
begin

text \<open>
  String literals in the lexer, \<^verbatim>\<open>starlark_syntax/src/lexer.rs\<close> with the cursors of \<^verbatim>\<open>starlark_syntax/src/cursors.rs\<close>: escapes, the
  fast path over bytes that returns a slice of the source, and the slow path over characters that builds the result.

  A cursor is the rest of the text it points to, so its position is the difference of two lengths and
  \<open>unnext\<close> is going back to the earlier rest. The state of the generated scanner (\<open>logos::Lexer\<close>) is the source
  with the span of the current token; \<open>bump\<close> extends the span.
\<close>

subsection \<open>Errors and the scanner\<close>

datatype lex_error =
    Indentation
  | InvalidInput string
  | InvalidTab
  | UnfinishedStringLiteral
  | InvalidEscapeSequence string
  | EmptyEscapeSequence
  | ReservedKeyword string
  | StartsZero string
  | IntParse string
  | CommentSpanComputedIncorrectly
  | CannotParse string nat

type_synonym lex_fail = "lex_error \<times> nat \<times> nat"

definition pos_new :: "nat \<Rightarrow> nat" where
  "pos_new n = n mod 2 ^ 32"

text \<open>The assertion \<open>begin <= end\<close> of \<open>Span::new\<close> is about the positions after their conversion to \<open>u32\<close>.\<close>

definition err_span :: "lex_error \<Rightarrow> nat \<Rightarrow> nat \<Rightarrow> (lex_fail, 'a) outcome" where
  "err_span msg start end' =
     (if pos_new start \<le> pos_new end' then Err (msg, pos_new start, pos_new end') else Panic)"

definition err_pos :: "lex_error \<Rightarrow> nat \<Rightarrow> (lex_fail, 'a) outcome" where
  "err_pos msg pos = err_span msg pos pos"

record scanner =
  lx_source :: string
  lx_start :: nat
  lx_end :: nat

definition remainder :: "scanner \<Rightarrow> string" where
  "remainder s = drop (lx_end s) (lx_source s)"

definition slice :: "scanner \<Rightarrow> string" where
  "slice s = take (lx_end s - lx_start s) (drop (lx_start s) (lx_source s))"

definition bump :: "nat \<Rightarrow> scanner \<Rightarrow> scanner" where
  "bump n s = s\<lparr>lx_end := lx_end s + n\<rparr>"

subsection \<open>Escapes\<close>

text \<open>\<open>char::to_digit\<close>.\<close>

definition to_digit :: "nat \<Rightarrow> nat \<Rightarrow> nat option" where
  "to_digit radix c =
     (let v = (if 48 \<le> c \<and> c \<le> 57 then Some (c - 48)
               else if 97 \<le> c \<and> c \<le> 122 then Some (c - 87)
               else if 65 \<le> c \<and> c \<le> 90 then Some (c - 55)
               else None)
      in case v of Some d \<Rightarrow> if d < radix then Some d else None | None \<Rightarrow> None)"

text \<open>At most eight hexadecimal digits are read, so the value fits a \<open>u32\<close>.\<close>

function escape_char_loop :: "nat \<Rightarrow> nat \<Rightarrow> nat \<Rightarrow> string \<Rightarrow> nat \<Rightarrow> nat \<Rightarrow> nat option \<times> string" where
  "escape_char_loop lo hi radix it val cnt =
     (if cnt < hi then
        (case next_char it of
           None \<Rightarrow> (if cnt \<ge> lo then char_from_u32 val else None, it)
         | Some (c, it') \<Rightarrow>
             (case to_digit radix c of
                None \<Rightarrow> if cnt \<ge> lo then (char_from_u32 val, it) else (None, it')
              | Some v \<Rightarrow> escape_char_loop lo hi radix it' (val * radix + v) (cnt + 1)))
      else (char_from_u32 val, it))"
  by pat_completeness auto
termination by (relation "measure (\<lambda>(lo, hi, radix, it, val, cnt). hi - cnt)") auto

declare escape_char_loop.simps [simp del]

definition escape_char :: "string \<Rightarrow> nat \<Rightarrow> nat \<Rightarrow> nat \<Rightarrow> nat option \<times> string" where
  "escape_char it lo hi radix = escape_char_loop lo hi radix it 0 0"

definition push_char :: "string \<Rightarrow> nat option \<times> string \<Rightarrow> string option \<times> string" where
  "push_char res r = (case r of (c, it) \<Rightarrow> (map_option (\<lambda>c. res @ encode c) c, it))"

definition escape :: "string \<Rightarrow> string \<Rightarrow> string option \<times> string" where
  "escape it res =
     (case next_char it of
        None \<Rightarrow> (None, it)
      | Some (c, it') \<Rightarrow>
          if c = byte (CHR ''n'') then (Some (res @ [CHR 0x0A]), it')
          else if c = byte (CHR ''r'') then (Some (res @ [CHR 0x0D]), it')
          else if c = byte (CHR ''t'') then (Some (res @ [CHR 0x09]), it')
          else if c = byte (CHR ''a'') then (Some (res @ [CHR 0x07]), it')
          else if c = byte (CHR ''b'') then (Some (res @ [CHR 0x08]), it')
          else if c = byte (CHR ''f'') then (Some (res @ [CHR 0x0C]), it')
          else if c = byte (CHR ''v'') then (Some (res @ [CHR 0x0B]), it')
          else if c = 0x0A then (Some res, it')
          else if c = 0x0D then
            (case next_char it' of
               Some (d, it'') \<Rightarrow> (if d = 0x0A then Some res else None, it'')
             | None \<Rightarrow> (None, it'))
          else if c = byte (CHR ''x'') then push_char res (escape_char it' 2 2 16)
          else if c = byte (CHR ''u'') then push_char res (escape_char it' 4 4 16)
          else if c = byte (CHR ''U'') then push_char res (escape_char it' 8 8 16)
          else if 48 \<le> c \<and> c \<le> 55 then push_char res (escape_char it 1 3 8)
          else if c = 0x22 \<or> c = 0x27 \<or> c = 0x5C then (Some (res @ encode c), it')
          else (Some (res @ [backslash] @ encode c), it'))"

lemma escape_char_loop_shorter: "escape_char_loop lo hi radix it val cnt = (v, it') \<Longrightarrow> length it' \<le> length it"
proof (induction lo hi radix it val cnt rule: escape_char_loop.induct)
  case (1 lo hi radix it val cnt)
  show ?case
  proof (cases "next_char it")
    case (Some y)
    obtain c r where y: "y = (c, r)" by (cases y)
    have r: "length r < length it" using Some y next_char_shorter by simp
    have IH: "length it' \<le> length r" if "cnt < hi" "to_digit radix c = Some d"
      "escape_char_loop lo hi radix r (val * radix + d) (cnt + 1) = (v, it')" for d
      using "1.IH" [OF that(1) _ y [symmetric] that(2,3)] Some y by simp
    from "1.prems" Some y r IH show ?thesis
      by (subst (asm) escape_char_loop.simps) (force split: if_splits option.splits)
  qed (use "1.prems" in \<open>subst (asm) escape_char_loop.simps, auto split: if_splits\<close>)
qed

lemma escape_shorter: "escape it res = (r, it') \<Longrightarrow> length it' \<le> length it"
  by (auto simp: escape_def push_char_def escape_char_def split: option.splits prod.splits if_splits
      dest!: next_char_shorter escape_char_loop_shorter)

subsection \<open>The end of a literal\<close>

text \<open>The closures \<open>stop\<close>: whether the literal ends at this character, and the number of quotes seen in a row.\<close>

definition stop_step :: "bool \<Rightarrow> nat \<Rightarrow> nat \<Rightarrow> nat \<Rightarrow> bool \<times> nat" where
  "stop_step triple quote qs c =
     (if triple then (if c = quote then (qs + 1 = 3, qs + 1) else (False, 0)) else (c = quote, qs))"

datatype fast_result = FastEnd | FastStop string | FastSlow string nat

fun string_fast :: "bool \<Rightarrow> nat \<Rightarrow> string \<Rightarrow> nat \<Rightarrow> fast_result" where
  "string_fast triple quote [] qs = FastEnd"
| "string_fast triple quote (c # it) qs =
     (let (stop, qs') = stop_step triple quote qs (byte c)
      in if stop then FastStop it
         else if c = backslash \<or> c = CHR 0x0D \<or> c = CHR 0x0A \<and> \<not> triple then FastSlow (c # it) qs'
         else string_fast triple quote it qs')"

type_synonym string_result = "(lex_fail, nat \<times> (string \<times> nat) \<times> nat \<times> nat) outcome"

text \<open>The last number of a result is what the scanner is bumped by.\<close>

function string_slow :: "bool \<Rightarrow> bool \<Rightarrow> nat \<Rightarrow> string \<Rightarrow> nat \<Rightarrow> nat \<Rightarrow> nat \<Rightarrow> string \<Rightarrow> nat \<Rightarrow> string \<Rightarrow> string_result" where
  "string_slow triple raw quote rem string_start string_end contents_start it qs res =
     (case next_char it of
        None \<Rightarrow> err_span UnfinishedStringLiteral string_start (string_end + (length rem - length it))
      | Some (c, it') \<Rightarrow>
          (let (stop, qs') = stop_step triple quote qs c; pos = length rem - length it'
           in if stop then
                (if triple \<and> length res < 2 then Panic
                 else Ok (string_start, (if triple then take (length res - 2) res else res, contents_start), string_end + pos, pos))
              else if c = 0x0A \<and> \<not> triple then
                err_span UnfinishedStringLiteral string_start (string_end - 1 + pos)
              else if c = 0x0D then
                string_slow triple raw quote rem string_start string_end contents_start it' qs' res
              else if c = 0x5C then
                (if raw then
                   (case next_char it' of
                      None \<Rightarrow> err_span UnfinishedStringLiteral string_start (string_end + pos)
                    | Some (d, it'') \<Rightarrow>
                        string_slow triple raw quote rem string_start string_end contents_start it'' qs'
                          (res @ (if d \<noteq> 0x27 \<and> d \<noteq> 0x22 then [backslash] else []) @ encode d))
                 else
                   (case escape it' res of
                      (None, it'') \<Rightarrow>
                        (let bad = take (length rem - length it'' - pos) (drop pos rem)
                         in err_span (if bad = [] then EmptyEscapeSequence else InvalidEscapeSequence bad)
                              (string_end + pos - 1) (string_end + (length rem - length it'')))
                    | (Some res', it'') \<Rightarrow>
                        string_slow triple raw quote rem string_start string_end contents_start it'' qs' res'))
              else string_slow triple raw quote rem string_start string_end contents_start it' qs' (res @ encode c)))"
  by pat_completeness auto
termination
  by (relation "measure (\<lambda>(triple, raw, quote, rem, string_start, string_end, contents_start, it, qs, res). length it)")
    (auto dest!: next_char_shorter escape_shorter [OF sym])

declare string_slow.simps [simp del]

definition lex_string :: "bool \<Rightarrow> bool \<Rightarrow> nat \<Rightarrow> scanner \<Rightarrow> string_result" where
  "lex_string triple raw quote s =
     (let string_start = lx_start s;
          string_end = lx_end s;
          rem = remainder s;
          contents_start = (if triple then min 2 (length rem) else 0);
          it = drop contents_start rem
      in case string_fast triple quote it 0 of
           FastEnd \<Rightarrow> err_span UnfinishedStringLiteral string_start (string_end + length rem)
         | FastStop it' \<Rightarrow>
             (let pos = length rem - length it';
                  contents_end = pos - (if triple then 3 else 1)
              in Ok (string_start, (take (contents_end - contents_start) (drop contents_start rem), contents_start), string_end + pos, pos))
         | FastSlow it' qs \<Rightarrow>
             string_slow triple raw quote rem string_start string_end contents_start it' qs
               (take (length it - length it') it))"

definition parse_quoted_string :: "nat \<Rightarrow> bool \<Rightarrow> scanner \<Rightarrow> string_result" where
  "parse_quoted_string quote raw s =
     (if take 2 (remainder s) = [char_of quote, char_of quote] then lex_string True raw quote s
      else lex_string False raw quote s)"

definition parse_double_quoted_string :: "bool \<Rightarrow> scanner \<Rightarrow> string_result" where
  "parse_double_quoted_string raw s = parse_quoted_string 0x22 raw s"

definition parse_single_quoted_string :: "bool \<Rightarrow> scanner \<Rightarrow> string_result" where
  "parse_single_quoted_string raw s = parse_quoted_string 0x27 raw s"

subsection \<open>Reading back hexadecimal escapes\<close>

lemma byte_radix_digit: "d < 16 \<Longrightarrow> byte (radix_digit False d) = (if d < 10 then 48 + d else 87 + d)"
  by (simp add: radix_digit_def)

lemma to_digit_radix_digit: "d < 16 \<Longrightarrow> to_digit 16 (byte (radix_digit False d)) = Some d"
  by (simp add: byte_radix_digit to_digit_def)

lemma next_char_radix_digit: "d < 16 \<Longrightarrow> next_char (radix_digit False d # r) = Some (byte (radix_digit False d), r)"
  using byte_radix_digit [of d] by (intro next_char_ascii) simp

lemma radix_digits_map:
  "\<exists>ds. radix_digits False 16 n = map (radix_digit False) ds \<and> (\<forall>d\<in>set ds. d < 16) \<and> foldl (\<lambda>n d. n * 16 + d) 0 ds = n"
proof (induction n rule: less_induct)
  case (less n)
  show ?case
  proof (cases "n < 16")
    case True
    then show ?thesis by (subst radix_digits.simps) (auto intro: exI [of _ "[n]"])
  next
    case False
    then obtain ds where ds: "radix_digits False 16 (n div 16) = map (radix_digit False) ds" "\<forall>d\<in>set ds. d < 16"
      "foldl (\<lambda>n d. n * 16 + d) 0 ds = n div 16"
      using less [of "n div 16"] by auto
    with False show ?thesis
      by (subst radix_digits.simps) (auto intro!: exI [of _ "ds @ [n mod 16]"])
  qed
qed

lemma length_radix_digits: "n < 16 ^ w \<Longrightarrow> 0 < w \<Longrightarrow> length (radix_digits False 16 n) \<le> w"
proof (induction w arbitrary: n)
  case (Suc w)
  show ?case
  proof (cases "n < 16")
    case True
    then show ?thesis by (subst radix_digits.simps) simp
  next
    case False
    with Suc.prems have "n div 16 < 16 ^ w" "0 < w" by (auto simp: div_less_iff_less_mult mult.commute intro: gr0I)
    with Suc.IH False show ?thesis by (subst radix_digits.simps) simp
  qed
qed simp

lemma foldl_zeros: "foldl (\<lambda>n d. n * 16 + d) 0 (replicate k 0) = (0 :: nat)"
  by (induction k) simp_all

lemma hex_pad_map:
  assumes "n < 16 ^ w" "0 < w"
  shows "\<exists>ds. hex_pad w n = map (radix_digit False) ds \<and> length ds = w \<and> (\<forall>d\<in>set ds. d < 16) \<and>
    foldl (\<lambda>n d. n * 16 + d) 0 ds = n"
proof -
  obtain ds where ds: "radix_digits False 16 n = map (radix_digit False) ds" "\<forall>d\<in>set ds. d < 16"
    "foldl (\<lambda>n d. n * 16 + d) 0 ds = n"
    using radix_digits_map by blast
  have zero: "CHR ''0'' = radix_digit False 0" by code_simp
  from length_radix_digits [OF assms] ds(1) have "length ds \<le> w" by simp
  with ds show ?thesis
    by (intro exI [of _ "replicate (w - length ds) 0 @ ds"]) (auto simp: hex_pad_def Let_def zero foldl_zeros)
qed

lemma escape_char_loop_digits:
  "\<forall>d\<in>set ds. d < 16 \<Longrightarrow> w = cnt + length ds \<Longrightarrow>
   escape_char_loop w w 16 (map (radix_digit False) ds @ r) val cnt = (char_from_u32 (foldl (\<lambda>n d. n * 16 + d) val ds), r)"
proof (induction ds arbitrary: val cnt)
  case Nil
  then show ?case by (subst escape_char_loop.simps) simp
next
  case (Cons d ds)
  then show ?case
    by (subst escape_char_loop.simps) (simp add: next_char_radix_digit to_digit_radix_digit)
qed

lemma escape_char_hex_pad: "n < 16 ^ w \<Longrightarrow> 0 < w \<Longrightarrow> escape_char (hex_pad w n @ r) w w 16 = (char_from_u32 n, r)"
  using hex_pad_map [of n w] escape_char_loop_digits [of _ w 0 r 0] by (auto simp: escape_char_def)

lemma push_escape_read:
  assumes "is_scalar c"
  shows "\<exists>t. push_escape c [] = backslash # t \<and> escape (t @ r) res = (Some (res @ encode c), r)"
proof -
  note escs = push_escape_def escape_def eq_char_of_iff
  consider "c \<in> {0x0A, 0x0D, 0x09, 0x5C, 0x22}" | "c \<notin> {0x0A, 0x0D, 0x09, 0x5C, 0x22}" "c < 0x100"
    | "0x100 \<le> c" "c < 0x10000" | "0x10000 \<le> c"
    by linarith
  then show ?thesis
  proof cases
    case 1
    then show ?thesis by (auto simp: escs)
  next
    case 2
    then have "push_escape c [] = backslash # CHR ''x'' # hex_pad 2 c" by (simp add: push_escape_def)
    with 2 assms escape_char_hex_pad [of c 2 r] show ?thesis
      by (simp add: escape_def push_char_def char_from_u32_def)
  next
    case 3
    then have "push_escape c [] = backslash # CHR ''u'' # hex_pad 4 c" by (simp add: push_escape_def)
    with 3 assms escape_char_hex_pad [of c 4 r] show ?thesis
      by (simp add: escape_def push_char_def char_from_u32_def)
  next
    case 4
    then have "push_escape c [] = backslash # CHR ''U'' # hex_pad 8 c" by (simp add: push_escape_def)
    with 4 assms scalar_lt [OF assms] escape_char_hex_pad [of c 8 r] show ?thesis
      by (simp add: escape_def push_char_def char_from_u32_def)
  qed
qed

subsection \<open>Reading back \<open>repr\<close>\<close>

lemma plain_char: "\<not> need_escape alnum c \<Longrightarrow> c \<noteq> 0x22 \<and> c \<noteq> 0x0A \<and> c \<noteq> 0x0D \<and> c \<noteq> 0x5C"
  by (auto simp: need_escape_def split: if_splits)

lemma string_slow_repr:
  "list_all is_scalar cs \<Longrightarrow>
   string_slow False False 0x22 rem ss se ct (repr_chars alnum cs @ dquote # rest) qs res =
     Ok (ss, (res @ utf8 cs, ct), se + (length rem - length rest), length rem - length rest)"
proof (induction cs arbitrary: res)
  case Nil
  then show ?case by (subst string_slow.simps) (simp add: stop_step_def Let_def)
next
  case (Cons c cs)
  show ?case
  proof (cases "need_escape alnum c")
    case True
    obtain t where t: "push_escape c [] = backslash # t"
      "escape (t @ repr_chars alnum cs @ dquote # rest) res = (Some (res @ encode c), repr_chars alnum cs @ dquote # rest)"
      using push_escape_read [of c] Cons.prems by auto
    with True Cons show ?thesis
      by (subst string_slow.simps) (simp add: repr_char_def stop_step_def Let_def)
  next
    case False
    with plain_char [OF False] Cons show ?thesis
      by (subst string_slow.simps) (simp add: repr_char_def stop_step_def Let_def)
  qed
qed

lemma string_fast_high: "\<forall>b\<in>set bs. 0x80 \<le> byte b \<Longrightarrow> string_fast False 0x22 (bs @ r) qs = string_fast False 0x22 r qs"
proof (induction bs)
  case (Cons b bs)
  then have "b \<noteq> backslash" "b \<noteq> CHR 0x0D" "b \<noteq> CHR 0x0A" "byte b \<noteq> 0x22" by auto
  with Cons show ?case by (simp add: stop_step_def)
qed simp

lemma string_fast_plain:
  assumes "is_scalar c" "\<not> need_escape alnum c"
  shows "string_fast False 0x22 (encode c @ r) qs = string_fast False 0x22 r qs"
proof (cases "c < 0x80")
  case True
  with plain_char [OF assms(2)] show ?thesis by (simp add: stop_step_def char_of_eq_iff ascii_take_bit)
next
  case False
  with assms(1) encode_high [of c] show ?thesis by (intro string_fast_high) simp
qed

lemma string_fast_repr:
  "list_all is_scalar cs \<Longrightarrow>
   (string_fast False 0x22 (repr_chars alnum cs @ dquote # rest) 0 = FastStop rest \<and> repr_chars alnum cs = utf8 cs) \<or>
   (\<exists>ds es. cs = ds @ es \<and> repr_chars alnum ds = utf8 ds \<and>
      string_fast False 0x22 (repr_chars alnum cs @ dquote # rest) 0 = FastSlow (repr_chars alnum es @ dquote # rest) 0)"
proof (induction cs)
  case Nil
  then show ?case by (simp add: stop_step_def)
next
  case (Cons c cs)
  show ?case
  proof (cases "need_escape alnum c")
    case True
    obtain t where "push_escape c [] = backslash # t" using push_escape_read [of c] Cons.prems by auto
    with True show ?thesis
      by (intro disjI2 exI [of _ "[]"] exI [of _ "c # cs"]) (simp add: repr_char_def stop_step_def Let_def)
  next
    case False
    then have c: "repr_char alnum c = encode c" by (simp add: repr_char_def)
    from Cons have "list_all is_scalar cs" "is_scalar c" by simp_all
    from Cons.IH [OF this(1)] show ?thesis
    proof
      assume "string_fast False 0x22 (repr_chars alnum cs @ dquote # rest) 0 = FastStop rest \<and> repr_chars alnum cs = utf8 cs"
      with c string_fast_plain [OF \<open>is_scalar c\<close> False] show ?thesis by (elim conjE) simp
    next
      assume "\<exists>ds es. cs = ds @ es \<and> repr_chars alnum ds = utf8 ds \<and>
        string_fast False 0x22 (repr_chars alnum cs @ dquote # rest) 0 = FastSlow (repr_chars alnum es @ dquote # rest) 0"
      then obtain ds es where "cs = ds @ es" "repr_chars alnum ds = utf8 ds"
        "string_fast False 0x22 (repr_chars alnum cs @ dquote # rest) 0 = FastSlow (repr_chars alnum es @ dquote # rest) 0" by blast
      with c string_fast_plain [OF \<open>is_scalar c\<close> False] show ?thesis
        by (intro disjI2 exI [of _ "c # ds"] exI [of _ es]) simp
    qed
  qed
qed

lemma lex_string_repr:
  assumes "list_all is_scalar cs" "remainder s = repr_chars alnum cs @ dquote # rest"
  shows "lex_string False False 0x22 s =
    Ok (lx_start s, (utf8 cs, 0), lx_end s + length (repr_chars alnum cs) + 1, length (repr_chars alnum cs) + 1)"
  using string_fast_repr [OF assms(1), of alnum rest]
proof
  assume "string_fast False 0x22 (repr_chars alnum cs @ dquote # rest) 0 = FastStop rest \<and> repr_chars alnum cs = utf8 cs"
  then show ?thesis by (elim conjE) (simp add: lex_string_def Let_def assms(2))
next
  assume "\<exists>ds es. cs = ds @ es \<and> repr_chars alnum ds = utf8 ds \<and>
    string_fast False 0x22 (repr_chars alnum cs @ dquote # rest) 0 = FastSlow (repr_chars alnum es @ dquote # rest) 0"
  then obtain ds es where *: "cs = ds @ es" "repr_chars alnum ds = utf8 ds"
    "string_fast False 0x22 (repr_chars alnum cs @ dquote # rest) 0 = FastSlow (repr_chars alnum es @ dquote # rest) 0" by blast
  then have "list_all is_scalar es" using assms(1) by simp
  from string_slow_repr [OF this] show ?thesis
    using * by (simp add: lex_string_def Let_def assms(2))
qed

lemma repr_char_no_quote: "is_scalar c \<Longrightarrow> hd (repr_char alnum c) \<noteq> dquote \<and> repr_char alnum c \<noteq> []"
proof (cases "need_escape alnum c")
  case True
  assume "is_scalar c"
  then obtain t where "push_escape c [] = backslash # t" using push_escape_read [of c] by auto
  with True show ?thesis by (simp add: repr_char_def)
next
  case False
  assume sc: "is_scalar c"
  have "hd (encode c) \<noteq> dquote"
  proof (cases "c < 0x80")
    case True
    with plain_char [OF False] show ?thesis by (simp add: char_of_eq_iff ascii_take_bit)
  next
    case high: False
    with encode_high [OF sc] have "0x80 \<le> byte (hd (encode c))" by simp
    then show ?thesis by auto
  qed
  with False show ?thesis by (simp add: repr_char_def)
qed

text \<open>
  C6. A string literal printed by \<open>repr\<close> reads back. Whatever the platform and the Unicode table, the
  text that \<open>string_repr\<close> writes for a valid string is lexed, after its opening quote, as one literal whose value is the
  string, ending right behind the closing quote. The empty string is excluded when another quote follows it,
  since three quotes in a row open a triple-quoted literal.
\<close>

theorem repr_lex_roundtrip:
  assumes "list_all is_scalar cs" and "simd \<noteq> Some 0" and "2 + length (utf8 cs) \<le> cap"
    and "string_repr alnum simd cap (utf8 cs) [] = Some (dquote # lit)"
    and "remainder s = lit @ rest" and "cs \<noteq> [] \<or> take 1 rest \<noteq> [dquote]"
  shows "parse_double_quoted_string False s = Ok (lx_start s, (utf8 cs, 0), lx_end s + length lit, length lit)"
proof -
  have repr: "string_repr alnum simd cap (utf8 cs) [] = Some ([] @ [dquote] @ repr_chars alnum cs @ [dquote])"
    by (rule string_repr_utf8) (use assms in simp_all)
  have lit: "lit = repr_chars alnum cs @ [dquote]" using repr assms(4) by simp
  have "take 2 (remainder s) \<noteq> [dquote, dquote]"
  proof (cases cs)
    case Nil
    with assms(5,6) lit show ?thesis by (cases rest) simp_all
  next
    case (Cons c cs')
    with assms(1,5) lit repr_char_no_quote [of c alnum] show ?thesis
      by (cases "repr_char alnum c") (auto simp: take_Cons')
  qed
  moreover have "char_of (0x22 :: nat) = dquote" by code_simp
  ultimately show ?thesis
    using lex_string_repr [OF assms(1), of s alnum rest] assms(5) lit
    by (simp add: parse_double_quoted_string_def parse_quoted_string_def)
qed

theorem repr_lex_roundtrip_witness:
  "string_repr (\<lambda>_. False) None 16 (utf8 [0x61, 0x22, 0x200B]) [] =
     Some (dquote # ''a'' @ [backslash, dquote, backslash] @ ''u200b'' @ [dquote]) \<and>
   parse_double_quoted_string False
     \<lparr>lx_source = dquote # (''a'' @ [backslash, dquote, backslash] @ ''u200b'' @ [dquote]) @ ''+1'', lx_start = 0, lx_end = 1\<rparr> =
     Ok (0, (utf8 [0x61, 0x22, 0x200B], 0), 11, 10)"
proof
  have scalars: "list_all is_scalar [0x61, 0x22, 0x200B]" by (simp add: is_scalar_def)
  have size: "2 + length (utf8 [0x61, 0x22, 0x200B]) \<le> 16" by (simp add: encode_def)
  show *: "string_repr (\<lambda>_. False) None 16 (utf8 [0x61, 0x22, 0x200B]) [] =
     Some (dquote # ''a'' @ [backslash, dquote, backslash] @ ''u200b'' @ [dquote])"
    using string_repr_utf8 [OF scalars, of None "[]" 16 "\<lambda>_. False"] size
    by (simp add: repr_char_def need_escape_def push_escape_def hex_pad_def radix_digits.simps radix_digit_def char_of_eq_iff)
  show "parse_double_quoted_string False
     \<lparr>lx_source = dquote # (''a'' @ [backslash, dquote, backslash] @ ''u200b'' @ [dquote]) @ ''+1'', lx_start = 0, lx_end = 1\<rparr> =
     Ok (0, (utf8 [0x61, 0x22, 0x200B], 0), 11, 10)"
    using repr_lex_roundtrip [OF scalars _ size *, of
      "\<lparr>lx_source = dquote # (''a'' @ [backslash, dquote, backslash] @ ''u200b'' @ [dquote]) @ ''+1'', lx_start = 0, lx_end = 1\<rparr>" "''+1''"]
    by (simp add: remainder_def)
qed

end
