(* ===== verification/Lexer.thy ===== *)
theory Lexer
  imports Lexer_String
begin

text \<open>
  The lexer, \<^verbatim>\<open>starlark_syntax/src/lexer.rs\<close>: it runs the scanner that \<open>logos\<close> generates from the attributes of \<open>Token\<close>,
  turns leading white space into \<open>Indent\<close> and \<open>Dedent\<close> tokens with a stack of levels, ignores newlines between brackets, and reads
  string and integer literals itself.

  The generated scanner is the argument \<open>logos\<close>: from the source and a position it returns the next raw token,
  if any, with its span. \<open>logos_ok\<close> states what its documentation promises. \<open>BigInt::from_str_radix\<close> is the argument
  \<open>big_parse\<close>. Keywords and symbols without a treatment of their own are \<open>Fixed\<close> with their spelling. The
  source of the code map is the source of the scanner.
\<close>

subsection \<open>Tokens and the state\<close>

datatype token_int = I32 int | BigInt int

datatype 'f token =
    ErrorToken
  | Comment string
  | Tabs
  | Indent
  | Dedent
  | Newline
  | RawSingleQuote
  | RawDoubleQuote
  | RawFStringSingleQuote
  | RawFStringDoubleQuote
  | Reserved
  | Identifier string
  | RawDecInt
  | RawHexInt
  | RawBinInt
  | RawOctInt
  | IntToken token_int
  | FloatToken 'f
  | StringToken string
  | FString string nat
  | OpeningSquare
  | OpeningCurly
  | OpeningRound
  | ClosingSquare
  | ClosingCurly
  | ClosingRound
  | Fixed string

type_synonym 'f lexeme = "(lex_fail, nat \<times> 'f token \<times> nat) outcome"

record 'f lexer =
  lex_scanner :: scanner
  indent_levels :: "nat list"
  lex_buffer :: "'f lexeme list"
  lex_parens :: int
  lex_done :: bool

definition err_now :: "(string \<Rightarrow> lex_error) \<Rightarrow> scanner \<Rightarrow> (lex_fail, 'a) outcome" where
  "err_now msg s = err_span (msg (slice s)) (lx_start s) (lx_end s)"

definition make_comment :: "string \<Rightarrow> nat \<Rightarrow> nat \<Rightarrow> 'f lexeme" where
  "make_comment source start end' =
     (let comment = take (end' - start) (drop start source)
      in if take 1 comment \<noteq> ''#'' then err_pos CommentSpanComputedIncorrectly start
         else let comment = drop 1 comment
              in if comment \<noteq> [] \<and> last comment = CHR 0x0D then Ok (start, Comment (butlast comment), end' - 1)
                 else Ok (start, Comment comment, end'))"

subsection \<open>Indentation\<close>

datatype scan_end = ScanNothing nat | ScanLine nat nat nat nat

text \<open>The rest of a comment: whether a newline ends it, and what follows.\<close>

fun comment_rest :: "string \<Rightarrow> bool \<times> string" where
  "comment_rest [] = (False, [])"
| "comment_rest (c # it) = (if c = CHR 0x0A then (True, it) else comment_rest it)"

lemma comment_rest_shorter: "length (snd (comment_rest it)) \<le> length it"
  by (induction it) auto

text \<open>\<open>base\<close> is the end of the span and \<open>n\<close> the length of the remainder when the scan starts.\<close>

function indent_scan :: "string \<Rightarrow> nat \<Rightarrow> nat \<Rightarrow> string \<Rightarrow> nat \<Rightarrow> nat \<Rightarrow> nat \<Rightarrow> 'f lexeme list \<Rightarrow> scan_end \<times> 'f lexeme list" where
  "indent_scan source base n it spaces tabs indent_start out =
     (case it of
        [] \<Rightarrow> (ScanNothing n, out)
      | c # it' \<Rightarrow>
          if c = CHR '' '' then indent_scan source base n it' (spaces + 1) tabs indent_start out
          else if c = CHR 0x09 then indent_scan source base n it' spaces (tabs + 1) indent_start out
          else if c = CHR 0x0A then (ScanNothing (n - length it' - 1), out)
          else if c = CHR 0x0D then indent_scan source base n it' spaces tabs indent_start out
          else if c = CHR ''#'' then
            (let start = base + (n - length it') - 1; (newline, it'') = comment_rest it'
             in if newline then
                  indent_scan source base n it'' 0 0 (base + (n - length it''))
                    (out @ [make_comment source start (base + (n - length it'') - 1)])
                else (ScanNothing n, out @ [make_comment source start (base + n)]))
          else (ScanLine (n - length it' - 1) spaces tabs indent_start, out))"
  by pat_completeness auto
termination
proof (relation "measure (\<lambda>(source, base, n, it, spaces, tabs, indent_start, out). length it)", goal_cases)
  case (5 source base n it spaces tabs indent_start out c it' start p newline it'')
  with comment_rest_shorter [of it'] show ?case by (cases "comment_rest it'") auto
qed auto

declare indent_scan.simps [simp del]

definition top_level :: "nat list \<Rightarrow> nat" where
  "top_level levels = (if levels = [] then 0 else last levels)"

function dedent_loop :: "nat \<Rightarrow> nat list \<Rightarrow> nat \<Rightarrow> (nat list, nat list \<times> nat) outcome" where
  "dedent_loop indent levels dedents =
     (let now = top_level levels
      in if now = indent then Ok (levels, dedents)
         else if now > indent then
           (if levels = [] then Panic else dedent_loop indent (butlast levels) (dedents + 1))
         else Err levels)"
  by pat_completeness auto
termination by (relation "measure (\<lambda>(indent, levels, dedents). length levels)") auto

declare dedent_loop.simps [simp del]

text \<open>The second half of \<open>calculate_indent\<close>: the levels and tokens for a line that starts here.\<close>

definition set_indent :: "nat \<Rightarrow> nat \<Rightarrow> nat \<Rightarrow> 'f lexer \<Rightarrow> (lex_fail, unit) outcome \<times> 'f lexer" where
  "set_indent spaces tabs indent_start lx =
     (let s = lex_scanner lx;
          indent = spaces + tabs * 8;
          now = top_level (indent_levels lx)
      in if tabs > 0 then (err_pos InvalidTab (lx_start s), lx)
         else if indent > now then
           (Ok (), lx\<lparr>indent_levels := indent_levels lx @ [indent],
                      lex_buffer := lex_buffer lx @ [Ok (indent_start, Indent, lx_end s)]\<rparr>)
         else if indent < now then
           (if indent_levels lx = [] then (Panic, lx)
            else case dedent_loop indent (butlast (indent_levels lx)) 1 of
                   Ok (levels, dedents) \<Rightarrow>
                     (Ok (), lx\<lparr>indent_levels := levels,
                                lex_buffer := lex_buffer lx @ replicate dedents (Ok (indent_start, Dedent, indent_start))\<rparr>)
                 | Err levels \<Rightarrow>
                     (err_span Indentation (lx_start s) (lx_end s), lx\<lparr>indent_levels := levels\<rparr>)
                 | Panic \<Rightarrow> (Panic, lx))
         else (Ok (), lx))"

definition calculate_indent :: "'f lexer \<Rightarrow> (lex_fail, unit) outcome \<times> 'f lexer" where
  "calculate_indent lx =
     (let s = lex_scanner lx;
          rem = remainder s;
          (found, out) = indent_scan (lx_source s) (lx_end s) (length rem) rem 0 0 (lx_end s) [];
          lx = lx\<lparr>lex_buffer := lex_buffer lx @ out\<rparr>
      in case found of
           ScanNothing k \<Rightarrow> (Ok (), lx\<lparr>lex_scanner := bump k s\<rparr>)
         | ScanLine k spaces tabs indent_start \<Rightarrow> set_indent spaces tabs indent_start (lx\<lparr>lex_scanner := bump k s\<rparr>))"

definition lexer_new :: "string \<Rightarrow> 'f lexer" where
  "lexer_new input =
     (let lx = \<lparr>lex_scanner = \<lparr>lx_source = input, lx_start = 0, lx_end = 0\<rparr>, indent_levels = [], lex_buffer = [],
                lex_parens = 0, lex_done = False\<rparr>
      in case calculate_indent lx of
           (Ok _, lx) \<Rightarrow> lx
         | (Err e, lx) \<Rightarrow> lx\<lparr>lex_buffer := lex_buffer lx @ [Err e]\<rparr>
         | (Panic, lx) \<Rightarrow> lx\<lparr>lex_buffer := lex_buffer lx @ [Panic]\<rparr>)"

subsection \<open>Integer literals\<close>

fun digits_of :: "nat \<Rightarrow> string \<Rightarrow> nat list option" where
  "digits_of radix [] = Some []"
| "digits_of radix (c # s) =
     (case (to_digit radix (byte c), digits_of radix s) of (Some d, Some ds) \<Rightarrow> Some (d # ds) | _ \<Rightarrow> None)"

definition digits_val :: "nat \<Rightarrow> nat list \<Rightarrow> nat" where
  "digits_val radix ds = foldl (\<lambda>n d. n * radix + d) 0 ds"

text \<open>\<open>i32::from_str_radix\<close>.\<close>

definition i32_from_str_radix :: "string \<Rightarrow> nat \<Rightarrow> int option" where
  "i32_from_str_radix s radix =
     (let (neg, s) = (case s of c # t \<Rightarrow> if c = CHR ''-'' then (True, t) else if c = CHR ''+'' then (False, t) else (False, s)
                      | [] \<Rightarrow> (False, s))
      in if s = [] then None
         else case digits_of radix s of
                None \<Rightarrow> None
              | Some ds \<Rightarrow> checked_i32 (if neg then - int (digits_val radix ds) else int (digits_val radix ds)))"

definition token_int_from_str_radix :: "(string \<Rightarrow> nat \<Rightarrow> int option) \<Rightarrow> string \<Rightarrow> nat \<Rightarrow> (lex_error, token_int) outcome" where
  "token_int_from_str_radix big_parse s base =
     (case i32_from_str_radix s base of
        Some i \<Rightarrow> Ok (I32 i)
      | None \<Rightarrow> (case big_parse s base of Some i \<Rightarrow> Ok (BigInt i) | None \<Rightarrow> Err (CannotParse s base)))"

definition lex_int :: "(string \<Rightarrow> nat \<Rightarrow> int option) \<Rightarrow> scanner \<Rightarrow> string \<Rightarrow> nat \<Rightarrow> 'f lexeme" where
  "lex_int big_parse sc s radix =
     (case token_int_from_str_radix big_parse s radix of
        Ok i \<Rightarrow> Ok (lx_start sc, IntToken i, lx_end sc)
      | Err _ \<Rightarrow> err_now IntParse sc
      | Panic \<Rightarrow> Panic)"

subsection \<open>The next lexeme\<close>

datatype 'f next_action = Return "'f lexeme option" "'f lexer" | Continue "'f lexer"

definition wrap :: "'f token \<Rightarrow> 'f lexer \<Rightarrow> 'f next_action" where
  "wrap token lx = Return (Some (Ok (lx_start (lex_scanner lx), token, lx_end (lex_scanner lx)))) lx"

definition return_string :: "(string \<Rightarrow> nat \<Rightarrow> 'f token) \<Rightarrow> string_result \<Rightarrow> 'f lexer \<Rightarrow> 'f next_action" where
  "return_string f r lx =
     (case r of
        Ok (start, (content, offset), end', n) \<Rightarrow>
          Return (Some (Ok (start, f content offset, end'))) (lx\<lparr>lex_scanner := bump n (lex_scanner lx)\<rparr>)
      | Err e \<Rightarrow> Return (Some (Err e)) lx
      | Panic \<Rightarrow> Return (Some Panic) lx)"

definition span_len :: "scanner \<Rightarrow> nat" where
  "span_len s = lx_end s - lx_start s"

definition lex_prefixed_int :: "(string \<Rightarrow> nat \<Rightarrow> int option) \<Rightarrow> string \<Rightarrow> string \<Rightarrow> nat \<Rightarrow> 'f lexer \<Rightarrow> 'f next_action" where
  "lex_prefixed_int big_parse low up radix lx =
     (let s = slice (lex_scanner lx)
      in if take 2 s = low \<or> take 2 s = up then Return (Some (lex_int big_parse (lex_scanner lx) (drop 2 s) radix)) lx
         else Return (Some Panic) lx)"

definition lexer_token :: "(string \<Rightarrow> nat \<Rightarrow> int option) \<Rightarrow> 'f token \<Rightarrow> 'f lexer \<Rightarrow> 'f next_action" where
  "lexer_token big_parse token lx =
     (let sc = lex_scanner lx
      in case token of
           Tabs \<Rightarrow> Continue (lx\<lparr>lex_buffer := lex_buffer lx @ [err_pos InvalidTab (lx_start sc)]\<rparr>)
         | Newline \<Rightarrow>
             (if lex_parens lx = 0 then
                (case calculate_indent lx of
                   (Ok _, lx') \<Rightarrow> Return (Some (Ok (lx_start sc, Newline, lx_end sc))) lx'
                 | (Err e, lx') \<Rightarrow> Return (Some (Err e)) lx'
                 | (Panic, lx') \<Rightarrow> Return (Some Panic) lx')
              else Continue lx)
         | Reserved \<Rightarrow> Return (Some (err_now ReservedKeyword sc)) lx
         | ErrorToken \<Rightarrow> Return (Some (err_now InvalidInput sc)) lx
         | RawDecInt \<Rightarrow>
             (let s = slice sc
              in if length s > 1 \<and> take 1 s = ''0'' then Return (Some (err_now StartsZero sc)) lx
                 else Return (Some (lex_int big_parse sc s 10)) lx)
         | RawOctInt \<Rightarrow> lex_prefixed_int big_parse ''0o'' ''0O'' 8 lx
         | RawHexInt \<Rightarrow> lex_prefixed_int big_parse ''0x'' ''0X'' 16 lx
         | RawBinInt \<Rightarrow> lex_prefixed_int big_parse ''0b'' ''0B'' 2 lx
         | IntToken _ \<Rightarrow> Return (Some Panic) lx
         | RawDoubleQuote \<Rightarrow> return_string (\<lambda>c _. StringToken c) (parse_double_quoted_string (span_len sc = 2) sc) lx
         | RawSingleQuote \<Rightarrow> return_string (\<lambda>c _. StringToken c) (parse_single_quoted_string (span_len sc = 2) sc) lx
         | StringToken _ \<Rightarrow> Return (Some Panic) lx
         | RawFStringDoubleQuote \<Rightarrow>
             return_string (\<lambda>c off. FString c (off + span_len sc)) (parse_double_quoted_string (span_len sc = 3) sc) lx
         | RawFStringSingleQuote \<Rightarrow>
             return_string (\<lambda>c off. FString c (off + span_len sc)) (parse_single_quoted_string (span_len sc = 3) sc) lx
         | FString _ _ \<Rightarrow> Return (Some Panic) lx
         | OpeningCurly \<Rightarrow> wrap token (lx\<lparr>lex_parens := lex_parens lx + 1\<rparr>)
         | OpeningRound \<Rightarrow> wrap token (lx\<lparr>lex_parens := lex_parens lx + 1\<rparr>)
         | OpeningSquare \<Rightarrow> wrap token (lx\<lparr>lex_parens := lex_parens lx + 1\<rparr>)
         | ClosingCurly \<Rightarrow> wrap token (lx\<lparr>lex_parens := lex_parens lx - 1\<rparr>)
         | ClosingRound \<Rightarrow> wrap token (lx\<lparr>lex_parens := lex_parens lx - 1\<rparr>)
         | ClosingSquare \<Rightarrow> wrap token (lx\<lparr>lex_parens := lex_parens lx - 1\<rparr>)
         | _ \<Rightarrow> wrap token lx)"

type_synonym 'f logos = "string \<Rightarrow> nat \<Rightarrow> 'f token option \<times> nat \<times> nat"

text \<open>One round of the loop.\<close>

definition lexer_round :: "'f logos \<Rightarrow> (string \<Rightarrow> nat \<Rightarrow> int option) \<Rightarrow> 'f lexer \<Rightarrow> 'f next_action" where
  "lexer_round logos big_parse lx =
     (case lex_buffer lx of
        x # rest \<Rightarrow> Return (Some x) (lx\<lparr>lex_buffer := rest\<rparr>)
      | [] \<Rightarrow>
          if lex_done lx then Return None lx
          else (case logos (lx_source (lex_scanner lx)) (lx_end (lex_scanner lx)) of
                  (token, start, end') \<Rightarrow>
                    (let lx = lx\<lparr>lex_scanner := (lex_scanner lx)\<lparr>lx_start := start, lx_end := end'\<rparr>\<rparr>
                     in case token of
                          None \<Rightarrow>
                            wrap Newline (lx\<lparr>lex_done := True,
                              lex_buffer := lex_buffer lx @ replicate (length (indent_levels lx)) (Ok (end', Dedent, end')),
                              indent_levels := []\<rparr>)
                        | Some token \<Rightarrow> lexer_token big_parse token lx)))"

partial_function (option) lexer_next :: "'f logos \<Rightarrow> (string \<Rightarrow> nat \<Rightarrow> int option) \<Rightarrow> 'f lexer \<Rightarrow> ('f lexeme option \<times> 'f lexer) option" where
  "lexer_next logos big_parse lx =
     (case lexer_round logos big_parse lx of
        Return r lx' \<Rightarrow> Some (r, lx')
      | Continue lx' \<Rightarrow> lexer_next logos big_parse lx')"

subsection \<open>What is promised of the generated scanner\<close>

text \<open>
  Tokens are non-empty pieces of the source at or after the current position, the scanner stops exactly at the
  end, \<open>Indent\<close>, \<open>Dedent\<close> and the finished literals have no rule, and the rules of the prefixed integers start with their prefix.
\<close>

fun raw_token :: "'f token \<Rightarrow> bool" where
  "raw_token Indent = False"
| "raw_token Dedent = False"
| "raw_token (IntToken _) = False"
| "raw_token (StringToken _) = False"
| "raw_token (FString _ _) = False"
| "raw_token _ = True"

definition int_prefix_ok :: "'f token \<Rightarrow> string \<Rightarrow> bool" where
  "int_prefix_ok t s \<longleftrightarrow>
     (t = RawOctInt \<longrightarrow> take 2 s \<in> {''0o'', ''0O''}) \<and> (t = RawHexInt \<longrightarrow> take 2 s \<in> {''0x'', ''0X''}) \<and>
     (t = RawBinInt \<longrightarrow> take 2 s \<in> {''0b'', ''0B''})"

definition logos_ok :: "'f logos \<Rightarrow> bool" where
  "logos_ok logos \<longleftrightarrow> (\<forall>source pos token start end'. pos \<le> length source \<longrightarrow> logos source pos = (token, start, end') \<longrightarrow>
     (case token of
        None \<Rightarrow> start = length source \<and> end' = length source
      | Some t \<Rightarrow> pos \<le> start \<and> start < end' \<and> end' \<le> length source \<and> raw_token t \<and>
          int_prefix_ok t (take (end' - start) (drop start source))))"

text \<open>The lexemes of \<open>n\<close> calls.\<close>

primrec lexer_calls :: "'f logos \<Rightarrow> (string \<Rightarrow> nat \<Rightarrow> int option) \<Rightarrow> nat \<Rightarrow> 'f lexer \<Rightarrow> ('f lexeme option list \<times> 'f lexer) option" where
  "lexer_calls logos big_parse 0 lx = Some ([], lx)"
| "lexer_calls logos big_parse (Suc n) lx =
     (case lexer_next logos big_parse lx of
        None \<Rightarrow> None
      | Some (x, lx') \<Rightarrow> map_option (\<lambda>(xs, lx''). (x # xs, lx'')) (lexer_calls logos big_parse n lx'))"

end
