(* ===== verification/Lexer_Props.thy ===== *)
theory Lexer_Props
  imports Lexer
begin

text \<open>
  What the lexer guarantees: the indentation tokens are balanced, the stack of levels is strictly increasing, the
  stream of lexemes ends, and nothing panics when the source is smaller than 4 GiB. The bound is needed: the span of an
  error that crosses a multiple of 4 GiB has its end before its beginning, and \<open>Span::new\<close> asserts the opposite.
\<close>

subsection \<open>Spans of errors\<close>

lemma err_span_ok: "start \<le> end' \<Longrightarrow> end' < 2 ^ 32 \<Longrightarrow> err_span msg start end' = Err (msg, start, end')"
  by (simp add: err_span_def pos_new_def)

lemma err_span_no_panic: "start \<le> end' \<Longrightarrow> end' < 2 ^ 32 \<Longrightarrow> err_span msg start end' \<noteq> Panic"
  by (simp add: err_span_ok)

lemma err_span_result: "(\<exists>e. err_span msg start end' = Err e) \<or> err_span msg start end' = Panic"
  by (simp add: err_span_def)

lemma err_pos_Err: "err_pos msg pos = Err (msg, pos_new pos, pos_new pos)"
  by (simp add: err_pos_def err_span_def)

lemma err_span_not_Ok [simp]: "err_span msg start end' \<noteq> Ok x" "err_now f s \<noteq> Ok x"
  by (simp_all add: err_now_def err_span_def)

subsection \<open>Literals do not panic\<close>

lemma string_slow_None:
  "next_char it = None \<Longrightarrow> string_slow triple raw quote rem ss se ct it qs res =
     err_span UnfinishedStringLiteral ss (se + (length rem - length it))"
  by (subst string_slow.simps) simp

lemma string_slow_Some:
  assumes "next_char it = Some (c, r)" "stop_step triple quote qs c = (b, q)"
  shows "string_slow triple raw quote rem ss se ct it qs res =
     (if b then
         (if triple \<and> length res < 2 then Panic
          else Ok (ss, (if triple then take (length res - 2) res else res, ct), se + (length rem - length r), length rem - length r))
       else if c = 0x0A \<and> \<not> triple then err_span UnfinishedStringLiteral ss (se - 1 + (length rem - length r))
       else if c = 0x0D then string_slow triple raw quote rem ss se ct r q res
       else if c = 0x5C then
         (if raw then
            (case next_char r of
               None \<Rightarrow> err_span UnfinishedStringLiteral ss (se + (length rem - length r))
             | Some (d, it'') \<Rightarrow> string_slow triple raw quote rem ss se ct it'' q
                   (res @ (if d \<noteq> 0x27 \<and> d \<noteq> 0x22 then [backslash] else []) @ encode d))
          else
            (case escape r res of
               (None, it'') \<Rightarrow>
                 (let bad = take (length rem - length it'' - (length rem - length r)) (drop (length rem - length r) rem)
                  in err_span (if bad = [] then EmptyEscapeSequence else InvalidEscapeSequence bad)
                       (se + (length rem - length r) - 1) (se + (length rem - length it'')))
             | (Some res', it'') \<Rightarrow> string_slow triple raw quote rem ss se ct it'' q res'))
       else string_slow triple raw quote rem ss se ct r q (res @ encode c))"
  by (subst string_slow.simps) (simp add: assms Let_def)

lemma string_slow_no_panic:
  assumes quote: "quote \<in> {0x22, 0x27}" and span: "ss < se" "se + length rem < 2 ^ 32"
  shows "(triple \<longrightarrow> qs \<le> length res) \<Longrightarrow> length it \<le> length rem \<Longrightarrow>
   string_slow triple raw quote rem ss se ct it qs res \<noteq> Panic"
proof (induction "length it" arbitrary: it qs res rule: less_induct)
  case less
  show ?case
  proof (cases "next_char it")
    case None
    then show ?thesis using span by (simp add: string_slow_None err_span_ok)
  next
    case (Some y)
    obtain c r where y: "next_char it = Some (c, r)" using Some by (cases y) simp
    then have r: "length r < length it" by (rule next_char_shorter)
    obtain b q where bq: "stop_step triple quote qs c = (b, q)" by (cases "stop_step triple quote qs c")
    have push: "triple \<longrightarrow> q \<le> length (res @ encode c)" "triple \<and> c \<noteq> quote \<longrightarrow> q = 0" "triple \<and> b \<longrightarrow> 2 \<le> length res"
      using bq less.prems(1) length_greater_0_conv [of "encode c"] by (auto simp: stop_step_def split: if_splits simp del: length_greater_0_conv)
    have IH: "length it' \<le> length r \<Longrightarrow> triple \<longrightarrow> q \<le> length res' \<Longrightarrow>
        string_slow triple raw quote rem ss se ct it' q res' \<noteq> Panic" for it' res'
      using less.hyps [of it' q res'] less.prems(2) r by simp
    have IH0: "c \<noteq> quote \<Longrightarrow> length it' \<le> length r \<Longrightarrow>
        string_slow triple raw quote rem ss se ct it' q res' \<noteq> Panic" for it' res'
      using IH [of it' res'] push(2) by auto
    note S = string_slow_Some [OF y bq, of raw rem ss se ct res]
    have special: "c = 0x0D \<or> c = 0x5C \<Longrightarrow> c \<noteq> quote" using quote by auto
    have ends: "(err_span m ss (se + (length rem - k)) :: string_result) \<noteq> Panic"
      "(err_span m ss (se - 1 + (length rem - k)) :: string_result) \<noteq> Panic" for m k
      by (rule err_span_no_panic; use span in linarith)+
    consider "b" | "\<not> b" "c = 0x0A" "\<not> triple" | "\<not> b" "c = 0x0D" | "\<not> b" "c = 0x5C" raw | "\<not> b" "c = 0x5C" "\<not> raw"
      | "\<not> b" "\<not> (c = 0x0A \<and> \<not> triple)" "c \<noteq> 0x0D" "c \<noteq> 0x5C" by blast
    then show ?thesis
    proof cases
      case 1
      with push(3) show ?thesis unfolding S by auto
    next
      case 2
      then show ?thesis using ends unfolding S by simp
    next
      case 3
      with IH0 [of r res] special show ?thesis unfolding S by simp
    next
      case 4
      have "string_slow triple raw quote rem ss se ct it' q res' \<noteq> Panic" if "next_char r = Some (d, it')" for d it' res'
        using IH0 [of it' res'] special 4(2) next_char_shorter [OF that] by simp
      with 4 ends(1) ends(1) [of _ 0] show ?thesis unfolding S by (simp add: Let_def split: option.split)
    next
      case 5
      obtain e it' where e: "escape r res = (e, it')" by (cases "escape r res")
      have "string_slow triple raw quote rem ss se ct it' q res' \<noteq> Panic" for res'
        using IH0 [of it' res'] special 5(2) escape_shorter [OF e] by simp
      moreover have "(err_span m (se + (length rem - length r) - 1) (se + (length rem - length it')) :: string_result) \<noteq> Panic" for m
        by (rule err_span_no_panic; use span escape_shorter [OF e] in linarith)
      ultimately show ?thesis using 5 e unfolding S by (simp add: Let_def split: option.split)
    next
      case 6
      with IH [of r "res @ encode c"] push(1) show ?thesis unfolding S by auto
    qed
  qed
qed

lemma string_fast_slow_qs:
  "string_fast triple quote it qs = FastSlow it' qs' \<Longrightarrow> quote \<in> {0x22, 0x27} \<Longrightarrow> triple \<Longrightarrow> qs' = 0"
  by (induction it arbitrary: qs) (auto simp: stop_step_def Let_def split: if_splits)

definition scanner_ok :: "scanner \<Rightarrow> bool" where
  "scanner_ok s \<longleftrightarrow> lx_start s < lx_end s \<and> lx_end s \<le> length (lx_source s) \<and> length (lx_source s) < 2 ^ 32"

lemma string_fast_slow_length: "string_fast triple quote it qs = FastSlow it' qs' \<Longrightarrow> length it' \<le> length it"
  by (induction it arbitrary: qs) (auto simp: Let_def split: if_splits prod.splits intro: le_SucI)

lemma lex_string_no_panic:
  assumes quote: "quote \<in> {0x22, 0x27}" and s: "scanner_ok s"
  shows "lex_string triple raw quote s \<noteq> Panic"
proof -
  have span: "lx_start s < lx_end s" "lx_end s + length (remainder s) < 2 ^ 32"
    using s by (auto simp: scanner_ok_def remainder_def)
  have "string_slow triple raw quote (remainder s) (lx_start s) (lx_end s) ct it' qs res \<noteq> Panic"
    if "string_fast triple quote (drop ct (remainder s)) 0 = FastSlow it' qs" for ct it' qs res
    using string_slow_no_panic [OF quote span] string_fast_slow_qs [OF that quote] string_fast_slow_length [OF that] by simp
  then show ?thesis using span
    unfolding lex_string_def Let_def by (simp only: split: fast_result.split) (simp add: err_span_ok)
qed

lemma parse_quoted_no_panic:
  "scanner_ok s \<Longrightarrow> parse_double_quoted_string raw s \<noteq> Panic" "scanner_ok s \<Longrightarrow> parse_single_quoted_string raw s \<noteq> Panic"
  by (simp_all add: parse_double_quoted_string_def parse_single_quoted_string_def parse_quoted_string_def lex_string_no_panic)

lemma string_slow_step:
  fixes triple raw quote rem ss se ct it qs res
  defines "S \<equiv> string_slow triple raw quote rem ss se ct it qs res"
  shows "(\<exists>e. S = Err e) \<or> S = Panic \<or> (\<exists>x k. S = Ok (ss, x, se + (length rem - k), length rem - k)) \<or>
    (\<exists>it' qs' res'. length it' < length it \<and> S = string_slow triple raw quote rem ss se ct it' qs' res')"
proof (cases "next_char it")
  case None
  then show ?thesis using err_span_result unfolding S_def by (metis string_slow_None)
next
  case (Some y)
  obtain c r where y: "next_char it = Some (c, r)" using Some by (cases y) simp
  then have r: "length r < length it" by (rule next_char_shorter)
  obtain b q where bq: "stop_step triple quote qs c = (b, q)" by (cases "stop_step triple quote qs c")
  note S = string_slow_Some [OF y bq, of raw rem ss se ct res, folded S_def]
  have raw_step: "length it'' < length it" if "next_char r = Some (d, it'')" for d it''
    using next_char_shorter [OF that] r by simp
  have esc_step: "length it'' < length it" if "escape r res = (e, it'')" for e it''
    using escape_shorter [OF that] r by simp
  have final: "b \<Longrightarrow> S = Panic \<or> (\<exists>x k. S = Ok (ss, x, se + (length rem - k), length rem - k))"
    unfolding S by auto
  consider "b" | "\<not> b" "c = 0x0A" "\<not> triple" | "\<not> b" "\<not> (c = 0x0A \<and> \<not> triple)" by blast
  then show ?thesis
  proof cases
    case 2
    then have "S = err_span UnfinishedStringLiteral ss (se - 1 + (length rem - length r))" unfolding S by simp
    then show ?thesis using err_span_result by metis
  next
    case 3
    consider "c = 0x5C" raw "next_char r = None" | d it'' where "c = 0x5C" raw "next_char r = Some (d, it'')"
      | it'' where "c = 0x5C" "\<not> raw" "escape r res = (None, it'')"
      | res' it'' where "c = 0x5C" "\<not> raw" "escape r res = (Some res', it'')" | "c \<noteq> 0x5C"
      by (cases "next_char r"; cases "escape r res"; cases "fst (escape r res)") auto
    then show ?thesis
    proof cases
      case 1
      with 3 have "S = err_span UnfinishedStringLiteral ss (se + (length rem - length r))" unfolding S by simp
      then show ?thesis using err_span_result by metis
    next
      case 2
      with 3 have "S = string_slow triple raw quote rem ss se ct it'' q
          (res @ (if d \<noteq> 0x27 \<and> d \<noteq> 0x22 then [backslash] else []) @ encode d)" unfolding S by simp
      with raw_step [OF 2(3)] show ?thesis by blast
    next
      case 4
      with 3(1,2) have "S = string_slow triple raw quote rem ss se ct it'' q res'" unfolding S by simp
      with esc_step [OF 4(3)] show ?thesis by blast
    next
      case 5
      with 3(1,2) have "S = string_slow triple raw quote rem ss se ct r q (if c = 0x0D then res else res @ encode c)"
        unfolding S by auto
      with r show ?thesis by blast
    qed (use 3 in \<open>auto simp: S Let_def err_span_def\<close>)
  qed (use final in blast)
qed

lemma string_slow_bump: "string_slow triple raw quote rem ss se ct it qs res = Ok (a, b, c, n) \<Longrightarrow> n \<le> length rem"
proof (induction "length it" arbitrary: it qs res rule: less_induct)
  case less
  from string_slow_step [of triple raw quote rem ss se ct it qs res] less show ?case by auto
qed

lemma lex_string_bump: "lex_string triple raw quote s = Ok (a, b, c, n) \<Longrightarrow> n \<le> length (remainder s)"
  unfolding lex_string_def Let_def by (auto split: fast_result.splits dest: string_slow_bump)

lemma parse_quoted_bump:
  "parse_double_quoted_string raw s = Ok (a, b, c, n) \<Longrightarrow> n \<le> length (remainder s)"
  "parse_single_quoted_string raw s = Ok (a, b, c, n) \<Longrightarrow> n \<le> length (remainder s)"
  by (auto simp: parse_double_quoted_string_def parse_single_quoted_string_def parse_quoted_string_def
      split: if_splits dest: lex_string_bump)

subsection \<open>Indentation\<close>

text \<open>What a lexeme adds to the depth of blocks.\<close>

fun depth_of :: "'f token \<Rightarrow> int" where
  "depth_of Indent = 1"
| "depth_of Dedent = - 1"
| "depth_of _ = 0"

fun lexeme_depth :: "'f lexeme \<Rightarrow> int" where
  "lexeme_depth (Ok (a, t, b)) = depth_of t"
| "lexeme_depth _ = 0"

abbreviation net :: "'f lexeme list \<Rightarrow> int" where
  "net xs \<equiv> sum_list (map lexeme_depth xs)"

definition levels_ok :: "nat list \<Rightarrow> bool" where
  "levels_ok levels \<longleftrightarrow> sorted_wrt (<) (0 # levels)"

lemma make_comment_depth: "lexeme_depth (make_comment src a b) = 0" "make_comment src a b \<noteq> Panic"
  by (simp_all add: make_comment_def Let_def err_pos_Err)

fun scan_bump :: "scan_end \<Rightarrow> nat" where
  "scan_bump (ScanNothing k) = k"
| "scan_bump (ScanLine k _ _ _) = k"

lemma indent_scan_spec:
  "indent_scan src base n it spaces tabs start out = (found, out') \<Longrightarrow>
   scan_bump found \<le> n \<and> (\<exists>new. out' = out @ new \<and> (\<forall>x\<in>set new. lexeme_depth x = 0 \<and> x \<noteq> Panic))"
proof (induction src base n it spaces tabs start out arbitrary: rule: indent_scan.induct)
  case (1 src base n it spaces tabs start out)
  show ?case
  proof (cases it)
    case Nil
    with "1.prems" show ?thesis by (subst (asm) indent_scan.simps) auto
  next
    case (Cons c r)
    note IH = "1.IH" [OF Cons]
    obtain nl it'' where nl: "comment_rest r = (nl, it'')" by (cases "comment_rest r")
    consider "c \<in> {CHR '' '', CHR 0x09, CHR 0x0D}" | "c = CHR ''#''" nl | "c = CHR ''#''" "\<not> nl"
      | "c \<notin> {CHR '' '', CHR 0x09, CHR 0x0D, CHR ''#''}" by blast
    then show ?thesis
    proof cases
      case 1
      with "1.prems" Cons IH(1,2,3) show ?thesis
        by (subst (asm) indent_scan.simps) auto
    next
      case 2
      then have "indent_scan src base n it'' 0 0 (base + (n - length it''))
          (out @ [make_comment src (base + (n - length r) - 1) (base + (n - length it'') - 1)]) = (found, out')"
        using "1.prems" Cons nl by (subst (asm) indent_scan.simps) (simp add: Let_def)
      from IH(4) [OF _ _ _ _ 2(1) refl refl nl [symmetric] 2(2) this] 2 nl obtain new where "scan_bump found \<le> n"
        "out' = (out @ [make_comment src (base + (n - length r) - 1) (base + (n - length it'') - 1)]) @ new"
        "\<forall>x\<in>set new. lexeme_depth x = 0 \<and> x \<noteq> Panic" by auto
      then show ?thesis
        by (intro conjI exI [of _ "make_comment src (base + (n - length r) - 1) (base + (n - length it'') - 1) # new"])
          (auto simp: make_comment_depth)
    next
      case 3
      with "1.prems" Cons nl show ?thesis
        by (subst (asm) indent_scan.simps) (auto simp: Let_def make_comment_depth)
    next
      case 4
      with "1.prems" Cons show ?thesis by (subst (asm) indent_scan.simps) (auto split: if_splits)
    qed
  qed
qed

lemma levels_ok_append: "levels_ok (xs @ ys) \<Longrightarrow> levels_ok xs"
  by (simp add: levels_ok_def sorted_wrt_append)

lemma dedent_loop_spec:
  "case dedent_loop indent levels d of
     Ok (levels', d') \<Rightarrow> \<exists>dropped. levels = levels' @ dropped \<and> d' = d + length dropped
   | Err levels' \<Rightarrow> \<exists>dropped. levels = levels' @ dropped
   | Panic \<Rightarrow> False"
proof (induction indent levels d rule: dedent_loop.induct)
  case (1 indent levels d)
  show ?case
  proof (cases "top_level levels > indent")
    case True
    then have ne: "levels \<noteq> []" by (auto simp: top_level_def)
    have step: "dedent_loop indent levels d = dedent_loop indent (butlast levels) (d + 1)"
      using True ne by (subst dedent_loop.simps) (simp add: Let_def)
    have app: "levels = xs @ ys @ [last levels]" if "butlast levels = xs @ ys" for xs ys
      using ne append_butlast_last_id [of levels] that by simp
    from "1.IH" [OF refl] True ne have IH: "case dedent_loop indent (butlast levels) (d + 1) of
        Ok (levels', d') \<Rightarrow> \<exists>dropped. butlast levels = levels' @ dropped \<and> d' = d + 1 + length dropped
      | Err levels' \<Rightarrow> \<exists>dropped. butlast levels = levels' @ dropped
      | Panic \<Rightarrow> False" by simp
    show ?thesis
    proof (cases "dedent_loop indent (butlast levels) (d + 1)")
      case (Ok y)
      with IH obtain levels' dropped where "y = (levels', d + 1 + length dropped)" "butlast levels = levels' @ dropped"
        by (cases y) auto
      with Ok step app show ?thesis by (auto intro!: exI [of _ "dropped @ [last levels]"])
    next
      case (Err levels')
      with IH obtain dropped where "butlast levels = levels' @ dropped" by auto
      with Err step app show ?thesis by (auto intro!: exI [of _ "dropped @ [last levels]"])
    next
      case Panic
      with IH show ?thesis by simp
    qed
  next
    case False
    then show ?thesis by (subst dedent_loop.simps) (simp add: Let_def)
  qed
qed
lemma net_zero:
  assumes "\<forall>x\<in>set xs. lexeme_depth x = 0 \<and> x \<noteq> Panic"
  shows "net xs = 0" "net (drop k xs) = 0"
proof -
  have zero: "\<forall>x\<in>set ys. lexeme_depth x = 0 \<Longrightarrow> net ys = 0" for ys by (induction ys) simp_all
  show "net xs = 0" "net (drop k xs) = 0" using assms by (auto intro!: zero dest: in_set_dropD)
qed

lemma net_replicate_dedent: "net (replicate n (Ok (a, Dedent, b))) = - int n"
  by (induction n) simp_all

definition scanner_moved :: "'f lexer \<Rightarrow> 'f lexer \<Rightarrow> bool" where
  "scanner_moved lx lx' \<longleftrightarrow> lx_source (lex_scanner lx') = lx_source (lex_scanner lx) \<and>
     lx_end (lex_scanner lx) \<le> lx_end (lex_scanner lx') \<and> lx_end (lex_scanner lx') \<le> length (lx_source (lex_scanner lx')) \<and>
     lx_start (lex_scanner lx') = lx_start (lex_scanner lx) \<and> lex_done lx' = lex_done lx"

text \<open>A source smaller than 4 GiB.\<close>

abbreviation small :: "'f lexer \<Rightarrow> bool" where
  "small lx \<equiv> length (lx_source (lex_scanner lx)) < 2 ^ 32"

lemma bump_moved:
  assumes "k \<le> length (remainder s)" "lx_end s \<le> length (lx_source s)"
  shows "lx_source (bump k s) = lx_source s" "lx_end s \<le> lx_end (bump k s)" "lx_end (bump k s) \<le> length (lx_source s)"
    "lx_start (bump k s) = lx_start s"
  using assms by (auto simp: bump_def remainder_def)

text \<open>The lexemes that a change of indentation adds, and the levels after it.\<close>

lemma dedent_levels:
  assumes "levels \<noteq> []" "dedent_loop indent (butlast levels) 1 = Ok (levels', d)"
  shows "\<exists>dropped. levels = levels' @ dropped \<and> d = length dropped"
  using dedent_loop_spec [of "butlast levels" 1 indent] assms by (cases levels rule: rev_cases) auto

lemma dedent_levels_err:
  assumes "levels \<noteq> []" "dedent_loop indent (butlast levels) 1 = Err levels'"
  shows "\<exists>dropped. levels = levels' @ dropped"
  using dedent_loop_spec [of "butlast levels" 1 indent] assms by (cases levels rule: rev_cases) auto

lemma top_level_less: "levels_ok levels \<Longrightarrow> top_level levels < indent \<Longrightarrow> levels_ok (levels @ [indent])"
  by (cases levels rule: rev_cases) (auto simp: levels_ok_def sorted_wrt_append top_level_def intro: less_trans)

definition indent_spec :: "(lex_fail, unit) outcome \<Rightarrow> 'f lexer \<Rightarrow> 'f lexer \<Rightarrow> bool" where
  "indent_spec r lx lx' \<longleftrightarrow> (small lx \<longrightarrow> r \<noteq> Panic) \<and> levels_ok (indent_levels lx') \<and>
    (\<exists>new. lex_buffer lx' = lex_buffer lx @ new \<and> Panic \<notin> set new \<and>
      (r = Ok () \<longrightarrow> net new = int (length (indent_levels lx')) - int (length (indent_levels lx)) \<and>
         (\<forall>k. net (drop k new) \<le> int (length (indent_levels lx')))) \<and>
      (r \<noteq> Ok () \<and> indent_levels lx = [] \<longrightarrow> indent_levels lx' = [] \<and> (\<forall>k. net (drop k new) = 0)))"

lemma indent_specI:
  assumes "small lx \<Longrightarrow> r \<noteq> Panic" "levels_ok (indent_levels lx')" "lex_buffer lx' = lex_buffer lx @ new" "Panic \<notin> set new"
    "r = Ok () \<Longrightarrow> net new = int (length (indent_levels lx')) - int (length (indent_levels lx))"
    "\<And>k. r = Ok () \<Longrightarrow> net (drop k new) \<le> int (length (indent_levels lx'))"
    "r \<noteq> Ok () \<Longrightarrow> indent_levels lx = [] \<Longrightarrow> indent_levels lx' = []"
    "\<And>k. r \<noteq> Ok () \<Longrightarrow> indent_levels lx = [] \<Longrightarrow> net (drop k new) = 0"
  shows "indent_spec r lx lx'"
  using assms unfolding indent_spec_def by blast

lemma set_indent_spec:
  assumes set: "set_indent spaces tabs start lx = (r, lx')" and ok: "levels_ok (indent_levels lx)"
    and span: "lx_start (lex_scanner lx) \<le> lx_end (lex_scanner lx)" "lx_end (lex_scanner lx) \<le> length (lx_source (lex_scanner lx))"
  shows "indent_spec r lx lx' \<and> lex_scanner lx' = lex_scanner lx \<and> lex_done lx' = lex_done lx"
proof -
  let ?levels = "indent_levels lx"
  note set' = set [unfolded set_indent_def Let_def]
  consider "tabs > 0" | "tabs = 0" "spaces > top_level ?levels" | "tabs = 0" "spaces = top_level ?levels"
    | "tabs = 0" "spaces < top_level ?levels" by linarith
  then show ?thesis
  proof cases
    case 1
    with set' ok show ?thesis by (auto simp: err_pos_Err intro!: indent_specI [of _ _ _ "[]"])
  next
    case 2
    with set' ok top_level_less [OF ok 2(2)] show ?thesis
      by (auto intro!: indent_specI [of _ _ _ "[Ok (start, Indent, lx_end (lex_scanner lx))]"] simp: drop_Cons')
  next
    case 3
    with set' ok show ?thesis by (auto intro!: indent_specI [of _ _ _ "[]"])
  next
    case 4
    then have ne: "?levels \<noteq> []" by (auto simp: top_level_def)
    show ?thesis
    proof (cases "dedent_loop spaces (butlast ?levels) 1")
      case (Ok y)
      obtain levels d where y: "y = (levels, d)" by (cases y)
      with dedent_levels [OF ne] Ok obtain dropped where dr: "?levels = levels @ dropped" "d = length dropped" by blast
      with set' 4 ne Ok y levels_ok_append [of levels dropped] ok show ?thesis
        by (auto intro!: indent_specI [of _ _ _ "replicate d (Ok (start, Dedent, start))"] simp: net_replicate_dedent sum_list_replicate)
    next
      case (Err levels)
      with dedent_levels_err [OF ne] obtain dropped where "?levels = levels @ dropped" by blast
      with set' 4 ne Err levels_ok_append [of levels dropped] ok span show ?thesis
        by (auto intro!: indent_specI [of _ _ _ "[]"] simp: err_span_ok)
    next
      case Panic
      with dedent_loop_spec [of "butlast ?levels" 1 spaces] show ?thesis by simp
    qed
  qed
qed

lemma calculate_indent_spec:
  fixes lx :: "'f lexer"
  assumes calc: "calculate_indent lx = (r, lx')" and ok: "levels_ok (indent_levels lx)"
    and span: "lx_start (lex_scanner lx) \<le> lx_end (lex_scanner lx)"
    and bound: "lx_end (lex_scanner lx) \<le> length (lx_source (lex_scanner lx))"
  shows "indent_spec r lx lx' \<and> scanner_moved lx lx'"
proof -
  let ?s = "lex_scanner lx"
  let ?scan = "indent_scan (lx_source ?s) (lx_end ?s) (length (remainder ?s)) (remainder ?s) 0 0 (lx_end ?s) ([] :: 'f lexeme list)"
  obtain found out where scan: "?scan = (found, out)" by (cases ?scan)
  from indent_scan_spec [OF scan] have out: "scan_bump found \<le> length (remainder ?s)" "\<forall>x\<in>set out. lexeme_depth x = 0 \<and> x \<noteq> Panic"
    by auto
  note zero = net_zero [OF out(2)]
  note moved = bump_moved [OF out(1) bound]
  show ?thesis
  proof (cases found)
    case (ScanNothing k)
    with calc scan moved zero out(2) ok show ?thesis
      by (auto simp: calculate_indent_def scanner_moved_def intro!: indent_specI [of _ _ _ out])
  next
    case (ScanLine k spaces tabs start)
    let ?lx = "lx\<lparr>lex_buffer := lex_buffer lx @ out, lex_scanner := bump k ?s\<rparr>"
    have "set_indent spaces tabs start ?lx = (r, lx')" using calc scan ScanLine by (simp add: calculate_indent_def)
    from set_indent_spec [OF this] ok span moved ScanLine have spec: "indent_spec r ?lx lx'" "lex_scanner lx' = bump k ?s" "lex_done lx' = lex_done lx"
      by simp_all
    from spec(1) obtain new where new: "lex_buffer lx' = lex_buffer lx @ out @ new" "Panic \<notin> set new" "small lx \<longrightarrow> r \<noteq> Panic" "levels_ok (indent_levels lx')"
      "r = Ok () \<longrightarrow> net new = int (length (indent_levels lx')) - int (length (indent_levels lx)) \<and>
         (\<forall>k. net (drop k new) \<le> int (length (indent_levels lx')))"
      "r \<noteq> Ok () \<and> indent_levels lx = [] \<longrightarrow> indent_levels lx' = [] \<and> (\<forall>k. net (drop k new) = 0)"
      using moved ScanLine by (auto simp: indent_spec_def)
    have "indent_spec r lx lx'"
      using new out(2) zero by (intro indent_specI [of _ _ _ "out @ new"]) auto
    with spec moved ScanLine show ?thesis by (simp add: scanner_moved_def)
  qed
qed

subsection \<open>One round\<close>

definition lexer_safe :: "'f lexer \<Rightarrow> bool" where
  "lexer_safe lx \<longleftrightarrow> lx_start (lex_scanner lx) \<le> lx_end (lex_scanner lx) \<and>
     lx_end (lex_scanner lx) \<le> length (lx_source (lex_scanner lx)) \<and> levels_ok (indent_levels lx) \<and>
     (small lx \<longrightarrow> Panic \<notin> set (lex_buffer lx))"

text \<open>A lexeme that leaves the blocks alone.\<close>

definition quiet :: "'f lexeme \<Rightarrow> 'f lexer \<Rightarrow> 'f lexer \<Rightarrow> bool" where
  "quiet x lx lx' \<longleftrightarrow> (small lx \<longrightarrow> x \<noteq> Panic) \<and> lexeme_depth x = 0 \<and> scanner_moved lx lx' \<and>
     indent_levels lx' = indent_levels lx \<and> lex_buffer lx' = lex_buffer lx"

definition token_spec :: "'f next_action \<Rightarrow> 'f lexer \<Rightarrow> bool" where
  "token_spec act lx \<longleftrightarrow>
     (\<exists>x lx'. act = Return (Some x) lx' \<and> quiet x lx lx') \<or>
     (\<exists>a b lx'. act = Return (Some (Ok (a, Newline, b))) lx' \<and> indent_spec (Ok ()) lx lx' \<and> scanner_moved lx lx') \<or>
     (\<exists>x r lx'. act = Return (Some x) lx' \<and> (\<forall>y. x \<noteq> Ok y) \<and> (x = Panic \<longrightarrow> r = Panic) \<and> r \<noteq> Ok () \<and>
        indent_spec r lx lx' \<and> scanner_moved lx lx') \<or>
     (\<exists>e. act = Continue (lx\<lparr>lex_buffer := lex_buffer lx @ [Err e]\<rparr>)) \<or> act = Continue lx"

lemma token_spec_quiet: "quiet x lx lx' \<Longrightarrow> token_spec (Return (Some x) lx') lx"
  by (auto simp: token_spec_def)

lemma token_spec_continue: "token_spec (Continue (lx\<lparr>lex_buffer := lex_buffer lx @ [Err e]\<rparr>)) lx"
  unfolding token_spec_def by blast

lemma err_now_quiet: "scanner_ok sc \<Longrightarrow> err_now f sc \<noteq> Panic" "lexeme_depth (err_now f sc) = 0"
  by (simp_all add: err_now_def scanner_ok_def err_span_ok) (simp add: err_span_def)

lemma lex_int_quiet: "scanner_ok sc \<Longrightarrow> lex_int big_parse sc s radix \<noteq> Panic" "lexeme_depth (lex_int big_parse sc s radix) = 0"
  by (simp_all add: lex_int_def token_int_from_str_radix_def err_now_quiet split: option.split)

lemma quiet_same: "lexer_safe lx \<Longrightarrow> (small lx \<Longrightarrow> x \<noteq> Panic) \<Longrightarrow> lexeme_depth x = 0 \<Longrightarrow> token_spec (Return (Some x) lx) lx"
  by (intro token_spec_quiet) (simp add: quiet_def scanner_moved_def lexer_safe_def)

lemma wrap_spec:
  "lexer_safe lx \<Longrightarrow> depth_of t = 0 \<Longrightarrow> token_spec (wrap t (lx\<lparr>lex_parens := p\<rparr>)) lx"
  "lexer_safe lx \<Longrightarrow> depth_of t = 0 \<Longrightarrow> token_spec (wrap t lx) lx"
  by (auto simp: wrap_def quiet_def scanner_moved_def lexer_safe_def intro!: token_spec_quiet)

lemma return_string_spec:
  assumes safe: "lexer_safe lx" and ok: "small lx \<Longrightarrow> r \<noteq> Panic"
    and len: "\<And>a b c n. r = Ok (a, b, c, n) \<Longrightarrow> n \<le> length (remainder (lex_scanner lx))" and depth: "\<And>c off. depth_of (f c off) = 0"
  shows "token_spec (return_string f r lx) lx"
proof (cases r)
  case (Ok y)
  obtain a c off b n where y: "y = (a, (c, off), b, n)" by (metis prod.exhaust)
  have "n \<le> length (remainder (lex_scanner lx))" using len Ok y by blast
  from bump_moved [OF this] safe show ?thesis
    unfolding return_string_def Ok y
    by (auto simp: quiet_def scanner_moved_def lexer_safe_def depth intro!: token_spec_quiet)
next
  case (Err e)
  then show ?thesis using safe by (simp add: return_string_def quiet_same)
next
  case Panic
  then show ?thesis using safe ok by (auto simp: return_string_def intro!: quiet_same)
qed

lemma lex_prefixed_int_spec:
  "lexer_safe lx \<Longrightarrow> (small lx \<Longrightarrow> scanner_ok (lex_scanner lx)) \<Longrightarrow> take 2 (slice (lex_scanner lx)) \<in> {low, up} \<Longrightarrow>
   token_spec (lex_prefixed_int big_parse low up radix lx) lx"
  by (auto simp: lex_prefixed_int_def lex_int_quiet intro!: quiet_same)

lemma newline_spec:
  assumes "lexer_safe lx"
  shows "token_spec (lexer_token big_parse Newline lx) lx"
proof (cases "lex_parens lx = 0")
  case True
  obtain r lx' where calc: "calculate_indent lx = (r, lx')" by (cases "calculate_indent lx")
  have "indent_spec r lx lx'" "scanner_moved lx lx'"
    using calculate_indent_spec [OF calc] assms by (simp_all add: lexer_safe_def)
  then show ?thesis using True calc by (cases r) (auto simp: lexer_token_def token_spec_def Let_def)
next
  case False
  then show ?thesis by (simp add: lexer_token_def token_spec_def)
qed

lemma lexer_token_spec:
  assumes "lexer_safe lx" "raw_token t" "int_prefix_ok t (slice (lex_scanner lx))"
    and span: "lx_start (lex_scanner lx) < lx_end (lex_scanner lx)"
  shows "token_spec (lexer_token big_parse t lx) lx"
proof -
  have ok: "small lx \<Longrightarrow> scanner_ok (lex_scanner lx)" using assms by (simp add: scanner_ok_def lexer_safe_def)
  show ?thesis
  proof (cases t)
    case Newline
    with newline_spec [OF assms(1)] show ?thesis by simp
  next
    case Tabs
    then show ?thesis by (simp add: lexer_token_def Let_def err_pos_Err token_spec_continue)
  next
    case RawDecInt
    with assms(1) ok show ?thesis by (auto simp: lexer_token_def Let_def lex_int_quiet err_now_quiet intro!: quiet_same)
  qed (use assms ok in \<open>auto simp: lexer_token_def Let_def int_prefix_ok_def parse_quoted_no_panic err_now_quiet
      intro!: quiet_same wrap_spec return_string_spec lex_prefixed_int_spec dest: parse_quoted_bump\<close>)
qed

subsection \<open>The invariant of a run\<close>

text \<open>\<open>d\<close> is the depth of blocks that the lexemes returned so far have opened.\<close>

definition lexer_inv :: "int \<Rightarrow> 'f lexer \<Rightarrow> bool" where
  "lexer_inv d lx \<longleftrightarrow> lexer_safe lx \<and> d + net (lex_buffer lx) = int (length (indent_levels lx)) \<and>
     (\<forall>k. net (drop k (lex_buffer lx)) \<le> int (length (indent_levels lx))) \<and> (lex_done lx \<longrightarrow> indent_levels lx = [])"

lemma lexer_inv_depth: "lexer_inv d lx \<Longrightarrow> 0 \<le> d"
  unfolding lexer_inv_def by (metis add_le_cancel_right add_0 drop0)

definition lexer_left :: "'f lexer \<Rightarrow> (nat \<times> nat \<times> nat)" where
  "lexer_left lx = (if lex_done lx then 0 else 1, length (lx_source (lex_scanner lx)) - lx_end (lex_scanner lx), length (lex_buffer lx))"

abbreviation left_order :: "((nat \<times> nat \<times> nat) \<times> (nat \<times> nat \<times> nat)) set" where
  "left_order \<equiv> less_than <*lex*> less_than <*lex*> less_than"

abbreviation same_source :: "'f lexer \<Rightarrow> 'f lexer \<Rightarrow> bool" where
  "same_source lx lx' \<equiv> lx_source (lex_scanner lx') = lx_source (lex_scanner lx)"

text \<open>What a round does to a safe state, to the invariant and to the measure.\<close>

definition round_spec :: "'f next_action \<Rightarrow> 'f lexer \<Rightarrow> bool" where
  "round_spec act lx \<longleftrightarrow>
     (case act of
        Return None lx' \<Rightarrow> lx' = lx \<and> lex_done lx \<and> lex_buffer lx = []
      | Return (Some x) lx' \<Rightarrow> (small lx \<longrightarrow> x \<noteq> Panic) \<and> same_source lx lx' \<and> lexer_safe lx' \<and> (lexer_left lx', lexer_left lx) \<in> left_order \<and>
          (\<forall>d y. lexer_inv d lx \<longrightarrow> x = Ok y \<longrightarrow> lexer_inv (d + lexeme_depth x) lx')
      | Continue lx' \<Rightarrow> same_source lx lx' \<and> lexer_safe lx' \<and> \<not> lex_done lx' \<and> (lexer_left lx', lexer_left lx) \<in> left_order \<and> (\<forall>d. lexer_inv d lx \<longrightarrow> lexer_inv d lx'))"

lemma drop_tail_bound: "\<forall>k. net (drop k (x # rest)) \<le> n \<Longrightarrow> net (drop k rest) \<le> n"
  by (metis drop_Suc_Cons)

lemma pop_spec:
  assumes "lexer_safe lx" "lex_buffer lx = x # rest"
  shows "round_spec (Return (Some x) (lx\<lparr>lex_buffer := rest\<rparr>)) lx"
  using assms by (auto simp: round_spec_def lexer_safe_def lexer_left_def lexer_inv_def intro: drop_tail_bound)

lemma end_spec:
  assumes "lexer_safe lx" "lex_buffer lx = []" "\<not> lex_done lx" "n = length (lx_source (lex_scanner lx))"
  shows "round_spec (wrap Newline (lx\<lparr>lex_scanner := (lex_scanner lx)\<lparr>lx_start := n, lx_end := n\<rparr>, lex_done := True,
      lex_buffer := replicate (length (indent_levels lx)) (Ok (n, Dedent, n)), indent_levels := []\<rparr>)) lx"
  using assms
  by (auto simp: round_spec_def wrap_def lexer_safe_def lexer_left_def lexer_inv_def levels_ok_def net_replicate_dedent sum_list_replicate)

lemma scanner_moved_left:
  assumes "scanner_moved lx1 lx'" "lx1 = lx\<lparr>lex_scanner := s\<rparr>" "lx_source s = lx_source (lex_scanner lx)"
    "lx_end (lex_scanner lx) < lx_end s" "lx_end s \<le> length (lx_source s)"
  shows "(lexer_left lx', lexer_left lx) \<in> left_order"
  using assms by (auto simp: scanner_moved_def lexer_left_def)

lemma inv_quiet:
  assumes "quiet x lx lx'" "lexer_safe lx"
  shows "lexer_safe lx' \<and> (\<forall>d. lexer_inv d lx \<longrightarrow> lexer_inv (d + lexeme_depth x) lx')"
  using assms by (auto simp: quiet_def lexer_safe_def lexer_inv_def scanner_moved_def)

lemma inv_indent:
  assumes "indent_spec r lx lx'" "scanner_moved lx lx'" "lexer_safe lx" "lex_buffer lx = []" "\<not> lex_done lx"
  shows "lexer_safe lx' \<and> (\<forall>d. r = Ok () \<longrightarrow> lexer_inv d lx \<longrightarrow> lexer_inv d lx')"
  using assms by (auto simp: indent_spec_def lexer_safe_def lexer_inv_def scanner_moved_def)

lemma token_round:
  assumes spec: "token_spec act lx1" and lx1: "lx1 = lx\<lparr>lex_scanner := s\<rparr>" "lx_source s = lx_source (lex_scanner lx)"
    "lx_end (lex_scanner lx) < lx_end s" "lx_end s \<le> length (lx_source s)" "lx_start s \<le> lx_end s"
    and safe: "lexer_safe lx" and buf: "lex_buffer lx = []" and run: "\<not> lex_done lx"
  shows "round_spec act lx"
proof -
  have safe1: "lexer_safe lx1" and inv1: "\<And>d. lexer_inv d lx1 = lexer_inv d lx"
    and state1: "lex_buffer lx1 = []" "\<not> lex_done lx1"
    using lx1 safe buf run by (auto simp: lexer_safe_def lexer_inv_def)
  note left = scanner_moved_left [OF _ lx1(1-4)]
  have src: "scanner_moved lx1 lx' \<Longrightarrow> same_source lx lx'" "lx_source (lex_scanner lx1) = lx_source (lex_scanner lx)" for lx'
    using lx1(1,2) by (simp_all add: scanner_moved_def)
  have stay: "scanner_moved lx1 (lx1\<lparr>lex_buffer := b\<rparr>)" "scanner_moved lx1 lx1" for b
    using safe1 by (auto simp: scanner_moved_def lexer_safe_def)
  from spec consider
      (quiet) x lx' where "act = Return (Some x) lx'" "quiet x lx1 lx'"
    | (newline) a b lx' where "act = Return (Some (Ok (a, Newline, b))) lx'" "indent_spec (Ok ()) lx1 lx'" "scanner_moved lx1 lx'"
    | (error) x r lx' where "act = Return (Some x) lx'" "indent_spec r lx1 lx'" "scanner_moved lx1 lx'" "\<forall>y. x \<noteq> Ok y" "x = Panic \<longrightarrow> r = Panic"
    | (tabs) e where "act = Continue (lx1\<lparr>lex_buffer := lex_buffer lx1 @ [Err e]\<rparr>)"
    | (cont) "act = Continue lx1"
    unfolding token_spec_def by blast
  then show ?thesis
  proof cases
    case quiet
    with inv_quiet [OF quiet(2) safe1] left [of lx'] show ?thesis
      by (auto simp: round_spec_def quiet_def inv1 src)
  next
    case newline
    with inv_indent [OF newline(2,3) safe1 state1] left [of lx'] show ?thesis
      by (auto simp: round_spec_def inv1 src)
  next
    case error
    with inv_indent [OF error(2,3) safe1 state1] left [of lx'] show ?thesis
      by (auto simp: round_spec_def inv1 src indent_spec_def)
  next
    case tabs
    have "lexer_inv d lx1 \<Longrightarrow> lexer_inv d (lx1\<lparr>lex_buffer := [Err e]\<rparr>)" for d
      using state1 by (auto simp: lexer_inv_def lexer_safe_def drop_Cons')
    with tabs left [OF stay(1)] safe1 state1 src(1) [OF stay(2)] show ?thesis
      by (auto simp: round_spec_def inv1 lexer_safe_def)
  next
    case cont
    with left [OF stay(2)] safe1 state1 src(1) [OF stay(2)] show ?thesis by (simp add: round_spec_def inv1)
  qed
qed

lemma lexer_round_spec:
  assumes logos: "logos_ok logos" and safe: "lexer_safe lx"
  shows "round_spec (lexer_round logos big_parse lx) lx"
proof (cases "lex_buffer lx")
  case (Cons x rest)
  with pop_spec [OF safe Cons] show ?thesis by (simp add: lexer_round_def)
next
  case Nil
  show ?thesis
  proof (cases "lex_done lx")
    case True
    with Nil show ?thesis by (simp add: lexer_round_def round_spec_def)
  next
    case False
    let ?s = "lex_scanner lx"
    obtain t st en where t: "logos (lx_source ?s) (lx_end ?s) = (t, st, en)"
      by (cases "logos (lx_source ?s) (lx_end ?s)")
    have tok: "case t of None \<Rightarrow> st = length (lx_source ?s) \<and> en = length (lx_source ?s)
      | Some t \<Rightarrow> lx_end ?s \<le> st \<and> st < en \<and> en \<le> length (lx_source ?s) \<and> raw_token t \<and>
          int_prefix_ok t (take (en - st) (drop st (lx_source ?s)))"
      using logos safe t unfolding logos_ok_def lexer_safe_def by blast
    show ?thesis
    proof (cases t)
      case None
      with end_spec [OF safe Nil False] tok t Nil False show ?thesis by (simp add: lexer_round_def)
    next
      case (Some tk)
      let ?lx = "lx\<lparr>lex_scanner := ?s\<lparr>lx_start := st, lx_end := en\<rparr>\<rparr>"
      have "lexer_safe ?lx" using safe tok Some by (simp add: lexer_safe_def)
      from lexer_token_spec [OF this] have "token_spec (lexer_token big_parse tk ?lx) ?lx"
        using tok Some by (simp add: slice_def)
      from token_round [OF this refl _ _ _ _ safe Nil False] have "round_spec (lexer_token big_parse tk ?lx) lx"
        using tok Some by simp
      with t Some Nil False show ?thesis by (simp add: lexer_round_def)
    qed
  qed
qed

subsection \<open>Calls\<close>

definition next_spec :: "'f lexer \<Rightarrow> ('f lexeme option \<times> 'f lexer) option \<Rightarrow> bool" where
  "next_spec lx res \<longleftrightarrow>
     (case res of
        None \<Rightarrow> False
      | Some (None, lx') \<Rightarrow> lx' = lx \<and> lex_done lx \<and> lex_buffer lx = []
      | Some (Some x, lx') \<Rightarrow> (small lx \<longrightarrow> x \<noteq> Panic) \<and> same_source lx lx' \<and> lexer_safe lx' \<and> (lexer_left lx', lexer_left lx) \<in> left_order \<and>
          (\<forall>d y. lexer_inv d lx \<longrightarrow> x = Ok y \<longrightarrow> lexer_inv (d + lexeme_depth x) lx'))"

lemma next_spec_cases:
  "next_spec lx res \<Longrightarrow> res = Some (None, lx) \<or>
     (\<exists>x lx'. res = Some (Some x, lx') \<and> (small lx \<longrightarrow> x \<noteq> Panic) \<and> same_source lx lx' \<and> lexer_safe lx' \<and> (lexer_left lx', lexer_left lx) \<in> left_order)"
  unfolding next_spec_def by (cases res; cases "fst (the res)") auto

lemma left_wf: "wf (inv_image left_order lexer_left)"
  by (intro wf_inv_image wf_lex_prod wf_less_than)

lemma left_order_trans: "(a, b) \<in> left_order \<Longrightarrow> (b, c) \<in> left_order \<Longrightarrow> (a, c) \<in> left_order"
  by (metis trans_lex_prod trans_less_than transD)

lemma lexer_next_spec:
  assumes logos: "logos_ok logos"
  shows "lexer_safe lx \<Longrightarrow> next_spec lx (lexer_next logos big_parse lx)"
proof (induction lx rule: wf_induct_rule [OF left_wf])
  case (1 lx)
  from lexer_round_spec [OF logos 1(2)] have round: "round_spec (lexer_round logos big_parse lx) lx" .
  show ?case
  proof (cases "lexer_round logos big_parse lx")
    case (Return r lx')
    then have step: "lexer_next logos big_parse lx = Some (r, lx')" by (subst lexer_next.simps) simp
    from round Return 1(2) step show ?thesis
      by (cases r) (auto simp: next_spec_def round_spec_def)
  next
    case (Continue lx')
    then have step: "lexer_next logos big_parse lx = lexer_next logos big_parse lx'" by (subst lexer_next.simps) simp
    from round Continue have src: "same_source lx lx'" and lx': "lexer_safe lx'" "\<not> lex_done lx'" "(lexer_left lx', lexer_left lx) \<in> left_order"
      "\<And>d. lexer_inv d lx \<Longrightarrow> lexer_inv d lx'" by (auto simp: round_spec_def)
    from 1(1) [OF _ lx'(1)] lx' src show ?thesis
      unfolding step next_spec_def in_inv_image
      by (auto split: option.splits prod.splits intro: left_order_trans [OF _ lx'(3)])
  qed
qed

lemma lexer_new_inv: "lexer_inv 0 (lexer_new src)"
proof -
  let ?lx = "\<lparr>lex_scanner = \<lparr>lx_source = src, lx_start = 0, lx_end = 0\<rparr>, indent_levels = [], lex_buffer = [],
      lex_parens = 0, lex_done = False\<rparr> :: 'a lexer"
  obtain r lx' where calc: "calculate_indent ?lx = (r, lx')" by (cases "calculate_indent ?lx")
  from calculate_indent_spec [OF calc] have spec: "indent_spec r ?lx lx'" "scanner_moved ?lx lx'"
    by (simp_all add: levels_ok_def)
  then have src: "lx_source (lex_scanner lx') = src" by (simp add: scanner_moved_def)
  show ?thesis
  proof (cases r)
    case (Ok u)
    with calc spec show ?thesis
      by (auto simp: lexer_new_def indent_spec_def scanner_moved_def lexer_inv_def lexer_safe_def)
  next
    case (Err e)
    with calc spec have "lexer_new src = lx'\<lparr>lex_buffer := lex_buffer lx' @ [Err e]\<rparr>" "indent_levels lx' = []"
      "\<And>k. net (drop k (lex_buffer lx')) = 0" "Panic \<notin> set (lex_buffer lx')"
      by (auto simp: lexer_new_def indent_spec_def)
    moreover have "net (lex_buffer lx') = 0" using calculation(3) [of 0] by simp
    moreover have "net (drop k [Err e :: 'a lexeme]) = 0" for k by (simp add: drop_Cons')
    ultimately show ?thesis
      using spec by (auto simp: lexer_inv_def lexer_safe_def scanner_moved_def levels_ok_def)
  next
    case Panic
    with calc spec have "lexer_new src = lx'\<lparr>lex_buffer := lex_buffer lx' @ [Panic]\<rparr>" "indent_levels lx' = []"
      "\<And>k. net (drop k (lex_buffer lx')) = 0" "\<not> small lx'"
      using src by (auto simp: lexer_new_def indent_spec_def)
    moreover have "net (lex_buffer lx') = 0" using calculation(3) [of 0] by simp
    moreover have "net (drop k [Panic :: 'a lexeme]) = 0" for k by (simp add: drop_Cons')
    ultimately show ?thesis
      using spec by (auto simp: lexer_inv_def lexer_safe_def scanner_moved_def levels_ok_def)
  qed
qed

lemma lexer_new_source: "lx_source (lex_scanner (lexer_new src)) = src"
proof -
  let ?lx = "\<lparr>lex_scanner = \<lparr>lx_source = src, lx_start = 0, lx_end = 0\<rparr>, indent_levels = [], lex_buffer = [],
      lex_parens = 0, lex_done = False\<rparr> :: 'a lexer"
  obtain r lx' where calc: "calculate_indent ?lx = (r, lx')" by (cases "calculate_indent ?lx")
  from calculate_indent_spec [OF calc] have "scanner_moved ?lx lx'" by (simp add: levels_ok_def)
  with calc show ?thesis by (cases r) (simp_all add: lexer_new_def scanner_moved_def)
qed

lemma lexer_inv_safe: "lexer_inv d lx \<Longrightarrow> lexer_safe lx"
  by (simp add: lexer_inv_def)

lemma lexer_calls_inv:
  assumes logos: "logos_ok logos"
  shows "lexer_inv d lx \<Longrightarrow> lexer_calls logos big_parse n lx = Some (map (\<lambda>x. Some (Ok x)) ls, lx') \<Longrightarrow>
    lexer_inv (d + sum_list (map (\<lambda>(a, t, b). depth_of t) ls)) lx'"
proof (induction n arbitrary: d lx ls)
  case (Suc n)
  from Suc.prems(2) obtain x lx1 xs where step: "lexer_next logos big_parse lx = Some (x, lx1)"
    "lexer_calls logos big_parse n lx1 = Some (xs, lx')" "x # xs = map (\<lambda>x. Some (Ok x)) ls"
    by (auto split: option.splits)
  then obtain y ls' where ls: "ls = y # ls'" "x = Some (Ok y)" "xs = map (\<lambda>x. Some (Ok x)) ls'" by (cases ls) auto
  have "lexer_inv (d + lexeme_depth (Ok y)) lx1"
    using lexer_next_spec [OF logos lexer_inv_safe [OF Suc.prems(1)], of big_parse] Suc.prems(1) step(1) ls(2)
    by (auto simp: next_spec_def)
  from Suc.IH [OF this] step(2) ls show ?case by (cases y) (simp add: add.assoc)
qed simp

lemma depth_counts:
  "sum_list (map (\<lambda>(a, t, b). depth_of t) ls) =
     int (count_list (map (\<lambda>(a, t, b). t) ls) Indent) - int (count_list (map (\<lambda>(a, t, b). t) ls) Dedent)"
proof (induction ls)
  case (Cons y ls)
  obtain a t b where "y = (a, t, b)" by (cases y)
  with Cons show ?case by (cases t) auto
qed simp

text \<open>
  C2. Blocks are balanced. In every stream of tokens that the lexer returns without an error, no prefix closes
  more blocks than it opens, the stack of indentation levels is strictly increasing above 0, and when the lexer
  has nothing more to return every block that was opened is closed.
\<close>

theorem lexer_blocks_balanced:
  assumes "logos_ok logos"
    and "lexer_calls logos big_parse n (lexer_new src) = Some (map (\<lambda>x. Some (Ok x)) ls, lx)"
  shows "count_list (map (\<lambda>(a, t, b). t) ls) Dedent \<le> count_list (map (\<lambda>(a, t, b). t) ls) Indent \<and>
    sorted_wrt (<) (0 # indent_levels lx) \<and>
    (\<forall>lx'. lexer_next logos big_parse lx = Some (None, lx') \<longrightarrow>
       count_list (map (\<lambda>(a, t, b). t) ls) Indent = count_list (map (\<lambda>(a, t, b). t) ls) Dedent)"
proof -
  let ?d = "sum_list (map (\<lambda>(a, t, b). depth_of t) ls)"
  have inv: "lexer_inv ?d lx" using lexer_calls_inv [OF assms(1) lexer_new_inv assms(2)] by simp
  have "?d = 0" if "lexer_next logos big_parse lx = Some (None, lx')" for lx'
  proof -
    from lexer_next_spec [OF assms(1) lexer_inv_safe [OF inv], of big_parse] that inv
    have "lex_done lx" "lex_buffer lx = []" by (auto simp: next_spec_def)
    with inv show ?thesis by (simp add: lexer_inv_def)
  qed
  with lexer_inv_depth [OF inv] inv show ?thesis
    by (auto simp: depth_counts lexer_inv_def lexer_safe_def levels_ok_def)
qed

text \<open>
  C23. Lexing ends. For every source, the lexer returns after finitely many lexemes \<open>None\<close>, and from then on it
  keeps returning \<open>None\<close>; no call diverges, whatever errors the source contains. When the source is smaller than 4 GiB
  no call panics either: the span of every error has its beginning before its end, as \<open>Span::new\<close> asserts, the stack of
  levels is never popped when it is empty, and the arms marked unreachable are.
\<close>

theorem lexer_terminates:
  assumes "logos_ok logos"
  shows "\<exists>n xs lx. lexer_calls logos big_parse n (lexer_new src) = Some (map Some xs, lx) \<and>
    (length src < 2 ^ 32 \<longrightarrow> Panic \<notin> set xs) \<and> lexer_next logos big_parse lx = Some (None, lx)"
proof -
  have "\<exists>n xs lx'. lexer_calls logos big_parse n lx = Some (map Some xs, lx') \<and> (small lx \<longrightarrow> Panic \<notin> set xs) \<and>
      lexer_next logos big_parse lx' = Some (None, lx')" if "lexer_safe lx" for lx
    using that
  proof (induction lx rule: wf_induct_rule [OF left_wf])
    case (1 lx)
    from next_spec_cases [OF lexer_next_spec [OF assms 1(2), of big_parse]] consider
        (stop) "lexer_next logos big_parse lx = Some (None, lx)"
      | (more) x lx' where "lexer_next logos big_parse lx = Some (Some x, lx')" "small lx \<longrightarrow> x \<noteq> Panic" "lexer_safe lx'"
          "(lexer_left lx', lexer_left lx) \<in> left_order" "same_source lx lx'"
      by blast
    then show ?case
    proof cases
      case stop
      then show ?thesis by (intro exI [of _ 0] exI [of _ "[]"] exI [of _ lx]) simp
    next
      case more
      from 1(1) [OF _ more(3)] more(4,5) obtain n xs lx'' where
        "lexer_calls logos big_parse n lx' = Some (map Some xs, lx'')" "small lx \<longrightarrow> Panic \<notin> set xs"
        "lexer_next logos big_parse lx'' = Some (None, lx'')"
        by auto
      with more show ?thesis by (intro exI [of _ "Suc n"] exI [of _ "x # xs"] exI [of _ lx'']) auto
    qed
  qed
  from this [OF lexer_inv_safe [OF lexer_new_inv], of src] show ?thesis by (simp add: lexer_new_source)
qed

subsection \<open>A small scanner\<close>

text \<open>A scanner with newlines, one-letter identifiers and spaces, which keeps the promises made of \<open>logos\<close>.\<close>

definition letter_logos :: "unit logos" where
  "letter_logos source pos =
     (let start = pos + length (takeWhile (\<lambda>c. c = CHR '' '') (drop pos source))
      in if start < length source then
           (Some (if source ! start = CHR 0x0A then Newline else Identifier [source ! start]), start, start + 1)
         else (None, length source, length source))"

lemma letter_logos_ok: "logos_ok letter_logos"
  by (auto simp: logos_ok_def letter_logos_def Let_def int_prefix_ok_def split: if_splits)

theorem lexer_blocks_balanced_witness:
  "\<exists>lx. lexer_calls letter_logos (\<lambda>_ _. None) 3 (lexer_new [CHR ''a'', CHR 0x0A, CHR '' '', CHR ''b'']) =
     Some (map (\<lambda>x. Some (Ok x)) [(0, Identifier ''a'', 1), (1, Newline, 2), (2, Indent, 3)], lx) \<and>
     sorted_wrt (<) (0 # indent_levels lx)"
proof -
  obtain lx where lx: "lexer_calls letter_logos (\<lambda>_ _. None) 3 (lexer_new [CHR ''a'', CHR 0x0A, CHR '' '', CHR ''b'']) =
     Some (map (\<lambda>x. Some (Ok x)) [(0, Identifier ''a'', 1), (1, Newline, 2), (2, Indent, 3)], lx)"
    by (simp add: numeral_3_eq_3 lexer_next.simps lexer_round_def lexer_new_def calculate_indent_def indent_scan.simps
        remainder_def bump_def letter_logos_def lexer_token_def wrap_def set_indent_def top_level_def)
  from lexer_blocks_balanced [OF letter_logos_ok lx] lx show ?thesis by blast
qed

theorem lexer_terminates_witness:
  "\<exists>n xs lx. lexer_calls letter_logos (\<lambda>_ _. None) n (lexer_new [CHR ''a'', CHR 0x0A, CHR '' '', CHR ''b'']) = Some (map Some xs, lx) \<and>
     Panic \<notin> set xs \<and> lexer_next letter_logos (\<lambda>_ _. None) lx = Some (None, lx)"
  using lexer_terminates [OF letter_logos_ok, of "\<lambda>_ _. None" "[CHR ''a'', CHR 0x0A, CHR '' '', CHR ''b'']"] by simp

text \<open>A token that crosses the 4 GiB mark makes \<open>err_now\<close> panic.\<close>

lemma err_now_panics:
  assumes "lx_start s = 2 ^ 32 - 1" and "lx_end s = 2 ^ 32"
  shows "err_now msg s = Panic"
  by (simp add: err_now_def err_span_def pos_new_def assms)

end
