(* ===== verification/Fast_String.thy ===== *)
theory Fast_String
  imports Utf8 Slice_Index "HOL-Library.Sublist"
begin

text \<open>
  Operations on strings by character index, \<^verbatim>\<open>starlark_syntax/src/fast_string.rs\<close>: they skip the ASCII prefix of a string
  eight bytes at a time and continue character by character.

  \<open>align\<close> is what \<open>align_offset(8)\<close> returns for the address of the string. Reading outside of the string is \<open>None\<close>. With
  \<open>dbg\<close> the debug assertions are checked; a failing one, and \<open>unwrap\<close> on \<open>None\<close>, is a panic. \<open>memchr\<close> is an argument.
\<close>

unbundle bit_operations_syntax

subsection \<open>Skipping ASCII\<close>

definition is_1byte :: "char \<Rightarrow> bool" where
  "is_1byte x \<longleftrightarrow> byte x AND 0x80 = 0"

fun read_u64 :: "string \<Rightarrow> int" where
  "read_u64 [] = 0"
| "read_u64 (b # bs) = concat_bit 8 (int (byte b)) (read_u64 bs)"

definition is_1bytes :: "int \<Rightarrow> bool" where
  "is_1bytes x \<longleftrightarrow> x AND 0x8080808080808080 = 0"

text \<open>The position after a loop, and whether it ran to its end.\<close>

fun skip_bytes :: "string \<Rightarrow> nat \<Rightarrow> nat \<Rightarrow> (nat \<times> bool) option" where
  "skip_bytes x 0 p = Some (p, True)"
| "skip_bytes x (Suc k) p =
     (if p < length x then (if is_1byte (x ! p) then skip_bytes x k (p + 1) else Some (p, False)) else None)"

fun skip_words :: "string \<Rightarrow> nat \<Rightarrow> nat \<Rightarrow> (nat \<times> bool) option" where
  "skip_words x 0 p = Some (p, True)"
| "skip_words x (Suc k) p =
     (if p + 8 \<le> length x then
        (if is_1bytes (read_u64 (take 8 (drop p x))) then skip_words x k (p + 8) else Some (p, False))
      else None)"

definition skip_at_most_1byte :: "nat \<Rightarrow> string \<Rightarrow> nat \<Rightarrow> nat option" where
  "skip_at_most_1byte align x n =
     (if n = 0 then Some 0
      else let leading = min align n; trailing = (n - leading) mod 8; loops = (n - leading) div 8
           in case skip_bytes x leading 0 of
                None \<Rightarrow> None
              | Some (p, False) \<Rightarrow> Some p
              | Some (p, True) \<Rightarrow>
                  (case skip_words x loops p of
                     None \<Rightarrow> None
                   | Some (p, False) \<Rightarrow> Some p
                   | Some (p, True) \<Rightarrow> map_option fst (skip_bytes x trailing p)))"

subsection \<open>Operations\<close>

definition nth_opt :: "'a list \<Rightarrow> nat \<Rightarrow> 'a option" where
  "nth_opt xs i = (if i < length xs then Some (xs ! i) else None)"

definition fs_at :: "nat \<Rightarrow> string \<Rightarrow> nat \<Rightarrow> ('e, nat option) outcome" where
  "fs_at align x i =
     (if i \<ge> length x then Ok None
      else case skip_at_most_1byte align x i of
             None \<Rightarrow> Panic
           | Some n \<Rightarrow> Ok (nth_opt (chars (drop n x)) (i - n)))"

definition fs_len :: "nat \<Rightarrow> string \<Rightarrow> ('e, nat) outcome" where
  "fs_len align x =
     (case skip_at_most_1byte align x (length x) of
        None \<Rightarrow> Panic
      | Some n \<Rightarrow> Ok (if n = length x then n else length (chars (drop n x)) + n))"

definition count_matches_byte :: "string \<Rightarrow> char \<Rightarrow> nat" where
  "count_matches_byte x needle = length (filter (\<lambda>b. b = needle) x)"

text \<open>\<open>matches(needle).count()\<close>: the matches of a nonempty string that do not overlap, from the left; the empty string matches
  before every character and at the end.\<close>

function count_nonoverlapping :: "string \<Rightarrow> string \<Rightarrow> nat" where
  "count_nonoverlapping x needle =
     (if x = [] \<or> needle = [] then 0
      else if take (length needle) x = needle then 1 + count_nonoverlapping (drop (length needle) x) needle
      else count_nonoverlapping (tl x) needle)"
  by pat_completeness auto
termination by (relation "measure (length \<circ> fst)") (auto simp: neq_Nil_conv)

declare count_nonoverlapping.simps [simp del]

definition count_matches :: "string \<Rightarrow> string \<Rightarrow> nat" where
  "count_matches x needle =
     (if length needle = 1 then count_matches_byte x (needle ! 0)
      else if needle = [] then length (chars x) + 1
      else count_nonoverlapping x needle)"

fun advance :: "nat \<Rightarrow> string \<Rightarrow> string option" where
  "advance 0 c = Some c"
| "advance (Suc k) c = (case next_char c of None \<Rightarrow> None | Some (_, c') \<Rightarrow> advance k c')"

definition fs_split_at :: "nat \<Rightarrow> string \<Rightarrow> nat \<Rightarrow> ('e, (string \<times> string) option) outcome" where
  "fs_split_at align x i =
     (if i = 0 then Ok (Some ([], x))
      else if i > length x then Ok None
      else case skip_at_most_1byte align x i of
             None \<Rightarrow> Panic
           | Some n \<Rightarrow>
               (case advance (i - n) (drop n x) of
                  None \<Rightarrow> Ok None
                | Some c \<Rightarrow> Ok (Some (take (length x - length c) x, drop (length x - length c) x))))"

definition split_at_end :: "nat \<Rightarrow> string \<Rightarrow> nat \<Rightarrow> ('e, string) outcome" where
  "split_at_end align x i =
     bind_outcome (fs_split_at align x i) (\<lambda>r. Ok (case r of Some (before, _) \<Rightarrow> before | None \<Rightarrow> x))"

definition debug_assert :: "bool \<Rightarrow> bool \<Rightarrow> ('e, unit) outcome" where
  "debug_assert dbg cond = (if dbg \<and> \<not> cond then Panic else Ok ())"

definition unwrap_opt :: "'a option \<Rightarrow> ('e, 'a) outcome" where
  "unwrap_opt r = (case r of Some y \<Rightarrow> Ok y | None \<Rightarrow> Panic)"

record str_indices =
  si_start :: nat
  si_haystack :: string

definition convert_str_indices_slow ::
  "bool \<Rightarrow> bool \<Rightarrow> nat \<Rightarrow> string \<Rightarrow> int option \<Rightarrow> int option \<Rightarrow> ('e, str_indices option) outcome" where
  "convert_str_indices_slow dbg oc align s start end' =
     bind_outcome (debug_assert dbg (case_option False (\<lambda>x. x < 0) start \<or> case_option False (\<lambda>y. y < 0) end')) (\<lambda>_.
     bind_outcome (debug_assert dbg (case (start, end') of (Some x, Some y) \<Rightarrow> x \<ge> 0 \<or> y \<ge> 0 \<or> x \<le> y | _ \<Rightarrow> True)) (\<lambda>_.
     bind_outcome (fs_len align s) (\<lambda>len.
     bind_outcome (convert_indices oc (wrap_i32 (int len)) start end') (\<lambda>(start, end').
       if start > end' then Ok None
       else bind_outcome (debug_assert dbg (end' \<le> len)) (\<lambda>_.
         if len = length s then Ok (Some \<lparr>si_start = start, si_haystack = take (end' - start) (drop start s)\<rparr>)
         else bind_outcome (bind_outcome (fs_split_at align s start) unwrap_opt) (\<lambda>(_, s).
              bind_outcome (bind_outcome (fs_split_at align s (end' - start)) unwrap_opt) (\<lambda>(s, _).
              Ok (Some \<lparr>si_start = start, si_haystack = s\<rparr>))))))))"

text \<open>The string behind the start, or nothing.\<close>

definition from_start :: "nat \<Rightarrow> string \<Rightarrow> int \<Rightarrow> (string \<Rightarrow> ('e, str_indices option) outcome) \<Rightarrow> ('e, str_indices option) outcome" where
  "from_start align s start f =
     bind_outcome (fs_split_at align s (nat start)) (\<lambda>r. case r of None \<Rightarrow> Ok None | Some (_, s) \<Rightarrow> f s)"

definition convert_str_indices ::
  "bool \<Rightarrow> bool \<Rightarrow> nat \<Rightarrow> string \<Rightarrow> int option \<Rightarrow> int option \<Rightarrow> ('e, str_indices option) outcome" where
  "convert_str_indices dbg oc align s start end' =
     (case (start, end') of
        (None, None) \<Rightarrow> Ok (Some \<lparr>si_start = 0, si_haystack = s\<rparr>)
      | (Some x, None) \<Rightarrow>
          if x \<ge> 0 then from_start align s x (\<lambda>s. Ok (Some \<lparr>si_start = nat x, si_haystack = s\<rparr>))
          else convert_str_indices_slow dbg oc align s start end'
      | (None, Some y) \<Rightarrow>
          if y \<ge> 0 then bind_outcome (split_at_end align s (nat y)) (\<lambda>s. Ok (Some \<lparr>si_start = 0, si_haystack = s\<rparr>))
          else convert_str_indices_slow dbg oc align s start end'
      | (Some x, Some y) \<Rightarrow>
          if x \<ge> 0 \<and> y \<ge> x then
            from_start align s x (\<lambda>s.
              bind_outcome (split_at_end align s (nat (y - x))) (\<lambda>s. Ok (Some \<lparr>si_start = nat x, si_haystack = s\<rparr>)))
          else if (x \<ge> 0) = (y \<ge> 0) \<and> x > y then Ok None
          else convert_str_indices_slow dbg oc align s start end')"

fun contains_loop :: "string \<Rightarrow> string \<Rightarrow> nat \<Rightarrow> nat \<Rightarrow> bool" where
  "contains_loop haystack needle start 0 = False"
| "contains_loop haystack needle start (Suc k) =
     (if haystack ! start \<noteq> needle ! 0 then contains_loop haystack needle (start + 1) k
      else if take (length needle) (drop start haystack) = needle then True
      else contains_loop haystack needle (start + 1) k)"

definition fs_contains :: "(char \<Rightarrow> string \<Rightarrow> nat option) \<Rightarrow> string \<Rightarrow> string \<Rightarrow> bool" where
  "fs_contains memchr haystack needle =
     (if needle = [] then True
      else if length needle = 1 then memchr (needle ! 0) haystack \<noteq> None
      else if length haystack < length needle then False
      else contains_loop haystack needle 0 (length haystack - length needle + 1))"

subsection \<open>The ASCII prefix\<close>

lemma byte_lt: "byte b < 256"
  using of_char_of [of "byte b"] mod_less_divisor [of 256 "byte b"] by (metis char_of_char zero_less_numeral)

lemma is_1byte_iff: "is_1byte b \<longleftrightarrow> byte b < 0x80"
proof -
  have "is_1byte b \<longleftrightarrow> \<not> bit (byte b) 7"
    using and_exp_eq_0_iff_not_bit [of "byte b" 7] by (simp add: is_1byte_def)
  also have "\<dots> \<longleftrightarrow> byte b < 0x80"
  proof -
    have "byte b div 128 = 0 \<or> byte b div 128 = 1" using byte_lt [of b] by linarith
    then show ?thesis by (auto simp: bit_iff_odd)
  qed
  finally show ?thesis .
qed

lemma concat_bit_and: "concat_bit n a x AND concat_bit n b y = concat_bit n (a AND b) (x AND y)"
  by (rule bit_eqI) (auto simp: bit_and_iff bit_concat_bit_iff)

lemma concat_bit_eq_0: "concat_bit n a x = 0 \<longleftrightarrow> take_bit n a = 0 \<and> x = 0"
  by (auto simp: concat_bit_def or_eq_0_iff)

fun mask_u64 :: "nat \<Rightarrow> int" where
  "mask_u64 0 = 0"
| "mask_u64 (Suc n) = concat_bit 8 0x80 (mask_u64 n)"

lemma byte_and_int: "int (byte b) AND 0x80 = 0 \<longleftrightarrow> is_1byte b"
  unfolding is_1byte_def using of_nat_and_eq [of "byte b" "0x80", where 'a = int] by (metis of_nat_0_eq_iff of_nat_numeral)

lemma take_bit_byte: "take_bit 8 (int (byte b)) = int (byte b)"
  using byte_lt [of b] by (simp add: take_bit_int_eq_self)

lemma read_u64_mask: "read_u64 bs AND mask_u64 (length bs) = 0 \<longleftrightarrow> list_all is_1byte bs"
  by (induction bs) (auto simp: concat_bit_and concat_bit_eq_0 take_bit_and take_bit_byte byte_and_int)

lemma mask_8: "mask_u64 8 = 0x8080808080808080"
  by code_simp

lemma is_1bytes_read: "length bs = 8 \<Longrightarrow> is_1bytes (read_u64 bs) \<longleftrightarrow> list_all is_1byte bs"
  using read_u64_mask [of bs] by (simp add: is_1bytes_def mask_8)

lemma skip_bytes_spec:
  "p + k \<le> length x \<Longrightarrow>
   \<exists>q b. skip_bytes x k p = Some (q, b) \<and> p \<le> q \<and> q \<le> p + k \<and> (b \<longrightarrow> q = p + k) \<and> (\<forall>i. p \<le> i \<and> i < q \<longrightarrow> is_1byte (x ! i))"
proof (induction k arbitrary: p)
  case (Suc k)
  show ?case
  proof (cases "is_1byte (x ! p)")
    case True
    with Suc.IH [of "p + 1"] Suc.prems obtain q b where q: "skip_bytes x k (p + 1) = Some (q, b)" "p + 1 \<le> q" "q \<le> p + 1 + k"
      "b \<longrightarrow> q = p + 1 + k" "\<forall>i. p + 1 \<le> i \<and> i < q \<longrightarrow> is_1byte (x ! i)" by auto
    moreover have "is_1byte (x ! i)" if "p \<le> i" "i < q" for i using that q(5) True by (cases "i = p") auto
    ultimately show ?thesis using Suc.prems True by auto
  qed (use Suc.prems in auto)
qed auto

lemma skip_words_spec:
  "p + 8 * k \<le> length x \<Longrightarrow>
   \<exists>q b. skip_words x k p = Some (q, b) \<and> p \<le> q \<and> q \<le> p + 8 * k \<and> (b \<longrightarrow> q = p + 8 * k) \<and> (\<forall>i. p \<le> i \<and> i < q \<longrightarrow> is_1byte (x ! i))"
proof (induction k arbitrary: p)
  case (Suc k)
  show ?case
  proof (cases "is_1bytes (read_u64 (take 8 (drop p x)))")
    case True
    with Suc.prems have word: "is_1byte (x ! i)" if "p \<le> i" "i < p + 8" for i
      using that is_1bytes_read [of "take 8 (drop p x)"] by (auto simp: list_all_length dest: spec [of _ "i - p"])
    from Suc.IH [of "p + 8"] Suc.prems obtain q b where q: "skip_words x k (p + 8) = Some (q, b)" "p + 8 \<le> q" "q \<le> p + 8 + 8 * k"
      "b \<longrightarrow> q = p + 8 + 8 * k" "\<forall>i. p + 8 \<le> i \<and> i < q \<longrightarrow> is_1byte (x ! i)" by auto
    moreover have "is_1byte (x ! i)" if "p \<le> i" "i < q" for i using that q(5) word by (cases "i < p + 8") auto
    ultimately show ?thesis using Suc.prems True by auto
  qed (use Suc.prems in auto)
qed auto

lemma skip_at_most_1byte_spec:
  assumes "n \<le> length x"
  obtains k where "skip_at_most_1byte align x n = Some k" "k \<le> n" "\<forall>i<k. byte (x ! i) < 0x80"
proof -
  define lead where "lead = min align n"
  define rest where "rest = n - lead"
  have n: "lead + 8 * (rest div 8) + rest mod 8 = n" by (simp add: lead_def rest_def)
  obtain p b where p: "skip_bytes x lead 0 = Some (p, b)" "p \<le> lead" "b \<longrightarrow> p = lead" "\<forall>i<p. is_1byte (x ! i)"
    using skip_bytes_spec [of 0 lead x] n assms by auto
  obtain q c where q: "skip_words x (rest div 8) lead = Some (q, c)" "lead \<le> q" "q \<le> lead + 8 * (rest div 8)"
    "c \<longrightarrow> q = lead + 8 * (rest div 8)" "\<forall>i. lead \<le> i \<and> i < q \<longrightarrow> is_1byte (x ! i)"
    using skip_words_spec [of lead "rest div 8" x] n assms by auto
  obtain r d where r: "skip_bytes x (rest mod 8) (lead + 8 * (rest div 8)) = Some (r, d)" "r \<le> n"
    "\<forall>i. lead + 8 * (rest div 8) \<le> i \<and> i < r \<longrightarrow> is_1byte (x ! i)"
    using skip_bytes_spec [of "lead + 8 * (rest div 8)" "rest mod 8" x] n assms by auto
  let ?k = "if n = 0 then 0 else if \<not> b then p else if \<not> c then q else r"
  have "skip_at_most_1byte align x n = Some ?k"
    using p(1,3) q(1,4) r(1) by (auto simp: skip_at_most_1byte_def lead_def [symmetric] rest_def [symmetric])
  moreover have "?k \<le> n" using n p(2) q(3) r(2) by auto
  moreover have "is_1byte (x ! i)" if "i < ?k" for i
    using that p(3,4) q(4,5) r(3) by (auto split: if_splits) (metis not_less)+
  ultimately show ?thesis using that by (auto simp: is_1byte_iff)
qed

lemma ascii_prefix:
  assumes "list_all is_scalar cs" "k \<le> length (utf8 cs)" "\<forall>i<k. byte (utf8 cs ! i) < 0x80"
  shows "k \<le> length cs \<and> drop k (utf8 cs) = utf8 (drop k cs)"
  using assms
proof (induction k arbitrary: cs)
  case (Suc k)
  then obtain b r where r: "utf8 cs = b # r" by (cases "utf8 cs") auto
  with Suc.prems obtain ds where "cs = byte b # ds" "r = utf8 ds" using utf8_head_ascii [of cs b r] by fastforce
  with Suc.IH [of ds] Suc.prems r show ?case by fastforce
qed simp

lemma length_utf8: "length cs \<le> length (utf8 cs)"
proof (induction cs)
  case (Cons c cs)
  then show ?case using encode_nonempty [of c] by (cases "encode c") auto
qed simp

lemma skip_at_most_utf8:
  assumes "list_all is_scalar cs" "n \<le> length (utf8 cs)"
  obtains k where "skip_at_most_1byte align (utf8 cs) n = Some k" "k \<le> n" "k \<le> length cs" "drop k (utf8 cs) = utf8 (drop k cs)"
  using skip_at_most_1byte_spec [OF assms(2)] ascii_prefix [OF assms(1)] assms(2) by (metis le_trans)

subsection \<open>The operations on valid strings\<close>

lemma scalar_drop: "list_all is_scalar cs \<Longrightarrow> list_all is_scalar (drop k cs)"
  by (meson in_set_dropD list_all_iff)

lemma scalar_take: "list_all is_scalar cs \<Longrightarrow> list_all is_scalar (take k cs)"
  by (meson in_set_takeD list_all_iff)

lemma fs_len_utf8:
  assumes "list_all is_scalar cs"
  shows "fs_len align (utf8 cs) = Ok (length cs)"
proof -
  obtain k where k: "skip_at_most_1byte align (utf8 cs) (length (utf8 cs)) = Some k" "k \<le> length cs"
    "drop k (utf8 cs) = utf8 (drop k cs)" using skip_at_most_utf8 [OF assms, of "length (utf8 cs)" align] by auto
  with length_utf8 [of cs] chars_utf8 [OF scalar_drop [OF assms], of k] show ?thesis by (auto simp: fs_len_def)
qed

lemma fs_at_utf8:
  assumes "list_all is_scalar cs"
  shows "fs_at align (utf8 cs) i = Ok (nth_opt cs i)"
proof (cases "i < length (utf8 cs)")
  case True
  then obtain k where k: "skip_at_most_1byte align (utf8 cs) i = Some k" "k \<le> i" "k \<le> length cs"
    "drop k (utf8 cs) = utf8 (drop k cs)" using skip_at_most_utf8 [OF assms, of i align] by auto
  with True chars_utf8 [OF scalar_drop [OF assms], of k] show ?thesis by (auto simp: fs_at_def nth_opt_def)
qed (use length_utf8 [of cs] in \<open>auto simp: fs_at_def nth_opt_def\<close>)

lemma advance_utf8:
  "list_all is_scalar cs \<Longrightarrow> advance j (utf8 cs) = (if j \<le> length cs then Some (utf8 (drop j cs)) else None)"
proof (induction j arbitrary: cs)
  case (Suc j)
  then show ?case by (cases cs) auto
qed simp

lemma utf8_split: "utf8 cs = utf8 (take i cs) @ utf8 (drop i cs)"
  by (metis append_take_drop_id utf8_simps(3))

lemma utf8_take_drop:
  "take (length (utf8 (take i cs))) (utf8 cs) = utf8 (take i cs)" "drop (length (utf8 (take i cs))) (utf8 cs) = utf8 (drop i cs)"
  by (metis append_eq_conv_conj utf8_split)+

lemma fs_split_at_utf8:
  assumes "list_all is_scalar cs"
  shows "fs_split_at align (utf8 cs) i = Ok (if i \<le> length cs then Some (utf8 (take i cs), utf8 (drop i cs)) else None)"
proof (cases "i \<le> length (utf8 cs)")
  case True
  then obtain k where k: "skip_at_most_1byte align (utf8 cs) i = Some k" "k \<le> i" "k \<le> length cs"
    "drop k (utf8 cs) = utf8 (drop k cs)" using skip_at_most_utf8 [OF assms, of i align] by auto
  have "advance (i - k) (utf8 (drop k cs)) = (if i \<le> length cs then Some (utf8 (drop i cs)) else None)"
    using k advance_utf8 [OF scalar_drop [OF assms], of "i - k" k] by auto
  moreover have "length (utf8 cs) - length (utf8 (drop i cs)) = length (utf8 (take i cs))"
    using arg_cong [OF utf8_split [of cs i], of length] by simp
  ultimately show ?thesis using k True by (auto simp: fs_split_at_def utf8_take_drop)
qed (use length_utf8 [of cs] in \<open>auto simp: fs_split_at_def\<close>)

lemma split_at_end_utf8: "list_all is_scalar cs \<Longrightarrow> split_at_end align (utf8 cs) i = Ok (utf8 (take i cs))"
  by (simp add: split_at_end_def fs_split_at_utf8)

subsection \<open>Bounds of string methods\<close>

text \<open>What the bounds mean: positions of characters, negative ones from the end.\<close>

definition bound_start :: "nat \<Rightarrow> int option \<Rightarrow> nat" where
  "bound_start len start = (case start of None \<Rightarrow> 0 | Some x \<Rightarrow> nat (if x < 0 then int len + x else x))"

definition bound_end :: "nat \<Rightarrow> int option \<Rightarrow> nat" where
  "bound_end len end' = (case end' of None \<Rightarrow> len | Some y \<Rightarrow> min len (nat (if y < 0 then int len + y else y)))"

definition select :: "nat list \<Rightarrow> int option \<Rightarrow> int option \<Rightarrow> (nat \<times> nat list) option" where
  "select cs start end' =
     (let s = bound_start (length cs) start; e = bound_end (length cs) end'
      in if s \<le> e then Some (s, take (e - s) (drop s cs)) else None)"

definition as_indices :: "(nat \<times> nat list) option \<Rightarrow> str_indices option" where
  "as_indices r = map_option (\<lambda>(s, cs). \<lparr>si_start = s, si_haystack = utf8 cs\<rparr>) r"

lemma convert_indices_bounds:
  assumes "int len \<le> i32_max" "pred_option in_i32 start" "pred_option in_i32 end'"
  shows "convert_indices oc (int len) start end' = Ok (min len (bound_start len start), bound_end len end')"
proof -
  have in32: "in_i32 (x + int len)" if "in_i32 x" "x < 0" for x using that assms(1) by (auto simp: i32_defs)
  have cb: "ci_bound v (int len) = min len (nat v)" if "v \<le> i32_max" for v
    using that assms(1) by (auto simp: ci_bound_def usize_of_i32_def as_u64_def i32_defs)
  show ?thesis
    using assms in32
    by (auto simp: convert_indices_def bound_start_def bound_end_def cb i32_defs add.commute split: option.splits)
qed

lemma ascii_only:
  "length (utf8 cs) = length cs \<Longrightarrow> take i (utf8 cs) = utf8 (take i cs) \<and> drop i (utf8 cs) = utf8 (drop i cs)"
proof (induction cs arbitrary: i)
  case (Cons c cs)
  then have "length (encode c) \<le> 1" using length_utf8 [of cs] by simp
  then obtain b where "encode c = [b]" by (cases "encode c") auto
  moreover from this Cons.prems have "length (utf8 cs) = length cs" by simp
  ultimately show ?case using Cons.IH by (cases i) auto
qed simp

lemma length_utf8_drop: "length (utf8 cs) = length cs \<Longrightarrow> length (utf8 (drop i cs)) = length (drop i cs)"
  by (metis ascii_only length_drop)

lemma convert_str_indices_slow_utf8:
  assumes "list_all is_scalar cs" "int (length cs) \<le> i32_max" "pred_option in_i32 start" "pred_option in_i32 end'"
    and "case_option False (\<lambda>x. x < 0) start \<or> case_option False (\<lambda>y. y < 0) end'"
    and "case (start, end') of (Some x, Some y) \<Rightarrow> x \<ge> 0 \<or> y \<ge> 0 \<or> x \<le> y | _ \<Rightarrow> True"
  defines "s \<equiv> min (length cs) (bound_start (length cs) start)" and "e \<equiv> bound_end (length cs) end'"
  shows "convert_str_indices_slow dbg oc align (utf8 cs) start end' =
    Ok (if s \<le> e then Some \<lparr>si_start = s, si_haystack = utf8 (take (e - s) (drop s cs))\<rparr> else None)"
proof -
  have wrap: "wrap_i32 (int (length cs)) = int (length cs)" using assms(2) by (simp add: wrap_i32_id i32_defs)
  have e: "e \<le> length cs" by (simp add: e_def bound_end_def split: option.split)
  have bounds: "convert_indices oc (int (length cs)) start end' = Ok (s, e)"
    using convert_indices_bounds assms(2-4) by (simp add: s_def e_def)
  have asserts: "debug_assert dbg (case_option False (\<lambda>x. x < 0) start \<or> case_option False (\<lambda>y. y < 0) end') = Ok ()"
    "debug_assert dbg (case (start, end') of (Some x, Some y) \<Rightarrow> x \<ge> 0 \<or> y \<ge> 0 \<or> x \<le> y | _ \<Rightarrow> True) = Ok ()"
    using assms(5,6) by (simp_all add: debug_assert_def)
  have "convert_str_indices_slow dbg oc align (utf8 cs) start end' =
    (if s > e then Ok None
     else if length cs = length (utf8 cs) then Ok (Some \<lparr>si_start = s, si_haystack = take (e - s) (drop s (utf8 cs))\<rparr>)
     else Ok (Some \<lparr>si_start = s, si_haystack = utf8 (take (e - s) (drop s cs))\<rparr>))"
    using assms(1) e
    unfolding convert_str_indices_slow_def asserts
    by (cases "s \<le> e") (simp_all add: debug_assert_def fs_len_utf8 wrap bounds fs_split_at_utf8 scalar_drop diff_le_mono unwrap_opt_def)
  also have "\<dots> = Ok (if s \<le> e then Some \<lparr>si_start = s, si_haystack = utf8 (take (e - s) (drop s cs))\<rparr> else None)"
    using ascii_only [of cs s] ascii_only [of "drop s cs" "e - s"] length_utf8_drop [of cs s] by auto
  finally show ?thesis .
qed

lemma convert_str_indices_utf8:
  assumes "list_all is_scalar cs" and "int (length cs) \<le> i32_max" and "pred_option in_i32 start" and "pred_option in_i32 end'"
  shows "convert_str_indices dbg oc align (utf8 cs) start end' =
    Ok (if \<exists>x y. start = Some x \<and> end' = Some y \<and> y < x \<and> x < 0 then None
        else if cs = [] \<and> (\<exists>x y. start = Some x \<and> end' = Some y \<and> y < 0 \<and> 0 < x)
        then Some \<lparr>si_start = 0, si_haystack = []\<rparr>
        else as_indices (select cs start end'))"
proof -
  note slow = convert_str_indices_slow_utf8 [OF assms, of dbg oc align]
  note fast = fs_split_at_utf8 [OF assms(1)] split_at_end_utf8 [OF scalar_drop [OF assms(1)]] split_at_end_utf8 [OF assms(1)]
  note spec = select_def as_indices_def bound_start_def bound_end_def Let_def
  consider "start = None" "end' = None" | x where "start = Some x" "end' = None" | y where "start = None" "end' = Some y"
    | x y where "start = Some x" "end' = Some y" by (cases start; cases end') auto
  then show ?thesis
  proof cases
    case 1
    then show ?thesis by (simp add: convert_str_indices_def spec)
  next
    case 2
    with slow show ?thesis by (auto simp: convert_str_indices_def from_start_def fast spec)
  next
    case 3
    with slow show ?thesis by (auto simp: convert_str_indices_def from_start_def fast spec min_def) (cases cs; simp)
  next
    case (4 x y)
    note xy = this
    note slow' = slow [unfolded xy option.case prod.case]
    consider "0 \<le> x" "x \<le> y" | "0 \<le> y" "y < x" | "y < x" "x < 0" | "x < 0 \<and> 0 \<le> y" | "x \<le> y" "y < 0" | "0 \<le> x" "y < 0"
      by linarith
    then show ?thesis
    proof cases
      case 1
      with xy show ?thesis
        by (auto simp: convert_str_indices_def from_start_def fast spec min_def nat_diff_distrib' nat_le_eq_zle)
    next
      case 2
      with xy show ?thesis by (simp add: convert_str_indices_def spec) linarith
    next
      case 3
      with xy show ?thesis by (simp add: convert_str_indices_def)
    next
      case 4
      with xy show ?thesis by (auto simp: convert_str_indices_def slow' spec min_def) (cases cs; simp)+
    next
      case 5
      with xy show ?thesis by (auto simp: convert_str_indices_def slow' spec min_def) (cases cs; simp)+
    next
      case 6
      with xy show ?thesis by (auto simp: convert_str_indices_def slow' spec min_def) (cases cs; simp)+
    qed
  qed
qed

subsection \<open>Search\<close>

lemma nth_eq_of_take_drop:
  assumes "take (length needle) (drop start haystack) = needle" "needle \<noteq> []"
  shows "haystack ! start = needle ! 0"
proof -
  have "drop start haystack \<noteq> []" using assms by auto
  then have "start < length haystack" by simp
  moreover from assms have "needle ! 0 = take (length needle) (drop start haystack) ! 0" by simp
  ultimately show ?thesis using assms(2) by simp
qed

lemma contains_loop_iff:
  "needle \<noteq> [] \<Longrightarrow>
   contains_loop haystack needle start k \<longleftrightarrow> (\<exists>i<k. take (length needle) (drop (start + i) haystack) = needle)"
proof (induction k arbitrary: start)
  case (Suc k)
  have "(\<exists>i<Suc k. take (length needle) (drop (start + i) haystack) = needle) \<longleftrightarrow>
    take (length needle) (drop start haystack) = needle \<or>
    (\<exists>i<k. take (length needle) (drop (start + 1 + i) haystack) = needle)"
    by (auto simp: less_Suc_eq_0_disj)
  then show ?case using Suc nth_eq_of_take_drop [of needle start haystack] by simp
qed simp

lemma sublist_iff_take_drop:
  "sublist needle haystack \<longleftrightarrow>
   (\<exists>i < Suc (length haystack - length needle). take (length needle) (drop i haystack) = needle)"
proof
  assume "sublist needle haystack"
  then obtain ps ss where "haystack = ps @ needle @ ss" by (auto simp: sublist_def)
  then show "\<exists>i < Suc (length haystack - length needle). take (length needle) (drop i haystack) = needle"
    by (intro exI [of _ "length ps"]) simp
next
  assume "\<exists>i < Suc (length haystack - length needle). take (length needle) (drop i haystack) = needle"
  then show "sublist needle haystack" by (metis sublist_drop sublist_order.order_trans sublist_take)
qed

lemma fs_contains_iff:
  assumes "\<And>c s. memchr c s = None \<longleftrightarrow> c \<notin> set s"
  shows "fs_contains memchr haystack needle \<longleftrightarrow> sublist needle haystack"
proof -
  consider "needle = []" | b where "needle = [b]" | "needle \<noteq> []" "length needle \<noteq> 1"
    by (cases needle; cases "tl needle") auto
  then show ?thesis
  proof cases
    case 2
    then show ?thesis using assms [of b haystack] by (simp add: fs_contains_def sublist_def in_set_conv_decomp)
  next
    case 3
    have "sublist needle haystack \<Longrightarrow> length needle \<le> length haystack" by (rule sublist_length_le)
    moreover have "contains_loop haystack needle 0 (length haystack - length needle + 1) \<longleftrightarrow> sublist needle haystack"
      unfolding contains_loop_iff [OF 3(1)] sublist_iff_take_drop by simp
    ultimately show ?thesis using 3 unfolding fs_contains_def by auto
  qed (simp add: fs_contains_def)
qed

lemma count_byte_nonoverlapping: "count_nonoverlapping x [b] = count_matches_byte x b"
proof (induction x)
  case Nil
  then show ?case by (simp add: count_nonoverlapping.simps count_matches_byte_def)
next
  case (Cons a x)
  then show ?case by (subst count_nonoverlapping.simps) (simp add: count_matches_byte_def)
qed

text \<open>The bytes of a character start with one that is no continuation byte and go on with continuation bytes, so that a match
  of bytes is a match of characters.\<close>

lemma prefix_utf8:
  "list_all is_scalar cs \<Longrightarrow> list_all is_scalar ns \<Longrightarrow> utf8 cs = utf8 ns @ q \<Longrightarrow> prefix ns cs"
proof (induction ns arbitrary: cs)
  case (Cons n ns)
  then obtain c ds where cs: "cs = c # ds" by (cases cs) auto
  have "next_char (encode c @ utf8 ds) = Some (c, utf8 ds)" "next_char (encode n @ utf8 ns @ q) = Some (n, utf8 ns @ q)"
    using Cons.prems(1,2) cs by auto
  moreover have "encode c @ utf8 ds = encode n @ utf8 ns @ q" using Cons.prems(3) cs by simp
  ultimately have "Some (c, utf8 ds) = Some (n, utf8 ns @ q)" by metis
  with Cons.IH [of ds] Cons.prems(1,2) cs show ?case by simp
qed simp

lemma split_utf8:
  assumes "utf8 cs = p @ utf8 ns @ q" "list_all is_scalar cs" "list_all is_scalar ns" "ns \<noteq> []"
  obtains k where "k \<le> length cs" "p = utf8 (take k cs)" "prefix ns (drop k cs)"
proof -
  have "\<exists>k\<le>length cs. p = utf8 (take k cs) \<and> prefix ns (drop k cs)"
    using assms
  proof (induction cs arbitrary: p)
    case (Cons c cs)
    consider "p = []" | p' where "p = encode c @ p'" | "p \<noteq> []" "length p < length (encode c)"
      using Cons.prems(1) by (metis append_eq_append_conv_if append_take_drop_id not_less utf8_simps(2))
    then show ?case
    proof cases
      case 1
      with Cons.prems prefix_utf8 [of "c # cs" ns q] show ?thesis by (intro exI [of _ 0]) auto
    next
      case 2
      with Cons obtain k where "k \<le> length cs" "p' = utf8 (take k cs)" "prefix ns (drop k cs)" by auto
      with 2 show ?thesis by (intro exI [of _ "Suc k"]) auto
    next
      case 3
      obtain n ms where ns: "ns = n # ms" using Cons.prems(4) by (cases ns) auto
      have "(encode c @ utf8 cs) ! length p = (p @ utf8 ns @ q) ! length p" using Cons.prems(1) by simp
      then have "encode c ! length p = encode n ! 0" using 3 ns by (simp add: nth_append)
      moreover have "is_scalar c" using Cons.prems(2) by simp
      from encode_shape [OF this] have "continuation (encode c ! length p)" using 3
        by (cases p) (simp_all add: list_all_length nth_tl less_diff_conv not_le)
      ultimately show ?thesis using encode_shape [of n] Cons.prems(3) ns by simp
    qed
  qed (auto simp: neq_Nil_conv)
  with that show ?thesis by blast
qed

lemma sublist_utf8:
  assumes "list_all is_scalar ns" "list_all is_scalar cs"
  shows "sublist (utf8 ns) (utf8 cs) \<longleftrightarrow> sublist ns cs"
proof
  show "sublist (utf8 ns) (utf8 cs)" if "sublist ns cs"
    using that by (auto simp: sublist_def) blast
  show "sublist ns cs" if sub: "sublist (utf8 ns) (utf8 cs)"
  proof (cases "ns = []")
    case False
    from sub obtain p q where "utf8 cs = p @ utf8 ns @ q" by (auto simp: sublist_def)
    then obtain k where "prefix ns (drop k cs)" using split_utf8 assms False by metis
    then show ?thesis by (meson prefix_imp_sublist sublist_drop sublist_order.order_trans)
  qed simp
qed

lemma fast_string_exact_all:
  assumes "list_all is_scalar cs"
  shows "fs_len align (utf8 cs) = Ok (length cs)"
    and "fs_at align (utf8 cs) i = Ok (if i < length cs then Some (cs ! i) else None)"
    and "fs_split_at align (utf8 cs) i = Ok (if i \<le> length cs then Some (utf8 (take i cs), utf8 (drop i cs)) else None)"
  using assms by (simp_all add: fs_len_utf8 fs_at_utf8 fs_split_at_utf8 nth_opt_def)

text \<open>Indexing, length and splitting of a string by character, which skip its ASCII prefix by words at any alignment, return
  what the list of its characters gives, and never read outside of the string.\<close>

theorem fast_string_exact:
  assumes "list_all is_scalar cs"
  shows "(fs_len align (utf8 cs) = (Ok (length cs) :: nat value_result)) \<and>
    (fs_at align (utf8 cs) i = (Ok (if i < length cs then Some (cs ! i) else None) :: nat option value_result)) \<and>
    (fs_split_at align (utf8 cs) i =
      (Ok (if i \<le> length cs then Some (utf8 (take i cs), utf8 (drop i cs)) else None) :: (string \<times> string) option value_result))"
  using assms by (simp add: fast_string_exact_all)

theorem fast_string_exact_witness: "fs_at 3 (utf8 [97, 0x433, 98]) 2 = (Ok (Some 98) :: nat option value_result)"
  using fast_string_exact [of "[97, 0x433, 98]" 3 2] by (simp add: is_scalar_def)

text \<open>C35. The bounds of string methods such as \<open>str.find\<close> select, on every path, the characters from the start to the end, without a
  panic, a failing assertion or a read outside of the string, with two exceptions: bounds that are both negative and in the
  wrong order select nothing even if both lie before the string, and in the empty string a positive start with a negative end
  selects the empty string at 0.\<close>

theorem convert_str_indices_correct:
  assumes "list_all is_scalar cs" and "int (length cs) \<le> i32_max" and "pred_option in_i32 start" and "pred_option in_i32 end'"
  shows "convert_str_indices dbg oc align (utf8 cs) start end' =
    Ok (if \<exists>x y. start = Some x \<and> end' = Some y \<and> y < x \<and> x < 0 then None
        else if cs = [] \<and> (\<exists>x y. start = Some x \<and> end' = Some y \<and> y < 0 \<and> 0 < x)
        then Some \<lparr>si_start = 0, si_haystack = []\<rparr>
        else as_indices (select cs start end'))"
  using assms by (rule convert_str_indices_utf8)

theorem convert_str_indices_correct_witness:
  "convert_str_indices True True 0 (utf8 [97, 0x433, 98]) (Some (- 2)) None =
    (Ok (Some \<lparr>si_start = 1, si_haystack = utf8 [0x433, 98]\<rparr>) :: (unit, str_indices option) outcome)"
  using convert_str_indices_correct [of "[97, 0x433, 98]" "Some (- 2)" None True True 0]
  by (simp add: is_scalar_def i32_defs as_indices_def select_def bound_start_def bound_end_def)

text \<open>\<open>memchr\<close> finds the first occurrence of a byte.\<close>

definition finds_first :: "(char \<Rightarrow> string \<Rightarrow> nat option) \<Rightarrow> bool" where
  "finds_first memchr \<longleftrightarrow>
     (\<forall>c s. memchr c s = (if c \<in> set s then Some (length (takeWhile (\<lambda>b. b \<noteq> c) s)) else None))"

text \<open>\<open>contains\<close> on valid strings decides whether the characters of the one occur in sequence in the other, and the fast path
  for needles of one byte counts what the search counts.\<close>

theorem fast_string_search:
  assumes "finds_first memchr" and "list_all is_scalar cs" and "list_all is_scalar ns"
  shows "fs_contains memchr (utf8 cs) (utf8 ns) \<longleftrightarrow> sublist ns cs"
    and "count_matches (utf8 cs) (utf8 ns) =
      (if ns = [] then length cs + 1 else count_nonoverlapping (utf8 cs) (utf8 ns))"
proof -
  have "memchr c s = None \<longleftrightarrow> c \<notin> set s" for c s using assms(1) by (simp add: finds_first_def)
  then show "fs_contains memchr (utf8 cs) (utf8 ns) \<longleftrightarrow> sublist ns cs"
    using fs_contains_iff [of memchr] sublist_utf8 assms(2,3) by blast
  have "utf8 ns = [] \<longleftrightarrow> ns = []" by (cases ns) auto
  then show "count_matches (utf8 cs) (utf8 ns) =
      (if ns = [] then length cs + 1 else count_nonoverlapping (utf8 cs) (utf8 ns))"
    using count_byte_nonoverlapping [of "utf8 cs" "utf8 ns ! 0"] assms(2)
    by (cases "utf8 ns"; cases "tl (utf8 ns)") (auto simp: count_matches_def chars_utf8)
qed

theorem fast_string_search_witness:
  "fs_contains (\<lambda>c s. if c \<in> set s then Some (length (takeWhile (\<lambda>b. b \<noteq> c) s)) else None) (utf8 [97, 0x433, 98]) (utf8 [0x433])"
  using fast_string_search(1) [of "\<lambda>c s. if c \<in> set s then Some (length (takeWhile (\<lambda>b. b \<noteq> c) s)) else None" "[97, 0x433, 98]" "[0x433]"]
  by (simp add: finds_first_def is_scalar_def sublist_code)

end
