(* ===== verification/String_Type.thy ===== *)
theory String_Type
  imports Fast_String
begin

text \<open>
  The operators of strings, \<^verbatim>\<open>values/types/string/str_type.rs\<close>, their iterators, \<^verbatim>\<open>values/types/string/iter.rs\<close>, and the
  comparison by words of \<^verbatim>\<open>collections/aligned_padded_str.rs\<close>.

  An argument that has to be a string is an option: \<open>None\<close> is a value of another type. The hash function of the standard hasher
  is an argument. A string that is allocated is its bytes.
\<close>

subsection \<open>\<^verbatim>\<open>aligned_padded_str.rs\<close>\<close>

record aligned_padded_str =
  aps_len :: nat
  aps_data :: "int list"

definition len_words :: "nat \<Rightarrow> nat" where
  "len_words len = (len + 8 - 1) div 8"

fun eq_words :: "int list \<Rightarrow> int list \<Rightarrow> nat \<Rightarrow> nat \<Rightarrow> bool" where
  "eq_words xs ys i 0 = True"
| "eq_words xs ys i (Suc k) = (if xs ! i \<noteq> ys ! i then False else eq_words xs ys (i + 1) k)"

definition aps_eq :: "aligned_padded_str \<Rightarrow> aligned_padded_str \<Rightarrow> bool" where
  "aps_eq a b = (if aps_len a \<noteq> aps_len b then False else eq_words (aps_data a) (aps_data b) 0 (len_words (aps_len a)))"

text \<open>The words in memory of a string that is padded with zeros.\<close>

definition padded :: "string \<Rightarrow> string" where
  "padded s = s @ replicate (8 * len_words (length s) - length s) (char_of (0 :: nat))"

definition as_aligned_padded_str :: "string \<Rightarrow> aligned_padded_str" where
  "as_aligned_padded_str s =
     \<lparr>aps_len = length s, aps_data = map (\<lambda>i. read_u64 (take 8 (drop (8 * i) (padded s)))) [0..<len_words (length s)]\<rparr>"

subsection \<open>\<^verbatim>\<open>str_type.rs\<close>\<close>

record starlark_str =
  str_hash :: nat
  str_body :: string

definition starlark_str_new :: "nat \<Rightarrow> string \<Rightarrow> starlark_str option" where
  "starlark_str_new hash body = (if length body < 2 ^ 32 then Some \<lparr>str_hash = hash, str_body = body\<rparr> else None)"

definition starlark_str_get_hash :: "(string \<Rightarrow> nat) \<Rightarrow> starlark_str \<Rightarrow> nat \<times> starlark_str" where
  "starlark_str_get_hash hash_str s =
     (if str_hash s \<noteq> 0 then (str_hash s, s)
      else let hash = hash_str (str_body s) in (hash, s\<lparr>str_hash := hash\<rparr>))"

definition str_equals :: "string \<Rightarrow> string option \<Rightarrow> bool" where
  "str_equals s other =
     (case other of None \<Rightarrow> False | Some t \<Rightarrow> aps_eq (as_aligned_padded_str s) (as_aligned_padded_str t))"

definition str_at :: "bool \<Rightarrow> nat \<Rightarrow> string \<Rightarrow> idx_value \<Rightarrow> string value_result" where
  "str_at oc align s index =
     bind_outcome (i32_unpack_value_err index) (\<lambda>i.
       if i \<ge> 0 then
         bind_outcome (fs_at align s (nat i)) (\<lambda>r. case r of None \<Rightarrow> Err (IndexOutOfBound i) | Some c \<Rightarrow> Ok (encode c))
       else
         bind_outcome (fs_len align s) (\<lambda>len_chars.
         bind_outcome (plain_i32 oc (- i)) (\<lambda>i'.
           let ind = usize_of_i32 i'
           in if ind > len_chars then Err (IndexOutOfBound i)
              else if len_chars = length s then Ok (encode (byte (s ! (len_chars - ind))))
              else bind_outcome (bind_outcome (fs_at align s (len_chars - ind)) unwrap_opt) (\<lambda>c. Ok (encode c)))))"

definition str_length :: "nat \<Rightarrow> string \<Rightarrow> int value_result" where
  "str_length align s = bind_outcome (fs_len align s) (\<lambda>n. Ok (wrap_i32 (int n)))"

definition str_is_in :: "(char \<Rightarrow> string \<Rightarrow> nat option) \<Rightarrow> string \<Rightarrow> string option \<Rightarrow> bool value_result" where
  "str_is_in memchr s other = (case other of None \<Rightarrow> Err IncorrectType | Some t \<Rightarrow> Ok (fs_contains memchr s t))"

definition start_stop_to_none_or :: "idx_value option \<Rightarrow> int option value_result" where
  "start_stop_to_none_or v =
     (case v of None \<Rightarrow> Ok None | Some v \<Rightarrow> bind_outcome (i32_unpack_value_err v) (\<lambda>i. Ok (Some i)))"

definition unpack_i32 :: "idx_value \<Rightarrow> int option" where
  "unpack_i32 v = (case v of IdxInt x \<Rightarrow> if in_i32 x then Some x else None | _ \<Rightarrow> None)"

definition str_slice ::
  "bool \<Rightarrow> bool \<Rightarrow> nat \<Rightarrow> string \<Rightarrow> idx_value option \<Rightarrow> idx_value option \<Rightarrow> idx_value option \<Rightarrow> string value_result" where
  "str_slice dbg oc align s start stop stride =
     (if case stride of None \<Rightarrow> False | Some v \<Rightarrow> unpack_i32 v \<noteq> Some 1 then
        bind_outcome (apply_slice oc (chars s) start stop stride) (\<lambda>xs. Ok (utf8 xs))
      else
        bind_outcome (start_stop_to_none_or start) (\<lambda>start.
        bind_outcome (start_stop_to_none_or stop) (\<lambda>stop.
        bind_outcome (convert_str_indices dbg oc align s start stop) (\<lambda>r.
          Ok (case r of Some i \<Rightarrow> si_haystack i | None \<Rightarrow> [])))))"

definition str_add :: "string \<Rightarrow> string option \<Rightarrow> string option" where
  "str_add s other = (case other of Some t \<Rightarrow> Some (if s = [] then t else s @ t) | None \<Rightarrow> None)"

fun push_times :: "nat \<Rightarrow> string \<Rightarrow> string \<Rightarrow> string" where
  "push_times 0 s result = result"
| "push_times (Suc k) s result = push_times k s (result @ s)"

text \<open>\<open>String::with_capacity\<close> panics beyond the largest \<open>isize\<close>. \<open>None\<close> means that the operation is not supported.\<close>

definition str_mul :: "string \<Rightarrow> idx_value \<Rightarrow> string value_result option" where
  "str_mul s other =
     (case other of
        IdxInt l \<Rightarrow>
          if in_i32 l then Some (if length s * nat (max 0 l) \<ge> 2 ^ 63 then Panic else Ok (push_times (nat l) s []))
          else Some (Err (IntegerTooBig l))
      | _ \<Rightarrow> None)"

subsection \<open>\<^verbatim>\<open>iter.rs\<close>\<close>

record string_iterable =
  it_string :: string
  it_produce_char :: bool

definition iterate_chars :: "string \<Rightarrow> string_iterable" where
  "iterate_chars s = \<lparr>it_string = s, it_produce_char = True\<rparr>"

definition iterate_codepoints :: "string \<Rightarrow> string_iterable" where
  "iterate_codepoints s = \<lparr>it_string = s, it_produce_char = False\<rparr>"

definition string_iterate :: "string_iterable \<Rightarrow> (string + nat) list" where
  "string_iterate it =
     (if it_produce_char it then map (\<lambda>c. Inl (encode c)) (chars (it_string it)) else map Inr (chars (it_string it)))"

subsection \<open>Equality by words\<close>

lemma eq_words_iff: "eq_words xs ys i k \<longleftrightarrow> (\<forall>j<k. xs ! (i + j) = ys ! (i + j))"
proof (induction k arbitrary: i)
  case (Suc k)
  have "(\<forall>j<Suc k. xs ! (i + j) = ys ! (i + j)) \<longleftrightarrow> xs ! i = ys ! i \<and> (\<forall>j<k. xs ! (i + 1 + j) = ys ! (i + 1 + j))"
    by (auto simp: less_Suc_eq_0_disj)
  with Suc show ?case by simp
qed simp

lemma concat_bit_inject:
  assumes "concat_bit 8 (int (byte a)) x = concat_bit 8 (int (byte b)) y"
  shows "a = b \<and> x = y"
proof -
  have "take_bit 8 (concat_bit 8 (int (byte c)) z) = int (byte c)" for c z
    using take_bit_byte [of c] by (simp add: take_bit_concat_bit_eq)
  moreover have "drop_bit 8 (concat_bit 8 (int (byte c)) z) = z" for c z
    by (rule bit_eqI) (simp add: bit_drop_bit_eq bit_concat_bit_iff)
  ultimately show ?thesis using assms by (metis of_char_eq_iff of_nat_eq_iff)
qed

lemma read_u64_inject: "length bs = length cs \<Longrightarrow> read_u64 bs = read_u64 cs \<Longrightarrow> bs = cs"
  by (induction bs cs rule: list_induct2) (auto dest: concat_bit_inject)

lemma length_padded: "length (padded s) = 8 * len_words (length s)"
  by (simp add: padded_def len_words_def)

lemma words_inject:
  "length xs = 8 * n \<Longrightarrow> length ys = 8 * n \<Longrightarrow>
   (\<forall>i<n. read_u64 (take 8 (drop (8 * i) xs)) = read_u64 (take 8 (drop (8 * i) ys))) \<Longrightarrow> xs = ys"
proof (induction n arbitrary: xs ys)
  case (Suc n)
  have "take 8 xs = take 8 ys"
    using Suc.prems read_u64_inject [of "take 8 xs" "take 8 ys"] by (auto dest: spec [of _ 0])
  moreover have "drop 8 xs = drop 8 ys"
  proof (rule Suc.IH)
    show "\<forall>i<n. read_u64 (take 8 (drop (8 * i) (drop 8 xs))) = read_u64 (take 8 (drop (8 * i) (drop 8 ys)))"
      using Suc.prems(3) by (auto simp: add.commute dest: spec [of _ "Suc i" for i])
  qed (use Suc.prems in auto)
  ultimately show ?case by (metis append_take_drop_id)
qed simp

lemma str_equals_iff: "str_equals s other \<longleftrightarrow> other = Some s"
proof (cases other)
  case (Some t)
  have "s = t" if len: "length s = length t" and eq: "eq_words (aps_data (as_aligned_padded_str s))
      (aps_data (as_aligned_padded_str t)) 0 (len_words (length s))"
  proof -
    have "padded s = padded t"
      by (rule words_inject [of _ "len_words (length s)"])
        (use len eq in \<open>auto simp: length_padded eq_words_iff as_aligned_padded_str_def\<close>)
    with len show ?thesis by (simp add: padded_def)
  qed
  then show ?thesis
    using Some by (auto simp: str_equals_def aps_eq_def eq_words_iff as_aligned_padded_str_def)
qed (simp add: str_equals_def)

lemma starlark_str_get_hash_cached:
  assumes "str_hash s \<in> {0, hash_str (str_body s)}" "starlark_str_get_hash hash_str s = (h, s')"
  shows "h = hash_str (str_body s) \<and> str_body s' = str_body s \<and> str_hash s' = h"
  using assms by (auto simp: starlark_str_get_hash_def Let_def split: if_splits)

subsection \<open>Indexing and slicing by character\<close>

lemma ascii_nth:
  "length (utf8 cs) = length cs \<Longrightarrow> j < length cs \<Longrightarrow> byte (utf8 cs ! j) = cs ! j"
proof (induction cs arbitrary: j)
  case (Cons c cs)
  then have "length (encode c) \<le> 1" using length_utf8 [of cs] by simp
  then have "c < 0x80" by (simp add: encode_def split: if_splits)
  with Cons show ?case by (cases j) (auto simp: byte_char_of)
qed simp

lemma str_at_utf8:
  assumes "list_all is_scalar cs" "int (length cs) \<le> i32_max" "in_i32 i" "oc \<longrightarrow> i \<noteq> i32_min"
  shows "str_at oc align (utf8 cs) (IdxInt i) =
    (if - int (length cs) \<le> i \<and> i < int (length cs) then Ok (encode (cs ! nat (if i < 0 then int (length cs) + i else i)))
     else Err (IndexOutOfBound i))"
proof (cases "0 \<le> i")
  case True
  then show ?thesis using assms by (auto simp: str_at_def i32_unpack_value_err_def fs_at_utf8 nth_opt_def)
next
  case False
  define n where "n = length cs"
  define i' where "i' = (if i = i32_min then wrap_i32 (2 ^ 31) else - i)"
  define ind where "ind = usize_of_i32 i'"
  have neg: "plain_i32 oc (- i) = Ok i'"
    using assms(3,4) False unfolding plain_i32_def i'_def i32_defs
    by (cases "i = - (2 ^ 31)") auto
  have ind: "ind \<le> n \<longleftrightarrow> - int n \<le> i" and ind': "- int n \<le> i \<Longrightarrow> ind = nat (- i)"
    using assms(2,3) False by (auto simp: ind_def i'_def n_def usize_of_i32_def as_u64_def wrap_i32_def i32_defs)
  have n: "length cs = n" by (simp add: n_def)
  show ?thesis
  proof (cases "- int n \<le> i")
    case True
    with False have pos: "n - ind < n" "nat (int n + i) = n - ind" using ind' by auto
    have "byte (utf8 cs ! (n - ind)) = cs ! (n - ind)" if "length (utf8 cs) = n"
      using that pos(1) ascii_nth [of cs "n - ind"] n by simp
    then show ?thesis
      using True False ind pos assms by (auto simp: str_at_def i32_unpack_value_err_def fs_len_utf8 neg Let_def n
          ind_def [symmetric] fs_at_utf8 nth_opt_def unwrap_opt_def)
  qed (use False ind assms in \<open>auto simp: str_at_def i32_unpack_value_err_def fs_len_utf8 neg Let_def n ind_def [symmetric]\<close>)
qed

lemma start_stop_some:
  assumes "arg_ok v" "v \<noteq> Some IdxNone"
  shows "start_stop_to_none_or v = Ok (arg_int v)" "pred_option in_i32 (arg_int v)"
  using assms by (cases v rule: arg_ok.cases; auto simp: start_stop_to_none_or_def i32_unpack_value_err_def)+

lemma select_slice:
  defines "n x \<equiv> int (length x)"
  shows "(case as_indices (select cs (arg_int start) (arg_int stop)) of None \<Rightarrow> [] | Some r \<Rightarrow> si_haystack r) =
    (let s = slice_start (n cs) 1 start; e = slice_stop (n cs) 1 stop
     in if s \<ge> e then [] else utf8 (take (nat e - nat s) (drop (nat s) cs)))"
proof -
  let ?s = "slice_start (n cs) 1 start" and ?e = "slice_stop (n cs) 1 stop"
  have s: "nat ?s = min (length cs) (bound_start (length cs) (arg_int start))" "0 \<le> ?s"
    by (auto simp: slice_start_def slice_bound_def bound_start_def n_def split: option.split)
  have e: "nat ?e = bound_end (length cs) (arg_int stop)" "0 \<le> ?e" "nat ?e \<le> length cs"
    by (auto simp: slice_stop_def slice_bound_def bound_end_def n_def split: option.split)
  have "nat ?e \<le> nat ?s \<longleftrightarrow> ?e \<le> ?s" using s(2) e(2) by auto
  then show ?thesis using s e by (auto simp: select_def as_indices_def Let_def min_def)
qed

lemma convert_str_indices_haystack:
  assumes "list_all is_scalar cs" "int (length cs) \<le> i32_max" "pred_option in_i32 start" "pred_option in_i32 end'"
  shows "bind_outcome (convert_str_indices dbg oc align (utf8 cs) start end')
      (\<lambda>r. Ok (case r of Some i \<Rightarrow> si_haystack i | None \<Rightarrow> [])) =
    Ok (case as_indices (select cs start end') of None \<Rightarrow> [] | Some r \<Rightarrow> si_haystack r)"
proof -
  have "as_indices (select cs start end') = None \<or> si_haystack (the (as_indices (select cs start end'))) = []"
    if "start = Some x" "end' = Some y" "y < x" "x < 0" for x y
    using that by (auto simp: select_def as_indices_def bound_start_def bound_end_def Let_def)
  moreover have "as_indices (select [] start end') = None \<or> si_haystack (the (as_indices (select [] start end'))) = []"
    by (auto simp: select_def as_indices_def Let_def)
  ultimately show ?thesis
    by (auto simp: convert_str_indices_utf8 [OF assms] split: option.split) fastforce+
qed

lemma apply_slice_stride_1:
  assumes "int (length cs) \<le> i32_max" "arg_ok start" "arg_ok stop" "stride = None \<or> stride = Some (IdxInt 1)"
  shows "apply_slice oc cs start stop stride =
    (let s = slice_start (int (length cs)) 1 start; e = slice_stop (int (length cs)) 1 stop
     in Ok (if s \<ge> e then [] else take (nat e - nat s) (drop (nat s) cs)))"
proof -
  have d: "slice_stride stride = 1" "arg_ok stride" using assms(4) by (auto simp: slice_stride_def i32_defs)
  have "wrap_i32 (int (length cs)) = int (length cs)" using assms(1) by (simp add: i32_defs)
  moreover have "convert_slice_indices oc (int (length cs)) start stop stride =
      Ok (slice_start (int (length cs)) 1 start, slice_stop (int (length cs)) 1 stop, 1)"
    using convert_slice_indices_ok [of "int (length cs)" start stop stride oc] assms d by (simp add: Let_def)
  moreover have "usize_of_i32 x = nat x" if "0 \<le> x" "x \<le> int (length cs)" for x
    using that assms(1) by (simp add: usize_of_i32_def as_u64_def i32_defs)
  ultimately show ?thesis
    using slice_bounds(1) [of "int (length cs)" 1 start] slice_bounds(2) [of "int (length cs)" 1 stop]
    by (simp add: apply_slice_def slice_to_vec_def Let_def nat_le_iff)
qed

lemma str_slice_is_list_slice_all:
  assumes "list_all is_scalar cs" and "int (length cs) \<le> i32_max" and "arg_ok start" and "arg_ok stop" and "arg_ok stride"
  shows "start \<noteq> Some IdxNone \<and> stop \<noteq> Some IdxNone \<or> slice_stride stride \<noteq> 1 \<or> stride = Some IdxNone \<Longrightarrow>
      str_slice dbg oc align (utf8 cs) start stop stride = bind_outcome (apply_slice oc cs start stop stride) (\<lambda>xs. Ok (utf8 xs))"
    and "str_slice dbg oc align (utf8 cs) (Some IdxNone) stop None = Err IncorrectType"
proof -
  show "str_slice dbg oc align (utf8 cs) start stop stride = bind_outcome (apply_slice oc cs start stop stride) (\<lambda>xs. Ok (utf8 xs))"
    if none: "start \<noteq> Some IdxNone \<and> stop \<noteq> Some IdxNone \<or> slice_stride stride \<noteq> 1 \<or> stride = Some IdxNone"
  proof (cases "stride = None \<or> stride = Some (IdxInt 1)")
    case True
    with none have args: "start \<noteq> Some IdxNone" "stop \<noteq> Some IdxNone" by (auto simp: slice_stride_def)
    have "str_slice dbg oc align (utf8 cs) start stop stride =
        bind_outcome (convert_str_indices dbg oc align (utf8 cs) (arg_int start) (arg_int stop))
          (\<lambda>r. Ok (case r of Some i \<Rightarrow> si_haystack i | None \<Rightarrow> []))"
      using True start_stop_some assms(3,4) args by (auto simp: str_slice_def unpack_i32_def i32_defs)
    also have "\<dots> = bind_outcome (apply_slice oc cs start stop stride) (\<lambda>xs. Ok (utf8 xs))"
      using apply_slice_stride_1 [OF assms(2-4) True] start_stop_some(2) assms args
      by (simp add: convert_str_indices_haystack select_slice Let_def)
    finally show ?thesis .
  next
    case False
    with assms(5) have "case stride of None \<Rightarrow> False | Some v \<Rightarrow> unpack_i32 v \<noteq> Some 1"
      by (auto simp: unpack_i32_def split: option.split idx_value.split)
    then show ?thesis using assms(1) by (simp add: str_slice_def chars_utf8)
  qed
qed (simp add: str_slice_def start_stop_to_none_or_def i32_unpack_value_err_def)

text \<open>C34. Slicing a string gives the characters that slicing the list of its characters gives, on the path without and with a
  stride, for all bounds that are integers or absent. Without a stride a bound that is the value \<open>None\<close> is an error,
  although lists, and strings with a stride, take it as absent.\<close>

theorem str_slice_is_list_slice:
  assumes "list_all is_scalar cs" and "int (length cs) \<le> i32_max" and "arg_ok start" and "arg_ok stop" and "arg_ok stride"
  shows "(start \<noteq> Some IdxNone \<and> stop \<noteq> Some IdxNone \<or> slice_stride stride \<noteq> 1 \<or> stride = Some IdxNone \<longrightarrow>
      str_slice dbg oc align (utf8 cs) start stop stride = bind_outcome (apply_slice oc cs start stop stride) (\<lambda>xs. Ok (utf8 xs))) \<and>
    (str_slice dbg oc align (utf8 cs) (Some IdxNone) stop None = Err IncorrectType)"
  using str_slice_is_list_slice_all [OF assms] by blast

theorem str_slice_is_list_slice_witness:
  "str_slice True True 5 (utf8 [97, 0x433, 98]) (Some (IdxInt (- 2))) None None = Ok (utf8 [0x433, 98])"
  using str_slice_is_list_slice [of "[97, 0x433, 98]" "Some (IdxInt (- 2))" None None True True 5]
    apply_slice_stride_1 [of "[97, 0x433, 98 :: nat]" "Some (IdxInt (- 2))" None None True]
  by (simp add: is_scalar_def i32_defs slice_start_def slice_stop_def slice_bound_def)

text \<open>C40. Indexing a string accepts exactly the positions from \<open>- len\<close> to \<open>len - 1\<close>, counted in characters, and returns the
  character there as a string; everything else is an error value. With overflow checks the smallest \<open>i32\<close> panics, because it is
  negated.\<close>

theorem str_at_exact:
  assumes "list_all is_scalar cs" and "int (length cs) \<le> i32_max" and "in_i32 i"
  shows "str_at oc align (utf8 cs) (IdxInt i) =
    (if oc \<and> i = i32_min then Panic
     else if - int (length cs) \<le> i \<and> i < int (length cs)
     then Ok (utf8 [cs ! nat (if i < 0 then int (length cs) + i else i)])
     else Err (IndexOutOfBound i))"
proof (cases "oc \<and> i = i32_min")
  case True
  then show ?thesis using assms by (simp add: str_at_def i32_unpack_value_err_def fs_len_utf8 plain_i32_def i32_defs)
next
  case False
  then show ?thesis using str_at_utf8 [OF assms] by simp
qed

theorem str_at_exact_witness: "str_at True 5 (utf8 [97, 0x433, 98]) (IdxInt (- 2)) = Ok (utf8 [0x433])"
  using str_at_exact [of "[97, 0x433, 98]" "- 2" True 5] by (simp add: is_scalar_def i32_defs)

lemma push_times_concat: "push_times k s r = r @ concat (replicate k s)"
  by (induction k arbitrary: r) auto

lemma str_mul_repeats:
  assumes "length s < 2 ^ 32" "in_i32 l"
  shows "str_mul s (IdxInt l) = Some (Ok (concat (replicate (nat l) s)))"
proof -
  have "nat (max 0 l) \<le> 2 ^ 31" using assms(2) by (auto simp: i32_defs)
  then have "length s * nat (max 0 l) \<le> length s * 2 ^ 31" by (rule mult_le_mono2)
  also have "\<dots> < 2 ^ 32 * 2 ^ 31" using assms(1) by simp
  finally have "length s * nat (max 0 l) < 2 ^ 63" by simp
  then show ?thesis using assms(2) by (simp add: str_mul_def push_times_concat)
qed

end
