(* ===== verification/String_Methods.thy ===== *)
theory String_Methods
  imports String_Type
begin

text \<open>
  The methods of strings, \<^verbatim>\<open>values/types/string/methods.rs\<close>.

  The first part is what they use of \<open>str\<close>: search for a string, splitting, trimming and white space. A match of a string is its
  byte offset; matches do not overlap, and the empty string matches at every boundary of characters. The tables of Unicode for
  letters and case are an argument.
\<close>

subsection \<open>Strings of Rust\<close>

definition boundaries :: "string \<Rightarrow> nat list" where
  "boundaries s = (let cs = chars s in map (\<lambda>k. length (utf8 (take k cs))) [0..<Suc (length cs)])"

function scan :: "nat \<Rightarrow> 'a list \<Rightarrow> 'a list \<Rightarrow> nat list" where
  "scan i s needle =
     (if needle = [] \<or> length s < length needle then []
      else if take (length needle) s = needle then i # scan (i + length needle) (drop (length needle) s) needle
      else scan (i + 1) (tl s) needle)"
  by pat_completeness auto
termination by (relation "measure (\<lambda>(i, s, needle). length s)") (auto simp: diff_less Suc_le_eq not_less neq_Nil_conv)

function rscan :: "'a list \<Rightarrow> 'a list \<Rightarrow> nat list" where
  "rscan s needle =
     (if needle = [] \<or> length s < length needle then []
      else let k = length s - length needle
           in if drop k s = needle then k # rscan (take k s) needle else rscan (butlast s) needle)"
  by pat_completeness auto
termination
proof (relation "measure (\<lambda>(s, needle). length s)")
  fix s needle :: "'a list" and k
  assume "\<not> (needle = [] \<or> length s < length needle)" "k = length s - length needle"
  then have "0 < length needle" "length needle \<le> length s" "k = length s - length needle" by auto
  then have "k < length s" "length s - 1 < length s" by linarith+
  then show "((take k s, needle), (s, needle)) \<in> measure (\<lambda>(s, needle). length s)"
    "((butlast s, needle), (s, needle)) \<in> measure (\<lambda>(s, needle). length s)" by auto
qed simp

declare scan.simps [simp del] rscan.simps [simp del]

definition match_indices :: "string \<Rightarrow> string \<Rightarrow> nat list" where
  "match_indices s needle = (if needle = [] then boundaries s else scan 0 s needle)"

definition rmatch_indices :: "string \<Rightarrow> string \<Rightarrow> nat list" where
  "rmatch_indices s needle =
     (if needle = [] then rev (boundaries s) else rscan s needle)"

text \<open>\<open>s.get(a..b)\<close> needs boundaries of characters.\<close>

definition std_get :: "string \<Rightarrow> nat \<Rightarrow> nat \<Rightarrow> string option" where
  "std_get s a b = (if a \<le> b \<and> is_char_boundary s a \<and> is_char_boundary s b then Some (take (b - a) (drop a s)) else None)"

fun head :: "'a list \<Rightarrow> 'a option" where
  "head [] = None"
| "head (x # _) = Some x"

definition std_find :: "string \<Rightarrow> string \<Rightarrow> nat option" where
  "std_find s needle = head (match_indices s needle)"

definition std_rfind :: "string \<Rightarrow> string \<Rightarrow> nat option" where
  "std_rfind s needle = head (rmatch_indices s needle)"

text \<open>The pieces of a string from \<open>start\<close>, between the matches of a separator of length \<open>len\<close>.\<close>

fun pieces :: "string \<Rightarrow> nat \<Rightarrow> nat \<Rightarrow> nat list \<Rightarrow> string list" where
  "pieces s start len [] = [drop start s]"
| "pieces s start len (m # ms) = take (m - start) (drop start s) # pieces s (m + len) len ms"

definition std_split :: "string \<Rightarrow> string \<Rightarrow> string list" where
  "std_split s sep = pieces s 0 (length sep) (match_indices s sep)"

definition std_splitn :: "nat \<Rightarrow> string \<Rightarrow> string \<Rightarrow> string list" where
  "std_splitn n s sep = (if n = 0 then [] else pieces s 0 (length sep) (take (n - 1) (match_indices s sep)))"

definition std_rsplit :: "string \<Rightarrow> string \<Rightarrow> string list" where
  "std_rsplit s sep = rev (pieces s 0 (length sep) (rev (rmatch_indices s sep)))"

definition std_rsplitn :: "nat \<Rightarrow> string \<Rightarrow> string \<Rightarrow> string list" where
  "std_rsplitn n s sep = (if n = 0 then [] else rev (pieces s 0 (length sep) (rev (take (n - 1) (rmatch_indices s sep)))))"

fun split_bytes :: "char \<Rightarrow> string \<Rightarrow> string list" where
  "split_bytes b [] = [[]]"
| "split_bytes b (x # xs) =
     (if x = b then [] # split_bytes b xs else case split_bytes b xs of [] \<Rightarrow> [[x]] | p # ps \<Rightarrow> (x # p) # ps)"

definition is_whitespace :: "nat \<Rightarrow> bool" where
  "is_whitespace c \<longleftrightarrow>
     9 \<le> c \<and> c \<le> 13 \<or> c \<in> {32, 0x85, 0xA0, 0x1680} \<or> 0x2000 \<le> c \<and> c \<le> 0x200A \<or> c \<in> {0x2028, 0x2029, 0x202F, 0x205F, 0x3000}"

function words :: "nat list \<Rightarrow> nat list list" where
  "words cs =
     (case dropWhile is_whitespace cs of
        [] \<Rightarrow> []
      | ds \<Rightarrow> takeWhile (\<lambda>c. \<not> is_whitespace c) ds # words (dropWhile (\<lambda>c. \<not> is_whitespace c) ds))"
  by pat_completeness auto
termination
proof (relation "measure length")
  fix cs :: "nat list" and d ds
  assume ds: "dropWhile is_whitespace cs = d # ds"
  then have "\<not> is_whitespace d" by (metis hd_dropWhile list.discI list.sel(1))
  then have "length (dropWhile (\<lambda>c. \<not> is_whitespace c) (d # ds)) < length (d # ds)"
    using length_dropWhile_le [of "\<lambda>c. \<not> is_whitespace c" ds] by simp
  also have "\<dots> \<le> length cs" using ds length_dropWhile_le [of is_whitespace cs] by simp
  finally show "(dropWhile (\<lambda>c. \<not> is_whitespace c) (d # ds), cs) \<in> measure length" by simp
qed simp

declare words.simps [simp del]

definition trim_start_matches :: "(nat \<Rightarrow> bool) \<Rightarrow> string \<Rightarrow> string" where
  "trim_start_matches f s = utf8 (dropWhile f (chars s))"

definition trim_end_matches :: "(nat \<Rightarrow> bool) \<Rightarrow> string \<Rightarrow> string" where
  "trim_end_matches f s = utf8 (rev (dropWhile f (rev (chars s))))"

definition starts_with :: "string \<Rightarrow> string \<Rightarrow> bool" where
  "starts_with s p \<longleftrightarrow> take (length p) s = p"

definition ends_with :: "string \<Rightarrow> string \<Rightarrow> bool" where
  "ends_with s p \<longleftrightarrow> length p \<le> length s \<and> drop (length s - length p) s = p"

record unicode =
  is_alphabetic :: "nat \<Rightarrow> bool"
  is_numeric :: "nat \<Rightarrow> bool"
  is_lowercase :: "nat \<Rightarrow> bool"
  is_uppercase :: "nat \<Rightarrow> bool"
  to_uppercase :: "nat \<Rightarrow> nat list"
  to_lowercase :: "nat \<Rightarrow> nat list"

definition is_alphanumeric :: "unicode \<Rightarrow> nat \<Rightarrow> bool" where
  "is_alphanumeric u c \<longleftrightarrow> is_alphabetic u c \<or> is_numeric u c"

subsection \<open>Splitting at white space\<close>

text \<open>The variables of the loop are \<open>v\<close>, \<open>cur\<close>, \<open>split\<close> and \<open>eat_ws\<close>; strings are lists of characters here.\<close>

fun splitn_ws_loop :: "nat \<Rightarrow> nat list \<Rightarrow> nat list list \<Rightarrow> nat list \<Rightarrow> nat \<Rightarrow> bool \<Rightarrow> nat list list \<times> nat list" where
  "splitn_ws_loop maxsplit [] v cur split eat_ws = (v, cur)"
| "splitn_ws_loop maxsplit (c # cs) v cur split eat_ws =
     (if split \<ge> maxsplit \<and> \<not> eat_ws then splitn_ws_loop maxsplit cs v (cur @ [c]) split eat_ws
      else if is_whitespace c then
        (if cur \<noteq> [] then splitn_ws_loop maxsplit cs (v @ [cur]) [] (split + 1) True
         else splitn_ws_loop maxsplit cs v cur split eat_ws)
      else splitn_ws_loop maxsplit cs v (cur @ [c]) split False)"

definition splitn_whitespace :: "nat list \<Rightarrow> nat \<Rightarrow> nat list list" where
  "splitn_whitespace cs maxsplit =
     (case splitn_ws_loop maxsplit cs [] [] 1 True of (v, cur) \<Rightarrow> if cur \<noteq> [] then v @ [cur] else v)"

fun rsplitn_ws_loop :: "nat \<Rightarrow> nat list \<Rightarrow> nat list list \<Rightarrow> nat list \<Rightarrow> nat \<Rightarrow> bool \<Rightarrow> nat list list \<times> nat list" where
  "rsplitn_ws_loop maxsplit [] v cur split eat_ws = (v, cur)"
| "rsplitn_ws_loop maxsplit (c # cs) v cur split eat_ws =
     (if split \<ge> maxsplit \<and> \<not> eat_ws then rsplitn_ws_loop maxsplit cs v (cur @ [c]) split eat_ws
      else if is_whitespace c then
        (if cur \<noteq> [] then rsplitn_ws_loop maxsplit cs (v @ [rev cur]) [] (split + 1) True
         else rsplitn_ws_loop maxsplit cs v cur split eat_ws)
      else rsplitn_ws_loop maxsplit cs v (cur @ [c]) split False)"

definition rsplitn_whitespace :: "nat list \<Rightarrow> nat \<Rightarrow> nat list list" where
  "rsplitn_whitespace cs maxsplit =
     (case rsplitn_ws_loop maxsplit (rev cs) [] [] 1 True of (v, cur) \<Rightarrow> rev (if cur \<noteq> [] then v @ [rev cur] else v))"

subsection \<open>Case\<close>

fun capitalize_loop :: "unicode \<Rightarrow> nat \<Rightarrow> nat list \<Rightarrow> string" where
  "capitalize_loop u i [] = []"
| "capitalize_loop u i (c # cs) = utf8 (if i = 0 then to_uppercase u c else to_lowercase u c) @ capitalize_loop u (i + 1) cs"

definition str_capitalize :: "unicode \<Rightarrow> string \<Rightarrow> string" where
  "str_capitalize u s = capitalize_loop u 0 (chars s)"

fun all_chars :: "(nat \<Rightarrow> bool) \<Rightarrow> nat list \<Rightarrow> bool" where
  "all_chars f [] = True"
| "all_chars f (c # cs) = (if \<not> f c then False else all_chars f cs)"

definition str_isalnum :: "unicode \<Rightarrow> string \<Rightarrow> bool" where
  "str_isalnum u s = (if s = [] then False else all_chars (is_alphanumeric u) (chars s))"

definition str_isalpha :: "unicode \<Rightarrow> string \<Rightarrow> bool" where
  "str_isalpha u s = (if s = [] then False else all_chars (is_alphabetic u) (chars s))"

definition str_isdigit :: "unicode \<Rightarrow> string \<Rightarrow> bool" where
  "str_isdigit u s = (if s = [] then False else all_chars (is_numeric u) (chars s))"

definition str_isspace :: "string \<Rightarrow> bool" where
  "str_isspace s = (if s = [] then False else all_chars is_whitespace (chars s))"

fun islower_loop :: "unicode \<Rightarrow> nat list \<Rightarrow> bool \<Rightarrow> bool" where
  "islower_loop u [] result = result"
| "islower_loop u (c # cs) result =
     (if is_uppercase u c then False else if is_lowercase u c then islower_loop u cs True else islower_loop u cs result)"

definition str_islower :: "unicode \<Rightarrow> string \<Rightarrow> bool" where
  "str_islower u s = islower_loop u (chars s) False"

fun isupper_loop :: "unicode \<Rightarrow> nat list \<Rightarrow> bool \<Rightarrow> bool" where
  "isupper_loop u [] result = result"
| "isupper_loop u (c # cs) result =
     (if is_lowercase u c then False else if is_uppercase u c then isupper_loop u cs True else isupper_loop u cs result)"

definition str_isupper :: "unicode \<Rightarrow> string \<Rightarrow> bool" where
  "str_isupper u s = isupper_loop u (chars s) False"

fun istitle_loop :: "unicode \<Rightarrow> nat list \<Rightarrow> bool \<Rightarrow> bool \<Rightarrow> bool" where
  "istitle_loop u [] last_space result = result"
| "istitle_loop u (c # cs) last_space result =
     (if \<not> is_alphabetic u c then istitle_loop u cs True result
      else if last_space \<and> is_lowercase u c then False
      else if \<not> last_space \<and> is_uppercase u c then False
      else istitle_loop u cs False (if is_alphabetic u c then True else result))"

definition str_istitle :: "unicode \<Rightarrow> string \<Rightarrow> bool" where
  "str_istitle u s = istitle_loop u (chars s) True False"

fun title_loop :: "unicode \<Rightarrow> nat list \<Rightarrow> bool \<Rightarrow> string \<Rightarrow> string" where
  "title_loop u [] last_space result = result"
| "title_loop u (c # cs) last_space result =
     (if \<not> is_alphabetic u c then title_loop u cs True (result @ utf8 (to_lowercase u c))
      else if last_space then title_loop u cs False (result @ utf8 (to_uppercase u c))
      else title_loop u cs False (result @ utf8 (to_lowercase u c)))"

definition str_title :: "unicode \<Rightarrow> string \<Rightarrow> string" where
  "str_title u s = title_loop u (chars s) True []"

subsection \<open>Searching\<close>

datatype method_error = SubstringNotFound | EmptySeparator | NegativeReplaceCount int | NotAString

type_synonym 'a method_result = "(method_error, 'a) outcome"

definition str_count :: "bool \<Rightarrow> bool \<Rightarrow> nat \<Rightarrow> string \<Rightarrow> string \<Rightarrow> int option \<Rightarrow> int option \<Rightarrow> int method_result" where
  "str_count dbg oc align s needle start end' =
     bind_outcome (convert_str_indices dbg oc align s start end') (\<lambda>r.
       case r of
         Some i \<Rightarrow> Ok (wrap_i32 (int (count_matches (si_haystack i) needle)))
       | None \<Rightarrow> Ok 0)"

text \<open>The shared body of \<open>find\<close>, \<open>index\<close>, \<open>rfind\<close> and \<open>rindex\<close>.\<close>

definition find_between ::
  "(string \<Rightarrow> string \<Rightarrow> nat option) \<Rightarrow> bool \<Rightarrow> bool \<Rightarrow> nat \<Rightarrow> string \<Rightarrow> string \<Rightarrow> int option \<Rightarrow> int option \<Rightarrow> int option method_result" where
  "find_between search dbg oc align s needle start end' =
     bind_outcome (convert_str_indices dbg oc align s start end') (\<lambda>r.
       case r of
         Some i \<Rightarrow>
           (case search (si_haystack i) needle of
              Some index \<Rightarrow>
                bind_outcome (unwrap_opt (std_get (si_haystack i) 0 index)) (\<lambda>before.
                bind_outcome (fs_len align before) (\<lambda>index. Ok (Some (wrap_i32 (int (si_start i + index))))))
            | None \<Rightarrow> Ok None)
       | None \<Rightarrow> Ok None)"

definition str_find :: "bool \<Rightarrow> bool \<Rightarrow> nat \<Rightarrow> string \<Rightarrow> string \<Rightarrow> int option \<Rightarrow> int option \<Rightarrow> int method_result" where
  "str_find dbg oc align s needle start end' =
     bind_outcome (find_between std_find dbg oc align s needle start end') (\<lambda>r. case r of Some i \<Rightarrow> Ok i | None \<Rightarrow> Ok (- 1))"

definition str_index :: "bool \<Rightarrow> bool \<Rightarrow> nat \<Rightarrow> string \<Rightarrow> string \<Rightarrow> int option \<Rightarrow> int option \<Rightarrow> int method_result" where
  "str_index dbg oc align s needle start end' =
     bind_outcome (find_between std_find dbg oc align s needle start end')
       (\<lambda>r. case r of Some i \<Rightarrow> Ok i | None \<Rightarrow> Err SubstringNotFound)"

definition str_rfind :: "bool \<Rightarrow> bool \<Rightarrow> nat \<Rightarrow> string \<Rightarrow> string \<Rightarrow> int option \<Rightarrow> int option \<Rightarrow> int method_result" where
  "str_rfind dbg oc align s needle start end' =
     bind_outcome (find_between std_rfind dbg oc align s needle start end') (\<lambda>r. case r of Some i \<Rightarrow> Ok i | None \<Rightarrow> Ok (- 1))"

definition str_rindex :: "bool \<Rightarrow> bool \<Rightarrow> nat \<Rightarrow> string \<Rightarrow> string \<Rightarrow> int option \<Rightarrow> int option \<Rightarrow> int method_result" where
  "str_rindex dbg oc align s needle start end' =
     bind_outcome (find_between std_rfind dbg oc align s needle start end')
       (\<lambda>r. case r of Some i \<Rightarrow> Ok i | None \<Rightarrow> Err SubstringNotFound)"

datatype string_or_tuple = StringArg string | TupleArg "string list"

definition str_endswith :: "string \<Rightarrow> string_or_tuple \<Rightarrow> bool" where
  "str_endswith s arg = (case arg of StringArg x \<Rightarrow> ends_with s x | TupleArg xs \<Rightarrow> list_ex (ends_with s) xs)"

definition str_startswith :: "string \<Rightarrow> string_or_tuple \<Rightarrow> bool" where
  "str_startswith s arg = (case arg of StringArg x \<Rightarrow> starts_with s x | TupleArg xs \<Rightarrow> list_ex (starts_with s) xs)"

subsection \<open>Splitting and joining\<close>

fun join_rest :: "string \<Rightarrow> string option list \<Rightarrow> string \<Rightarrow> string method_result" where
  "join_rest sep [] r = Ok r"
| "join_rest sep (x # xs) r = (case x of None \<Rightarrow> Err NotAString | Some t \<Rightarrow> join_rest sep xs (r @ sep @ t))"

text \<open>The elements are options: \<open>None\<close> is an element that is no string.\<close>

fun str_join :: "string \<Rightarrow> string option list \<Rightarrow> string method_result" where
  "str_join sep [] = Ok []"
| "str_join sep [x1] = (case x1 of None \<Rightarrow> Err NotAString | Some s1 \<Rightarrow> Ok s1)"
| "str_join sep (x1 # x2 # xs) =
     (case (x1, x2) of (Some s1, Some s2) \<Rightarrow> join_rest sep xs (s1 @ sep @ s2) | _ \<Rightarrow> Err NotAString)"

definition str_partition :: "string \<Rightarrow> string \<Rightarrow> (string \<times> string \<times> string) method_result" where
  "str_partition s needle =
     (if needle = [] then Err EmptySeparator
      else case std_find s needle of
             Some offset \<Rightarrow>
               bind_outcome (unwrap_opt (std_get s 0 offset)) (\<lambda>before.
               bind_outcome (unwrap_opt (std_get s (offset + length needle) (length s))) (\<lambda>after.
               Ok (before, needle, after)))
           | None \<Rightarrow> Ok (s, [], []))"

definition str_rpartition :: "string \<Rightarrow> string \<Rightarrow> (string \<times> string \<times> string) method_result" where
  "str_rpartition s needle =
     (if needle = [] then Err EmptySeparator
      else case std_rfind s needle of
             Some offset \<Rightarrow>
               bind_outcome (unwrap_opt (std_get s 0 offset)) (\<lambda>before.
               bind_outcome (unwrap_opt (std_get s (offset + length needle) (length s))) (\<lambda>after.
               Ok (before, needle, after)))
           | None \<Rightarrow> Ok ([], [], s))"

fun replace_loop :: "string \<Rightarrow> string \<Rightarrow> nat \<Rightarrow> nat list \<Rightarrow> string \<Rightarrow> nat \<Rightarrow> string \<times> nat" where
  "replace_loop x new len [] result last_end = (result, last_end)"
| "replace_loop x new len (m # ms) result last_end =
     replace_loop x new len ms (result @ take (m - last_end) (drop last_end x) @ new) (m + len)"

definition std_replacen :: "string \<Rightarrow> string \<Rightarrow> string \<Rightarrow> nat \<Rightarrow> string" where
  "std_replacen x old new n =
     (case replace_loop x new (length old) (take n (match_indices x old)) [] 0 of (result, last_end) \<Rightarrow> result @ drop last_end x)"

definition str_replace :: "string \<Rightarrow> string \<Rightarrow> string \<Rightarrow> int option \<Rightarrow> string method_result" where
  "str_replace x old new n =
     (case n of
        Some n \<Rightarrow> if n \<ge> 0 then Ok (std_replacen x old new (usize_of_i32 n)) else Err (NegativeReplaceCount n)
      | None \<Rightarrow>
          (case replace_loop x new (length old) (match_indices x old) [] 0 of
             (result, last_end) \<Rightarrow> if result = [] \<and> last_end = 0 then Ok x else Ok (result @ drop last_end x)))"

definition maxsplit_arg :: "bool \<Rightarrow> int option \<Rightarrow> nat option method_result" where
  "maxsplit_arg oc v =
     (case v of
        None \<Rightarrow> Ok None
      | Some v \<Rightarrow> if v < 0 then Ok None else bind_outcome (plain_i32 oc (v + 1)) (\<lambda>n. Ok (Some (usize_of_i32 n))))"

definition str_split :: "bool \<Rightarrow> bool \<Rightarrow> string \<Rightarrow> string option \<Rightarrow> int option \<Rightarrow> string list method_result" where
  "str_split dbg oc s sep maxsplit =
     bind_outcome (maxsplit_arg oc maxsplit) (\<lambda>maxsplit.
       case (sep, maxsplit) of
         (None, None) \<Rightarrow> Ok (map utf8 (words (chars s)))
       | (None, Some maxsplit) \<Rightarrow> Ok (map utf8 (splitn_whitespace (chars s) maxsplit))
       | (Some sep, None) \<Rightarrow>
           if length sep = 1 then
             let b = sep ! 0; n = count_matches_byte s b; res = split_bytes b s
             in bind_outcome (debug_assert dbg (length res = n + 1)) (\<lambda>_. Ok res)
           else Ok (std_split s sep)
       | (Some sep, Some maxsplit) \<Rightarrow> Ok (std_splitn maxsplit s sep))"

definition str_rsplit :: "bool \<Rightarrow> string \<Rightarrow> string option \<Rightarrow> int option \<Rightarrow> string list method_result" where
  "str_rsplit oc s sep maxsplit =
     bind_outcome (maxsplit_arg oc maxsplit) (\<lambda>maxsplit.
       case sep of
         None \<Rightarrow> (case maxsplit of
                   None \<Rightarrow> Ok (map utf8 (words (chars s)))
                 | Some maxsplit \<Rightarrow> Ok (map utf8 (rsplitn_whitespace (chars s) maxsplit)))
       | Some sep \<Rightarrow> Ok (rev (case maxsplit of None \<Rightarrow> std_rsplit s sep | Some maxsplit \<Rightarrow> std_rsplitn maxsplit s sep)))"

definition is_eol :: "char \<Rightarrow> bool" where
  "is_eol c \<longleftrightarrow> c = char_of (10 :: nat) \<or> c = char_of (13 :: nat)"

text \<open>The position of the first line terminator.\<close>

definition find_eol :: "string \<Rightarrow> nat option" where
  "find_eol s = (let y = length (takeWhile (\<lambda>c. \<not> is_eol c) s) in if y < length s then Some y else None)"

function splitlines_loop :: "bool \<Rightarrow> string \<Rightarrow> string list \<Rightarrow> string list method_result" where
  "splitlines_loop keepends s lines =
     (case find_eol s of
        Some y \<Rightarrow>
          (let x = (if std_get s y (y + 2) = Some [char_of (13 :: nat), char_of (10 :: nat)] then y + 2 else y + 1)
           in case std_get s 0 (if keepends then x else y) of
                None \<Rightarrow> Panic
              | Some line \<Rightarrow>
                  if x = length s then Ok (lines @ [line])
                  else (case std_get s x (length s) of
                          None \<Rightarrow> Panic
                        | Some s' \<Rightarrow> splitlines_loop keepends s' (lines @ [line])))
      | None \<Rightarrow> Ok (if s \<noteq> [] then lines @ [s] else lines))"
  by pat_completeness auto
termination
  by (relation "measure (\<lambda>(k, s, l). length s)") (auto simp: find_eol_def std_get_def Let_def split: if_splits)

declare splitlines_loop.simps [simp del]

definition str_splitlines :: "string \<Rightarrow> bool \<Rightarrow> string list method_result" where
  "str_splitlines s keepends = splitlines_loop keepends s []"

subsection \<open>Trimming\<close>

definition keep_if_same :: "string \<Rightarrow> string \<Rightarrow> string" where
  "keep_if_same s res = (if length res = length s then s else res)"

definition strip_pred :: "string option \<Rightarrow> nat \<Rightarrow> bool" where
  "strip_pred cset c = (case cset of None \<Rightarrow> is_whitespace c | Some s \<Rightarrow> c \<in> set (chars s))"

definition str_lstrip :: "string \<Rightarrow> string option \<Rightarrow> string" where
  "str_lstrip s cset = keep_if_same s (trim_start_matches (strip_pred cset) s)"

definition str_rstrip :: "string \<Rightarrow> string option \<Rightarrow> string" where
  "str_rstrip s cset = keep_if_same s (trim_end_matches (strip_pred cset) s)"

definition str_strip :: "string \<Rightarrow> string option \<Rightarrow> string" where
  "str_strip s cset = keep_if_same s (trim_end_matches (strip_pred cset) (trim_start_matches (strip_pred cset) s))"

definition str_removeprefix :: "string \<Rightarrow> string \<Rightarrow> string" where
  "str_removeprefix x p = (if starts_with x p \<and> p \<noteq> [] then drop (length p) x else x)"

definition str_removesuffix :: "string \<Rightarrow> string \<Rightarrow> string" where
  "str_removesuffix x p = (if ends_with x p \<and> p \<noteq> [] then take (length x - length p) x else x)"

end
