(* ===== verification/String_Search.thy ===== *)
theory String_Search
  imports String_Methods
begin

text \<open>
  Search in strings. A match of the bytes of a valid string is a match of its characters at the offset of a character, so that the
  scans of bytes from the left and from the right are the images of the scans of characters; \<open>find\<close>, \<open>rfind\<close>, \<open>index\<close>,
  \<open>rindex\<close> and \<open>count\<close> follow.
\<close>

subsection \<open>Matches of bytes and of characters\<close>

definition match_at :: "'a list \<Rightarrow> 'a list \<Rightarrow> nat \<Rightarrow> bool" where
  "match_at s n k \<longleftrightarrow> k + length n \<le> length s \<and> take (length n) (drop k s) = n"

lemma match_at_drop:
  assumes "n \<noteq> []"
  shows "match_at (drop j s) n k \<longleftrightarrow> match_at s n (j + k)"
proof -
  have "0 < length n" using assms by simp
  then have "k + length n \<le> length s - j \<longleftrightarrow> j + k + length n \<le> length s" by linarith
  then show ?thesis by (simp add: match_at_def add.commute)
qed

lemma match_at_take: "j \<le> length s \<Longrightarrow> match_at (take j s) n k \<longleftrightarrow> match_at s n k \<and> k + length n \<le> j"
  by (auto simp: match_at_def drop_take min_def)

lemma scan_shift: "scan (i + j) s n = map ((+) i) (scan j s n)"
proof (induction j s n rule: scan.induct)
  case (1 j s n)
  show ?case
    using 1 by (subst scan.simps, subst (2) scan.simps) (auto simp: add.assoc)
qed

lemma scan_none: "\<forall>k. \<not> match_at s n k \<Longrightarrow> scan i s n = []"
proof (induction i s n rule: scan.induct)
  case (1 i s n)
  have tl: "\<forall>k. \<not> match_at (tl s) n k" if "n \<noteq> []"
    using 1(3) that match_at_drop [of n 1 s] by (simp add: drop_Suc)
  have "\<not> match_at s n 0" using 1(3) by blast
  with 1(2) tl show ?case by (subst scan.simps) (auto simp: match_at_def)
qed

lemma scan_first:
  "n \<noteq> [] \<Longrightarrow> match_at s n p \<Longrightarrow> \<forall>k<p. \<not> match_at s n k \<Longrightarrow>
   scan i s n = (i + p) # scan (i + p + length n) (drop (p + length n) s) n"
proof (induction p arbitrary: i s)
  case 0
  then show ?case by (subst scan.simps) (auto simp: match_at_def)
next
  case (Suc p)
  have not0: "\<not> match_at s n 0" using Suc.prems(3) by blast
  have "match_at (tl s) n p" "\<forall>k<p. \<not> match_at (tl s) n k"
    using Suc.prems match_at_drop [of n 1 s] by (auto simp: drop_Suc match_at_def)
  then have "scan (i + 1) (tl s) n = (i + 1 + p) # scan (i + 1 + p + length n) (drop (p + length n) (tl s)) n"
    using Suc.IH Suc.prems(1) by blast
  moreover have "scan i s n = scan (i + 1) (tl s) n"
    using not0 Suc.prems(1,2) by (subst scan.simps) (auto simp: match_at_def)
  ultimately show ?case by (simp add: drop_Suc)
qed

lemma rscan_none: "\<forall>k. \<not> match_at s n k \<Longrightarrow> rscan s n = []"
proof (induction s n rule: rscan.induct)
  case (1 s n)
  have "\<forall>k. \<not> match_at (butlast s) n k"
    using 1(3) match_at_take [of "length s - 1" s n] by (simp add: butlast_conv_take)
  moreover have "\<not> match_at s n (length s - length n)" using 1(3) by blast
  ultimately show ?case using 1(2) by (subst rscan.simps) (auto simp: match_at_def Let_def)
qed

lemma rscan_last:
  assumes "n \<noteq> []" "match_at s n p" "\<forall>k>p. \<not> match_at s n k"
  shows "rscan s n = p # rscan (take p s) n"
  using assms
proof (induction s n rule: rscan.induct)
  case (1 s n)
  let ?k = "length s - length n"
  have len: "length n \<le> length s" "p \<le> ?k" using 1(4) by (auto simp: match_at_def)
  show ?case
  proof (cases "p = ?k")
    case True
    with 1(3,4) len show ?thesis by (subst rscan.simps) (auto simp: match_at_def Let_def)
  next
    case False
    with len have p: "p < ?k" by simp
    with 1(5) have "\<not> match_at s n ?k" by blast
    with len have "drop ?k s \<noteq> n" by (auto simp: match_at_def)
    then have step: "rscan s n = rscan (butlast s) n" using 1(3) len by (subst rscan.simps) (auto simp: Let_def)
    have "match_at (butlast s) n p" "\<forall>k>p. \<not> match_at (butlast s) n k"
      using 1(4,5) p match_at_take [of "length s - 1" s n] by (auto simp: butlast_conv_take match_at_def)
    with 1(2) [of ?k] 1(3) len \<open>drop ?k s \<noteq> n\<close> have "rscan (butlast s) n = p # rscan (take p (butlast s)) n" by auto
    moreover have "take p (butlast s) = take p s" using p by (simp add: butlast_conv_take min.absorb1)
    ultimately show ?thesis using step by simp
  qed
qed

definition offset :: "nat list \<Rightarrow> nat \<Rightarrow> nat" where
  "offset cs k = length (utf8 (take k cs))"

lemma offset_strict: "j < k \<Longrightarrow> j < length cs \<Longrightarrow> offset cs j < offset cs k"
proof (induction cs arbitrary: j k)
  case (Cons c cs)
  then show ?case by (cases k; cases j) (auto simp: offset_def)
qed simp

lemma offset_le_iff: "j \<le> length cs \<Longrightarrow> k \<le> length cs \<Longrightarrow> offset cs j \<le> offset cs k \<longleftrightarrow> j \<le> k"
  by (metis le_less_trans linorder_not_less nat_less_le offset_strict)

lemma offset_add: "offset cs (j + k) = offset cs j + offset (drop j cs) k"
  by (simp add: offset_def take_add)

lemma offset_le: "offset cs k \<le> length (utf8 cs)"
  using utf8_split [of cs k] by (metis le_add1 length_append offset_def)

lemma match_utf8:
  assumes "list_all is_scalar cs" "list_all is_scalar ns" "ns \<noteq> []"
  shows "match_at (utf8 cs) (utf8 ns) p \<longleftrightarrow> (\<exists>k. p = offset cs k \<and> match_at cs ns k)"
proof
  assume m: "match_at (utf8 cs) (utf8 ns) p"
  then have "utf8 cs = take p (utf8 cs) @ utf8 ns @ drop (p + length (utf8 ns)) (utf8 cs)"
    by (metis add.commute append_take_drop_id drop_drop match_at_def)
  then obtain k where k: "k \<le> length cs" "take p (utf8 cs) = utf8 (take k cs)" "prefix ns (drop k cs)"
    using split_utf8 assms by metis
  from k(2) m have "p = offset cs k" unfolding offset_def match_at_def by (metis length_take min.absorb2 add_leD1)
  moreover have "match_at cs ns k" using k(1,3) by (auto simp: match_at_def prefix_def dest: arg_cong [of _ _ length])
  ultimately show "\<exists>k. p = offset cs k \<and> match_at cs ns k" by blast
next
  assume "\<exists>k. p = offset cs k \<and> match_at cs ns k"
  then obtain k where k: "p = offset cs k" "match_at cs ns k" by blast
  have "drop k cs = ns @ drop (k + length ns) cs"
    using k(2) by (metis add.commute append_take_drop_id drop_drop match_at_def)
  then have "drop p (utf8 cs) = utf8 ns @ utf8 (drop (k + length ns) cs)"
    using k(1) utf8_take_drop(2) [of k cs] by (simp add: offset_def)
  moreover have "p \<le> length (utf8 cs)" using k(1) offset_le by simp
  ultimately show "match_at (utf8 cs) (utf8 ns) p"
    unfolding match_at_def by (metis (no_types, lifting) append_eq_conv_conj diff_add_inverse le_add1 le_add_diff_inverse length_append length_drop nat_add_left_cancel_le)
qed

lemma utf8_eq_Nil [simp]: "utf8 ns = [] \<longleftrightarrow> ns = []"
  by (cases ns) auto

lemma match_least:
  assumes "match_at cs ns k"
  obtains m where "match_at cs ns m" "\<forall>j<m. \<not> match_at cs ns j"
  using assms by (metis LeastI not_less_Least)

lemma match_greatest:
  assumes "match_at cs ns k"
  obtains m where "match_at cs ns m" "\<forall>j>m. \<not> match_at cs ns j"
proof -
  have bound: "\<forall>j. match_at cs ns j \<longrightarrow> j \<le> length cs" by (simp add: match_at_def)
  have "match_at cs ns (GREATEST j. match_at cs ns j)" using GreatestI_nat [of "match_at cs ns", OF assms] bound by blast
  moreover have "\<forall>j > (GREATEST j. match_at cs ns j). \<not> match_at cs ns j"
    using Greatest_le_nat [of "match_at cs ns"] bound by (meson linorder_not_less)
  ultimately show ?thesis using that by blast
qed

lemma match_le: "match_at cs ns k \<Longrightarrow> k \<le> length cs"
  by (simp add: match_at_def)

lemma offset_match_end: "match_at cs ns k \<Longrightarrow> offset cs (k + length ns) = offset cs k + length (utf8 ns)"
  by (simp add: offset_add match_at_def offset_def [of "drop k cs"])

lemma scan_utf8:
  assumes "list_all is_scalar ns" "ns \<noteq> []"
  shows "list_all is_scalar cs \<Longrightarrow> scan 0 (utf8 cs) (utf8 ns) = map (offset cs) (scan 0 cs ns)"
proof (induction "length cs" arbitrary: cs rule: less_induct)
  case less
  note match = match_utf8 [OF less.prems assms]
  show ?case
  proof (cases "\<exists>k. match_at cs ns k")
    case False
    then show ?thesis using match by (simp add: scan_none)
  next
    case True
    then obtain k where k: "match_at cs ns k" "\<forall>j<k. \<not> match_at cs ns j" by (metis match_least)
    define e where "e = k + length ns"
    have pos: "0 < length ns" using assms(2) by simp
    have shorter: "length (drop e cs) < length cs" using pos k(1) e_def unfolding match_at_def length_drop by linarith
    have "match_at (utf8 cs) (utf8 ns) (offset cs k)" using match k(1) by blast
    moreover have "\<not> match_at (utf8 cs) (utf8 ns) j" if "j < offset cs k" for j
      using that match k offset_le_iff match_le by (metis linorder_not_less)
    moreover have ends: "offset cs k + length (utf8 ns) = offset cs e" using offset_match_end [OF k(1)] e_def by simp
    moreover have "drop (offset cs e) (utf8 cs) = utf8 (drop e cs)" by (simp add: offset_def utf8_take_drop)
    ultimately have "scan 0 (utf8 cs) (utf8 ns) = offset cs k # scan (offset cs e) (utf8 (drop e cs)) (utf8 ns)"
      using scan_first [of "utf8 ns" "utf8 cs" "offset cs k" 0] assms(2) by auto
    also have "scan (offset cs e) (utf8 (drop e cs)) (utf8 ns) = map ((+) (offset cs e)) (scan 0 (utf8 (drop e cs)) (utf8 ns))"
      using scan_shift [of "offset cs e" 0] by simp
    also have "scan 0 (utf8 (drop e cs)) (utf8 ns) = map (offset (drop e cs)) (scan 0 (drop e cs) ns)"
      by (rule less.hyps [OF shorter]) (rule scalar_drop [OF less.prems])
    also have "offset cs k # map ((+) (offset cs e)) (map (offset (drop e cs)) (scan 0 (drop e cs) ns)) =
        map (offset cs) (k # map ((+) e) (scan 0 (drop e cs) ns))" by (simp add: offset_add comp_def)
    also have "k # map ((+) e) (scan 0 (drop e cs) ns) = scan 0 cs ns"
      using scan_first [OF assms(2) k, of 0] scan_shift [of e 0 "drop e cs" ns] e_def by simp
    finally show ?thesis .
  qed
qed

lemma offset_take: "j \<le> k \<Longrightarrow> offset (take k cs) j = offset cs j"
  by (simp add: offset_def min.absorb1)

lemma rscan_range: "m \<in> set (rscan s n) \<Longrightarrow> m \<le> length s"
proof (induction s n rule: rscan.induct)
  case (1 s n)
  from 1(3) show ?case using 1(1,2) by (subst (asm) rscan.simps) (fastforce simp: Let_def split: if_splits)
qed

lemma rscan_utf8:
  assumes "list_all is_scalar ns" "ns \<noteq> []"
  shows "list_all is_scalar cs \<Longrightarrow> rscan (utf8 cs) (utf8 ns) = map (offset cs) (rscan cs ns)"
proof (induction "length cs" arbitrary: cs rule: less_induct)
  case less
  note match = match_utf8 [OF less.prems assms]
  show ?case
  proof (cases "\<exists>k. match_at cs ns k")
    case False
    then show ?thesis using match by (simp add: rscan_none)
  next
    case True
    then obtain k where k: "match_at cs ns k" "\<forall>j>k. \<not> match_at cs ns j" by (metis match_greatest)
    have lt: "k < length cs" using k(1) assms(2) by (cases ns) (auto simp: match_at_def)
    have "match_at (utf8 cs) (utf8 ns) (offset cs k)" using match k(1) by blast
    moreover have "\<not> match_at (utf8 cs) (utf8 ns) j" if "j > offset cs k" for j
      using that match k offset_le_iff match_le by (metis linorder_not_less)
    moreover have "take (offset cs k) (utf8 cs) = utf8 (take k cs)" by (simp add: offset_def utf8_take_drop)
    ultimately have "rscan (utf8 cs) (utf8 ns) = offset cs k # rscan (utf8 (take k cs)) (utf8 ns)"
      using rscan_last [of "utf8 ns" "utf8 cs" "offset cs k"] assms(2) by auto
    also have "rscan (utf8 (take k cs)) (utf8 ns) = map (offset (take k cs)) (rscan (take k cs) ns)"
      using less.hyps [of "take k cs"] less.prems lt by (simp add: scalar_take)
    also have "\<dots> = map (offset cs) (rscan (take k cs) ns)"
      using rscan_range [of _ "take k cs" ns] by (auto simp: offset_take)
    finally show ?thesis using rscan_last [OF assms(2) k] by simp
  qed
qed

lemma head_scan:
  assumes "n \<noteq> []"
  shows "head (scan 0 s n) = (if \<exists>k. match_at s n k then Some (LEAST k. match_at s n k) else None)"
proof (cases "\<exists>k. match_at s n k")
  case True
  have "\<forall>k < (LEAST k. match_at s n k). \<not> match_at s n k" using not_less_Least by blast
  from scan_first [OF assms LeastI_ex [OF True] this, of 0] True show ?thesis by simp
qed (simp add: scan_none)

lemma head_rscan:
  assumes "n \<noteq> []"
  shows "head (rscan s n) = (if \<exists>k. match_at s n k then Some (GREATEST k. match_at s n k) else None)"
proof (cases "\<exists>k. match_at s n k")
  case True
  then obtain m where m: "match_at s n m" "\<forall>j>m. \<not> match_at s n j" by (metis match_greatest)
  then have "(GREATEST k. match_at s n k) = m" by (intro Greatest_equality) (auto simp: not_less [symmetric])
  with True m show ?thesis using rscan_last [OF assms m] by simp
qed (simp add: rscan_none)

subsection \<open>Searching\<close>

definition selected :: "nat list \<Rightarrow> int option \<Rightarrow> int option \<Rightarrow> (nat \<times> nat list) option" where
  "selected cs start end' =
     (case (start, end') of
        (Some x, Some y) \<Rightarrow>
          if y < x \<and> x < 0 then None else if cs = [] \<and> y < 0 \<and> 0 < x then Some (0, []) else select cs start end'
      | _ \<Rightarrow> select cs start end')"

lemma convert_selected:
  assumes "list_all is_scalar cs" "int (length cs) \<le> i32_max" "pred_option in_i32 start" "pred_option in_i32 end'"
  shows "convert_str_indices dbg oc align (utf8 cs) start end' = Ok (as_indices (selected cs start end'))"
  unfolding convert_str_indices_utf8 [OF assms] selected_def by (cases start; cases end') (simp_all add: as_indices_def)

lemma select_sound:
  assumes "select cs start end' = Some (s, hs)" "list_all is_scalar cs"
  shows "s + length hs \<le> length cs \<and> list_all is_scalar hs \<and> hs = take (length hs) (drop s cs)"
proof -
  have e: "bound_end (length cs) end' \<le> length cs" by (simp add: bound_end_def split: option.split)
  have "hs = take (bound_end (length cs) end' - s) (drop s cs)" "s \<le> bound_end (length cs) end'"
    using assms(1) by (auto simp: select_def Let_def split: if_splits)
  with e assms(2) show ?thesis by (auto intro: scalar_take scalar_drop)
qed

lemma selected_sound:
  assumes "selected cs start end' = Some (s, hs)" "list_all is_scalar cs"
  shows "s + length hs \<le> length cs" "list_all is_scalar hs" "hs = take (length hs) (drop s cs)"
proof -
  have "s + length hs \<le> length cs \<and> list_all is_scalar hs \<and> hs = take (length hs) (drop s cs)"
    using assms select_sound [of cs start end' s hs] by (auto simp: selected_def split: option.splits if_splits)
  then show "s + length hs \<le> length cs" "list_all is_scalar hs" "hs = take (length hs) (drop s cs)" by auto
qed

lemma boundary_offset:
  assumes "list_all is_scalar cs" "k \<le> length cs"
  shows "is_char_boundary (utf8 cs) (offset cs k)"
proof (cases "k = length cs")
  case False
  with assms have k: "k < length cs" by simp
  let ?c = "cs ! k"
  have "drop (offset cs k) (utf8 cs) = encode ?c @ utf8 (drop (Suc k) cs)"
    using k by (simp add: offset_def utf8_take_drop Cons_nth_drop_Suc [symmetric])
  moreover have "is_scalar ?c" using assms(1) k by (simp add: list_all_length)
  moreover have lt: "offset cs k < length (utf8 cs)"
    using offset_strict [of k "length cs" cs] k by (simp add: offset_def)
  moreover have "utf8 cs ! offset cs k = drop (offset cs k) (utf8 cs) ! 0" using lt by simp
  ultimately show ?thesis using encode_shape [of ?c] encode_nonempty [of ?c] by (auto simp: is_char_boundary_def nth_append)
qed (simp add: is_char_boundary_def offset_def)

lemma get_offset:
  assumes "list_all is_scalar cs" "j \<le> k" "k \<le> length cs"
  shows "std_get (utf8 cs) (offset cs j) (offset cs k) = Some (utf8 (take (k - j) (drop j cs)))"
proof -
  have "take (offset cs k) (utf8 cs) = utf8 (take k cs)" by (simp add: offset_def utf8_take_drop)
  then have "take (offset cs k - offset cs j) (drop (offset cs j) (utf8 cs)) = drop (offset cs j) (utf8 (take k cs))"
    by (simp add: drop_take [symmetric])
  also have "\<dots> = utf8 (drop j (take k cs))" using assms(2) by (metis offset_def offset_take utf8_take_drop(2))
  finally show ?thesis
    using assms boundary_offset [OF assms(1)] offset_le_iff [of j cs k] by (simp add: std_get_def drop_take)
qed

lemma offset_0 [simp]: "offset cs 0 = 0"
  by (simp add: offset_def)

lemma offset_length: "offset cs (length cs) = length (utf8 cs)"
  by (simp add: offset_def)

definition first_match :: "'a list \<Rightarrow> 'a list \<Rightarrow> nat option" where
  "first_match s n = (if \<exists>k. match_at s n k then Some (LEAST k. match_at s n k) else None)"

definition last_match :: "'a list \<Rightarrow> 'a list \<Rightarrow> nat option" where
  "last_match s n = (if \<exists>k. match_at s n k then Some (GREATEST k. match_at s n k) else None)"

lemma match_at_Nil: "match_at s [] k \<longleftrightarrow> k \<le> length s"
  by (auto simp: match_at_def)

lemma match_Nil: "first_match s [] = Some 0" "last_match s [] = Some (length s)"
proof -
  have "(LEAST k. k \<le> length s) = 0" by (rule Least_eq_0) simp
  then show "first_match s [] = Some 0" by (auto simp: first_match_def match_at_Nil)
  have "(GREATEST k. k \<le> length s) = length s" by (rule Greatest_equality) auto
  then show "last_match s [] = Some (length s)" by (auto simp: last_match_def match_at_Nil)
qed

lemma boundaries_utf8: "list_all is_scalar cs \<Longrightarrow> boundaries (utf8 cs) = map (offset cs) [0..<Suc (length cs)]"
  by (simp add: boundaries_def chars_utf8 offset_def [abs_def])

lemma std_find_utf8:
  assumes "list_all is_scalar cs" "list_all is_scalar ns"
  shows "std_find (utf8 cs) (utf8 ns) = map_option (offset cs) (first_match cs ns)"
    and "std_rfind (utf8 cs) (utf8 ns) = map_option (offset cs) (last_match cs ns)"
proof -
  have head_map: "head (map f xs) = map_option f (head xs)" for f :: "nat \<Rightarrow> nat" and xs by (cases xs) auto
  have up: "[0..<Suc n] = 0 # [Suc 0..<Suc n]" for n by (simp add: upt_rec)
  show "std_find (utf8 cs) (utf8 ns) = map_option (offset cs) (first_match cs ns)"
    using assms scan_utf8 [of ns cs] head_scan [of ns cs, folded first_match_def]
    by (cases "ns = []") (simp_all add: std_find_def match_indices_def boundaries_utf8 match_Nil up head_map del: upt_Suc)
  show "std_rfind (utf8 cs) (utf8 ns) = map_option (offset cs) (last_match cs ns)"
    using assms rscan_utf8 [of ns cs] head_rscan [of ns cs, folded last_match_def]
    by (cases "ns = []") (simp_all add: std_rfind_def rmatch_indices_def boundaries_utf8 match_Nil head_map)
qed

definition occurrence :: "(nat list \<Rightarrow> nat list \<Rightarrow> nat option) \<Rightarrow> nat list \<Rightarrow> nat list \<Rightarrow> int option \<Rightarrow> int option \<Rightarrow> int option" where
  "occurrence find_char cs ns start end' =
     (case selected cs start end' of None \<Rightarrow> None | Some (s, hs) \<Rightarrow> map_option (\<lambda>k. int (s + k)) (find_char hs ns))"

lemma match_bounds: "first_match hs ns = Some k \<or> last_match hs ns = Some k \<Longrightarrow> k \<le> length hs"
  by (metis LeastI_ex first_match_def last_match_def match_greatest match_le option.inject option.distinct(1) Greatest_equality not_less)

lemma find_between_utf8:
  assumes "list_all is_scalar cs" "list_all is_scalar ns" "int (length cs) \<le> i32_max" "pred_option in_i32 start" "pred_option in_i32 end'"
    and find: "\<And>hs. list_all is_scalar hs \<Longrightarrow> search (utf8 hs) (utf8 ns) = map_option (offset hs) (find_char hs ns)"
    and bound: "\<And>hs k. find_char hs ns = Some k \<Longrightarrow> k \<le> length hs"
  shows "find_between search dbg oc align (utf8 cs) (utf8 ns) start end' = Ok (occurrence find_char cs ns start end')"
proof (cases "selected cs start end'")
  case None
  then show ?thesis using assms by (simp add: find_between_def convert_selected as_indices_def occurrence_def)
next
  case (Some r)
  then obtain s hs where r: "selected cs start end' = Some (s, hs)" by (cases r) auto
  note sel = selected_sound [OF r assms(1)]
  show ?thesis
  proof (cases "find_char hs ns")
    case None
    then show ?thesis using assms r sel by (simp add: find_between_def convert_selected as_indices_def occurrence_def)
  next
    case (Some k)
    then have k: "k \<le> length hs" using bound by blast
    have get: "std_get (utf8 hs) 0 (offset hs k) = Some (utf8 (take k hs))"
      using get_offset [of hs 0 k] sel(2) k by simp
    have "in_i32 (int (s + k))" using k sel(1) assms(3) by (auto simp: i32_defs)
    then show ?thesis
      using assms r sel Some k fs_len_utf8 [OF scalar_take [OF sel(2)], of align k]
      by (simp add: find_between_def convert_selected as_indices_def occurrence_def get unwrap_opt_def fs_len_utf8 scalar_take)
  qed
qed

lemma count_scan: "n \<noteq> [] \<Longrightarrow> count_nonoverlapping s n = length (scan i s n)"
proof (induction i s n rule: scan.induct)
  case (1 i s n)
  have short: "count_nonoverlapping s n = 0" if "length s < length n" for s n
    using that
  proof (induction s)
    case (Cons x s)
    then show ?case by (subst count_nonoverlapping.simps) auto
  qed (simp add: count_nonoverlapping.simps)
  show ?case
  proof (cases "length s < length n")
    case True
    then show ?thesis by (subst scan.simps) (simp add: short)
  next
    case False
    with 1 have "s \<noteq> []" by auto
    with False 1 show ?thesis by (subst count_nonoverlapping.simps, subst scan.simps) auto
  qed
qed

lemma count_matches_utf8:
  assumes "list_all is_scalar cs" "list_all is_scalar ns"
  shows "count_matches (utf8 cs) (utf8 ns) = (if ns = [] then length cs + 1 else length (scan 0 cs ns))"
proof (cases "ns = []")
  case False
  have "count_matches (utf8 cs) (utf8 ns) = count_nonoverlapping (utf8 cs) (utf8 ns)"
    using count_byte_nonoverlapping [of "utf8 cs" "utf8 ns ! 0"] False
    by (cases "utf8 ns"; cases "tl (utf8 ns)") (auto simp: count_matches_def)
  with False assms show ?thesis by (simp add: count_scan [of _ _ 0] scan_utf8)
qed (use assms in \<open>simp add: count_matches_def chars_utf8\<close>)

lemma length_scan: "length (scan i s n) \<le> length s"
proof (induction i s n rule: scan.induct)
  case (1 i s n)
  show ?case
  proof (cases "n = [] \<or> length s < length n")
    case False
    then have "0 < length n" "length n \<le> length s" by auto
    then have "length (drop (length n) s) < length s" "length (tl s) < length s" unfolding length_drop length_tl by linarith+
    then show ?thesis using 1 False scan.simps [of i s n] by (cases "take (length n) s = n") auto
  qed (simp add: scan.simps [of i s n])
qed

lemma search_methods_exact_all:
  assumes "list_all is_scalar cs" and "list_all is_scalar ns" and "int (length cs) < i32_max"
    and "pred_option in_i32 start" and "pred_option in_i32 end'"
  shows "str_find dbg oc align (utf8 cs) (utf8 ns) start end' =
      Ok (case occurrence first_match cs ns start end' of Some i \<Rightarrow> i | None \<Rightarrow> - 1)"
    and "str_rfind dbg oc align (utf8 cs) (utf8 ns) start end' =
      Ok (case occurrence last_match cs ns start end' of Some i \<Rightarrow> i | None \<Rightarrow> - 1)"
    and "str_index dbg oc align (utf8 cs) (utf8 ns) start end' =
      (case occurrence first_match cs ns start end' of Some i \<Rightarrow> Ok i | None \<Rightarrow> Err SubstringNotFound)"
    and "str_rindex dbg oc align (utf8 cs) (utf8 ns) start end' =
      (case occurrence last_match cs ns start end' of Some i \<Rightarrow> Ok i | None \<Rightarrow> Err SubstringNotFound)"
    and "str_count dbg oc align (utf8 cs) (utf8 ns) start end' =
      Ok (case selected cs start end' of
            Some (s, hs) \<Rightarrow> if ns = [] then int (length hs) + 1 else int (length (scan 0 hs ns))
          | None \<Rightarrow> 0)"
proof -
  have len: "int (length cs) \<le> i32_max" using assms(3) by simp
  have first: "find_between std_find dbg oc align (utf8 cs) (utf8 ns) start end' = Ok (occurrence first_match cs ns start end')"
    by (rule find_between_utf8 [OF assms(1,2) len assms(4,5)]) (auto simp: std_find_utf8 assms(2) intro: match_bounds)
  have last: "find_between std_rfind dbg oc align (utf8 cs) (utf8 ns) start end' = Ok (occurrence last_match cs ns start end')"
    by (rule find_between_utf8 [OF assms(1,2) len assms(4,5)]) (auto simp: std_find_utf8 assms(2) intro: match_bounds)
  show "str_find dbg oc align (utf8 cs) (utf8 ns) start end' =
      Ok (case occurrence first_match cs ns start end' of Some i \<Rightarrow> i | None \<Rightarrow> - 1)"
    by (simp add: str_find_def first last split: option.split)
  show "str_rfind dbg oc align (utf8 cs) (utf8 ns) start end' =
      Ok (case occurrence last_match cs ns start end' of Some i \<Rightarrow> i | None \<Rightarrow> - 1)"
    by (simp add: str_rfind_def first last split: option.split)
  show "str_index dbg oc align (utf8 cs) (utf8 ns) start end' =
      (case occurrence first_match cs ns start end' of Some i \<Rightarrow> Ok i | None \<Rightarrow> Err SubstringNotFound)"
    by (simp add: str_index_def first last)
  show "str_rindex dbg oc align (utf8 cs) (utf8 ns) start end' =
      (case occurrence last_match cs ns start end' of Some i \<Rightarrow> Ok i | None \<Rightarrow> Err SubstringNotFound)"
    by (simp add: str_rindex_def first last)
  show "str_count dbg oc align (utf8 cs) (utf8 ns) start end' =
      Ok (case selected cs start end' of
            Some (s, hs) \<Rightarrow> if ns = [] then int (length hs) + 1 else int (length (scan 0 hs ns))
          | None \<Rightarrow> 0)"
  proof (cases "selected cs start end'")
    case None
    then show ?thesis using assms len by (simp add: str_count_def convert_selected as_indices_def)
  next
    case (Some r)
    then obtain s hs where r: "selected cs start end' = Some (s, hs)" by (cases r) auto
    note sel = selected_sound [OF r assms(1)]
    have "length (scan 0 hs ns) \<le> length hs" by (rule length_scan)
    then have "in_i32 (int (length (scan 0 hs ns)))" "in_i32 (int (length hs) + 1)" using sel(1) assms(3) by (auto simp: i32_defs)
    then show ?thesis
      using assms len r sel by (simp add: str_count_def convert_selected as_indices_def count_matches_utf8 add.commute)
  qed
qed

text \<open>C36. \<open>find\<close>, \<open>rfind\<close>, \<open>index\<close> and \<open>rindex\<close>, which search bytes, return the index in characters of the first or last occurrence
  within the selected range; without one the first two return -1 and the others fail. \<open>count\<close> is the number of occurrences that do
  not overlap. None of them panics.\<close>

theorem search_methods_exact:
  assumes "list_all is_scalar cs" and "list_all is_scalar ns" and "int (length cs) < i32_max"
    and "pred_option in_i32 start" and "pred_option in_i32 end'"
  shows "(str_find dbg oc align (utf8 cs) (utf8 ns) start end' =
      Ok (case occurrence first_match cs ns start end' of Some i \<Rightarrow> i | None \<Rightarrow> - 1)) \<and>
    (str_rfind dbg oc align (utf8 cs) (utf8 ns) start end' =
      Ok (case occurrence last_match cs ns start end' of Some i \<Rightarrow> i | None \<Rightarrow> - 1)) \<and>
    (str_index dbg oc align (utf8 cs) (utf8 ns) start end' =
      (case occurrence first_match cs ns start end' of Some i \<Rightarrow> Ok i | None \<Rightarrow> Err SubstringNotFound)) \<and>
    (str_rindex dbg oc align (utf8 cs) (utf8 ns) start end' =
      (case occurrence last_match cs ns start end' of Some i \<Rightarrow> Ok i | None \<Rightarrow> Err SubstringNotFound)) \<and>
    (str_count dbg oc align (utf8 cs) (utf8 ns) start end' =
      Ok (case selected cs start end' of
            Some (s, hs) \<Rightarrow> if ns = [] then int (length hs) + 1 else int (length (scan 0 hs ns))
          | None \<Rightarrow> 0))"
  using search_methods_exact_all [OF assms] by blast

lemma first_match_scan: "n \<noteq> [] \<Longrightarrow> first_match s n = head (scan 0 s n)"
  by (simp add: head_scan first_match_def)

theorem search_methods_exact_witness:
  "str_find True True 0 (utf8 [97, 0x433, 98]) (utf8 [98]) (Some 1) None = Ok 2"
  using search_methods_exact [of "[97, 0x433, 98]" "[98]" "Some 1" None True True 0]
  by (simp add: is_scalar_def i32_defs occurrence_def selected_def select_def bound_start_def bound_end_def
      first_match_scan scan.simps)

end
