(* ===== verification/String_Split.thy ===== *)
theory String_Split
  imports String_Search
begin

text \<open>
  Splitting strings: at a separator (\<open>split\<close>, \<open>rsplit\<close>, \<open>join\<close>, \<open>replace\<close>, \<open>partition\<close>), at white space, and into lines.
\<close>

subsection \<open>Splitting and joining\<close>

fun joined :: "string \<Rightarrow> string list \<Rightarrow> string" where
  "joined sep [] = []"
| "joined sep [p] = p"
| "joined sep (p # q # ps) = p @ sep @ joined sep (q # ps)"

lemma joined_Cons: "ps \<noteq> [] \<Longrightarrow> joined sep (p # ps) = p @ sep @ joined sep ps"
  by (cases ps) auto

lemma joined_snoc: "joined sep ((r @ sep @ p) # ps) = joined sep (r # p # ps)"
  by (cases ps) auto

lemma join_rest_joined: "join_rest sep (map Some ps) r = Ok (joined sep (r # ps))"
  by (induction ps arbitrary: r) (simp_all add: joined_snoc del: joined.simps(3))

lemma str_join_joined: "str_join sep (map Some ps) = Ok (joined sep ps)"
  by (cases "(sep, ps)" rule: joined.cases) (simp_all add: join_rest_joined joined_snoc del: joined.simps(3))

text \<open>Matches in order that do not overlap.\<close>

fun chain :: "'a list \<Rightarrow> 'a list \<Rightarrow> nat \<Rightarrow> nat list \<Rightarrow> bool" where
  "chain s n start [] = True"
| "chain s n start (m # ms) = (start \<le> m \<and> match_at s n m \<and> chain s n (m + length n) ms)"

lemma pieces_nonempty [simp]: "pieces s start len ms \<noteq> []"
  by (cases ms) auto

lemma joined_pieces: "chain s n start ms \<Longrightarrow> joined n (pieces s start (length n) ms) = drop start s"
proof (induction ms arbitrary: start)
  case (Cons m ms)
  then have "start \<le> m" "take (length n) (drop m s) = n" by (auto simp: match_at_def)
  then have "drop start s = take (m - start) (drop start s) @ n @ drop (m + length n) s"
    by (metis add.commute append_take_drop_id drop_drop le_add_diff_inverse)
  with Cons show ?case by (simp add: joined_Cons)
qed simp

lemma chain_take: "chain s n start ms \<Longrightarrow> chain s n start (take k ms)"
proof (induction ms arbitrary: start k)
  case (Cons m ms)
  then show ?case by (cases k) auto
qed simp

lemma chain_mono: "chain s n start ms \<Longrightarrow> j \<le> start \<Longrightarrow> chain s n j ms"
  by (cases ms) auto

lemma chain_shift: "n \<noteq> [] \<Longrightarrow> chain (drop j s) n start ms \<Longrightarrow> chain s n (j + start) (map ((+) j) ms)"
  by (induction ms arbitrary: start) (auto simp: match_at_drop add.assoc)

lemma chain_scan: "n \<noteq> [] \<Longrightarrow> chain s n 0 (scan 0 s n)"
proof (induction "length s" arbitrary: s rule: less_induct)
  case less
  show ?case
  proof (cases "\<exists>k. match_at s n k")
    case False
    then show ?thesis by (simp add: scan_none)
  next
    case True
    then obtain k where k: "match_at s n k" "\<forall>j<k. \<not> match_at s n j" by (metis match_least)
    let ?e = "k + length n"
    have "0 < length n" using less.prems by simp
    then have "length (drop ?e s) < length s" using k(1) unfolding match_at_def length_drop by linarith
    with less have "chain s n ?e (map ((+) ?e) (scan 0 (drop ?e s) n))" using chain_shift [of n ?e s 0] by simp
    then show ?thesis
      using scan_first [OF less.prems k, of 0] scan_shift [of ?e 0 "drop ?e s" n] k(1) by simp
  qed
qed

lemma chain_append: "chain s n start ms \<Longrightarrow> match_at s n m \<Longrightarrow> start \<le> m \<Longrightarrow> \<forall>x\<in>set ms. x + length n \<le> m \<Longrightarrow> chain s n start (ms @ [m])"
  by (induction ms arbitrary: start) auto

lemma chain_take_list: "chain (take k s) n start ms \<Longrightarrow> k \<le> length s \<Longrightarrow> chain s n start ms"
  by (induction ms arbitrary: start) (auto simp: match_at_take)

lemma chain_matches: "chain s n start ms \<Longrightarrow> m \<in> set ms \<Longrightarrow> match_at s n m"
  by (induction ms arbitrary: start) auto

lemma chain_rscan: "n \<noteq> [] \<Longrightarrow> chain s n 0 (rev (rscan s n))"
proof (induction "length s" arbitrary: s rule: less_induct)
  case less
  show ?case
  proof (cases "\<exists>k. match_at s n k")
    case False
    then show ?thesis by (simp add: rscan_none)
  next
    case True
    then obtain k where k: "match_at s n k" "\<forall>j>k. \<not> match_at s n j" by (metis match_greatest)
    have lt: "k < length s" using k(1) less.prems by (cases n) (auto simp: match_at_def)
    with less have c: "chain (take k s) n 0 (rev (rscan (take k s) n))" by simp
    have "\<forall>x\<in>set (rscan (take k s) n). x + length n \<le> k"
      using chain_matches [OF c] lt by (auto simp: match_at_def)
    then show ?thesis
      using rscan_last [OF less.prems k] chain_append [OF chain_take_list [OF c] k(1)] lt by simp
  qed
qed

lemma chain_boundaries:
  assumes "list_all is_scalar cs"
  shows "chain (utf8 cs) [] 0 (boundaries (utf8 cs))"
proof -
  have "chain (utf8 cs) [] (offset cs j) (map (offset cs) [j..<Suc (length cs)])" if "j \<le> length cs" for j
    using that
  proof (induction "length cs - j" arbitrary: j)
    case 0
    then have "[j..<Suc (length cs)] = [length cs]" by simp
    with 0 offset_le [of cs "length cs"] show ?case by (simp add: match_at_Nil)
  next
    case (Suc d)
    then have "chain (utf8 cs) [] (offset cs (Suc j)) (map (offset cs) [Suc j..<Suc (length cs)])" by simp
    moreover have "offset cs j \<le> offset cs (Suc j)" using Suc.hyps(2) offset_le_iff [of j cs "Suc j"] by simp
    ultimately show ?case
      using Suc.prems offset_le [of cs j] by (simp add: upt_rec [of j] match_at_Nil chain_mono del: upt_Suc)
  qed
  from this [of 0] show ?thesis using assms by (simp add: boundaries_utf8 del: upt_Suc)
qed

lemma chain_match_indices: "list_all is_scalar cs \<Longrightarrow> chain (utf8 cs) sep 0 (match_indices (utf8 cs) sep)"
  by (simp add: match_indices_def chain_boundaries chain_scan)

lemma chain_rmatch_indices: "list_all is_scalar cs \<Longrightarrow> chain (utf8 cs) sep 0 (rev (rmatch_indices (utf8 cs) sep))"
  by (simp add: rmatch_indices_def chain_boundaries chain_rscan)

lemma chain_drop: "chain s n start ms \<Longrightarrow> chain s n start (drop k ms)"
proof (induction ms arbitrary: start k)
  case (Cons m ms)
  then show ?case using chain_mono [of s n "m + length n" _ start] by (cases k) auto
qed simp

lemma chain_rev_take: "chain s n start (rev ms) \<Longrightarrow> chain s n start (rev (take k ms))"
  by (metis chain_drop drop_rev length_rev rev_rev_ident rev_take diff_diff_cancel nle_le take_all)

lemma length_pieces: "length (pieces s start len ms) = Suc (length ms)"
  by (induction ms arbitrary: start) auto

lemma split_bytes_nonempty [simp]: "split_bytes b s \<noteq> []"
  by (induction s) (auto split: list.split)

lemma split_bytes_pieces:
  "a \<le> length pre \<Longrightarrow>
   pieces (pre @ s) a 1 (scan (length pre) s [b]) = (drop a pre @ hd (split_bytes b s)) # tl (split_bytes b s)"
proof (induction s arbitrary: pre a)
  case Nil
  then show ?case by (simp add: scan.simps)
next
  case (Cons x s)
  have step: "scan (length pre) (x # s) [b] =
      (if x = b then length pre # scan (length (pre @ [x])) s [b] else scan (length (pre @ [x])) s [b])"
    by (subst scan.simps) auto
  show ?case
  proof (cases "x = b")
    case True
    with Cons.IH [of "length (pre @ [x])" "pre @ [x]"] Cons.prems step split_bytes_nonempty [of b s] show ?thesis
      by (cases "split_bytes b s") auto
  next
    case False
    with Cons.IH [of a "pre @ [x]"] Cons.prems step split_bytes_nonempty [of b s] show ?thesis
      by (cases "split_bytes b s") auto
  qed
qed

lemma split_bytes_is_split: "split_bytes b s = std_split s [b]"
  using split_bytes_pieces [of 0 "[]" s b] split_bytes_nonempty [of b s] by (simp add: std_split_def match_indices_def)

lemma count_split_bytes: "length (split_bytes b s) = count_matches_byte s b + 1"
proof (induction s)
  case (Cons x s)
  then show ?case using split_bytes_nonempty [of b s] by (cases "split_bytes b s") (auto simp: count_matches_byte_def)
qed (simp add: count_matches_byte_def)

lemma maxsplit_arg_ok:
  assumes "pred_option in_i32 v" "oc \<longrightarrow> v \<noteq> Some i32_max"
  shows "maxsplit_arg oc v =
    Ok (case v of None \<Rightarrow> None | Some v \<Rightarrow> if v < 0 then None else Some (if v = i32_max then 2 ^ 64 - 2 ^ 31 else nat v + 1))"
proof (cases v)
  case (Some w)
  consider "w < 0" | "0 \<le> w" "w < i32_max" | "w = i32_max" using assms(1) Some by (fastforce simp: in_i32_def)
  then show ?thesis
  proof cases
    case 2
    then have "plain_i32 oc (w + 1) = (Ok (w + 1) :: int method_result)" by (simp add: plain_i32_def i32_defs)
    moreover have "usize_of_i32 (w + 1) = nat w + 1" using 2 by (simp add: usize_of_i32_def as_u64_def i32_defs nat_add_distrib)
    ultimately show ?thesis using 2 Some by (simp add: maxsplit_arg_def)
  next
    case 3
    with assms(2) Some have "\<not> oc" by simp
    then have "plain_i32 oc (w + 1) = (Ok (- (2 ^ 31)) :: int method_result)" using 3 by (simp add: plain_i32_def wrap_i32_def i32_defs)
    moreover have "usize_of_i32 (- (2 ^ 31)) = 2 ^ 64 - 2 ^ 31" by (simp add: usize_of_i32_def as_u64_def)
    ultimately show ?thesis using 3 Some by (simp add: maxsplit_arg_def i32_defs)
  qed (simp add: maxsplit_arg_def Some)
qed (simp add: maxsplit_arg_def)

text \<open>The limit on the number of pieces.\<close>

definition piece_limit :: "int option \<Rightarrow> nat option" where
  "piece_limit v =
     (case v of None \<Rightarrow> None | Some v \<Rightarrow> if v < 0 then None else Some (if v = i32_max then 2 ^ 64 - 2 ^ 31 else nat v + 1))"

lemma str_split_sep:
  assumes "pred_option in_i32 v" "oc \<longrightarrow> v \<noteq> Some i32_max"
  shows "str_split dbg oc s (Some sep) v =
    Ok (pieces s 0 (length sep)
      (case piece_limit v of None \<Rightarrow> match_indices s sep | Some n \<Rightarrow> take (n - 1) (match_indices s sep)))"
proof -
  have one: "std_split s [sep ! 0] = std_split s sep" if "length sep = 1" using that by (cases sep) auto
  have n: "piece_limit v = Some n \<Longrightarrow> n \<noteq> 0" for n by (auto simp: piece_limit_def split: option.splits if_splits)
  have "maxsplit_arg oc v = Ok (piece_limit v)" using maxsplit_arg_ok [OF assms] by (simp add: piece_limit_def)
  then show ?thesis
    using n one
    by (cases "piece_limit v")
      (auto simp: str_split_def std_splitn_def Let_def debug_assert_def split_bytes_is_split [symmetric] count_split_bytes,
       simp_all add: split_bytes_is_split std_split_def)
qed

lemma str_rsplit_sep:
  assumes "pred_option in_i32 v" "oc \<longrightarrow> v \<noteq> Some i32_max"
  shows "str_rsplit oc s (Some sep) v =
    Ok (pieces s 0 (length sep)
      (rev (case piece_limit v of None \<Rightarrow> rmatch_indices s sep | Some n \<Rightarrow> take (n - 1) (rmatch_indices s sep))))"
proof -
  have n: "piece_limit v = Some n \<Longrightarrow> n \<noteq> 0" for n by (auto simp: piece_limit_def split: option.splits if_splits)
  have "maxsplit_arg oc v = Ok (piece_limit v)" using maxsplit_arg_ok [OF assms] by (simp add: piece_limit_def)
  then show ?thesis using n by (cases "piece_limit v") (auto simp: str_rsplit_def std_rsplitn_def std_rsplit_def)
qed

lemma match_iff_sublist: "(\<exists>k. match_at s n k) \<longleftrightarrow> sublist n s"
proof
  assume "\<exists>k. match_at s n k"
  then show "sublist n s" by (metis match_at_def sublist_drop sublist_order.order_trans sublist_take)
next
  assume "sublist n s"
  then obtain p q where "s = p @ n @ q" by (auto simp: sublist_def)
  then have "match_at s n (length p)" by (simp add: match_at_def)
  then show "\<exists>k. match_at s n k" ..
qed

lemma pieces_drop: "pieces s (e + st) len (map ((+) e) ms) = pieces (drop e s) st len ms"
proof (induction ms arbitrary: st)
  case (Cons m ms)
  then show ?case using Cons.IH [of "m + len"] by (simp add: add.assoc) (simp add: add.commute)
qed (simp add: add.commute)

lemma pieces_scan_free: "n \<noteq> [] \<Longrightarrow> p \<in> set (pieces s 0 (length n) (scan 0 s n)) \<Longrightarrow> \<not> sublist n p"
proof (induction "length s" arbitrary: s rule: less_induct)
  case less
  show ?case
  proof (cases "\<exists>k. match_at s n k")
    case False
    then show ?thesis using less.prems(2) match_iff_sublist [of s n] by (simp add: scan_none)
  next
    case True
    then obtain k where k: "match_at s n k" "\<forall>j<k. \<not> match_at s n j" by (metis match_least)
    let ?e = "k + length n"
    have pos: "0 < length n" using less.prems by simp
    then have shorter: "length (drop ?e s) < length s" using k(1) unfolding match_at_def length_drop by linarith
    have "pieces s 0 (length n) (scan 0 s n) = take k s # pieces (drop ?e s) 0 (length n) (scan 0 (drop ?e s) n)"
      using scan_first [OF less.prems(1) k, of 0] scan_shift [of ?e 0 "drop ?e s" n] pieces_drop [of s ?e 0 "length n"] by simp
    with less.prems(2) consider "p = take k s" | "p \<in> set (pieces (drop ?e s) 0 (length n) (scan 0 (drop ?e s) n))" by auto
    then show ?thesis
    proof cases
      case 1
      have "\<not> match_at (take k s) n j" for j
      proof
        assume "match_at (take k s) n j"
        then have j: "match_at s n j" "j + length n \<le> k" using match_at_take [OF match_le [OF k(1)], of n j] by auto
        from j(2) pos have "j < k" by linarith
        with j(1) k(2) show False by blast
      qed
      with 1 show ?thesis using match_iff_sublist by metis
    next
      case 2
      then show ?thesis using less.hyps [OF shorter] less.prems(1) by blast
    qed
  qed
qed

lemma pieces_snoc:
  "st \<le> m \<Longrightarrow> m \<le> length s \<Longrightarrow> \<forall>x\<in>set ms. x + len \<le> m \<Longrightarrow>
   pieces s st len (ms @ [m]) = pieces (take m s) st len ms @ [drop (m + len) s]"
  by (induction ms arbitrary: st) (auto simp: drop_take min_def)

lemma rscan_ends:
  assumes "n \<noteq> []" "k \<le> length s" "x \<in> set (rscan (take k s) n)"
  shows "x + length n \<le> k"
proof -
  have "match_at (take k s) n x" using chain_matches [OF chain_rscan [OF assms(1), of "take k s"]] assms(3) by simp
  then show ?thesis using assms(2) by (simp add: match_at_def)
qed

lemma pieces_rscan_free: "n \<noteq> [] \<Longrightarrow> p \<in> set (pieces s 0 (length n) (rev (rscan s n))) \<Longrightarrow> \<not> sublist n p"
proof (induction "length s" arbitrary: s rule: less_induct)
  case less
  show ?case
  proof (cases "\<exists>k. match_at s n k")
    case False
    then show ?thesis using less.prems(2) match_iff_sublist [of s n] by (simp add: rscan_none)
  next
    case True
    then obtain k where k: "match_at s n k" "\<forall>j>k. \<not> match_at s n j" by (metis match_greatest)
    have pos: "0 < length n" using less.prems by simp
    have lt: "k < length s" using k(1) pos unfolding match_at_def by linarith
    have "pieces s 0 (length n) (rev (rscan s n)) =
        pieces (take k s) 0 (length n) (rev (rscan (take k s) n)) @ [drop (k + length n) s]"
      using rscan_last [OF less.prems(1) k] rscan_ends [OF less.prems(1), of k s] lt by (simp add: pieces_snoc)
    with less.prems(2) consider "p = drop (k + length n) s" | "p \<in> set (pieces (take k s) 0 (length n) (rev (rscan (take k s) n)))"
      by auto
    then show ?thesis
    proof cases
      case 1
      have "\<not> match_at (drop (k + length n) s) n j" for j using k(2) pos match_at_drop [OF less.prems(1)] by simp
      with 1 show ?thesis using match_iff_sublist by metis
    next
      case 2
      then show ?thesis using less.hyps [of "take k s"] less.prems(1) lt by simp
    qed
  qed
qed

text \<open>C37. \<open>split\<close> and \<open>rsplit\<close> with a separator, on all of their paths: joining the pieces with the separator gives the string back;
  there is at most one piece more than \<open>maxsplit\<close>; without a limit no piece contains the separator. With overflow checks only
  the largest \<open>i32\<close> as the limit is excluded: it panics. The empty separator is not excluded: it splits between the characters, where the
  documentation of \<open>split\<close> says that it fails.\<close>

theorem split_join_roundtrip:
  assumes "list_all is_scalar cs" and "pred_option in_i32 maxsplit" and "oc \<longrightarrow> maxsplit \<noteq> Some i32_max"
    and "result = str_split dbg oc (utf8 cs) (Some sep) maxsplit \<or> result = str_rsplit oc (utf8 cs) (Some sep) maxsplit"
  shows "\<exists>ps. result = Ok ps \<and> str_join sep (map Some ps) = Ok (utf8 cs) \<and>
    (\<forall>n. maxsplit = Some n \<and> 0 \<le> n \<and> n < i32_max \<longrightarrow> int (length ps) \<le> n + 1) \<and>
    (sep \<noteq> [] \<and> (\<forall>n. maxsplit = Some n \<longrightarrow> n < 0) \<longrightarrow> (\<forall>p\<in>set ps. \<not> sublist sep p))"
proof -
  let ?s = "utf8 cs"
  define good where "good ms \<longleftrightarrow> chain ?s sep 0 ms \<and> (\<forall>n. piece_limit maxsplit = Some n \<longrightarrow> length ms \<le> n - 1) \<and>
    (sep \<noteq> [] \<and> piece_limit maxsplit = None \<longrightarrow> (\<forall>p\<in>set (pieces ?s 0 (length sep) ms). \<not> sublist sep p))" for ms
  have left: "good (case piece_limit maxsplit of None \<Rightarrow> match_indices ?s sep | Some n \<Rightarrow> take (n - 1) (match_indices ?s sep))"
    using chain_match_indices [OF assms(1)] pieces_scan_free [of sep _ ?s]
    by (auto simp: good_def match_indices_def chain_take split: option.split)
  have right: "good (rev (case piece_limit maxsplit of None \<Rightarrow> rmatch_indices ?s sep | Some n \<Rightarrow> take (n - 1) (rmatch_indices ?s sep)))"
    using chain_rmatch_indices [OF assms(1)] pieces_rscan_free [of sep _ ?s]
    by (auto simp: good_def rmatch_indices_def chain_rev_take split: option.split)
  from left right obtain ms where ms: "good ms" "result = Ok (pieces ?s 0 (length sep) ms)"
    using assms(4) str_split_sep [OF assms(2,3)] str_rsplit_sep [OF assms(2,3)] by metis
  moreover have "str_join sep (map Some (pieces ?s 0 (length sep) ms)) = Ok ?s"
    using ms(1) joined_pieces [of ?s sep 0 ms] by (simp add: good_def str_join_joined)
  ultimately show ?thesis
    by (intro exI [of _ "pieces ?s 0 (length sep) ms"]) (auto simp: good_def length_pieces piece_limit_def split: option.splits)
qed

theorem split_join_roundtrip_witness:
  "\<exists>ps. str_split True True (utf8 [97, 44, 0x433]) (Some '','') (Some 5) = Ok ps \<and>
    str_join '','' (map Some ps) = Ok (utf8 [97, 44, 0x433])"
  using split_join_roundtrip [of "[97, 44, 0x433]" "Some 5" True _ True "'',''"] by (auto simp: is_scalar_def i32_defs)

lemma replace_loop_joined:
  "replace_loop x new len ms result last_end = (r, e) \<Longrightarrow>
   r @ drop e x = result @ joined new (pieces x last_end len ms)"
proof (induction ms arbitrary: result last_end)
  case (Cons m ms)
  then show ?case by (simp add: joined_Cons)
qed simp

text \<open>\<open>replace\<close> is \<open>split\<close> followed by \<open>join\<close>, with and without a limit; a negative limit is an error.\<close>

theorem replace_is_split_join:
  assumes "pred_option in_i32 n" and "n \<noteq> Some i32_max"
  shows "str_replace x old new n =
    (case n of
       Some k \<Rightarrow> if k < 0 then Err (NegativeReplaceCount k)
                 else bind_outcome (str_split dbg oc x (Some old) n) (\<lambda>ps. str_join new (map Some ps))
     | None \<Rightarrow> bind_outcome (str_split dbg oc x (Some old) n) (\<lambda>ps. str_join new (map Some ps)))"
proof -
  have split: "bind_outcome (str_split dbg oc x (Some old) n) (\<lambda>ps. str_join new (map Some ps)) =
      Ok (joined new (pieces x 0 (length old)
        (case piece_limit n of None \<Rightarrow> match_indices x old | Some k \<Rightarrow> take (k - 1) (match_indices x old))))"
    using str_split_sep [of n oc dbg x old] assms by (simp add: str_join_joined)
  show ?thesis
  proof (cases n)
    case None
    obtain r e where re: "replace_loop x new (length old) (match_indices x old) [] 0 = (r, e)" by fastforce
    with None split replace_loop_joined [OF re] show ?thesis by (auto simp: str_replace_def piece_limit_def)
  next
    case (Some k)
    show ?thesis
    proof (cases "k < 0")
      case False
      have k: "usize_of_i32 k = nat k" using False assms Some by (simp add: usize_of_i32_def as_u64_def i32_defs)
      obtain r e where re: "replace_loop x new (length old) (take (nat k) (match_indices x old)) [] 0 = (r, e)" by fastforce
      with Some False assms split k replace_loop_joined [OF re] show ?thesis
        by (simp add: str_replace_def std_replacen_def piece_limit_def)
    qed (simp add: Some str_replace_def)
  qed
qed

theorem replace_is_split_join_witness: "str_replace ''banana'' ''a'' ''o'' (Some (- 2)) = Err (NegativeReplaceCount (- 2))"
  using replace_is_split_join [of "Some (- 2)" "''banana''" "''a''" "''o''"] by (simp add: i32_defs)

subsection \<open>White space\<close>

text \<open>The words of a text, with at most the given number of splits: what is left after them is one piece.\<close>

fun words_upto :: "nat \<Rightarrow> nat list \<Rightarrow> nat list list" where
  "words_upto 0 cs = (case dropWhile is_whitespace cs of [] \<Rightarrow> [] | ds \<Rightarrow> [ds])"
| "words_upto (Suc n) cs =
     (case dropWhile is_whitespace cs of
        [] \<Rightarrow> []
      | ds \<Rightarrow> takeWhile (\<lambda>c. \<not> is_whitespace c) ds # words_upto n (dropWhile (\<lambda>c. \<not> is_whitespace c) ds))"

lemma words_upto_ws: "is_whitespace c \<Longrightarrow> words_upto n (c # cs) = words_upto n cs"
  by (cases n) auto

lemma splitn_ws_rest: "split \<ge> m \<Longrightarrow> splitn_ws_loop m cs v cur split False = (v, cur @ cs)"
  by (induction cs arbitrary: cur) auto

definition finish :: "nat list list \<times> nat list \<Rightarrow> nat list list" where
  "finish r = (case r of (v, cur) \<Rightarrow> if cur \<noteq> [] then v @ [cur] else v)"

lemma splitn_ws_loop_words:
  "split \<le> m \<Longrightarrow> finish (splitn_ws_loop m cs v [] split True) = v @ words_upto (m - split) cs"
  "split < m \<Longrightarrow> cur \<noteq> [] \<Longrightarrow> finish (splitn_ws_loop m cs v cur split False) =
     v @ (cur @ takeWhile (\<lambda>c. \<not> is_whitespace c) cs) # words_upto (m - split - 1) (dropWhile (\<lambda>c. \<not> is_whitespace c) cs)"
proof (induction cs arbitrary: v cur split)
  case Nil
  { case 1
    show ?case by (cases "m - split") (simp_all add: finish_def) }
  { case 2
    then show ?case by (cases "m - split - 1") (simp_all add: finish_def) }
next
  case (Cons c cs)
  { case 1
    show ?case
    proof (cases "is_whitespace c")
      case True
      with Cons.IH(1) 1 show ?thesis by (simp add: words_upto_ws)
    next
      case False
      show ?thesis
      proof (cases "split = m")
        case True
        with False show ?thesis by (simp add: splitn_ws_rest finish_def)
      next
        case less: False
        with 1 obtain k where "m - split = Suc k" by (metis Suc_diff_Suc le_neq_implies_less)
        with False less 1 Cons.IH(2) [of split "[c]" v] show ?thesis by simp
      qed
    qed }
  { case 2
    then show ?case
      using Cons.IH(1) [of "split + 1" "v @ [cur]"] Cons.IH(2) [of split "cur @ [c]" v]
      by (cases "is_whitespace c") (simp_all add: words_upto_ws) }
qed

lemma splitn_whitespace_words: "splitn_whitespace cs (Suc n) = words_upto n cs"
  using splitn_ws_loop_words(1) [of 1 "Suc n" cs "[]"] by (simp add: splitn_whitespace_def finish_def)

lemma rsplitn_loop:
  "rsplitn_ws_loop m cs (map rev v) cur split e = map_prod (map rev) id (splitn_ws_loop m cs v cur split e)"
  by (induction m cs v cur split e rule: splitn_ws_loop.induct) auto

lemma rsplitn_whitespace_words: "rsplitn_whitespace cs (Suc n) = rev (map rev (words_upto n (rev cs)))"
proof -
  have "rsplitn_whitespace cs (Suc n) = rev (map rev (splitn_whitespace (rev cs) (Suc n)))"
    using rsplitn_loop [of "Suc n" "rev cs" "[]" "[]" 1 True]
    by (auto simp: rsplitn_whitespace_def splitn_whitespace_def split: prod.split)
  then show ?thesis by (simp add: splitn_whitespace_words)
qed

lemma words_upto_all: "length cs \<le> n \<Longrightarrow> words_upto n cs = words cs"
proof (induction n arbitrary: cs)
  case (Suc n)
  show ?case
  proof (cases "dropWhile is_whitespace cs")
    case (Cons d ds)
    then have "\<not> is_whitespace d" by (metis hd_dropWhile list.discI list.sel(1))
    moreover have "length (d # ds) \<le> length cs" by (metis Cons length_dropWhile_le)
    ultimately have "length (dropWhile (\<lambda>c. \<not> is_whitespace c) (d # ds)) \<le> n"
      using Suc.prems length_dropWhile_le [of "\<lambda>c. \<not> is_whitespace c" ds] by simp
    with Suc.IH Cons show ?thesis by (subst words.simps) simp
  next
    case Nil
    then show ?thesis unfolding words_upto.simps words.simps [of cs] by (simp only: list.case)
  qed
qed (subst words.simps; simp)

lemma whitespace_split_exact_all:
  assumes "list_all is_scalar cs" and "0 \<le> v" and "v < i32_max"
  shows "str_split dbg oc (utf8 cs) None (Some v) = Ok (map utf8 (words_upto (nat v) cs))"
    and "str_rsplit oc (utf8 cs) None (Some v) = Ok (map utf8 (rev (map rev (words_upto (nat v) (rev cs)))))"
    and "int (length cs) \<le> v \<Longrightarrow> str_split dbg oc (utf8 cs) None (Some v) = str_split dbg oc (utf8 cs) None None"
proof -
  have arg: "maxsplit_arg oc (Some v) = Ok (Some (Suc (nat v)))"
    using maxsplit_arg_ok [of "Some v" oc] assms(2,3) by (auto simp: i32_defs)
  show split: "str_split dbg oc (utf8 cs) None (Some v) = Ok (map utf8 (words_upto (nat v) cs))"
    using assms(1) by (simp add: str_split_def arg splitn_whitespace_words chars_utf8)
  show "str_rsplit oc (utf8 cs) None (Some v) = Ok (map utf8 (rev (map rev (words_upto (nat v) (rev cs)))))"
    using assms(1) by (simp add: str_rsplit_def arg rsplitn_whitespace_words chars_utf8)
  assume "int (length cs) \<le> v"
  then show "str_split dbg oc (utf8 cs) None (Some v) = str_split dbg oc (utf8 cs) None None"
    using split assms(1) words_upto_all [of cs "nat v"] by (simp add: str_split_def maxsplit_arg_def chars_utf8)
qed

text \<open>C39. \<open>split\<close> and \<open>rsplit\<close> at white space: the words of the text from the left or from the right, up to the limit, and then the
  rest in one piece. A limit that the text cannot reach gives the words that no limit gives.\<close>

theorem whitespace_split_exact:
  assumes "list_all is_scalar cs" and "0 \<le> v" and "v < i32_max"
  shows "(str_split dbg oc (utf8 cs) None (Some v) = Ok (map utf8 (words_upto (nat v) cs))) \<and>
    (str_rsplit oc (utf8 cs) None (Some v) = Ok (map utf8 (rev (map rev (words_upto (nat v) (rev cs)))))) \<and>
    (int (length cs) \<le> v \<longrightarrow> str_split dbg oc (utf8 cs) None (Some v) = str_split dbg oc (utf8 cs) None None)"
  using whitespace_split_exact_all [OF assms] by blast

theorem whitespace_split_exact_witness:
  "str_split True True (utf8 [32, 97, 32, 32, 98, 32]) None (Some 1) = Ok (map utf8 [[97], [98, 32]])"
  using whitespace_split_exact [of "[32, 97, 32, 32, 98, 32]" 1 True True]
  by (simp add: is_scalar_def i32_defs is_whitespace_def)

subsection \<open>Lines\<close>

abbreviation LF :: char where "LF \<equiv> char_of (10 :: nat)"

abbreviation CR :: char where "CR \<equiv> char_of (13 :: nat)"

definition line_body :: "string \<Rightarrow> string" where
  "line_body l = takeWhile (\<lambda>c. \<not> is_eol c) l"

definition line_end :: "string \<Rightarrow> string" where
  "line_end l = dropWhile (\<lambda>c. \<not> is_eol c) l"

fun lines_ok :: "string list \<Rightarrow> bool" where
  "lines_ok [] = True"
| "lines_ok [l] = (l \<noteq> [] \<and> line_end l \<in> {[], [LF], [CR], [CR, LF]})"
| "lines_ok (l # m # ls) = (line_end l \<in> {[LF], [CR], [CR, LF]} \<and> (line_end l = [CR] \<longrightarrow> hd m \<noteq> LF) \<and> lines_ok (m # ls))"

lemma take_line_end: "take (length (line_body s)) s = line_body s"
  unfolding line_body_def by (metis append_eq_conv_conj takeWhile_dropWhile_id)

lemma line_parts:
  assumes "list_all (\<lambda>c. \<not> is_eol c) b" "is_eol (hd t)" "t \<noteq> []"
  shows "line_body (b @ t) = b" "line_end (b @ t) = t"
proof -
  have b: "\<forall>c\<in>set b. \<not> is_eol c" using assms(1) by (simp add: list_all_iff)
  then show "line_body (b @ t) = b" using assms(2,3) by (cases t) (auto simp: line_body_def takeWhile_append2)
  show "line_end (b @ t) = t" using b assms(2,3) by (cases t) (auto simp: line_end_def dropWhile_append2)
qed

lemma eol_split:
  assumes "list_all is_scalar cs" "find_eol (utf8 cs) = Some y"
  obtains k n where "k \<le> length cs" "y = offset cs k" "take y (utf8 cs) = line_body (utf8 cs)"
    "drop k cs = n # drop (Suc k) cs" "n = 10 \<or> n = 13" "drop y (utf8 cs) = char_of n # utf8 (drop (Suc k) cs)"
proof -
  let ?s = "utf8 cs"
  have y: "y = length (line_body ?s)" "y < length ?s" using assms(2) by (auto simp: find_eol_def line_body_def Let_def split: if_splits)
  have body: "take y ?s = line_body ?s" using take_line_end y(1) by simp
  have "is_eol (?s ! y)" using y unfolding line_body_def by (metis (mono_tags) nth_length_takeWhile)
  then obtain n :: nat where n: "n = 10 \<or> n = 13" "?s ! y = char_of n" by (auto simp: is_eol_def)
  have scalar: "list_all is_scalar [n]" "utf8 [n] = [char_of n]" using n(1) by auto
  have "?s = take y ?s @ utf8 [n] @ drop (Suc y) ?s" using y(2) n(2) scalar(2) by (metis append_Cons append_Nil id_take_nth_drop)
  then obtain k where k: "k \<le> length cs" "take y ?s = utf8 (take k cs)" "prefix [n] (drop k cs)"
    using split_utf8 assms(1) scalar(1) by (metis list.discI)
  have off: "y = offset cs k" using k(2) y(2) unfolding offset_def by (metis length_take less_imp_le min.absorb2)
  have "drop k cs = n # drop (Suc k) cs" using k(3) tl_drop [of k cs] by (cases "drop k cs") (auto simp: drop_Suc)
  moreover have "drop y ?s = utf8 (drop k cs)" using off by (simp add: offset_def utf8_take_drop)
  ultimately show ?thesis using that k(1) off body n(1) by auto
qed

lemma no_eol:
  assumes "find_eol s = None"
  shows "line_body s = s" "line_end s = []"
proof -
  have "length (takeWhile (\<lambda>c. \<not> is_eol c) s) = length s"
    using assms length_takeWhile_le [of "\<lambda>c. \<not> is_eol c" s] by (auto simp: find_eol_def Let_def split: if_splits)
  then have "takeWhile (\<lambda>c. \<not> is_eol c) s = s" by (metis takeWhile_eq_take take_all order_refl)
  then show "line_body s = s" "line_end s = []" by (auto simp: line_body_def line_end_def takeWhile_eq_all_conv)
qed

lemma eol_width:
  assumes "list_all is_scalar cs" "k \<le> length cs" "drop k cs = n # ds" "n = 10 \<or> n = 13" "ds = drop (Suc k) cs"
  defines "y \<equiv> offset cs k"
  defines "w \<equiv> if n = 13 \<and> ds \<noteq> [] \<and> hd ds = 10 then 2 else (1 :: nat)"
  shows "(if std_get (utf8 cs) y (y + 2) = Some [CR, LF] then y + 2 else y + 1) = offset cs (k + w)"
    and "k + w \<le> length cs" and "utf8 (take w (drop k cs)) \<in> {[LF], [CR], [CR, LF]}"
    and "utf8 (take w (drop k cs)) = [CR] \<Longrightarrow> drop (k + w) cs \<noteq> [] \<Longrightarrow> hd (utf8 (drop (k + w) cs)) \<noteq> LF"
proof -
  have len: "k < length cs" using assms(3) by (metis drop_all list.discI not_less)
  have drop: "drop y (utf8 cs) = char_of n # utf8 ds"
    using assms(3,4) by (auto simp: y_def offset_def utf8_take_drop)
  have one: "offset cs (k + 1) = y + 1"
    unfolding offset_add assms(3) y_def using assms(4) by (auto simp: offset_def)
  have head: "utf8 ds = LF # r \<Longrightarrow> \<exists>es. ds = 10 # es" for r
    using utf8_head_ascii [of ds LF r] assms(1,5) by (auto simp: scalar_drop)
  have two: "w = 2 \<longleftrightarrow> take 2 (drop y (utf8 cs)) = [CR, LF]"
  proof
    assume "w = 2"
    then show "take 2 (drop y (utf8 cs)) = [CR, LF]" unfolding drop by (cases ds) (auto simp: w_def split: if_splits)
  next
    assume "take 2 (drop y (utf8 cs)) = [CR, LF]"
    then have "n = 13" "take 1 (utf8 ds) = [LF]" unfolding drop using assms(4) by (auto simp: numeral_2_eq_2)
    then have "n = 13" "\<exists>r. utf8 ds = LF # r" by (cases "utf8 ds"; simp)+
    with head show "w = 2" by (auto simp: w_def)
  qed
  have ds2: "w = 2 \<Longrightarrow> \<exists>es. ds = 10 # es" by (cases ds) (auto simp: w_def split: if_splits)
  show le: "k + w \<le> length cs"
  proof (cases "w = 2")
    case True
    with ds2 assms(5) have "Suc k < length cs" by (metis drop_all list.discI not_less)
    with True show ?thesis by simp
  qed (use len in \<open>auto simp: w_def\<close>)
  have "offset cs (k + 2) = y + 2" if "w = 2"
    unfolding offset_add assms(3) y_def using that ds2 w_def by (auto simp: offset_def numeral_2_eq_2 split: if_splits)
  moreover have "std_get (utf8 cs) y (y + 2) = Some [CR, LF] \<longleftrightarrow> w = 2"
  proof
    assume "std_get (utf8 cs) y (y + 2) = Some [CR, LF]"
    then show "w = 2" using two by (auto simp: std_get_def split: if_splits)
  next
    assume w: "w = 2"
    then have "std_get (utf8 cs) y (y + 2) = Some (utf8 (take 2 (drop k cs)))"
      using get_offset [OF assms(1), of k "k + 2"] le calculation by (simp add: y_def)
    then show "std_get (utf8 cs) y (y + 2) = Some [CR, LF]"
      using w ds2 assms(3) by (auto simp: w_def numeral_2_eq_2 split: if_splits)
  qed
  ultimately show "(if std_get (utf8 cs) y (y + 2) = Some [CR, LF] then y + 2 else y + 1) = offset cs (k + w)"
    using one by (auto simp: w_def split: if_splits)
  show "utf8 (take w (drop k cs)) \<in> {[LF], [CR], [CR, LF]}"
    using assms(3,4) ds2 by (auto simp: w_def numeral_2_eq_2 split: if_splits)
  show "utf8 (take w (drop k cs)) = [CR] \<Longrightarrow> drop (k + w) cs \<noteq> [] \<Longrightarrow> hd (utf8 (drop (k + w) cs)) \<noteq> LF"
    using assms(3-5) head by (cases "utf8 ds") (auto simp: w_def split: if_splits)
qed

lemma splitlines_ok:
  "list_all is_scalar cs \<Longrightarrow>
   \<exists>ls. concat ls = utf8 cs \<and> lines_ok ls \<and>
     (\<forall>lines. splitlines_loop True (utf8 cs) lines = Ok (lines @ ls) \<and>
       splitlines_loop False (utf8 cs) lines = Ok (lines @ map line_body ls))"
proof (induction "length cs" arbitrary: cs rule: less_induct)
  case less
  let ?s = "utf8 cs"
  show ?case
  proof (cases "find_eol ?s")
    case None
    then show ?thesis
      using no_eol [OF None] by (intro exI [of _ "if ?s = [] then [] else [?s]"]) (simp add: splitlines_loop.simps [of _ ?s])
  next
    case (Some y)
    obtain k n where k: "k \<le> length cs" "y = offset cs k" "take y ?s = line_body ?s"
      "drop k cs = n # drop (Suc k) cs" "n = 10 \<or> n = 13" "drop y ?s = char_of n # utf8 (drop (Suc k) cs)"
      using eol_split [OF less.prems Some] by metis
    define w where "w = (if n = 13 \<and> drop (Suc k) cs \<noteq> [] \<and> hd (drop (Suc k) cs) = 10 then 2 else (1 :: nat))"
    note width = eol_width [OF less.prems k(1,4,5) refl, folded w_def k(2)]
    let ?e = "k + w" and ?t = "utf8 (take w (drop k cs))"
    have line: "take (offset cs ?e) ?s = line_body ?s @ ?t"
      using k(2,3) by (metis offset_def take_add utf8_simps(3) utf8_take_drop(1))
    have free: "list_all (\<lambda>c. \<not> is_eol c) (line_body ?s)" by (auto simp: line_body_def list_all_iff dest: set_takeWhileD)
    obtain t where t: "?t = t" "t \<in> {[LF], [CR], [CR, LF]}" using width(3) by blast
    have "is_eol (hd ?t)" "?t \<noteq> []" using t(2) unfolding t(1) by (auto simp: is_eol_def)
    note body = line_parts [OF free this]
    have get: "std_get ?s 0 y = Some (line_body ?s)" "std_get ?s 0 (offset cs ?e) = Some (line_body ?s @ ?t)"
      "std_get ?s (offset cs ?e) (length ?s) = Some (utf8 (drop ?e cs))"
      using get_offset [OF less.prems, of 0 k] get_offset [OF less.prems, of 0 ?e] get_offset [OF less.prems, of ?e "length cs"]
        width(2) k(1-3) line by (simp_all add: offset_length) (metis offset_def utf8_take_drop(1))+
    have whole: "?s = (line_body ?s @ ?t) @ utf8 (drop ?e cs)"
      using line by (metis append_take_drop_id offset_def utf8_take_drop(2))
    have step: "splitlines_loop keep ?s lines =
        (let l = (if keep then line_body ?s @ ?t else line_body ?s)
         in if offset cs ?e = length ?s then Ok (lines @ [l]) else splitlines_loop keep (utf8 (drop ?e cs)) (lines @ [l]))" for keep lines
      unfolding splitlines_loop.simps [of keep ?s] Some option.case Let_def width(1) using get by (cases keep) auto
    show ?thesis
    proof (cases "drop ?e cs = []")
      case True
      then have "offset cs ?e = length ?s" using width(2) by (simp add: offset_def)
      then show ?thesis using step True whole width(3) body
        by (intro exI [of _ "[line_body ?s @ ?t]"]) (auto simp: Let_def)
    next
      case False
      then have lt: "?e < length cs" by simp
      then have ne: "offset cs ?e \<noteq> length ?s" using offset_strict [of ?e "length cs" cs] by (simp add: offset_length)
      have "0 < w" by (simp add: w_def)
      then have "length (drop ?e cs) < length cs" using lt unfolding length_drop by linarith
      with less.hyps [of "drop ?e cs"] less.prems obtain ls where ls: "concat ls = utf8 (drop ?e cs)" "lines_ok ls"
        "\<And>lines. splitlines_loop True (utf8 (drop ?e cs)) lines = Ok (lines @ ls)"
        "\<And>lines. splitlines_loop False (utf8 (drop ?e cs)) lines = Ok (lines @ map line_body ls)"
        by (auto simp: scalar_drop)
      have "ls \<noteq> []" using ls(1) False by (metis concat.simps(1) utf8_eq_Nil)
      then obtain m ms where m: "ls = m # ms" by (cases ls) auto
      have "m \<noteq> []" using ls(2) m by (cases ms) (auto simp: line_end_def)
      then have "?t = [CR] \<Longrightarrow> hd m \<noteq> LF" using width(4) False ls(1) m by (metis concat.simps(2) hd_append2)
      then have "lines_ok ((line_body ?s @ ?t) # ls)" using ls(2) m width(3) body by auto
      then show ?thesis using step ls whole ne body
        by (intro exI [of _ "(line_body ?s @ ?t) # ls"]) (auto simp: Let_def)
    qed
  qed
qed

text \<open>C38. \<open>splitlines\<close> never panics on a valid string. With \<open>keepends\<close> the lines concatenate to the string, every line but the last
  ends with a terminator, no line has one before its end, and \<open>\r\n\<close> is never torn apart; without \<open>keepends\<close> the lines are the
  same without their terminators.\<close>

theorem splitlines_exact:
  assumes "list_all is_scalar cs"
  shows "\<exists>ls. str_splitlines (utf8 cs) True = Ok ls \<and> str_splitlines (utf8 cs) False = Ok (map line_body ls) \<and>
    concat ls = utf8 cs \<and> lines_ok ls"
  using splitlines_ok [OF assms] by (auto simp: str_splitlines_def)

theorem splitlines_exact_witness: "\<exists>ls. str_splitlines (utf8 [97, 13, 10, 0x433]) True = Ok ls \<and> concat ls = utf8 [97, 13, 10, 0x433]"
  using splitlines_exact [of "[97, 13, 10, 0x433]"] by (auto simp: is_scalar_def)

text \<open>\<open>partition\<close> cuts at the first and \<open>rpartition\<close> at the last occurrence.\<close>

lemma str_partition_utf8:
  assumes "list_all is_scalar cs" "list_all is_scalar ns" "ns \<noteq> []"
  shows "str_partition (utf8 cs) (utf8 ns) =
      Ok (case first_match cs ns of
            Some k \<Rightarrow> (utf8 (take k cs), utf8 ns, utf8 (drop (k + length ns) cs)) | None \<Rightarrow> (utf8 cs, [], []))"
    and "str_rpartition (utf8 cs) (utf8 ns) =
      Ok (case last_match cs ns of
            Some k \<Rightarrow> (utf8 (take k cs), utf8 ns, utf8 (drop (k + length ns) cs)) | None \<Rightarrow> ([], [], utf8 cs))"
proof -
  have cut: "std_get (utf8 cs) 0 (offset cs k) = Some (utf8 (take k cs))"
    "std_get (utf8 cs) (offset cs k + length (utf8 ns)) (length (utf8 cs)) = Some (utf8 (drop (k + length ns) cs))"
    if "match_at cs ns k" for k
  proof -
    have le: "k + length ns \<le> length cs" using that by (simp add: match_at_def)
    show "std_get (utf8 cs) 0 (offset cs k) = Some (utf8 (take k cs))" using get_offset [OF assms(1), of 0 k] le by simp
    show "std_get (utf8 cs) (offset cs k + length (utf8 ns)) (length (utf8 cs)) = Some (utf8 (drop (k + length ns) cs))"
      using get_offset [OF assms(1) le order_refl] offset_match_end [OF that] by (simp add: offset_length)
  qed
  have first: "match_at cs ns k" if "first_match cs ns = Some k" for k
    using that LeastI_ex [of "match_at cs ns"] by (auto simp: first_match_def split: if_splits)
  have last: "match_at cs ns k" if "last_match cs ns = Some k" for k
    using that head_rscan [OF assms(3), of cs] chain_matches [OF chain_rscan [OF assms(3), of cs]]
    by (cases "rscan cs ns") (auto simp: last_match_def)
  show "str_partition (utf8 cs) (utf8 ns) =
      Ok (case first_match cs ns of
            Some k \<Rightarrow> (utf8 (take k cs), utf8 ns, utf8 (drop (k + length ns) cs)) | None \<Rightarrow> (utf8 cs, [], []))"
    using assms first cut by (cases "first_match cs ns") (simp_all add: str_partition_def std_find_utf8 unwrap_opt_def)
  show "str_rpartition (utf8 cs) (utf8 ns) =
      Ok (case last_match cs ns of
            Some k \<Rightarrow> (utf8 (take k cs), utf8 ns, utf8 (drop (k + length ns) cs)) | None \<Rightarrow> ([], [], utf8 cs))"
    using assms last cut by (cases "last_match cs ns") (simp_all add: str_rpartition_def std_find_utf8 unwrap_opt_def)
qed

end
