(* ===== verification/Code_Map.thy ===== *)
theory Code_Map
  imports String_Search
begin

text \<open>
  Source positions, \<^verbatim>\<open>starlark_syntax/src/codemap.rs\<close>: spans of bytes, and the lines and columns of a position.

  A \<open>Pos\<close> is a \<open>u32\<close>: \<open>oc\<close> says whether its arithmetic is checked for overflow. A failing assertion, an index out of range and a
  cut inside of a character panic. \<open>binary_search\<close> is the loop of the standard library. Identity and sharing of code maps are
  not modelled.
\<close>

definition plain_u32 :: "bool \<Rightarrow> nat \<Rightarrow> ('e, nat) outcome" where
  "plain_u32 oc x = (if x < 2 ^ 32 then Ok x else if oc then Panic else Ok (x mod 2 ^ 32))"

definition sub_u32 :: "bool \<Rightarrow> nat \<Rightarrow> nat \<Rightarrow> ('e, nat) outcome" where
  "sub_u32 oc x y = (if y \<le> x then Ok (x - y) else if oc then Panic else Ok ((2 ^ 32 + x - y) mod 2 ^ 32))"

subsection \<open>Spans\<close>

record span =
  sp_begin :: nat
  sp_end :: nat

definition span_new :: "nat \<Rightarrow> nat \<Rightarrow> ('e, span) outcome" where
  "span_new b e = (if b \<le> e then Ok \<lparr>sp_begin = b, sp_end = e\<rparr> else Panic)"

definition span_merge :: "span \<Rightarrow> span \<Rightarrow> span" where
  "span_merge a b = \<lparr>sp_begin = min (sp_begin a) (sp_begin b), sp_end = max (sp_end a) (sp_end b)\<rparr>"

definition span_merge_all :: "span list \<Rightarrow> span" where
  "span_merge_all spans = (case spans of [] \<Rightarrow> \<lparr>sp_begin = 0, sp_end = 0\<rparr> | s # ss \<Rightarrow> foldl span_merge s ss)"

definition span_end_span :: "span \<Rightarrow> span" where
  "span_end_span s = \<lparr>sp_begin = sp_end s, sp_end = sp_end s\<rparr>"

definition span_contains :: "span \<Rightarrow> nat \<Rightarrow> bool" where
  "span_contains s pos \<longleftrightarrow> sp_begin s \<le> pos \<and> pos \<le> sp_end s"

definition span_intersects :: "span \<Rightarrow> span \<Rightarrow> bool" where
  "span_intersects a b \<longleftrightarrow> span_contains a (sp_begin b) \<or> span_contains a (sp_end b) \<or> span_contains b (sp_begin a)"

subsection \<open>Code maps\<close>

record resolved_pos =
  rp_line :: nat
  rp_column :: nat

record resolved_span =
  rs_begin :: resolved_pos
  rs_end :: resolved_pos

record code_map_data =
  cmd_filename :: string
  cmd_source :: string
  cmd_lines :: "nat list"

record native_code_map =
  ncm_filename :: string
  ncm_start :: resolved_pos

datatype code_map = Real code_map_data | Native native_code_map

definition native_source :: string where
  "native_source = ''<native>''"

definition native_code_map_new :: "string \<Rightarrow> nat \<Rightarrow> nat \<Rightarrow> native_code_map" where
  "native_code_map_new filename line column = \<lparr>ncm_filename = filename, ncm_start = \<lparr>rp_line = line, rp_column = column\<rparr>\<rparr>"

text \<open>\<open>match_indices('\n')\<close>.\<close>

definition newlines :: "string \<Rightarrow> nat list" where
  "newlines s = filter (\<lambda>i. s ! i = char_of (10 :: nat)) [0..<length s]"

fun line_starts :: "bool \<Rightarrow> nat list \<Rightarrow> ('e, nat list) outcome" where
  "line_starts oc [] = Ok []"
| "line_starts oc (p # ps) =
     bind_outcome (plain_u32 oc (p mod 2 ^ 32 + 1)) (\<lambda>q. bind_outcome (line_starts oc ps) (\<lambda>qs. Ok (q # qs)))"

definition code_map_new :: "bool \<Rightarrow> string \<Rightarrow> string \<Rightarrow> ('e, code_map) outcome" where
  "code_map_new oc filename source =
     bind_outcome (line_starts oc (newlines source)) (\<lambda>lines.
     Ok (Real \<lparr>cmd_filename = filename, cmd_source = source, cmd_lines = 0 # lines\<rparr>))"

definition cm_source :: "code_map \<Rightarrow> string" where
  "cm_source cm = (case cm of Real d \<Rightarrow> cmd_source d | Native _ \<Rightarrow> native_source)"

definition cm_filename :: "code_map \<Rightarrow> string" where
  "cm_filename cm = (case cm of Real d \<Rightarrow> cmd_filename d | Native d \<Rightarrow> ncm_filename d)"

definition full_span :: "code_map \<Rightarrow> span" where
  "full_span cm = \<lparr>sp_begin = 0, sp_end = length (cm_source cm) mod 2 ^ 32\<rparr>"

definition cm_byte_at :: "code_map \<Rightarrow> nat \<Rightarrow> ('e, char) outcome" where
  "cm_byte_at cm pos = unwrap_opt (nth_opt (cm_source cm) pos)"

text \<open>\<open>binary_search\<close> of a slice: \<open>Inr\<close> is the position of an equal element, \<open>Inl\<close> the place to insert it.\<close>

function binary_search_loop :: "nat list \<Rightarrow> nat \<Rightarrow> nat \<Rightarrow> nat \<Rightarrow> nat" where
  "binary_search_loop xs x base n =
     (if n > 1 then
        let half = n div 2; mid = base + half
        in binary_search_loop xs x (if xs ! mid > x then base else mid) (n - half)
      else base)"
  by pat_completeness auto
termination by (relation "measure (\<lambda>(xs, x, base, n). n)") auto

declare binary_search_loop.simps [simp del]

definition binary_search :: "nat list \<Rightarrow> nat \<Rightarrow> nat + nat" where
  "binary_search xs x =
     (if xs = [] then Inl 0
      else let base = binary_search_loop xs x 0 (length xs)
           in if xs ! base = x then Inr base else Inl (base + (if xs ! base < x then 1 else 0)))"

text \<open>The first line starts at 0, so the place to insert a position is never 0.\<close>

definition find_line :: "code_map \<Rightarrow> nat \<Rightarrow> ('e, nat) outcome" where
  "find_line cm pos =
     (if \<not> pos \<le> sp_end (full_span cm) then Panic
      else case cm of
             Real d \<Rightarrow>
               (case binary_search (cmd_lines d) pos of Inr i \<Rightarrow> Ok i | Inl i \<Rightarrow> if i = 0 then Panic else Ok (i - 1))
           | Native d \<Rightarrow> Ok (rp_line (ncm_start d)))"

definition source_span :: "code_map \<Rightarrow> span \<Rightarrow> ('e, string) outcome" where
  "source_span cm s = unwrap_opt (std_get (cm_source cm) (sp_begin s) (sp_end s))"

definition line_span_opt :: "code_map \<Rightarrow> nat \<Rightarrow> span option" where
  "line_span_opt cm line =
     (case cm of
        Real d \<Rightarrow>
          if line < length (cmd_lines d) then
            Some \<lparr>sp_begin = cmd_lines d ! line,
                  sp_end = (case nth_opt (cmd_lines d) (line + 1) of Some e \<Rightarrow> e | None \<Rightarrow> sp_end (full_span cm))\<rparr>
          else None
      | Native d \<Rightarrow>
          if line = rp_line (ncm_start d) then Some \<lparr>sp_begin = 0, sp_end = length native_source\<rparr> else None)"

definition line_span :: "code_map \<Rightarrow> nat \<Rightarrow> ('e, span) outcome" where
  "line_span cm line = unwrap_opt (line_span_opt cm line)"

definition find_line_col :: "bool \<Rightarrow> nat \<Rightarrow> code_map \<Rightarrow> nat \<Rightarrow> ('e, resolved_pos) outcome" where
  "find_line_col oc align cm pos =
     (if \<not> pos \<le> sp_end (full_span cm) then Panic
      else case cm of
             Real _ \<Rightarrow>
               bind_outcome (find_line cm pos) (\<lambda>line.
               bind_outcome (line_span cm line) (\<lambda>lspan.
               bind_outcome (sub_u32 oc pos (sp_begin lspan)) (\<lambda>byte_col.
               bind_outcome (source_span cm lspan) (\<lambda>line_text.
               bind_outcome (unwrap_opt (std_get line_text 0 byte_col)) (\<lambda>before.
               bind_outcome (fs_len align before) (\<lambda>column.
               Ok \<lparr>rp_line = line, rp_column = column\<rparr>))))))
           | Native d \<Rightarrow> Ok \<lparr>rp_line = rp_line (ncm_start d), rp_column = rp_column (ncm_start d) + pos\<rparr>)"

definition trim_last :: "bool \<Rightarrow> nat \<Rightarrow> code_map \<Rightarrow> span \<Rightarrow> ('e, span) outcome" where
  "trim_last oc c cm s =
     bind_outcome (source_span cm s) (\<lambda>t.
       if ends_with t [char_of c] then bind_outcome (sub_u32 oc (sp_end s) 1) (\<lambda>e. Ok (s\<lparr>sp_end := e\<rparr>)) else Ok s)"

definition line_span_trim_newline :: "bool \<Rightarrow> code_map \<Rightarrow> nat \<Rightarrow> ('e, span) outcome" where
  "line_span_trim_newline oc cm line =
     bind_outcome (line_span cm line) (\<lambda>s. bind_outcome (trim_last oc 10 cm s) (trim_last oc 13 cm))"

definition resolve_span :: "bool \<Rightarrow> nat \<Rightarrow> code_map \<Rightarrow> span \<Rightarrow> ('e, resolved_span) outcome" where
  "resolve_span oc align cm s =
     bind_outcome (find_line_col oc align cm (sp_begin s)) (\<lambda>b.
     bind_outcome (find_line_col oc align cm (sp_end s)) (\<lambda>e. Ok \<lparr>rs_begin = b, rs_end = e\<rparr>))"

definition source_line :: "code_map \<Rightarrow> nat \<Rightarrow> ('e, string) outcome" where
  "source_line cm line =
     bind_outcome (line_span cm line) (\<lambda>s. bind_outcome (source_span cm s) (\<lambda>t. Ok (trim_end_matches (\<lambda>c. c = 10 \<or> c = 13) t)))"

definition source_line_at_pos :: "code_map \<Rightarrow> nat \<Rightarrow> ('e, string) outcome" where
  "source_line_at_pos cm pos = bind_outcome (find_line cm pos) (source_line cm)"

definition resolved_span_contains :: "resolved_span \<Rightarrow> resolved_pos \<Rightarrow> bool" where
  "resolved_span_contains s pos \<longleftrightarrow>
     (rp_line (rs_begin s) < rp_line pos \<or> rp_line (rs_begin s) = rp_line pos \<and> rp_column (rs_begin s) \<le> rp_column pos) \<and>
     (rp_line (rs_end s) > rp_line pos \<or> rp_line (rs_end s) = rp_line pos \<and> rp_column (rs_end s) \<ge> rp_column pos)"

subsection \<open>Binary search\<close>

lemma binary_search_loop_bounds:
  assumes "sorted_wrt (<) xs" "0 < n" "base + n \<le> length xs"
    and "xs ! base \<le> x" and "\<forall>i. base + n \<le> i \<and> i < length xs \<longrightarrow> x < xs ! i"
  defines "r \<equiv> binary_search_loop xs x base n"
  shows "r < length xs \<and> xs ! r \<le> x \<and> (\<forall>i. r < i \<and> i < length xs \<longrightarrow> x < xs ! i)"
  using assms(2-5) unfolding r_def
proof (induction n arbitrary: base rule: less_induct)
  case (less n)
  show ?case
  proof (cases "n > 1")
    case True
    define half where "half = n div 2"
    have half: "0 < half" "half < n" using True by (auto simp: half_def)
    let ?mid = "base + half"
    have mid: "?mid < length xs" using half less.prems(2) by simp
    have beyond: "x < xs ! i" if "x < xs ! ?mid" "?mid \<le> i" "i < length xs" for i
      using that sorted_wrt_nth_less [OF assms(1), of ?mid i] by (cases "i = ?mid") auto
    define b where "b = (if xs ! ?mid > x then base else ?mid)"
    have step: "binary_search_loop xs x base n = binary_search_loop xs x b (n - half)"
      using True unfolding binary_search_loop.simps [of xs x base n] by (simp add: half_def b_def Let_def)
    have bounds: "b + (n - half) \<le> length xs" "xs ! b \<le> x" using half less.prems(2,3) by (auto simp: b_def)
    have above: "x < xs ! i" if "b + (n - half) \<le> i" "i < length xs" for i
    proof (cases "xs ! ?mid > x")
      case True
      then have "?mid \<le> i" using that(1) half by (simp add: b_def half_def)
      then show ?thesis using True that(2) beyond by blast
    next
      case False
      then have "base + n \<le> i" using that(1) half by (simp add: b_def)
      then show ?thesis using that(2) less.prems(4) by blast
    qed
    have "n - half < n" "0 < n - half" using half by auto
    from less.IH [OF this bounds] above show ?thesis unfolding step by blast
  next
    case False
    with less.prems(1) have "n = 1" by simp
    then have "binary_search_loop xs x base n = base" by (simp add: binary_search_loop.simps)
    with less.prems \<open>n = 1\<close> show ?thesis by auto
  qed
qed

lemma binary_search_line:
  assumes "sorted_wrt (<) xs" "xs \<noteq> []" "xs ! 0 \<le> x"
  obtains r where "binary_search xs x = Inr r \<or> binary_search xs x = Inl (Suc r)"
    "r < length xs" "xs ! r \<le> x" "\<forall>i. r < i \<and> i < length xs \<longrightarrow> x < xs ! i"
proof -
  have "let r = binary_search_loop xs x 0 (length xs) in r < length xs \<and> xs ! r \<le> x \<and> (\<forall>i. r < i \<and> i < length xs \<longrightarrow> x < xs ! i)"
    using binary_search_loop_bounds [OF assms(1), of "length xs" 0 x] assms by (simp add: Let_def)
  with that [of "binary_search_loop xs x 0 (length xs)"] assms(2) show ?thesis by (auto simp: binary_search_def Let_def)
qed

subsection \<open>The lines of a source\<close>

lemma sorted_newlines: "sorted_wrt (<) (newlines s)"
  by (simp add: newlines_def sorted_wrt_filter)

lemma newlines_lt: "p \<in> set (newlines s) \<Longrightarrow> p < length s \<and> s ! p = char_of (10 :: nat)"
  by (auto simp: newlines_def)

lemma line_starts_ok: "\<forall>p\<in>set ps. p + 1 < 2 ^ 32 \<Longrightarrow> line_starts oc ps = Ok (map Suc ps)"
  by (induction ps) (auto simp: plain_u32_def)

definition starts :: "string \<Rightarrow> nat list" where
  "starts s = 0 # map Suc (newlines s)"

definition the_map :: "string \<Rightarrow> string \<Rightarrow> code_map" where
  "the_map filename s = Real \<lparr>cmd_filename = filename, cmd_source = s, cmd_lines = starts s\<rparr>"

lemma code_map_new_ok:
  assumes "length s < 2 ^ 32"
  shows "code_map_new oc filename s = Ok (the_map filename s)"
proof -
  have "\<forall>p\<in>set (newlines s). p + 1 < 2 ^ 32" using newlines_lt [of _ s] assms by fastforce
  then show ?thesis by (simp add: code_map_new_def line_starts_ok the_map_def starts_def)
qed

lemma sorted_starts: "sorted_wrt (<) (starts s)"
  by (simp add: starts_def sorted_wrt_map sorted_newlines)

lemma count_filter: "p \<le> length s \<Longrightarrow> count_list (take p s) b = length (filter (\<lambda>i. s ! i = b) [0..<p])"
proof (induction p)
  case (Suc p)
  then show ?case by (simp add: take_Suc_conv_app_nth)
qed simp

lemma newline_index:
  assumes "q < length s" "s ! q = char_of (10 :: nat)"
  shows "count_list (take q s) (char_of (10 :: nat)) < length (newlines s)"
    and "newlines s ! count_list (take q s) (char_of (10 :: nat)) = q"
proof -
  let ?P = "\<lambda>i. s ! i = char_of (10 :: nat)"
  have "[0..<length s] = [0..<q] @ q # [Suc q..<length s]" using assms(1) by (metis less_imp_add_positive upt_add_eq_append upt_conv_Cons zero_le add.commute le_add1)
  then have "newlines s = filter ?P [0..<q] @ q # filter ?P [Suc q..<length s]" using assms(2) by (simp add: newlines_def)
  then show "count_list (take q s) (char_of (10 :: nat)) < length (newlines s)"
    "newlines s ! count_list (take q s) (char_of (10 :: nat)) = q"
    using assms(1) by (simp_all add: count_filter nth_append)
qed

text \<open>A position behind a newline is the start of the line whose number is the number of newlines before it.\<close>

lemma start_index:
  assumes "p \<le> length s" "p = 0 \<or> s ! (p - 1) = char_of (10 :: nat)"
  defines "i \<equiv> count_list (take p s) (char_of (10 :: nat))"
  shows "i < length (starts s)" "starts s ! i = p"
proof -
  have "i < length (starts s) \<and> starts s ! i = p"
  proof (cases p)
    case (Suc q)
    with assms have "q < length s" "s ! q = char_of (10 :: nat)" by auto
    note newline_index [OF this]
    moreover have "i = Suc (count_list (take q s) (char_of (10 :: nat)))"
      using Suc \<open>q < length s\<close> \<open>s ! q = _\<close> by (simp add: i_def take_Suc_conv_app_nth)
    ultimately show ?thesis using Suc by (simp add: starts_def)
  qed (simp add: i_def starts_def)
  then show "i < length (starts s)" "starts s ! i = p" by auto
qed

lemma start_unique:
  assumes "r < length (starts s)" "starts s ! r \<le> x" "\<forall>i. r < i \<and> i < length (starts s) \<longrightarrow> x < starts s ! i"
    and "k < length (starts s)" "starts s ! k \<le> x" "\<forall>i. k < i \<and> i < length (starts s) \<longrightarrow> x < starts s ! i"
  shows "r = k"
  using assms by (meson leD linorder_neqE_nat)

lemma starts_elem: "p \<in> set (starts s) \<Longrightarrow> p \<le> length s \<and> (p = 0 \<or> s ! (p - 1) = char_of (10 :: nat))"
  using newlines_lt [of _ s] by (fastforce simp: starts_def)

lemma count_mono: "p \<le> q \<Longrightarrow> count_list (take p s) b \<le> count_list (take q s) b"
  by (metis count_list_append le_add1 le_add_diff_inverse take_add)

lemma start_number: "i < length (starts s) \<Longrightarrow> count_list (take (starts s ! i) s) (char_of (10 :: nat)) = i"
proof -
  assume i: "i < length (starts s)"
  let ?j = "count_list (take (starts s ! i) s) (char_of (10 :: nat))"
  from starts_elem [of "starts s ! i" s] i have "?j < length (starts s)" "starts s ! ?j = starts s ! i"
    using start_index [of "starts s ! i" s] by auto
  moreover have "distinct (starts s)" using sorted_starts by (simp add: strict_sorted_iff)
  ultimately show ?thesis using i by (simp add: nth_eq_iff_index_eq)
qed

text \<open>The start \<open>b\<close> of the line of a position: no newline lies between them.\<close>

lemma find_line_number:
  assumes "length s < 2 ^ 32" "b \<le> x" "x \<le> length s" "b = 0 \<or> s ! (b - 1) = char_of (10 :: nat)"
    and "\<forall>i. b \<le> i \<and> i < x \<longrightarrow> s ! i \<noteq> char_of (10 :: nat)"
  defines "i \<equiv> count_list (take b s) (char_of (10 :: nat))"
  shows "find_line (the_map filename s) x = Ok i" "i < length (starts s)" "starts s ! i = b"
    "\<forall>j. i < j \<and> j < length (starts s) \<longrightarrow> x < starts s ! j"
proof -
  show i: "i < length (starts s)" "starts s ! i = b" using start_index [of b s] assms by (auto simp: i_def)
  show above: "\<forall>j. i < j \<and> j < length (starts s) \<longrightarrow> x < starts s ! j"
  proof (intro allI impI)
    fix j assume j: "i < j \<and> j < length (starts s)"
    then have "b < starts s ! j" using i sorted_wrt_nth_less [OF sorted_starts, of i j s] by simp
    moreover have "s ! (starts s ! j - 1) = char_of (10 :: nat)" using starts_elem [of "starts s ! j" s] j calculation by auto
    ultimately show "x < starts s ! j" using assms(5) by (metis Suc_pred' diff_less less_Suc_eq_le linorder_not_less not_gr_zero zero_less_one less_le_trans gr_implies_not0)
  qed
  obtain r where r: "binary_search (starts s) x = Inr r \<or> binary_search (starts s) x = Inl (Suc r)"
    "r < length (starts s)" "starts s ! r \<le> x" "\<forall>i. r < i \<and> i < length (starts s) \<longrightarrow> x < starts s ! i"
    using binary_search_line [OF sorted_starts, of s x] by (auto simp: starts_def)
  have "r = i" using start_unique [OF r(2-4) i(1)] i(2) assms(2) above by simp
  with r(1) assms(1,3) show "find_line (the_map filename s) x = Ok i"
    by (auto simp: find_line_def the_map_def full_span_def cm_source_def)
qed

lemma count_encode: "is_scalar c \<Longrightarrow> count_list (encode c) (char_of (10 :: nat)) = (if c = 10 then 1 else 0)"
proof (cases "c < 0x80")
  case False
  moreover assume "is_scalar c"
  ultimately have "\<forall>b\<in>set (encode c). 0x80 \<le> byte b" using encode_high by auto
  then have "char_of (10 :: nat) \<notin> set (encode c)" by force
  with False show ?thesis by simp
qed (auto simp: char_of_eq_iff ascii_take_bit)

lemma count_utf8: "list_all is_scalar cs \<Longrightarrow> count_list (utf8 cs) (char_of (10 :: nat)) = count_list cs 10"
  by (induction cs) (auto simp: count_encode)

lemma newline_offset:
  assumes "list_all is_scalar cs" "q < length (utf8 cs)" "utf8 cs ! q = char_of (10 :: nat)"
  obtains m where "m < length cs" "q = offset cs m" "cs ! m = 10" "Suc q = offset cs (Suc m)"
proof -
  have "match_at (utf8 cs) (utf8 [10]) q" using assms(2,3) by (simp add: match_at_def take_Suc_conv_app_nth)
  then obtain m where m: "q = offset cs m" "match_at cs [10] m" using match_utf8 [OF assms(1), of "[10]"] by auto
  from m(2) have "m < length cs" "cs ! m = 10" by (auto simp: match_at_def take_Suc_conv_app_nth)
  moreover have "offset cs (m + 1) = offset cs m + 1" using offset_match_end [OF m(2)] by simp
  ultimately show ?thesis using that m(1) by simp
qed

lemma start_offset:
  assumes "list_all is_scalar cs" "p \<in> set (starts (utf8 cs))"
  obtains m where "m \<le> length cs" "p = offset cs m"
proof (cases "p = 0")
  case False
  with starts_elem [OF assms(2)] have "p - 1 < length (utf8 cs)" "utf8 cs ! (p - 1) = char_of (10 :: nat)" by auto
  then obtain m where "m < length cs" "Suc (p - 1) = offset cs (Suc m)" using newline_offset [OF assms(1)] by metis
  with False that [of "Suc m"] show ?thesis by simp
qed (use that [of 0] in simp)

text \<open>The start of the line of a character, and the characters before it on its line.\<close>

definition line_column :: "nat list \<Rightarrow> nat \<Rightarrow> nat" where
  "line_column cs k = length (takeWhile (\<lambda>c. c \<noteq> 10) (rev (take k cs)))"

lemma line_column_le: "k \<le> length cs \<Longrightarrow> line_column cs k \<le> k"
  unfolding line_column_def by (metis length_rev length_take length_takeWhile_le min.absorb2)

lemma line_start_char:
  assumes "k \<le> length cs"
  defines "j \<equiv> k - line_column cs k"
  shows "j = 0 \<or> cs ! (j - 1) = 10" "\<forall>i. j \<le> i \<and> i < k \<longrightarrow> cs ! i \<noteq> 10"
proof -
  let ?w = "line_column cs k"
  have w: "?w \<le> k" using line_column_le [OF assms(1)] .
  have nth: "rev (take k cs) ! i = cs ! (k - Suc i)" if "i < k" for i using that assms(1) by (simp add: rev_nth)
  show "j = 0 \<or> cs ! (j - 1) = 10"
  proof (cases "?w = k")
    case False
    with w have lt: "?w < k" by simp
    then have "rev (take k cs) ! ?w = 10"
      using nth_length_takeWhile [of "\<lambda>c. c \<noteq> 10" "rev (take k cs)"] assms(1) by (simp add: line_column_def)
    with nth [OF lt] show ?thesis by (simp add: j_def)
  qed (simp add: j_def)
  show "\<forall>i. j \<le> i \<and> i < k \<longrightarrow> cs ! i \<noteq> 10"
  proof (intro allI impI)
    fix i assume i: "j \<le> i \<and> i < k"
    then have "k - Suc i < ?w" using w by (auto simp: j_def)
    then have "rev (take k cs) ! (k - Suc i) \<noteq> 10"
      unfolding line_column_def by (metis (mono_tags, lifting) nth_mem set_takeWhileD takeWhile_nth)
    then show "cs ! i \<noteq> 10" using nth [of "k - Suc i"] i by simp
  qed
qed

lemma newline_char:
  assumes "list_all is_scalar cs" "m < length cs" "cs ! m = 10"
  shows "utf8 cs ! offset cs m = char_of (10 :: nat)" "offset cs (Suc m) = Suc (offset cs m)" "offset cs m < length (utf8 cs)"
proof -
  have m: "match_at cs [10] m" using assms(2,3) by (simp add: match_at_def take_Suc_conv_app_nth)
  then have "match_at (utf8 cs) (utf8 [10]) (offset cs m)" using match_utf8 [OF assms(1), of "[10]"] by auto
  then show "utf8 cs ! offset cs m = char_of (10 :: nat)" "offset cs m < length (utf8 cs)"
    by (auto simp: match_at_def take_Suc_conv_app_nth)
  show "offset cs (Suc m) = Suc (offset cs m)" using offset_match_end [OF m] by simp
qed

lemma line_start_byte:
  assumes "list_all is_scalar cs" "k \<le> length cs"
  defines "b \<equiv> offset cs (k - line_column cs k)"
  shows "b = 0 \<or> utf8 cs ! (b - 1) = char_of (10 :: nat)"
    and "\<forall>i. b \<le> i \<and> i < offset cs k \<longrightarrow> utf8 cs ! i \<noteq> char_of (10 :: nat)"
    and "count_list (take b (utf8 cs)) (char_of (10 :: nat)) = count_list (take k cs) 10"
proof -
  let ?j = "k - line_column cs k"
  note start = line_start_char [OF assms(2)]
  show "b = 0 \<or> utf8 cs ! (b - 1) = char_of (10 :: nat)"
  proof (cases ?j)
    case (Suc q)
    then have "q < length cs" "cs ! q = 10" using start(1) assms(2) by auto
    from newline_char [OF assms(1) this] show ?thesis by (simp add: b_def Suc)
  qed (simp add: b_def)
  show "\<forall>i. b \<le> i \<and> i < offset cs k \<longrightarrow> utf8 cs ! i \<noteq> char_of (10 :: nat)"
  proof (intro allI impI notI)
    fix i assume i: "b \<le> i \<and> i < offset cs k" "utf8 cs ! i = char_of (10 :: nat)"
    then have "i < length (utf8 cs)" using offset_le [of cs k] by simp
    then obtain m where m: "m < length cs" "i = offset cs m" "cs ! m = 10" using newline_offset [OF assms(1) _ i(2)] by metis
    then have "?j \<le> m" "m < k" using i(1) offset_le_iff [of ?j cs m] offset_le_iff [of k cs m] assms(2) by (auto simp: b_def not_le [symmetric])
    with start(2) m(3) show False by blast
  qed
  have "take b (utf8 cs) = utf8 (take ?j cs)" by (simp add: b_def offset_def utf8_take_drop)
  moreover have "take k cs = take ?j cs @ take (k - ?j) (drop ?j cs)" by (metis diff_le_self le_add_diff_inverse take_add)
  moreover have "count_list (take (k - ?j) (drop ?j cs)) 10 = 0"
    using start(2) assms(2) by (auto simp: count_list_0_iff in_set_conv_nth)
  ultimately show "count_list (take b (utf8 cs)) (char_of (10 :: nat)) = count_list (take k cs) 10"
    using assms(1) by (simp add: count_utf8 scalar_take)
qed

lemma line_span_the_map:
  assumes "length s < 2 ^ 32" "i < length (starts s)"
  shows "line_span_opt (the_map filename s) i =
    Some \<lparr>sp_begin = starts s ! i, sp_end = (if Suc i < length (starts s) then starts s ! Suc i else length s)\<rparr>"
  using assms by (simp add: line_span_opt_def the_map_def nth_opt_def full_span_def cm_source_def)

lemma find_line_col_the_map:
  "pos \<le> sp_end (full_span (the_map filename s)) \<Longrightarrow> find_line_col oc align (the_map filename s) pos =
     bind_outcome (find_line (the_map filename s) pos) (\<lambda>line.
     bind_outcome (line_span (the_map filename s) line) (\<lambda>lspan.
     bind_outcome (sub_u32 oc pos (sp_begin lspan)) (\<lambda>byte_col.
     bind_outcome (source_span (the_map filename s) lspan) (\<lambda>line_text.
     bind_outcome (unwrap_opt (std_get line_text 0 byte_col)) (\<lambda>before.
     bind_outcome (fs_len align before) (\<lambda>column.
     Ok \<lparr>rp_line = line, rp_column = column\<rparr>))))))"
  by (simp add: find_line_col_def the_map_def)

lemma find_line_col_utf8:
  assumes "list_all is_scalar cs" "length (utf8 cs) < 2 ^ 32" "k \<le> length cs"
  shows "find_line_col oc align (the_map filename (utf8 cs)) (offset cs k) =
    Ok \<lparr>rp_line = count_list (take k cs) 10, rp_column = line_column cs k\<rparr>"
proof -
  let ?s = "utf8 cs" and ?x = "offset cs k" and ?w = "line_column cs k" and ?cm = "the_map filename (utf8 cs)"
  define j where "j = k - ?w"
  define i where "i = count_list (take k cs) 10"
  have w: "?w \<le> k" "k - j = ?w" using line_column_le [OF assms(3)] by (auto simp: j_def)
  have le: "offset cs j \<le> ?x" using assms(3) by (simp add: j_def offset_le_iff)
  note byte = line_start_byte [OF assms(1,3), folded j_def]
  note line = find_line_number [OF assms(2) le offset_le byte(1,2), unfolded byte(3), folded i_def]
  define e where "e = (if Suc i < length (starts ?s) then starts ?s ! Suc i else length ?s)"
  have "e \<in> set (starts ?s) \<or> e = length ?s" by (auto simp: e_def)
  then obtain m where m: "m \<le> length cs" "e = offset cs m"
    using start_offset [OF assms(1), of e] offset_length [of cs] by (metis order_refl)
  have "?x \<le> e" using line(4) offset_le [of cs k] by (auto simp: e_def less_imp_le)
  then have km: "k \<le> m" using m offset_le_iff [of k cs m] assms(3) by simp
  let ?t = "take (m - j) (drop j cs)"
  have t: "std_get ?s (offset cs j) (offset cs m) = Some (utf8 ?t)" using get_offset [OF assms(1), of j m] m(1) km by (simp add: j_def)
  have "?x - offset cs j = offset ?t ?w"
    using offset_add [of cs j ?w] offset_take [of ?w "m - j" "drop j cs"] w km by (simp add: j_def)
  moreover have "list_all is_scalar ?t" "?w \<le> length ?t" using assms(1) w km m(1) by (auto simp: scalar_take scalar_drop j_def)
  ultimately have col: "std_get (utf8 ?t) 0 (?x - offset cs j) = Some (utf8 (take ?w ?t))" "length (take ?w ?t) = ?w"
    using get_offset [of ?t 0 ?w] by auto
  have "?x \<le> sp_end (full_span ?cm)" "cm_source ?cm = ?s" using offset_le [of cs k] assms(2)
    by (simp_all add: full_span_def the_map_def cm_source_def)
  moreover have "line_span_opt ?cm i = Some \<lparr>sp_begin = offset cs j, sp_end = offset cs m\<rparr>"
    using line_span_the_map [OF assms(2) line(2)] line(3) m(2) by (simp add: e_def)
  ultimately show ?thesis
    using le t col
    by (simp add: find_line_col_the_map i_def [symmetric] line(1) sub_u32_def source_span_def unwrap_opt_def line_span_def
        fs_len_utf8 scalar_take \<open>list_all is_scalar ?t\<close> del: take_take)
qed

text \<open>The span of the line of a position: it starts at the start of the line, and the position is before its end or at the end of the file.\<close>

lemma line_span_utf8:
  assumes "list_all is_scalar cs" "length (utf8 cs) < 2 ^ 32" "k \<le> length cs"
  shows "\<exists>sp. line_span (the_map filename (utf8 cs)) (count_list (take k cs) 10) = Ok sp \<and>
    sp_begin sp = offset cs (k - line_column cs k) \<and> sp_begin sp \<le> offset cs k \<and>
    (offset cs k < sp_end sp \<or> offset cs k = length (utf8 cs) \<and> sp_end sp = length (utf8 cs))"
proof -
  let ?s = "utf8 cs" and ?j = "k - line_column cs k" and ?i = "count_list (take k cs) 10"
  have le: "offset cs ?j \<le> offset cs k" using assms(3) by (simp add: offset_le_iff)
  note byte = line_start_byte [OF assms(1,3)]
  note line = find_line_number [OF assms(2) le offset_le byte(1,2), unfolded byte(3)]
  from line_span_the_map [OF assms(2) line(2), of filename] line(3,4) le offset_le [of cs k] show ?thesis
    by (auto simp: line_span_def unwrap_opt_def le_less)
qed

subsection \<open>Lines and columns\<close>

lemma line_column_Suc: "k < length cs \<Longrightarrow> line_column cs (Suc k) = (if cs ! k = 10 then 0 else Suc (line_column cs k))"
  by (simp add: line_column_def take_Suc_conv_app_nth)

lemma line_count_Suc: "k < length cs \<Longrightarrow> count_list (take (Suc k) cs) 10 = count_list (take k cs) 10 + (if cs ! k = 10 then 1 else 0)"
  by (simp add: take_Suc_conv_app_nth)

lemma position_mono:
  "l < k \<Longrightarrow> k \<le> length cs \<Longrightarrow>
   count_list (take l cs) 10 < count_list (take k cs) 10 \<or>
   count_list (take l cs) 10 = count_list (take k cs) 10 \<and> line_column cs l < line_column cs k"
proof (induction k)
  case (Suc k)
  then show ?case using line_column_Suc [of k cs] line_count_Suc [of k cs] by (cases "l = k") (auto simp: less_Suc_eq)
qed simp

abbreviation char_pos :: "nat list \<Rightarrow> nat \<Rightarrow> resolved_pos" where
  "char_pos cs k \<equiv> \<lparr>rp_line = count_list (take k cs) 10, rp_column = line_column cs k\<rparr>"

lemma char_pos_contains:
  assumes "j \<le> k" "k \<le> length cs" "l \<le> length cs"
  shows "resolved_span_contains \<lparr>rs_begin = char_pos cs j, rs_end = char_pos cs k\<rparr> (char_pos cs l) \<longleftrightarrow> j \<le> l \<and> l \<le> k"
proof -
  have before: "j \<le> l \<longleftrightarrow> count_list (take j cs) 10 < count_list (take l cs) 10 \<or>
      count_list (take j cs) 10 = count_list (take l cs) 10 \<and> line_column cs j \<le> line_column cs l"
    if "j \<le> length cs" "l \<le> length cs" for j l
    using that position_mono [of j l cs] position_mono [of l j cs] by (cases j l rule: linorder_cases) auto
  show ?thesis using before [of j l] before [of l k] assms by (auto simp: resolved_span_contains_def)
qed

text \<open>C33. Lines and columns: in a file of less than 4 GiB, the position of every character has as its line the number of newlines
  before it and as its column the number of characters since the last of them; nothing panics. The span of that line starts right
  behind the last newline before the position, and the position lies before its end, or at the end of the file. A resolved span
  contains a resolved position iff the span of bytes contains the position.\<close>

theorem positions_resolve:
  assumes "list_all is_scalar cs" and "length (utf8 cs) < 2 ^ 32" and "j \<le> k" and "k \<le> length cs" and "l \<le> length cs"
  shows "\<exists>cm rs p. (code_map_new oc filename (utf8 cs) :: code_map value_result) = Ok cm \<and>
    (resolve_span oc align cm \<lparr>sp_begin = offset cs j, sp_end = offset cs k\<rparr> :: resolved_span value_result) = Ok rs \<and>
    (find_line_col oc align cm (offset cs l) :: resolved_pos value_result) = Ok p \<and>
    rp_line p = count_list (take l cs) 10 \<and> rp_column p = length (takeWhile (\<lambda>c. c \<noteq> 10) (rev (take l cs))) \<and>
    (\<exists>sp. (line_span cm (rp_line p) :: span value_result) = Ok sp \<and> sp_begin sp = offset cs (l - rp_column p) \<and>
       sp_begin sp \<le> offset cs l \<and> (offset cs l < sp_end sp \<or> offset cs l = length (utf8 cs) \<and> sp_end sp = length (utf8 cs))) \<and>
    (resolved_span_contains rs p \<longleftrightarrow> span_contains \<lparr>sp_begin = offset cs j, sp_end = offset cs k\<rparr> (offset cs l))"
proof -
  have "offset cs j \<le> offset cs l \<longleftrightarrow> j \<le> l" "offset cs l \<le> offset cs k \<longleftrightarrow> l \<le> k" using assms by (simp_all add: offset_le_iff)
  then show ?thesis
    using assms line_span_utf8 [OF assms(1,2,5), of filename] by (simp add: code_map_new_ok resolve_span_def find_line_col_utf8 char_pos_contains span_contains_def
        line_column_def [of cs l, symmetric])
qed

theorem positions_resolve_witness:
  "\<exists>cm p. (code_map_new True ''f'' (utf8 [97, 10, 0x433, 98]) :: code_map value_result) = Ok cm \<and>
    (find_line_col True 0 cm (offset [97, 10, 0x433, 98] 3) :: resolved_pos value_result) = Ok p \<and> rp_line p = 1 \<and> rp_column p = 1"
  using positions_resolve [of "[97, 10, 0x433, 98]" 0 0 3 True "''f''" 0] by (fastforce simp: is_scalar_def encode_def)

text \<open>The text between consecutive starts.\<close>

fun cut :: "'a list \<Rightarrow> nat list \<Rightarrow> 'a list list" where
  "cut s [] = []"
| "cut s [a] = [drop a s]"
| "cut s (a # b # as) = take (b - a) (drop a s) # cut s (b # as)"

lemma concat_cut: "sorted (a # as) \<Longrightarrow> concat (cut s (a # as)) = drop a s"
proof (induction as arbitrary: a)
  case (Cons b as)
  then have "a \<le> b" "concat (cut s (b # as)) = drop b s" by auto
  then show ?case by (metis append_take_drop_id concat.simps(2) cut.simps(3) drop_drop le_add_diff_inverse2)
qed simp

lemma length_cut: "length (cut s as) = length as"
  by (induction s as rule: cut.induct) auto

lemma nth_cut:
  "i < length as \<Longrightarrow> \<forall>a\<in>set as. a \<le> length s \<Longrightarrow>
   cut s as ! i = take ((if Suc i < length as then as ! Suc i else length s) - as ! i) (drop (as ! i) s)"
proof (induction s as arbitrary: i rule: cut.induct)
  case (3 s a b as)
  then show ?case by (cases i) auto
qed auto

text \<open>The spans of the lines tile the file: there is one more line than newlines, their texts concatenate to the file, and
  there are no further lines.\<close>

theorem line_spans_tile:
  assumes "list_all is_scalar cs" and "length (utf8 cs) < 2 ^ 32"
  shows "\<exists>cm texts. (code_map_new oc filename (utf8 cs) :: code_map value_result) = Ok cm \<and>
    concat texts = utf8 cs \<and> length texts = Suc (count_list cs 10) \<and>
    (\<forall>i. (bind_outcome (line_span cm i) (source_span cm) :: string value_result) = (if i < length texts then Ok (texts ! i) else Panic))"
proof -
  let ?s = "utf8 cs" and ?cm = "the_map filename (utf8 cs)"
  let ?texts = "cut ?s (starts ?s)"
  have sorted: "sorted (starts ?s)" by (simp add: sorted_starts strict_sorted_imp_sorted)
  have "concat ?texts = ?s" using concat_cut [of 0 "map Suc (newlines ?s)" ?s] sorted by (simp add: starts_def)
  moreover have "length ?texts = Suc (count_list cs 10)"
    using count_filter [of "length ?s" ?s "char_of (10 :: nat)"] assms(1) by (simp add: length_cut starts_def newlines_def count_utf8)
  moreover have "(bind_outcome (line_span ?cm i) (source_span ?cm) :: string value_result) =
      (if i < length ?texts then Ok (?texts ! i) else Panic)" for i
  proof (cases "i < length (starts ?s)")
    case True
    let ?e = "if Suc i < length (starts ?s) then starts ?s ! Suc i else length ?s"
    obtain m where m: "m \<le> length cs" "starts ?s ! i = offset cs m" using start_offset [OF assms(1)] True by (metis nth_mem)
    obtain n where n: "n \<le> length cs" "?e = offset cs n"
      using start_offset [OF assms(1), of "starts ?s ! Suc i"] offset_length [of cs] by (metis nth_mem order_refl)
    have "starts ?s ! i \<le> ?e"
      using sorted True starts_elem [of "starts ?s ! i" ?s] by (auto simp: sorted_iff_nth_mono)
    then have "m \<le> n" using m n offset_le_iff [of m cs n] by simp
    then have "std_get ?s (starts ?s ! i) ?e = Some (?texts ! i)"
      using get_offset [OF assms(1), of m n] m n nth_cut [OF True, of ?s] starts_elem [of _ ?s]
      by (auto simp: std_get_def boundary_offset [OF assms(1)] offset_le_iff)
    then show ?thesis
      using True line_span_the_map [OF assms(2) True, of filename]
      by (simp add: length_cut line_span_def source_span_def unwrap_opt_def the_map_def cm_source_def)
  next
    case False
    then show ?thesis by (simp add: length_cut line_span_def line_span_opt_def the_map_def unwrap_opt_def)
  qed
  ultimately show ?thesis using code_map_new_ok [OF assms(2)] by (intro exI [of _ ?cm] exI [of _ ?texts]) simp
qed

theorem line_spans_tile_witness:
  "\<exists>cm texts. (code_map_new True ''f'' (utf8 [97, 10, 0x433]) :: code_map value_result) = Ok cm \<and>
    concat texts = utf8 [97, 10, 0x433] \<and> length texts = 2"
  using line_spans_tile [of "[97, 10, 0x433]" True "''f''"] by (fastforce simp: is_scalar_def encode_def)

end
