(* ===== verification/Set_Type.thy ===== *)
theory Set_Type
  imports Small_Set Rust_Int
begin

text \<open>
  Sets of Starlark: \<^verbatim>\<open>values/types/set/value.rs\<close>, \<^verbatim>\<open>values/types/set/refs.rs\<close> and \<^verbatim>\<open>values/types/set/methods.rs\<close>, on top of
  \<open>SmallSet\<close>.

  A value is of any type \<open>'a\<close>; \<open>hashable\<close> says which values have a hash, and the environment \<open>E\<close> of the map what it is. A set
  value is a cell with its content, a flag for a frozen set and the number of iterations that borrow it. An argument that is
  iterated over is a set, the items that another value yields, or a value that is not iterable. A panic of \<open>SmallSet\<close> (the
  \<open>None\<close> of its operations) is a panic.
\<close>

subsection \<open>Values\<close>

datatype set_error = NotHashable | NotIterable | CannotMutateImmutableValue | MutationDuringIteration | NotFound | PopFromEmptySet
  | UnsupportedOperand

type_synonym 'b set_result = "(set_error, 'b) outcome"

datatype ('a, 't) iter_arg = SetArg "('a, 't) small_set" | ItemsArg "'a list" | OtherArg

record ('a, 't) set_cell =
  sc_frozen :: bool
  sc_borrows :: nat
  sc_content :: "('a, 't) small_set"

definition or_panic :: "'b option \<Rightarrow> ('e, 'b) outcome" where
  "or_panic r = (case r of Some x \<Rightarrow> Ok x | None \<Rightarrow> Panic)"

definition get_hashed :: "('a, 't) map_env \<Rightarrow> ('a \<Rightarrow> bool) \<Rightarrow> 'a \<Rightarrow> 'a hashed set_result" where
  "get_hashed E hashable v = (if hashable v then Ok (hashed_new (key_hash E) v) else Err NotHashable)"

definition arg_iterate :: "('a, 't) iter_arg \<Rightarrow> 'a list set_result" where
  "arg_iterate other = (case other of SetArg s \<Rightarrow> Ok (ss_iter s) | ItemsArg xs \<Rightarrow> Ok xs | OtherArg \<Rightarrow> Err NotIterable)"

definition ss_iter_hashed :: "('a, 't) small_set \<Rightarrow> 'a hashed list" where
  "ss_iter_hashed s = map fst (sm_iter_hashed s)"

definition set_mut :: "('a, 't) set_cell \<Rightarrow> ('a, 't) small_set set_result" where
  "set_mut c =
     (if sc_frozen c then Err CannotMutateImmutableValue
      else if sc_borrows c > 0 then Err MutationDuringIteration
      else Ok (sc_content c))"

definition iter_start :: "('a, 't) set_cell \<Rightarrow> ('a, 't) set_cell" where
  "iter_start c = (if sc_frozen c then c else c\<lparr>sc_borrows := sc_borrows c + 1\<rparr>)"

definition iter_stop :: "('a, 't) set_cell \<Rightarrow> ('a, 't) set_cell" where
  "iter_stop c = (if sc_frozen c then c else c\<lparr>sc_borrows := sc_borrows c - 1\<rparr>)"

definition iter_next :: "('a, 't) set_cell \<Rightarrow> nat \<Rightarrow> 'a option" where
  "iter_next c i = (let xs = ss_iter (sc_content c) in if i < length xs then Some (xs ! i) else None)"

subsection \<open>Loops over hashed items\<close>

fun add_items :: "('a, 't) map_env \<Rightarrow> ('a \<Rightarrow> bool) \<Rightarrow> 'a list \<Rightarrow> ('a, 't) small_set \<Rightarrow> ('a, 't) small_set set_result" where
  "add_items E hashable [] s = Ok s"
| "add_items E hashable (x # xs) s =
     bind_outcome (get_hashed E hashable x) (\<lambda>h.
     bind_outcome (or_panic (ss_insert_hashed E s h)) (\<lambda>(_, s'). add_items E hashable xs s'))"

fun add_where :: "('a, 't) map_env \<Rightarrow> ('a hashed \<Rightarrow> bool) \<Rightarrow> 'a hashed list \<Rightarrow> ('a, 't) small_set \<Rightarrow> ('a, 't) small_set set_result" where
  "add_where E p [] s = Ok s"
| "add_where E p (h # hs) s =
     (if p h then bind_outcome (or_panic (ss_insert_hashed E s h)) (\<lambda>(_, s'). add_where E p hs s') else add_where E p hs s)"

fun add_unique_where ::
  "('a, 't) map_env \<Rightarrow> ('a hashed \<Rightarrow> bool) \<Rightarrow> 'a hashed list \<Rightarrow> ('a, 't) small_set \<Rightarrow> ('a, 't) small_set set_result" where
  "add_unique_where E p [] s = Ok s"
| "add_unique_where E p (h # hs) s =
     (if p h then bind_outcome (or_panic (ss_insert_hashed_unique_unchecked E s h)) (add_unique_where E p hs)
      else add_unique_where E p hs s)"

text \<open>The second loop of \<open>symmetric_difference\<close>, which hashes the items again.\<close>

fun add_items_not_in ::
  "('a, 't) map_env \<Rightarrow> ('a \<Rightarrow> bool) \<Rightarrow> ('a, 't) small_set \<Rightarrow> 'a list \<Rightarrow> ('a, 't) small_set \<Rightarrow> ('a, 't) small_set set_result" where
  "add_items_not_in E hashable this [] s = Ok s"
| "add_items_not_in E hashable this (x # xs) s =
     bind_outcome (get_hashed E hashable x) (\<lambda>h.
       if \<not> ss_contains_hashed E this h
       then bind_outcome (or_panic (ss_insert_hashed E s h)) (\<lambda>(_, s'). add_items_not_in E hashable this xs s')
       else add_items_not_in E hashable this xs s)"

fun all_items :: "('a, 't) map_env \<Rightarrow> ('a \<Rightarrow> bool) \<Rightarrow> ('a, 't) small_set \<Rightarrow> 'a list \<Rightarrow> bool set_result" where
  "all_items E hashable this [] = Ok True"
| "all_items E hashable this (x # xs) =
     bind_outcome (get_hashed E hashable x) (\<lambda>h. if \<not> ss_contains_hashed E this h then Ok False else all_items E hashable this xs)"

subsection \<open>Methods\<close>

definition set_from_value :: "('a, 't) map_env \<Rightarrow> ('a \<Rightarrow> bool) \<Rightarrow> ('a, 't) iter_arg \<Rightarrow> ('a, 't) small_set set_result" where
  "set_from_value E hashable other =
     (case other of
        SetArg s \<Rightarrow> Ok s
      | _ \<Rightarrow> bind_outcome (arg_iterate other) (\<lambda>xs. add_items E hashable xs (ss_new E)))"

definition set_clear :: "('a, 't) map_env \<Rightarrow> ('a, 't) set_cell \<Rightarrow> ('a, 't) set_cell set_result" where
  "set_clear E c = bind_outcome (set_mut c) (\<lambda>s. Ok (c\<lparr>sc_content := ss_clear E s\<rparr>))"

definition set_union ::
  "('a, 't) map_env \<Rightarrow> ('a \<Rightarrow> bool) \<Rightarrow> ('a, 't) small_set \<Rightarrow> ('a, 't) iter_arg \<Rightarrow> ('a, 't) small_set set_result" where
  "set_union E hashable this other =
     (if ss_is_empty this then set_from_value E hashable other
      else bind_outcome (arg_iterate other) (\<lambda>xs. add_items E hashable xs this))"

definition set_intersection ::
  "('a, 't) map_env \<Rightarrow> ('a \<Rightarrow> bool) \<Rightarrow> ('a, 't) small_set \<Rightarrow> ('a, 't) iter_arg \<Rightarrow> ('a, 't) small_set set_result" where
  "set_intersection E hashable this other =
     bind_outcome (set_from_value E hashable other) (\<lambda>other_set.
       if ss_is_empty other_set then Ok (ss_new E)
       else add_unique_where E (\<lambda>h. ss_contains_hashed E other_set h) (ss_iter_hashed this) (ss_new E))"

definition set_symmetric_difference ::
  "('a, 't) map_env \<Rightarrow> ('a \<Rightarrow> bool) \<Rightarrow> ('a, 't) small_set \<Rightarrow> ('a, 't) iter_arg \<Rightarrow> ('a, 't) small_set set_result" where
  "set_symmetric_difference E hashable this other =
     bind_outcome (set_from_value E hashable other) (\<lambda>other_set.
       if ss_is_empty other_set then Ok this
       else if ss_is_empty this then Ok other_set
       else bind_outcome (add_where E (\<lambda>h. \<not> ss_contains_hashed E other_set h) (ss_iter_hashed this) (ss_new E)) (\<lambda>data.
            add_items_not_in E hashable this (ss_iter other_set) data))"

definition set_add ::
  "('a, 't) map_env \<Rightarrow> ('a \<Rightarrow> bool) \<Rightarrow> ('a, 't) set_cell \<Rightarrow> 'a \<Rightarrow> ('a, 't) set_cell set_result" where
  "set_add E hashable c x =
     bind_outcome (set_mut c) (\<lambda>s.
     bind_outcome (get_hashed E hashable x) (\<lambda>h.
     bind_outcome (or_panic (ss_insert_hashed E s h)) (\<lambda>(_, s'). Ok (c\<lparr>sc_content := s'\<rparr>))))"

text \<open>\<open>same\<close>: the argument is the set itself. When hashing an item fails, the items before it stay added, so the cell is
  returned beside the result.\<close>

fun update_items ::
  "('a, 't) map_env \<Rightarrow> ('a \<Rightarrow> bool) \<Rightarrow> 'a list \<Rightarrow> ('a, 't) small_set \<Rightarrow> unit set_result \<times> ('a, 't) small_set" where
  "update_items E hashable [] s = (Ok (), s)"
| "update_items E hashable (x # xs) s =
     (case get_hashed E hashable x of
        Ok h \<Rightarrow> (case ss_insert_hashed E s h of None \<Rightarrow> (Panic, s) | Some (_, s') \<Rightarrow> update_items E hashable xs s')
      | Err e \<Rightarrow> (Err e, s)
      | Panic \<Rightarrow> (Panic, s))"

definition set_update ::
  "('a, 't) map_env \<Rightarrow> ('a \<Rightarrow> bool) \<Rightarrow> bool \<Rightarrow> ('a, 't) set_cell \<Rightarrow> ('a, 't) iter_arg \<Rightarrow> unit set_result \<times> ('a, 't) set_cell" where
  "set_update E hashable same c other =
     (case set_mut c of
        Err e \<Rightarrow> (Err e, c)
      | Panic \<Rightarrow> (Panic, c)
      | Ok s \<Rightarrow>
          if same then (Ok (), c)
          else if ss_is_empty s then
            (case set_from_value E hashable other of
               Ok s' \<Rightarrow> (Ok (), c\<lparr>sc_content := s'\<rparr>)
             | Err e \<Rightarrow> (Err e, c)
             | Panic \<Rightarrow> (Panic, c))
          else (case arg_iterate other of
                  Ok xs \<Rightarrow> (case update_items E hashable xs s of (r, s') \<Rightarrow> (r, c\<lparr>sc_content := s'\<rparr>))
                | Err e \<Rightarrow> (Err e, c)
                | Panic \<Rightarrow> (Panic, c)))"

definition set_remove ::
  "('a, 't) map_env \<Rightarrow> ('a \<Rightarrow> bool) \<Rightarrow> ('a, 't) set_cell \<Rightarrow> 'a \<Rightarrow> ('a, 't) set_cell set_result" where
  "set_remove E hashable c x =
     bind_outcome (set_mut c) (\<lambda>s.
     bind_outcome (get_hashed E hashable x) (\<lambda>h.
     bind_outcome (or_panic (ss_shift_remove_hashed E s h)) (\<lambda>(found, s').
       if found then Ok (c\<lparr>sc_content := s'\<rparr>) else Err NotFound)))"

definition set_discard ::
  "('a, 't) map_env \<Rightarrow> ('a \<Rightarrow> bool) \<Rightarrow> ('a, 't) set_cell \<Rightarrow> 'a \<Rightarrow> ('a, 't) set_cell set_result" where
  "set_discard E hashable c x =
     bind_outcome (set_mut c) (\<lambda>s.
     bind_outcome (get_hashed E hashable x) (\<lambda>h.
     bind_outcome (or_panic (ss_shift_remove_hashed E s h)) (\<lambda>(_, s'). Ok (c\<lparr>sc_content := s'\<rparr>))))"

definition set_pop :: "('a, 't) map_env \<Rightarrow> ('a, 't) set_cell \<Rightarrow> ('a \<times> ('a, 't) set_cell) set_result" where
  "set_pop E c =
     bind_outcome (set_mut c) (\<lambda>s.
     bind_outcome (or_panic (ss_pop E s)) (\<lambda>(r, s').
       case r of Some x \<Rightarrow> Ok (x, c\<lparr>sc_content := s'\<rparr>) | None \<Rightarrow> Err PopFromEmptySet))"

definition set_difference ::
  "('a, 't) map_env \<Rightarrow> ('a \<Rightarrow> bool) \<Rightarrow> ('a, 't) small_set \<Rightarrow> ('a, 't) iter_arg \<Rightarrow> ('a, 't) small_set set_result" where
  "set_difference E hashable this other =
     (if ss_is_empty this then bind_outcome (arg_iterate other) (\<lambda>_. Ok (ss_new E))
      else bind_outcome (set_from_value E hashable other) (\<lambda>other_set.
           if ss_is_empty other_set then Ok this
           else add_where E (\<lambda>h. \<not> ss_contains_hashed E other_set h) (ss_iter_hashed this) (ss_new E)))"

definition set_issuperset :: "('a, 't) map_env \<Rightarrow> ('a \<Rightarrow> bool) \<Rightarrow> ('a, 't) small_set \<Rightarrow> ('a, 't) iter_arg \<Rightarrow> bool set_result" where
  "set_issuperset E hashable this other =
     (case other of
        SetArg s \<Rightarrow>
          if ss_len this < ss_len s then Ok False
          else Ok (list_all (\<lambda>h. ss_contains_hashed E this h) (ss_iter_hashed s))
      | _ \<Rightarrow> bind_outcome (arg_iterate other) (all_items E hashable this))"

definition set_issubset :: "('a, 't) map_env \<Rightarrow> ('a \<Rightarrow> bool) \<Rightarrow> ('a, 't) small_set \<Rightarrow> ('a, 't) iter_arg \<Rightarrow> bool set_result" where
  "set_issubset E hashable this other =
     (if ss_is_empty this then bind_outcome (arg_iterate other) (\<lambda>_. Ok True)
      else bind_outcome (set_from_value E hashable other) (\<lambda>rhs.
           if ss_len this > ss_len rhs then Ok False
           else Ok (list_all (\<lambda>h. ss_contains_hashed E rhs h) (ss_iter_hashed this))))"

subsection \<open>Operators\<close>

definition set_length :: "('a, 't) small_set \<Rightarrow> int" where
  "set_length s = wrap_i32 (int (ss_len s))"

definition set_is_in :: "('a, 't) map_env \<Rightarrow> ('a \<Rightarrow> bool) \<Rightarrow> ('a, 't) small_set \<Rightarrow> 'a \<Rightarrow> bool set_result" where
  "set_is_in E hashable s x = bind_outcome (get_hashed E hashable x) (\<lambda>h. Ok (ss_contains_hashed E s h))"

text \<open>The right operand is \<open>None\<close> if it is no set.\<close>

definition set_bit_or ::
  "('a, 't) map_env \<Rightarrow> ('a, 't) small_set \<Rightarrow> ('a, 't) small_set option \<Rightarrow> ('a, 't) small_set set_result" where
  "set_bit_or E s rhs =
     (case rhs of
        None \<Rightarrow> Err UnsupportedOperand
      | Some rhs \<Rightarrow> if ss_is_empty s then Ok rhs else add_where E (\<lambda>_. True) (ss_iter_hashed rhs) s)"

definition set_bit_and ::
  "('a, 't) map_env \<Rightarrow> ('a, 't) small_set \<Rightarrow> ('a, 't) small_set option \<Rightarrow> ('a, 't) small_set set_result" where
  "set_bit_and E s rhs =
     (case rhs of
        None \<Rightarrow> Err UnsupportedOperand
      | Some rhs \<Rightarrow>
          if ss_is_empty s then Ok (ss_new E)
          else add_unique_where E (\<lambda>h. ss_contains_hashed E s h) (ss_iter_hashed rhs) (ss_new E))"

definition set_bit_xor ::
  "('a, 't) map_env \<Rightarrow> ('a, 't) small_set \<Rightarrow> ('a, 't) small_set option \<Rightarrow> ('a, 't) small_set set_result" where
  "set_bit_xor E s rhs =
     (case rhs of
        None \<Rightarrow> Err UnsupportedOperand
      | Some rhs \<Rightarrow>
          if ss_is_empty rhs then Ok s
          else bind_outcome (add_unique_where E (\<lambda>h. \<not> ss_contains_hashed E rhs h) (ss_iter_hashed s) (ss_new E)) (\<lambda>data.
               add_where E (\<lambda>h. \<not> ss_contains_hashed E s h) (ss_iter_hashed rhs) data))"

definition set_sub ::
  "('a, 't) map_env \<Rightarrow> ('a, 't) small_set \<Rightarrow> ('a, 't) small_set option \<Rightarrow> ('a, 't) small_set set_result" where
  "set_sub E s rhs =
     (case rhs of
        None \<Rightarrow> Err UnsupportedOperand
      | Some rhs \<Rightarrow>
          if ss_is_empty s then Ok (ss_new E)
          else if ss_is_empty rhs then Ok s
          else add_where E (\<lambda>h. \<not> ss_contains_hashed E rhs h) (ss_iter_hashed s) (ss_new E))"

definition equals_small_set :: "('a, 't) map_env \<Rightarrow> ('a, 't) small_set \<Rightarrow> ('a, 't) small_set \<Rightarrow> bool" where
  "equals_small_set E xs ys =
     (if ss_len xs \<noteq> ss_len ys then False else list_all (\<lambda>x. ss_contains_hashed E ys x) (ss_iter_hashed xs))"

definition set_equals :: "('a, 't) map_env \<Rightarrow> ('a, 't) small_set \<Rightarrow> ('a, 't) small_set option \<Rightarrow> bool" where
  "set_equals E s other = (case other of None \<Rightarrow> False | Some t \<Rightarrow> equals_small_set E s t)"

definition set_to_bool :: "('a, 't) small_set \<Rightarrow> bool" where
  "set_to_bool s = (\<not> ss_is_empty s)"

text \<open>The global function \<open>set\<close>.\<close>

definition set_fn :: "('a, 't) map_env \<Rightarrow> ('a \<Rightarrow> bool) \<Rightarrow> ('a, 't) iter_arg option \<Rightarrow> ('a, 't) small_set set_result" where
  "set_fn E hashable arg =
     (case arg of
        None \<Rightarrow> Ok (ss_new E)
      | Some (SetArg s) \<Rightarrow> Ok s
      | Some pos \<Rightarrow> bind_outcome (arg_iterate pos) (\<lambda>it. add_items E hashable it (ss_new E)))"

subsection \<open>Contents\<close>

text \<open>The items without repetitions, in the order of their first occurrence.\<close>

fun dedup :: "'a list \<Rightarrow> 'a list" where
  "dedup [] = []"
| "dedup (x # xs) = x # filter (\<lambda>y. y \<noteq> x) (dedup xs)"

lemma set_dedup [simp]: "set (dedup xs) = set xs"
  by (induction xs) auto

lemma distinct_dedup [simp]: "distinct (dedup xs)"
  by (induction xs) auto

lemma dedup_distinct: "distinct xs \<Longrightarrow> dedup xs = xs"
  by (induction xs) (auto simp: filter_id_conv)

lemma length_dedup: "length (dedup xs) \<le> length xs"
  by (induction xs) (auto intro: le_trans [OF length_filter_le])

definition arg_items :: "('a, 't) iter_arg \<Rightarrow> 'a list" where
  "arg_items other = (case other of SetArg s \<Rightarrow> ss_iter s | ItemsArg xs \<Rightarrow> dedup xs | OtherArg \<Rightarrow> [])"

definition arg_size :: "('a, 't) iter_arg \<Rightarrow> nat" where
  "arg_size other = (case other of SetArg s \<Rightarrow> length (ss_iter s) | ItemsArg xs \<Rightarrow> length xs | OtherArg \<Rightarrow> 0)"

definition arg_valid :: "('a, 't) map_env \<Rightarrow> ('a \<Rightarrow> bool) \<Rightarrow> ('a, 't) iter_arg \<Rightarrow> bool" where
  "arg_valid E hashable other \<longleftrightarrow>
     (case other of SetArg s \<Rightarrow> sm_inv E s | ItemsArg _ \<Rightarrow> True | OtherArg \<Rightarrow> False) \<and> list_all hashable (arg_items other)"

context map_laws
begin

lemma ss_iter_hashed_new: "sm_inv E s \<Longrightarrow> ss_iter_hashed s = map (hashed_new (key_hash E)) (ss_iter s)"
  using sm_invD(1) [of s] vm_iter_hashed_refines [of "key_hash E" "entries s"]
  by (auto simp: ss_iter_hashed_def ss_iter_def sm_iter_hashed_def sm_iter_def)

lemma ss_contains_hashed_iff: "sm_inv E s \<Longrightarrow> ss_contains_hashed E s (hashed_new (key_hash E) x) \<longleftrightarrow> x \<in> set (ss_iter s)"
  using ss_contains_iff [of s x] by (simp add: ss_contains_hashed_def ss_contains_def sm_contains_key_def)

lemma ss_new_inv: "sm_inv E (ss_new E)" "ss_iter (ss_new E) = []"
  using sm_new_inv by (simp_all add: ss_new_def ss_iter_def)

lemma ss_is_empty_iff: "sm_inv E s \<Longrightarrow> ss_is_empty s \<longleftrightarrow> ss_iter s = []"
  using sm_invD(4) [of s] by (simp add: ss_is_empty_def sm_is_empty_def ss_iter_def vm_is_empty_def v2_is_empty_def vm_len_def)

lemma ss_len_iter: "sm_inv E s \<Longrightarrow> ss_len s = length (ss_iter s)"
  using sm_invD(4) [of s] by (simp add: ss_len_def sm_len_def ss_iter_def)

lemma ss_insert_hashed_total:
  assumes "sm_inv E s" "v2_ample (entry_ty E) (Suc (length (ss_iter s)))"
  obtains s' where "ss_insert_hashed E s (hashed_new (key_hash E) x) = Some (x \<notin> set (ss_iter s), s')" "sm_inv E s'"
    "ss_iter s' = (if x \<in> set (ss_iter s) then ss_iter s else ss_iter s @ [x])"
proof -
  have eq: "ss_insert_hashed E s (hashed_new (key_hash E) x) = ss_insert E s x" by (simp add: ss_insert_hashed_def ss_insert_def sm_insert_def)
  obtain fresh s' where s': "ss_insert E s x = Some (fresh, s')"
    using sm_insert_total [OF assms(1), of x "()"] assms(2) by (fastforce simp: ss_insert_def ss_iter_def)
  from ss_insert_list [OF assms(1) s'] that [of s'] show ?thesis using s' eq by (auto split: if_splits)
qed

lemma ss_insert_unique_total:
  assumes "sm_inv E s" "x \<notin> set (ss_iter s)" "v2_ample (entry_ty E) (Suc (length (ss_iter s)))"
  obtains s' where "ss_insert_hashed_unique_unchecked E s (hashed_new (key_hash E) x) = Some s'" "sm_inv E s'"
    "ss_iter s' = ss_iter s @ [x]"
proof -
  have k: "x \<notin> set (map fst (sm_iter s))" "v2_ample (entry_ty E) (Suc (length (sm_iter s)))"
    using assms(2,3) by (simp_all add: ss_iter_def)
  obtain s' where s': "sm_insert_hashed_unique_unchecked E s (hashed_new (key_hash E) x) () = Some s'"
    using sm_insert_unique_total [OF assms(1) k, of "()"] by blast
  have "sm_inv E s' \<and> sm_iter s' = sm_iter s @ [(x, ())]" by (rule sm_insert_unique_inv [OF assms(1) k(1) s'])
  with s' show ?thesis by (intro that [of s']) (simp_all add: ss_insert_hashed_unique_unchecked_def ss_iter_def)
qed

lemma add_items_ok:
  "sm_inv E s \<Longrightarrow> list_all hashable xs \<Longrightarrow> v2_ample (entry_ty E) (length (ss_iter s) + length xs) \<Longrightarrow>
   \<exists>r. add_items E hashable xs s = Ok r \<and> sm_inv E r \<and> ss_iter r = ss_iter s @ filter (\<lambda>x. x \<notin> set (ss_iter s)) (dedup xs)"
proof (induction xs arbitrary: s)
  case (Cons x xs)
  have "v2_ample (entry_ty E) (Suc (length (ss_iter s)))" by (rule v2_ample_mono [OF _ Cons.prems(3)]) simp
  then obtain s' where s': "ss_insert_hashed E s (hashed_new (key_hash E) x) = Some (x \<notin> set (ss_iter s), s')" "sm_inv E s'"
    "ss_iter s' = (if x \<in> set (ss_iter s) then ss_iter s else ss_iter s @ [x])" using ss_insert_hashed_total Cons.prems(1) by metis
  have "v2_ample (entry_ty E) (length (ss_iter s') + length xs)"
    by (rule v2_ample_mono [OF _ Cons.prems(3)]) (simp add: s'(3))
  with Cons.IH [OF s'(2)] Cons.prems(2) obtain r where r: "add_items E hashable xs s' = Ok r" "sm_inv E r"
    "ss_iter r = ss_iter s' @ filter (\<lambda>x. x \<notin> set (ss_iter s')) (dedup xs)" by auto
  have "ss_iter r = ss_iter s @ filter (\<lambda>x. x \<notin> set (ss_iter s)) (dedup (x # xs))"
    using r(3) s'(3) by (auto simp: conj_commute intro!: filter_cong)
  with r s' Cons.prems(2) show ?case by (auto simp: get_hashed_def or_panic_def)
qed simp

lemma add_where_ok:
  "sm_inv E s \<Longrightarrow> distinct xs \<Longrightarrow> v2_ample (entry_ty E) (length (ss_iter s) + length xs) \<Longrightarrow>
   (\<And>x. p (hashed_new (key_hash E) x) \<longleftrightarrow> P x) \<Longrightarrow>
   \<exists>r. add_where E p (map (hashed_new (key_hash E)) xs) s = Ok r \<and> sm_inv E r \<and>
     ss_iter r = ss_iter s @ filter (\<lambda>x. P x \<and> x \<notin> set (ss_iter s)) xs"
proof (induction xs arbitrary: s)
  case (Cons x xs)
  show ?case
  proof (cases "P x")
    case True
    have "v2_ample (entry_ty E) (Suc (length (ss_iter s)))" by (rule v2_ample_mono [OF _ Cons.prems(3)]) simp
    then obtain s' where s': "ss_insert_hashed E s (hashed_new (key_hash E) x) = Some (x \<notin> set (ss_iter s), s')" "sm_inv E s'"
      "ss_iter s' = (if x \<in> set (ss_iter s) then ss_iter s else ss_iter s @ [x])" using ss_insert_hashed_total Cons.prems(1) by metis
    have "v2_ample (entry_ty E) (length (ss_iter s') + length xs)"
      by (rule v2_ample_mono [OF _ Cons.prems(3)]) (simp add: s'(3))
    with Cons.IH [OF s'(2)] Cons.prems(2,4) obtain r where r: "add_where E p (map (hashed_new (key_hash E)) xs) s' = Ok r" "sm_inv E r"
      "ss_iter r = ss_iter s' @ filter (\<lambda>x. P x \<and> x \<notin> set (ss_iter s')) xs" by auto
    have "ss_iter r = ss_iter s @ filter (\<lambda>x. P x \<and> x \<notin> set (ss_iter s)) (x # xs)"
      using r(3) s'(3) True Cons.prems(2) by (auto intro!: filter_cong)
    with r s' True Cons.prems(4) show ?thesis by (auto simp: or_panic_def)
  next
    case False
    have "v2_ample (entry_ty E) (length (ss_iter s) + length xs)" by (rule v2_ample_mono [OF _ Cons.prems(3)]) simp
    with Cons.IH [OF Cons.prems(1)] Cons.prems(2,4) False show ?thesis by auto
  qed
qed simp

lemma add_unique_where_ok:
  "sm_inv E s \<Longrightarrow> distinct xs \<Longrightarrow> set xs \<inter> set (ss_iter s) = {} \<Longrightarrow> v2_ample (entry_ty E) (length (ss_iter s) + length xs) \<Longrightarrow>
   (\<And>x. p (hashed_new (key_hash E) x) \<longleftrightarrow> P x) \<Longrightarrow>
   \<exists>r. add_unique_where E p (map (hashed_new (key_hash E)) xs) s = Ok r \<and> sm_inv E r \<and> ss_iter r = ss_iter s @ filter P xs"
proof (induction xs arbitrary: s)
  case (Cons x xs)
  show ?case
  proof (cases "P x")
    case True
    have "v2_ample (entry_ty E) (Suc (length (ss_iter s)))" by (rule v2_ample_mono [OF _ Cons.prems(4)]) simp
    then obtain s' where s': "ss_insert_hashed_unique_unchecked E s (hashed_new (key_hash E) x) = Some s'" "sm_inv E s'"
      "ss_iter s' = ss_iter s @ [x]" using ss_insert_unique_total [OF Cons.prems(1), of x] Cons.prems(3) by auto
    have "v2_ample (entry_ty E) (length (ss_iter s') + length xs)"
      by (rule v2_ample_mono [OF _ Cons.prems(4)]) (simp add: s'(3))
    with Cons.IH [OF s'(2)] Cons.prems(2,3,5) s'(3) obtain r where
      "add_unique_where E p (map (hashed_new (key_hash E)) xs) s' = Ok r" "sm_inv E r" "ss_iter r = ss_iter s' @ filter P xs" by auto
    with s' True Cons.prems(5) show ?thesis by (auto simp: or_panic_def)
  next
    case False
    have "v2_ample (entry_ty E) (length (ss_iter s) + length xs)" by (rule v2_ample_mono [OF _ Cons.prems(4)]) simp
    with Cons.IH [OF Cons.prems(1)] Cons.prems(2,3,5) False show ?thesis by auto
  qed
qed simp

lemma add_items_not_in_where:
  "sm_inv E this \<Longrightarrow> list_all hashable xs \<Longrightarrow>
   add_items_not_in E hashable this xs s = add_where E (\<lambda>h. \<not> ss_contains_hashed E this h) (map (hashed_new (key_hash E)) xs) s"
  by (induction xs arbitrary: s) (auto simp: get_hashed_def or_panic_def split: option.split)

lemma all_items_iff:
  "sm_inv E this \<Longrightarrow> list_all hashable xs \<Longrightarrow> all_items E hashable this xs = Ok (set xs \<subseteq> set (ss_iter this))"
  by (induction xs) (auto simp: get_hashed_def ss_contains_hashed_iff)

lemma set_from_value_ok:
  assumes "arg_valid E hashable other" "v2_ample (entry_ty E) (arg_size other)"
  obtains s where "set_from_value E hashable other = Ok s" "sm_inv E s" "ss_iter s = arg_items other"
proof (cases other)
  case (ItemsArg xs)
  then have "list_all hashable xs" using assms(1) by (simp add: arg_valid_def arg_items_def list_all_iff)
  with add_items_ok [OF ss_new_inv(1), of hashable xs] assms(2) ItemsArg that show ?thesis
    by (auto simp: set_from_value_def arg_iterate_def arg_items_def arg_size_def ss_new_inv)
qed (use assms that in \<open>auto simp: set_from_value_def arg_valid_def arg_items_def\<close>)

lemma arg_items_distinct: "arg_valid E hashable other \<Longrightarrow> distinct (arg_items other)"
  by (cases other) (auto simp: arg_items_def arg_valid_def ss_distinct)

lemma arg_iterate_ok:
  assumes "arg_valid E hashable other"
  obtains xs where "arg_iterate other = Ok xs" "dedup xs = arg_items other" "length xs = arg_size other" "list_all hashable xs"
  using assms ss_distinct
  by (cases other) (auto simp: arg_iterate_def arg_valid_def arg_items_def arg_size_def dedup_distinct list_all_iff)

lemma arg_items_size: "length (arg_items other) \<le> arg_size other"
  by (cases other) (auto simp: arg_items_def arg_size_def length_dedup)

end

text \<open>\<open>r\<close> returns a valid set with the items \<open>xs\<close>, in this order.\<close>

definition yields :: "('a, 't) map_env \<Rightarrow> ('a, 't) small_set set_result \<Rightarrow> 'a list \<Rightarrow> bool" where
  "yields E r xs \<longleftrightarrow> (case r of Ok s \<Rightarrow> sm_inv E s \<and> ss_iter s = xs | _ \<Rightarrow> False)"

context map_laws
begin

lemma add_where_new:
  assumes "sm_inv E this" "v2_ample (entry_ty E) (length (ss_iter this))"
    "\<And>x. p (hashed_new (key_hash E) x) \<longleftrightarrow> P x"
  obtains r where "add_where E p (ss_iter_hashed this) (ss_new E) = Ok r" "sm_inv E r" "ss_iter r = filter P (ss_iter this)"
  using add_where_ok [OF ss_new_inv(1) ss_distinct [OF assms(1)], of p P] assms(2,3)
  by (auto simp: ss_new_inv ss_iter_hashed_new [OF assms(1)])

lemma add_unique_where_new:
  assumes "sm_inv E this" "v2_ample (entry_ty E) (length (ss_iter this))"
    "\<And>x. p (hashed_new (key_hash E) x) \<longleftrightarrow> P x"
  obtains r where "add_unique_where E p (ss_iter_hashed this) (ss_new E) = Ok r" "sm_inv E r" "ss_iter r = filter P (ss_iter this)"
  using add_unique_where_ok [OF ss_new_inv(1) ss_distinct [OF assms(1)], of p P] assms(2,3)
  by (auto simp: ss_new_inv ss_iter_hashed_new [OF assms(1)])

lemma set_fn_yields:
  assumes "arg_valid E hashable other" "v2_ample (entry_ty E) (arg_size other)"
  shows "yields E (set_fn E hashable (Some other)) (arg_items other)"
proof -
  have "set_fn E hashable (Some other) = set_from_value E hashable other"
    by (simp add: set_fn_def set_from_value_def split: iter_arg.split)
  moreover obtain s where "set_from_value E hashable other = Ok s" "sm_inv E s" "ss_iter s = arg_items other"
    using set_from_value_ok [OF assms] .
  ultimately show ?thesis by (simp add: yields_def)
qed

lemma set_union_yields:
  assumes inv: "sm_inv E this" and other: "arg_valid E hashable other"
    and room: "v2_ample (entry_ty E) (length (ss_iter this) + arg_size other)"
  shows "yields E (set_union E hashable this other) (ss_iter this @ filter (\<lambda>x. x \<notin> set (ss_iter this)) (arg_items other))"
proof (cases "ss_iter this = []")
  case True
  obtain s where "set_from_value E hashable other = Ok s" "sm_inv E s" "ss_iter s = arg_items other"
    using set_from_value_ok [OF other] room True by auto
  with True show ?thesis by (simp add: set_union_def yields_def ss_is_empty_iff inv)
next
  case False
  obtain xs where xs: "arg_iterate other = Ok xs" "dedup xs = arg_items other" "length xs = arg_size other" "list_all hashable xs"
    using arg_iterate_ok [OF other] .
  with add_items_ok [OF inv xs(4)] room False show ?thesis by (auto simp: set_union_def yields_def ss_is_empty_iff inv)
qed

lemma set_intersection_yields:
  assumes inv: "sm_inv E this" and other: "arg_valid E hashable other"
    and room: "v2_ample (entry_ty E) (length (ss_iter this))" "v2_ample (entry_ty E) (arg_size other)"
  shows "yields E (set_intersection E hashable this other) (filter (\<lambda>x. x \<in> set (arg_items other)) (ss_iter this))"
proof -
  obtain s where s: "set_from_value E hashable other = Ok s" "sm_inv E s" "ss_iter s = arg_items other"
    using set_from_value_ok [OF other room(2)] .
  obtain r where "add_unique_where E (ss_contains_hashed E s) (ss_iter_hashed this) (ss_new E) = Ok r" "sm_inv E r"
    "ss_iter r = filter (\<lambda>x. x \<in> set (arg_items other)) (ss_iter this)"
    using add_unique_where_new [OF inv room(1), of "ss_contains_hashed E s"] ss_contains_hashed_iff [OF s(2)] s(3) by metis
  with s show ?thesis by (auto simp: set_intersection_def yields_def ss_is_empty_iff ss_new_inv)
qed

lemma not_in_where:
  assumes "sm_inv E this" "sm_inv E s" "v2_ample (entry_ty E) (length (ss_iter this))"
  obtains r where "add_where E (\<lambda>h. \<not> ss_contains_hashed E s h) (ss_iter_hashed this) (ss_new E) = Ok r" "sm_inv E r"
    "ss_iter r = filter (\<lambda>x. x \<notin> set (ss_iter s)) (ss_iter this)"
  using add_where_new [OF assms(1,3), of "\<lambda>h. \<not> ss_contains_hashed E s h" "\<lambda>x. x \<notin> set (ss_iter s)"]
    ss_contains_hashed_iff [OF assms(2)] that by blast

lemma add_absent:
  assumes "sm_inv E data" "sm_inv E s" "sm_inv E this" "set (ss_iter data) \<subseteq> set (ss_iter this)"
    "v2_ample (entry_ty E) (length (ss_iter data) + length (ss_iter s))"
  obtains r where "add_where E (\<lambda>h. \<not> ss_contains_hashed E this h) (ss_iter_hashed s) data = Ok r" "sm_inv E r"
    "ss_iter r = ss_iter data @ filter (\<lambda>x. x \<notin> set (ss_iter this)) (ss_iter s)"
proof -
  have "filter (\<lambda>x. x \<notin> set (ss_iter this) \<and> x \<notin> set (ss_iter data)) (ss_iter s) =
      filter (\<lambda>x. x \<notin> set (ss_iter this)) (ss_iter s)"
    by (rule filter_cong) (use assms(4) in auto)
  with that add_where_ok [OF assms(1) ss_distinct [OF assms(2)] assms(5),
      of "\<lambda>h. \<not> ss_contains_hashed E this h" "\<lambda>x. x \<notin> set (ss_iter this)"]
  show ?thesis by (auto simp: ss_contains_hashed_iff [OF assms(3)] ss_iter_hashed_new [OF assms(2)])
qed

lemma set_difference_yields:
  assumes inv: "sm_inv E this" and other: "arg_valid E hashable other"
    and room: "v2_ample (entry_ty E) (length (ss_iter this))" "v2_ample (entry_ty E) (arg_size other)"
  shows "yields E (set_difference E hashable this other) (filter (\<lambda>x. x \<notin> set (arg_items other)) (ss_iter this))"
proof -
  obtain s where s: "set_from_value E hashable other = Ok s" "sm_inv E s" "ss_iter s = arg_items other"
    using set_from_value_ok [OF other room(2)] .
  obtain xs where xs: "arg_iterate other = Ok xs" using arg_iterate_ok [OF other] .
  obtain r where "add_where E (\<lambda>h. \<not> ss_contains_hashed E s h) (ss_iter_hashed this) (ss_new E) = Ok r" "sm_inv E r"
    "ss_iter r = filter (\<lambda>x. x \<notin> set (ss_iter s)) (ss_iter this)" using not_in_where [OF inv s(2) room(1)] .
  with s xs inv show ?thesis by (auto simp: set_difference_def yields_def ss_is_empty_iff ss_new_inv)
qed

lemma set_symmetric_difference_yields:
  assumes inv: "sm_inv E this" and other: "arg_valid E hashable other"
    and room: "v2_ample (entry_ty E) (length (ss_iter this) + arg_size other)"
  shows "yields E (set_symmetric_difference E hashable this other)
     (filter (\<lambda>x. x \<notin> set (arg_items other)) (ss_iter this) @ filter (\<lambda>x. x \<notin> set (ss_iter this)) (arg_items other))"
proof -
  have room': "v2_ample (entry_ty E) (length (ss_iter this))" "v2_ample (entry_ty E) (arg_size other)"
    by (rule v2_ample_mono [OF _ room], simp)+
  obtain s where s: "set_from_value E hashable other = Ok s" "sm_inv E s" "ss_iter s = arg_items other"
    using set_from_value_ok [OF other room'(2)] .
  obtain d where d: "add_where E (\<lambda>h. \<not> ss_contains_hashed E s h) (ss_iter_hashed this) (ss_new E) = Ok d" "sm_inv E d"
    "ss_iter d = filter (\<lambda>x. x \<notin> set (ss_iter s)) (ss_iter this)" using not_in_where [OF inv s(2) room'(1)] .
  have "length (ss_iter d) + length (ss_iter s) \<le> length (ss_iter this) + arg_size other"
    unfolding d(3) s(3) by (intro add_mono length_filter_le arg_items_size)
  from v2_ample_mono [OF this room] obtain r where
    r: "add_where E (\<lambda>h. \<not> ss_contains_hashed E this h) (ss_iter_hashed s) d = Ok r" "sm_inv E r"
      "ss_iter r = ss_iter d @ filter (\<lambda>x. x \<notin> set (ss_iter this)) (ss_iter s)"
    using add_absent [OF d(2) s(2) inv] d(3) by auto
  have "list_all hashable (ss_iter s)" using other by (simp add: arg_valid_def s(3))
  then have l: "add_items_not_in E hashable this (arg_items other) d = Ok r"
    using add_items_not_in_where [OF inv, of hashable "ss_iter s" d] r(1) s(3) ss_iter_hashed_new [OF s(2)] by simp
  show ?thesis
    using s d r inv by (auto simp: set_symmetric_difference_def yields_def ss_is_empty_iff l)
qed

end
context map_laws
begin

lemma all_in_hashed: "sm_inv E s \<Longrightarrow> sm_inv E t \<Longrightarrow>
   list_all (\<lambda>h. ss_contains_hashed E t h) (ss_iter_hashed s) \<longleftrightarrow> set (ss_iter s) \<subseteq> set (ss_iter t)"
  by (auto simp: ss_iter_hashed_new list_all_iff ss_contains_hashed_iff)

lemma longer_not_subset:
  assumes "distinct xs" "length ys < length xs"
  shows "\<not> set xs \<subseteq> set ys"
  using assms card_length [of ys] card_mono [of "set ys" "set xs"] distinct_card [OF assms(1)] by auto

lemma set_issuperset_iff:
  assumes "sm_inv E this" "arg_valid E hashable other"
  shows "set_issuperset E hashable this other = Ok (set (arg_items other) \<subseteq> set (ss_iter this))"
proof (cases other)
  case (SetArg s)
  with assms have "sm_inv E s" by (simp add: arg_valid_def)
  then show ?thesis
    using SetArg assms(1) longer_not_subset [OF ss_distinct, of s "ss_iter this"]
    by (auto simp: set_issuperset_def arg_items_def all_in_hashed ss_len_iter)
qed (use assms in \<open>auto simp: set_issuperset_def arg_valid_def arg_iterate_def arg_items_def all_items_iff list_all_iff\<close>)

lemma set_issubset_iff:
  assumes inv: "sm_inv E this" and other: "arg_valid E hashable other" and room: "v2_ample (entry_ty E) (arg_size other)"
  shows "set_issubset E hashable this other = Ok (set (ss_iter this) \<subseteq> set (arg_items other))"
proof -
  obtain s where s: "set_from_value E hashable other = Ok s" "sm_inv E s" "ss_iter s = arg_items other"
    using set_from_value_ok [OF other room] .
  obtain xs where "arg_iterate other = Ok xs" using arg_iterate_ok [OF other] .
  with s inv longer_not_subset [OF ss_distinct [OF inv], of "ss_iter s"] show ?thesis
    by (auto simp: set_issubset_def ss_is_empty_iff all_in_hashed ss_len_iter)
qed

lemma equals_small_set_iff:
  assumes "sm_inv E xs" "sm_inv E ys"
  shows "equals_small_set E xs ys \<longleftrightarrow> set (ss_iter xs) = set (ss_iter ys)"
proof -
  have len: "ss_len xs = card (set (ss_iter xs))" "ss_len ys = card (set (ss_iter ys))"
    using assms ss_distinct by (simp_all add: ss_len_iter distinct_card)
  then show ?thesis
    using card_subset_eq [of "set (ss_iter ys)" "set (ss_iter xs)"]
    by (auto simp: equals_small_set_def all_in_hashed assms)
qed

lemma set_bit_or_yields:
  assumes "sm_inv E s" "sm_inv E t" "v2_ample (entry_ty E) (length (ss_iter s) + length (ss_iter t))"
  shows "yields E (set_bit_or E s (Some t)) (ss_iter s @ filter (\<lambda>x. x \<notin> set (ss_iter s)) (ss_iter t))"
  using add_where_ok [OF assms(1) ss_distinct [OF assms(2)] assms(3), of "\<lambda>_. True" "\<lambda>_. True"] assms
  by (auto simp: set_bit_or_def yields_def ss_is_empty_iff ss_iter_hashed_new)

lemma set_bit_and_yields:
  assumes "sm_inv E s" "sm_inv E t" "v2_ample (entry_ty E) (length (ss_iter t))"
  shows "yields E (set_bit_and E s (Some t)) (filter (\<lambda>x. x \<in> set (ss_iter s)) (ss_iter t))"
proof -
  obtain r where "add_unique_where E (ss_contains_hashed E s) (ss_iter_hashed t) (ss_new E) = Ok r" "sm_inv E r"
    "ss_iter r = filter (\<lambda>x. x \<in> set (ss_iter s)) (ss_iter t)"
    using add_unique_where_new [OF assms(2,3), of "ss_contains_hashed E s"] ss_contains_hashed_iff [OF assms(1)] by metis
  with assms show ?thesis by (auto simp: set_bit_and_def yields_def ss_is_empty_iff ss_new_inv)
qed

lemma set_bit_xor_yields:
  assumes inv: "sm_inv E s" "sm_inv E t" and room: "v2_ample (entry_ty E) (length (ss_iter s) + length (ss_iter t))"
  shows "yields E (set_bit_xor E s (Some t))
     (filter (\<lambda>x. x \<notin> set (ss_iter t)) (ss_iter s) @ filter (\<lambda>x. x \<notin> set (ss_iter s)) (ss_iter t))"
proof -
  have s: "v2_ample (entry_ty E) (length (ss_iter s))" by (rule v2_ample_mono [OF _ room]) simp
  obtain d where d: "add_unique_where E (\<lambda>h. \<not> ss_contains_hashed E t h) (ss_iter_hashed s) (ss_new E) = Ok d" "sm_inv E d"
    "ss_iter d = filter (\<lambda>x. x \<notin> set (ss_iter t)) (ss_iter s)"
    using add_unique_where_new [OF inv(1) s, of "\<lambda>h. \<not> ss_contains_hashed E t h" "\<lambda>x. x \<notin> set (ss_iter t)"]
      ss_contains_hashed_iff [OF inv(2)] by blast
  have "v2_ample (entry_ty E) (length (ss_iter d) + length (ss_iter t))"
    by (rule v2_ample_mono [OF _ room]) (simp add: d(3))
  then obtain r where "add_where E (\<lambda>h. \<not> ss_contains_hashed E s h) (ss_iter_hashed t) d = Ok r" "sm_inv E r"
      "ss_iter r = ss_iter d @ filter (\<lambda>x. x \<notin> set (ss_iter s)) (ss_iter t)"
    using add_absent [OF d(2) inv(2,1)] d(3) by auto
  with d inv show ?thesis by (auto simp: set_bit_xor_def yields_def ss_is_empty_iff)
qed

lemma set_sub_yields:
  assumes "sm_inv E s" "sm_inv E t" "v2_ample (entry_ty E) (length (ss_iter s))"
  shows "yields E (set_sub E s (Some t)) (filter (\<lambda>x. x \<notin> set (ss_iter t)) (ss_iter s))"
proof -
  obtain r where "add_where E (\<lambda>h. \<not> ss_contains_hashed E t h) (ss_iter_hashed s) (ss_new E) = Ok r" "sm_inv E r"
    "ss_iter r = filter (\<lambda>x. x \<notin> set (ss_iter t)) (ss_iter s)" using not_in_where [OF assms] .
  with assms show ?thesis by (auto simp: set_sub_def yields_def ss_is_empty_iff ss_new_inv)
qed

end

subsection \<open>A set that is changed and iterated over\<close>

text \<open>What the caller sees after a method: the cell is replaced if the method returns, and is the same if it fails.\<close>

definition after :: "('a, 't) set_cell \<Rightarrow> ('a, 't) set_cell set_result \<Rightarrow> ('a, 't) set_cell" where
  "after c r = (case r of Ok c' \<Rightarrow> c' | _ \<Rightarrow> c)"

definition arg_inv :: "('a, 't) map_env \<Rightarrow> ('a, 't) iter_arg \<Rightarrow> bool" where
  "arg_inv E other = (case other of SetArg s \<Rightarrow> sm_inv E s | _ \<Rightarrow> True)"

text \<open>The steps of a program on a set: an iteration starts or stops, or a method that changes the set is called, successful
  or not.\<close>

inductive set_step :: "('a, 't) map_env \<Rightarrow> ('a \<Rightarrow> bool) \<Rightarrow> ('a, 't) set_cell \<Rightarrow> ('a, 't) set_cell \<Rightarrow> bool"
  for E hashable where
  step_start: "set_step E hashable c (iter_start c)"
| step_stop: "sc_borrows c > 0 \<Longrightarrow> set_step E hashable c (iter_stop c)"
| step_clear: "set_step E hashable c (after c (set_clear E c))"
| step_add: "set_step E hashable c (after c (set_add E hashable c x))"
| step_update: "arg_inv E other \<Longrightarrow> set_step E hashable c (snd (set_update E hashable same c other))"
| step_remove: "set_step E hashable c (after c (set_remove E hashable c x))"
| step_discard: "set_step E hashable c (after c (set_discard E hashable c x))"
| step_pop: "set_step E hashable c (after c (bind_outcome (set_pop E c) (\<lambda>(_, c'). Ok c')))"

lemmas set_method_defs = set_clear_def set_add_def set_update_def set_remove_def set_discard_def set_pop_def after_def

lemma set_mut_cases:
  obtains (frozen) "sc_frozen c" "set_mut c = Err CannotMutateImmutableValue"
  | (borrowed) "\<not> sc_frozen c" "sc_borrows c > 0" "set_mut c = Err MutationDuringIteration"
  | (free) "\<not> sc_frozen c" "sc_borrows c = 0" "set_mut c = Ok (sc_content c)"
  by (cases "sc_frozen c"; cases "sc_borrows c > 0") (auto simp: set_mut_def)

lemma set_step_blocked:
  assumes "set_step E hashable c c'" "sc_frozen c \<or> sc_borrows c > 0"
  shows "sc_content c' = sc_content c \<and> sc_frozen c' = sc_frozen c"
  using assms
proof (cases rule: set_step.cases)
qed (auto simp: iter_start_def iter_stop_def set_method_defs set_mut_def)

context map_laws
begin

lemma ss_remove_hashed_list:
  assumes "sm_inv E s"
  obtains s' where "ss_shift_remove_hashed E s (hashed_new (key_hash E) x) = Some (x \<in> set (ss_iter s), s')" "sm_inv E s'"
    "ss_iter s' = filter (\<lambda>y. y \<noteq> x) (ss_iter s)"
proof -
  obtain s' where s': "sm_shift_remove_entry E s x = Some (map_option (\<lambda>v. (x, v)) (map_of (sm_iter s) x), s')" "sm_inv E s'"
    "sm_iter s' = alist_remove x (sm_iter s)" using sm_remove_list [OF assms] by blast
  have "map_of (sm_iter s) x \<noteq> None \<longleftrightarrow> x \<in> set (ss_iter s)" by (auto simp: ss_iter_def map_of_eq_None_iff)
  with s' show ?thesis
    by (intro that [of s']) (auto simp: ss_shift_remove_hashed_def sm_shift_remove_hashed_def
        sm_shift_remove_entry_def ss_iter_def keys_alist_remove sm_invD(3) [OF assms])
qed

lemma ss_pop_list:
  assumes "sm_inv E s"
  obtains s' where "ss_pop E s = Some (if ss_iter s = [] then None else Some (last (ss_iter s)), s')" "sm_inv E s'"
    "ss_iter s' = butlast (ss_iter s)"
  using sm_pop_list [OF assms] by (auto simp: ss_pop_def ss_iter_def last_map map_butlast)

lemma ss_clear_inv: "sm_inv E s \<Longrightarrow> sm_inv E (ss_clear E s) \<and> ss_iter (ss_clear E s) = []"
  using sm_clear_inv [of s] by (simp add: ss_clear_def ss_iter_def)

lemma ss_insert_hashed_inv:
  "sm_inv E s \<Longrightarrow> ss_insert_hashed E s (hashed_new (key_hash E) x) = Some (fresh, s') \<Longrightarrow> sm_inv E s'"
  using ss_insert_list [of s x fresh s'] by (simp add: ss_insert_hashed_def ss_insert_def sm_insert_def)

lemma update_items_inv: "sm_inv E s \<Longrightarrow> update_items E hashable xs s = (r, s') \<Longrightarrow> sm_inv E s'"
  by (induction xs arbitrary: s)
    (auto simp: get_hashed_def split: if_splits option.splits intro: ss_insert_hashed_inv)

lemma add_items_inv: "sm_inv E s \<Longrightarrow> add_items E hashable xs s = Ok s' \<Longrightarrow> sm_inv E s'"
  by (induction xs arbitrary: s)
    (auto simp: get_hashed_def or_panic_def bind_outcome_Ok_iff split: if_splits option.splits prod.splits intro: ss_insert_hashed_inv)

lemma set_from_value_inv: "arg_inv E other \<Longrightarrow> set_from_value E hashable other = Ok s \<Longrightarrow> sm_inv E s"
  using add_items_inv [OF ss_new_inv(1)]
  by (auto simp: set_from_value_def arg_inv_def bind_outcome_Ok_iff split: iter_arg.splits)

lemma set_update_inv:
  assumes "sm_inv E (sc_content c)" "arg_inv E other"
  shows "sm_inv E (sc_content (snd (set_update E hashable same c other)))"
  using assms set_from_value_inv update_items_inv [of "sc_content c" hashable]
  by (cases c rule: set_mut_cases) (auto simp: set_update_def split: outcome.split prod.split)

lemma set_step_inv: "set_step E hashable c c' \<Longrightarrow> sm_inv E (sc_content c) \<Longrightarrow> sm_inv E (sc_content c')"
proof (induction rule: set_step.induct)
  case (step_clear c)
  then show ?case by (cases c rule: set_mut_cases) (simp_all add: set_clear_def after_def ss_clear_inv)
next
  case (step_add c x)
  then show ?case
    by (cases c rule: set_mut_cases)
      (auto simp: set_add_def after_def get_hashed_def or_panic_def split: option.split intro: ss_insert_hashed_inv)
next
  case (step_update other c same)
  then show ?case by (simp add: set_update_inv)
next
  case (step_remove c x)
  obtain s' where "ss_shift_remove_hashed E (sc_content c) (hashed_new (key_hash E) x) = Some (x \<in> set (ss_iter (sc_content c)), s')"
    "sm_inv E s'" using ss_remove_hashed_list [OF step_remove] .
  then show ?case using step_remove
    by (cases c rule: set_mut_cases) (auto simp: set_remove_def after_def get_hashed_def or_panic_def)
next
  case (step_discard c x)
  obtain s' where "ss_shift_remove_hashed E (sc_content c) (hashed_new (key_hash E) x) = Some (x \<in> set (ss_iter (sc_content c)), s')"
    "sm_inv E s'" using ss_remove_hashed_list [OF step_discard] .
  then show ?case using step_discard
    by (cases c rule: set_mut_cases) (auto simp: set_discard_def after_def get_hashed_def or_panic_def)
next
  case (step_pop c)
  obtain s' where "ss_pop E (sc_content c) = Some (if ss_iter (sc_content c) = [] then None else Some (last (ss_iter (sc_content c))), s')"
    "sm_inv E s'" using ss_pop_list [OF step_pop] .
  then show ?case using step_pop
    by (cases c rule: set_mut_cases) (auto simp: set_pop_def after_def or_panic_def)
qed (simp_all add: iter_start_def iter_stop_def)

end

definition cell_yields :: "('a, 't) map_env \<Rightarrow> ('a, 't) set_cell set_result \<Rightarrow> 'a list \<Rightarrow> bool" where
  "cell_yields E r xs \<longleftrightarrow> (case r of Ok c \<Rightarrow> sm_inv E (sc_content c) \<and> ss_iter (sc_content c) = xs | _ \<Rightarrow> False)"

context map_laws
begin

lemma update_items_add:
  "add_items E hashable xs s = Ok r \<Longrightarrow> update_items E hashable xs s = (Ok (), r)"
  by (induction xs arbitrary: s)
    (auto simp: get_hashed_def or_panic_def bind_outcome_Ok_iff split: if_splits option.splits prod.splits)

lemma set_update_yields:
  assumes mut: "set_mut c = Ok s" and inv: "sm_inv E s" and other: "arg_valid E hashable other"
    and room: "v2_ample (entry_ty E) (length (ss_iter s) + arg_size other)"
  shows "\<exists>c'. set_update E hashable False c other = (Ok (), c') \<and>
    cell_yields E (Ok c') (ss_iter s @ filter (\<lambda>x. x \<notin> set (ss_iter s)) (arg_items other))"
proof (cases "ss_iter s = []")
  case True
  obtain t where "set_from_value E hashable other = Ok t" "sm_inv E t" "ss_iter t = arg_items other"
    using set_from_value_ok [OF other] room True by auto
  with True show ?thesis by (simp add: set_update_def mut cell_yields_def ss_is_empty_iff inv)
next
  case False
  obtain xs where xs: "arg_iterate other = Ok xs" "dedup xs = arg_items other" "length xs = arg_size other" "list_all hashable xs"
    using arg_iterate_ok [OF other] .
  then obtain r where r: "add_items E hashable xs s = Ok r" "sm_inv E r"
    "ss_iter r = ss_iter s @ filter (\<lambda>x. x \<notin> set (ss_iter s)) (arg_items other)"
    using add_items_ok [OF inv xs(4)] room by auto
  from update_items_add [OF r(1)] r xs False show ?thesis by (simp add: set_update_def mut cell_yields_def ss_is_empty_iff inv)
qed

lemma set_add_yields:
  assumes mut: "set_mut c = Ok s" and inv: "sm_inv E s" and x: "hashable x" and room: "v2_ample (entry_ty E) (Suc (length (ss_iter s)))"
  shows "cell_yields E (set_add E hashable c x) (if x \<in> set (ss_iter s) then ss_iter s else ss_iter s @ [x])"
proof -
  obtain s' where "ss_insert_hashed E s (hashed_new (key_hash E) x) = Some (x \<notin> set (ss_iter s), s')" "sm_inv E s'"
    "ss_iter s' = (if x \<in> set (ss_iter s) then ss_iter s else ss_iter s @ [x])" using ss_insert_hashed_total [OF inv room] .
  with x show ?thesis by (simp add: set_add_def mut cell_yields_def get_hashed_def or_panic_def)
qed

lemma set_remove_yields:
  assumes mut: "set_mut c = Ok s" and inv: "sm_inv E s" and x: "hashable x"
  shows "(if x \<in> set (ss_iter s) then cell_yields E (set_remove E hashable c x) (filter (\<lambda>y. y \<noteq> x) (ss_iter s))
      else set_remove E hashable c x = Err NotFound) \<and>
    cell_yields E (set_discard E hashable c x) (filter (\<lambda>y. y \<noteq> x) (ss_iter s))"
proof -
  obtain s' where "ss_shift_remove_hashed E s (hashed_new (key_hash E) x) = Some (x \<in> set (ss_iter s), s')" "sm_inv E s'"
    "ss_iter s' = filter (\<lambda>y. y \<noteq> x) (ss_iter s)" using ss_remove_hashed_list [OF inv] .
  with x show ?thesis by (simp add: set_remove_def set_discard_def mut cell_yields_def get_hashed_def or_panic_def)
qed

lemma set_pop_yields:
  assumes mut: "set_mut c = Ok s" and inv: "sm_inv E s"
  shows "if ss_iter s = [] then set_pop E c = Err PopFromEmptySet
    else \<exists>c'. set_pop E c = Ok (last (ss_iter s), c') \<and> cell_yields E (Ok c') (butlast (ss_iter s))"
proof -
  obtain s' where "ss_pop E s = Some (if ss_iter s = [] then None else Some (last (ss_iter s)), s')" "sm_inv E s'"
    "ss_iter s' = butlast (ss_iter s)" using ss_pop_list [OF inv] .
  then show ?thesis by (simp add: set_pop_def mut cell_yields_def or_panic_def)
qed

end

lemma blocked_steps:
  assumes "(\<lambda>a b. set_step E hashable a b \<and> (sc_frozen a \<or> sc_borrows a > 0))\<^sup>*\<^sup>* c c'"
  shows "sc_content c' = sc_content c \<and> sc_frozen c' = sc_frozen c"
  using assms by (induction rule: rtranclp_induct) (auto dest: set_step_blocked)

lemma blocked_methods:
  assumes "set_mut c = Err e"
  shows "set_clear E c = Err e \<and> set_add E hashable c x = Err e \<and> set_update E hashable same c other = (Err e, c) \<and>
    set_remove E hashable c x = Err e \<and> set_discard E hashable c x = Err e \<and> set_pop E c = Err e"
  by (simp add: set_method_defs assms)

subsection \<open>Properties\<close>

text \<open>C30. The methods of a set that return a new set or a truth value, and the function \<open>set\<close>, for a set or another
  iterable argument with hashable items: none fails; a union keeps the items of the set and appends the new ones in the order of
  the argument, an intersection and a difference keep the order of the set, a symmetric difference is the items of the set that
  are not in the argument and then the reverse, and the two tests decide inclusion.\<close>

theorem set_methods_exact:
  fixes E :: "('a, 't) map_env"
  assumes "hash_table_laws (table E)" and "sm_inv E this" and "arg_valid E hashable other"
    and "v2_ample (entry_ty E) (length (ss_iter this) + arg_size other)"
  shows "yields E (set_fn E hashable (Some other)) (arg_items other) \<and>
    yields E (set_union E hashable this other) (ss_iter this @ filter (\<lambda>x. x \<notin> set (ss_iter this)) (arg_items other)) \<and>
    yields E (set_intersection E hashable this other) (filter (\<lambda>x. x \<in> set (arg_items other)) (ss_iter this)) \<and>
    yields E (set_difference E hashable this other) (filter (\<lambda>x. x \<notin> set (arg_items other)) (ss_iter this)) \<and>
    yields E (set_symmetric_difference E hashable this other)
      (filter (\<lambda>x. x \<notin> set (arg_items other)) (ss_iter this) @ filter (\<lambda>x. x \<notin> set (ss_iter this)) (arg_items other)) \<and>
    set_issubset E hashable this other = Ok (set (ss_iter this) \<subseteq> set (arg_items other)) \<and>
    set_issuperset E hashable this other = Ok (set (arg_items other) \<subseteq> set (ss_iter this))"
proof -
  note laws = map_laws.intro [OF assms(1)]
  have room: "v2_ample (entry_ty E) (length (ss_iter this))" "v2_ample (entry_ty E) (arg_size other)"
    by (rule v2_ample_mono [OF _ assms(4)], simp)+
  note facts = map_laws.set_fn_yields [OF laws assms(3) room(2)] map_laws.set_union_yields [OF laws assms(2-4)]
    map_laws.set_intersection_yields [OF laws assms(2,3) room] map_laws.set_difference_yields [OF laws assms(2,3) room]
    map_laws.set_symmetric_difference_yields [OF laws assms(2-4)] map_laws.set_issubset_iff [OF laws assms(2,3) room(2)]
    map_laws.set_issuperset_iff [OF laws assms(2,3)]
  show ?thesis by (intro conjI facts)
qed

theorem set_methods_exact_witness:
  "\<exists>s. ss_from_iter demo_env 0 [4, 2, 7] = Some s \<and>
    yields demo_env (set_union demo_env (\<lambda>x. x < 100) s (ItemsArg [9, 7, 9])) [4, 2, 7, 9] \<and>
    yields demo_env (set_symmetric_difference demo_env (\<lambda>x. x < 100) s (ItemsArg [9, 7, 9])) [4, 2, 9] \<and>
    set_issuperset demo_env (\<lambda>x. x < 100) s (ItemsArg [9, 7, 9]) = Ok False"
proof -
  from demo_set [of "[4, 2, 7]"] obtain s where
    s: "ss_from_iter demo_env 0 [4, 2, 7] = Some s" "sm_inv demo_env s" "ss_iter s = [4, 2, 7]" by auto
  have arg: "arg_valid demo_env (\<lambda>x. x < 100) (ItemsArg [9, 7, 9])" by (simp add: arg_valid_def arg_items_def)
  have "v2_ample (entry_ty demo_env) (length (ss_iter s) + arg_size (ItemsArg [9, 7, 9 :: nat] :: (nat, ltable) iter_arg))"
    by (rule demo_env_ample [THEN conjunct1]) (simp add: s(3) arg_size_def)
  from set_methods_exact [OF demo_env_laws(1) s(2) arg this] s show ?thesis by (simp add: arg_items_def)
qed

text \<open>C32. The operators of sets: \<open>|\<close>, \<open>^\<close> and \<open>-\<close> give the items of the methods \<open>union\<close>, \<open>symmetric_difference\<close> and \<open>difference\<close>,
  in the same order; \<open>&\<close> gives the items of \<open>intersection\<close> in the order of the right operand; and \<open>==\<close> compares the sets of items,
  whatever their order. With a right operand that is no set the four operators fail and \<open>==\<close> is false.\<close>

theorem set_operators_exact:
  fixes E :: "('a, 't) map_env"
  assumes "hash_table_laws (table E)" and "sm_inv E s" and "sm_inv E t"
    and "v2_ample (entry_ty E) (length (ss_iter s) + length (ss_iter t))"
  shows "yields E (set_bit_or E s (Some t)) (ss_iter s @ filter (\<lambda>x. x \<notin> set (ss_iter s)) (ss_iter t)) \<and>
    yields E (set_bit_and E s (Some t)) (filter (\<lambda>x. x \<in> set (ss_iter s)) (ss_iter t)) \<and>
    yields E (set_bit_xor E s (Some t))
      (filter (\<lambda>x. x \<notin> set (ss_iter t)) (ss_iter s) @ filter (\<lambda>x. x \<notin> set (ss_iter s)) (ss_iter t)) \<and>
    yields E (set_sub E s (Some t)) (filter (\<lambda>x. x \<notin> set (ss_iter t)) (ss_iter s)) \<and>
    (set_equals E s (Some t) \<longleftrightarrow> set (ss_iter s) = set (ss_iter t)) \<and>
    set_bit_or E s None = Err UnsupportedOperand \<and> set_bit_and E s None = Err UnsupportedOperand \<and>
    set_bit_xor E s None = Err UnsupportedOperand \<and> set_sub E s None = Err UnsupportedOperand \<and> \<not> set_equals E s None"
proof -
  note laws = map_laws.intro [OF assms(1)]
  have room: "v2_ample (entry_ty E) (length (ss_iter s))" "v2_ample (entry_ty E) (length (ss_iter t))"
    by (rule v2_ample_mono [OF _ assms(4)], simp)+
  note facts = map_laws.set_bit_or_yields [OF laws assms(2-4)] map_laws.set_bit_and_yields [OF laws assms(2,3) room(2)]
    map_laws.set_bit_xor_yields [OF laws assms(2-4)] map_laws.set_sub_yields [OF laws assms(2,3) room(1)]
    map_laws.equals_small_set_iff [OF laws assms(2,3)]
  show ?thesis
    by (intro conjI facts(1-4)) (simp_all add: set_equals_def facts(5) set_bit_or_def set_bit_and_def set_bit_xor_def set_sub_def)
qed

theorem set_operators_exact_witness:
  "\<exists>s t. ss_from_iter demo_env 0 [1, 2, 3] = Some s \<and> ss_from_iter demo_env 0 [4, 3, 1] = Some t \<and>
    yields demo_env (set_bit_and demo_env s (Some t)) [3, 1] \<and> yields demo_env (set_bit_xor demo_env s (Some t)) [2, 4] \<and>
    \<not> set_equals demo_env s (Some t)"
proof -
  from demo_set [of "[1, 2, 3]"] obtain s where
    s: "ss_from_iter demo_env 0 [1, 2, 3] = Some s" "sm_inv demo_env s" "ss_iter s = [1, 2, 3]" by auto
  from demo_set [of "[4, 3, 1]"] obtain t where
    t: "ss_from_iter demo_env 0 [4, 3, 1] = Some t" "sm_inv demo_env t" "ss_iter t = [4, 3, 1]" by auto
  have "v2_ample (entry_ty demo_env) (length (ss_iter s) + length (ss_iter t))"
    by (rule demo_env_ample [THEN conjunct1]) (simp add: s(3) t(3))
  from set_operators_exact [OF demo_env_laws(1) s(2) t(2) this] s t show ?thesis by auto
qed
text \<open>C31. The methods that change a set, on a set that is neither frozen nor iterated over, with hashable arguments: \<open>add\<close> appends a
  new item and keeps a known one in its place; \<open>update\<close> appends the new items of its argument in order, and on the set itself does
  nothing; \<open>remove\<close> and \<open>discard\<close> take the item out and keep the order of the others, and \<open>remove\<close> fails exactly when it is absent; \<open>pop\<close>
  takes the last item and fails on an empty set; \<open>clear\<close> empties the set.\<close>

theorem set_mutations_exact:
  fixes E :: "('a, 't) map_env"
  assumes "hash_table_laws (table E)" and "\<not> sc_frozen c" and "sc_borrows c = 0" and "sm_inv E (sc_content c)"
    and "hashable x" and "arg_valid E hashable other" and "xs = ss_iter (sc_content c)"
    and "v2_ample (entry_ty E) (Suc (length xs + arg_size other))"
  shows "cell_yields E (set_add E hashable c x) (if x \<in> set xs then xs else xs @ [x]) \<and>
    (\<exists>c'. set_update E hashable False c other = (Ok (), c') \<and>
       cell_yields E (Ok c') (xs @ filter (\<lambda>x. x \<notin> set xs) (arg_items other))) \<and>
    set_update E hashable True c other = (Ok (), c) \<and>
    (if x \<in> set xs then cell_yields E (set_remove E hashable c x) (filter (\<lambda>y. y \<noteq> x) xs)
     else set_remove E hashable c x = Err NotFound) \<and>
    cell_yields E (set_discard E hashable c x) (filter (\<lambda>y. y \<noteq> x) xs) \<and>
    (if xs = [] then set_pop E c = Err PopFromEmptySet
     else \<exists>c'. set_pop E c = Ok (last xs, c') \<and> cell_yields E (Ok c') (butlast xs)) \<and>
    cell_yields E (set_clear E c) []"
proof -
  note laws = map_laws.intro [OF assms(1)]
  have mut: "set_mut c = Ok (sc_content c)" using assms(2,3) by (simp add: set_mut_def)
  have room: "v2_ample (entry_ty E) (Suc (length (ss_iter (sc_content c))))"
    "v2_ample (entry_ty E) (length (ss_iter (sc_content c)) + arg_size other)"
    by (rule v2_ample_mono [OF _ assms(8)], simp add: assms(7))+
  note facts = map_laws.set_add_yields [where hashable = hashable and x = x, OF laws mut assms(4,5) room(1)]
    map_laws.set_update_yields [OF laws mut assms(4,6) room(2)]
    map_laws.set_remove_yields [where hashable = hashable and x = x, OF laws mut assms(4,5)] map_laws.set_pop_yields [OF laws mut assms(4)]
  show ?thesis unfolding assms(7)
    by (intro conjI facts(1,2) facts(3) [THEN conjunct1] facts(3) [THEN conjunct2] facts(4))
      (simp_all add: set_update_def set_clear_def mut cell_yields_def map_laws.ss_clear_inv [OF laws assms(4)])
qed

theorem set_mutations_exact_witness:
  "\<exists>s. ss_from_iter demo_env 0 [4, 2, 7] = Some s \<and>
    (let c = \<lparr>sc_frozen = False, sc_borrows = 0, sc_content = s\<rparr> in
      cell_yields demo_env (set_add demo_env (\<lambda>_. True) c 9) [4, 2, 7, 9] \<and>
      set_remove demo_env (\<lambda>_. True) c 9 = Err NotFound \<and>
      (\<exists>c'. set_pop demo_env c = Ok (7, c') \<and> cell_yields demo_env (Ok c') [4, 2]))"
proof -
  from demo_set [of "[4, 2, 7]"] obtain s where
    s: "ss_from_iter demo_env 0 [4, 2, 7] = Some s" "sm_inv demo_env s" "ss_iter s = [4, 2, 7]" by auto
  have arg: "arg_valid demo_env (\<lambda>_. True) (ItemsArg [9])" by (simp add: arg_valid_def arg_items_def)
  have room: "v2_ample (entry_ty demo_env) (Suc (length [4 :: nat, 2, 7] + arg_size (ItemsArg [9 :: nat] :: (nat, ltable) iter_arg)))"
    by (rule demo_env_ample [THEN conjunct1]) (simp add: arg_size_def)
  show ?thesis
    using set_mutations_exact [OF demo_env_laws(1), of "\<lparr>sc_frozen = False, sc_borrows = 0, sc_content = s\<rparr>" "\<lambda>_. True" 9
        "ItemsArg [9]" "[4, 2, 7]"] arg room s by (simp add: Let_def)
qed

text \<open>C29. Iteration over a set is stable. In every state that a program reaches by starting and stopping iterations and calling the
  methods that change the set, the set is valid; from there, while the set is frozen or some iteration is active, whatever is
  called, the iterator finds the same item at every position; and while this is so every one of the methods fails, a frozen set with
  the error for immutable values and a set under iteration with the error for a mutation during iteration, and leaves the set as it is.\<close>

theorem set_iteration_stable:
  fixes E :: "('a, 't) map_env"
  assumes "hash_table_laws (table E)" and "sm_inv E (sc_content c\<^sub>0)" and "(set_step E hashable)\<^sup>*\<^sup>* c\<^sub>0 c"
    and "(\<lambda>a b. set_step E hashable a b \<and> (sc_frozen a \<or> sc_borrows a > 0))\<^sup>*\<^sup>* (iter_start c) c'"
  shows "sm_inv E (sc_content c') \<and> (\<forall>i. iter_next c' i = iter_next c i) \<and>
    (sc_frozen c' \<or> sc_borrows c' > 0 \<longrightarrow>
      (let e = (if sc_frozen c' then CannotMutateImmutableValue else MutationDuringIteration) in
        set_clear E c' = Err e \<and> set_add E hashable c' x = Err e \<and> set_update E hashable same c' other = (Err e, c') \<and>
        set_remove E hashable c' x = Err e \<and> set_discard E hashable c' x = Err e \<and> set_pop E c' = Err e))"
proof -
  note laws = map_laws.intro [OF assms(1)]
  have inv: "sm_inv E (sc_content c)"
    using assms(3,2) by (induction rule: rtranclp_induct) (auto dest: map_laws.set_step_inv [OF laws])
  have same: "sc_content c' = sc_content c"
    using blocked_steps [OF assms(4)] by (simp add: iter_start_def split: if_splits)
  have "set_mut c' = Err (if sc_frozen c' then CannotMutateImmutableValue else MutationDuringIteration)"
    if "sc_frozen c' \<or> sc_borrows c' > 0" using that by (auto simp: set_mut_def)
  from blocked_methods [OF this] inv same show ?thesis by (simp add: iter_next_def Let_def)
qed

theorem set_iteration_stable_witness:
  "\<exists>s c'. ss_from_iter demo_env 0 [4, 2, 7] = Some s \<and>
    (let c = \<lparr>sc_frozen = False, sc_borrows = 0, sc_content = s\<rparr> in
      set_step demo_env (\<lambda>_. True) (iter_start c) c' \<and> iter_next c' 2 = Some 7 \<and>
      set_add demo_env (\<lambda>_. True) c' 9 = Err MutationDuringIteration)"
proof -
  from demo_set [of "[4, 2, 7]"] obtain s where
    s: "ss_from_iter demo_env 0 [4, 2, 7] = Some s" "sm_inv demo_env s" "ss_iter s = [4, 2, 7]" by auto
  define c where "c = \<lparr>sc_frozen = False, sc_borrows = 0, sc_content = s\<rparr>"
  let ?c = "after (iter_start c) (set_clear demo_env (iter_start c))"
  have step: "set_step demo_env (\<lambda>_. True) (iter_start c) ?c" by (rule step_clear)
  have c: "sc_borrows (iter_start c) > 0" "sc_borrows ?c > 0" "\<not> sc_frozen ?c" "sm_inv demo_env (sc_content c)"
    using s by (simp_all add: c_def iter_start_def set_clear_def set_mut_def after_def)
  have "iter_next ?c 2 = iter_next c 2 \<and> set_add demo_env (\<lambda>_. True) ?c 9 = Err MutationDuringIteration"
    using set_iteration_stable [OF demo_env_laws(1) c(4), of "\<lambda>_. True" c ?c 9] step c by (auto simp: Let_def)
  then show ?thesis using s step unfolding Let_def c_def [symmetric] by (intro exI [of _ s] exI [of _ ?c]) (simp add: iter_next_def c_def)
qed

end
