(* ===== verification/Dict_Type.thy ===== *)
theory Dict_Type
  imports Set_Type
begin

text \<open>
  Dictionaries of Starlark: \<^verbatim>\<open>values/types/dict/value.rs\<close>, \<^verbatim>\<open>refs.rs\<close>, \<^verbatim>\<open>methods.rs\<close> and \<^verbatim>\<open>globals.rs\<close>, on top of \<open>SmallMap\<close>, and the
  comparison of maps of \<^verbatim>\<open>values/comparison.rs\<close>.

  As for sets, a dictionary is a cell with its content, a flag for a frozen one and the state of its \<open>RefCell\<close>: the number of iterations that
  borrow it, and whether it is borrowed for mutation. Keys and values are of any type \<open>'a\<close>, and \<open>hashable\<close> says which values have a hash.
  The methods work on one cell. Only \<open>update\<close> can meet the dictionary that it changes among its arguments, so that it works on a store of
  cells: \<open>view\<close> says of a value which values it yields when it is iterated over, or which cell it is a reference to.
\<close>

subsection \<open>Values\<close>

datatype dict_error = KeyNotHashable | CannotMutateImmutableDict | DictMutationDuringIteration | KeyNotFound | PopitemOnEmpty
  | NonPair | ValueNotIterable | UnsupportedDictOperand | ValueComparisonError

type_synonym 'b dict_result = "(dict_error, 'b) outcome"

type_synonym ('a, 't) dict_map = "('a, 'a, 't) small_map"

record ('a, 't) dict_cell =
  dc_frozen :: bool
  dc_borrows :: nat
  dc_writing :: bool
  dc_content :: "('a, 't) dict_map"

definition key_hashed :: "('a, 't) map_env \<Rightarrow> ('a \<Rightarrow> bool) \<Rightarrow> 'a \<Rightarrow> 'a hashed dict_result" where
  "key_hashed E hashable v = (if hashable v then Ok (hashed_new (key_hash E) v) else Err KeyNotHashable)"

text \<open>\<open>DictMut::from_value\<close> with \<open>try_borrow_mut\<close>.\<close>

definition dict_mut :: "('a, 't) dict_cell \<Rightarrow> ('a, 't) dict_map dict_result" where
  "dict_mut c =
     (if dc_frozen c then Err CannotMutateImmutableDict
      else if dc_borrows c > 0 \<or> dc_writing c then Err DictMutationDuringIteration
      else Ok (dc_content c))"

text \<open>\<open>DictRef::from_value\<close> and the start of an iteration: \<open>RefCell::borrow\<close> panics when the cell is borrowed for mutation.\<close>

definition dict_ref :: "('a, 't) dict_cell \<Rightarrow> ('a, 't) dict_map dict_result" where
  "dict_ref c = (if \<not> dc_frozen c \<and> dc_writing c then Panic else Ok (dc_content c))"

definition dict_iter_start :: "('a, 't) dict_cell \<Rightarrow> ('a, 't) dict_cell dict_result" where
  "dict_iter_start c =
     (if dc_frozen c then Ok c
      else if dc_writing c then Panic
      else Ok (c\<lparr>dc_borrows := dc_borrows c + 1\<rparr>))"

definition dict_iter_stop :: "('a, 't) dict_cell \<Rightarrow> ('a, 't) dict_cell" where
  "dict_iter_stop c = (if dc_frozen c then c else c\<lparr>dc_borrows := dc_borrows c - 1\<rparr>)"

definition dict_iter_next :: "('a, 't) dict_cell \<Rightarrow> nat \<Rightarrow> 'a option" where
  "dict_iter_next c i = (let ks = sm_keys (dc_content c) in if i < length ks then Some (ks ! i) else None)"

subsection \<open>Methods\<close>

text \<open>\<open>none\<close> is the value \<open>None\<close>.\<close>

definition dict_get ::
  "('a, 't) map_env \<Rightarrow> ('a \<Rightarrow> bool) \<Rightarrow> 'a \<Rightarrow> ('a, 't) dict_map \<Rightarrow> 'a \<Rightarrow> 'a option \<Rightarrow> 'a dict_result" where
  "dict_get E hashable none m key dflt =
     bind_outcome (key_hashed E hashable key) (\<lambda>h.
       case sm_get_hashed E m h of None \<Rightarrow> Ok (case dflt of Some d \<Rightarrow> d | None \<Rightarrow> none) | Some x \<Rightarrow> Ok x)"

definition dict_items :: "('a, 't) dict_map \<Rightarrow> ('a \<times> 'a) list" where
  "dict_items m = sm_iter m"

definition dict_keys :: "('a, 't) dict_map \<Rightarrow> 'a list" where
  "dict_keys m = sm_keys m"

definition dict_values :: "('a, 't) dict_map \<Rightarrow> 'a list" where
  "dict_values m = sm_values m"

definition dict_clear :: "('a, 't) map_env \<Rightarrow> ('a, 't) dict_cell \<Rightarrow> ('a, 't) dict_cell dict_result" where
  "dict_clear E c = bind_outcome (dict_mut c) (\<lambda>m. Ok (c\<lparr>dc_content := sm_clear E m\<rparr>))"

definition dict_pop ::
  "('a, 't) map_env \<Rightarrow> ('a \<Rightarrow> bool) \<Rightarrow> ('a, 't) dict_cell \<Rightarrow> 'a \<Rightarrow> 'a option \<Rightarrow> ('a \<times> ('a, 't) dict_cell) dict_result" where
  "dict_pop E hashable c key dflt =
     bind_outcome (dict_mut c) (\<lambda>m.
     bind_outcome (key_hashed E hashable key) (\<lambda>h.
     bind_outcome (or_panic (sm_shift_remove_hashed E m h)) (\<lambda>(r, m').
       case r of
         Some x \<Rightarrow> Ok (x, c\<lparr>dc_content := m'\<rparr>)
       | None \<Rightarrow> (case dflt of Some v \<Rightarrow> Ok (v, c\<lparr>dc_content := m'\<rparr>) | None \<Rightarrow> Err KeyNotFound))))"

definition dict_popitem :: "('a, 't) map_env \<Rightarrow> ('a, 't) dict_cell \<Rightarrow> (('a \<times> 'a) \<times> ('a, 't) dict_cell) dict_result" where
  "dict_popitem E c =
     bind_outcome (dict_mut c) (\<lambda>m.
     bind_outcome (or_panic (sm_shift_remove_index E m 0)) (\<lambda>(r, m').
       case r of Some kv \<Rightarrow> Ok (kv, c\<lparr>dc_content := m'\<rparr>) | None \<Rightarrow> Err PopitemOnEmpty))"

definition dict_setdefault ::
  "('a, 't) map_env \<Rightarrow> ('a \<Rightarrow> bool) \<Rightarrow> 'a \<Rightarrow> ('a, 't) dict_cell \<Rightarrow> 'a \<Rightarrow> 'a option \<Rightarrow> ('a \<times> ('a, 't) dict_cell) dict_result" where
  "dict_setdefault E hashable none c key dflt =
     bind_outcome (dict_mut c) (\<lambda>m.
     bind_outcome (key_hashed E hashable key) (\<lambda>h.
       case sm_entry_hashed E m h of
         Occupied i \<Rightarrow> Ok (snd (vm_get_unchecked (entries m) i), c)
       | Vacant k \<Rightarrow>
           let d = (case dflt of Some d \<Rightarrow> d | None \<Rightarrow> none)
           in bind_outcome (or_panic (sm_insert_hashed_unique_unchecked E m k d)) (\<lambda>m'. Ok (d, c\<lparr>dc_content := m'\<rparr>))))"

text \<open>
  \<open>update\<close> works on a store of cells: the values met by it can be references to dictionaries, also to \<open>this\<close>. A failure leaves
  the insertions before it, so the store is returned beside the result.
\<close>

datatype ('a, 'p) iterable = Yields "'a list" | DictObj 'p | NotIterable

type_synonym ('a, 't, 'p) dict_store = "'p \<Rightarrow> ('a, 't) dict_cell"

definition set_content :: "'p \<Rightarrow> ('a, 't) dict_map \<Rightarrow> ('a, 't, 'p) dict_store \<Rightarrow> ('a, 't, 'p) dict_store" where
  "set_content p m H = H(p := (H p)\<lparr>dc_content := m\<rparr>)"

definition set_writing :: "'p \<Rightarrow> bool \<Rightarrow> ('a, 't, 'p) dict_store \<Rightarrow> ('a, 't, 'p) dict_store" where
  "set_writing p b H = H(p := (H p)\<lparr>dc_writing := b\<rparr>)"

fun insert_hashed_all ::
  "('a, 't) map_env \<Rightarrow> ('a hashed \<times> 'a) list \<Rightarrow> ('a, 't) dict_map \<Rightarrow> unit dict_result \<times> ('a, 't) dict_map" where
  "insert_hashed_all E [] m = (Ok (), m)"
| "insert_hashed_all E ((k, v) # kvs) m =
     (case sm_insert_hashed E m k v of None \<Rightarrow> (Panic, m) | Some (_, m') \<Rightarrow> insert_hashed_all E kvs m')"

definition insert_into ::
  "('a, 't) map_env \<Rightarrow> ('a hashed \<times> 'a) list \<Rightarrow> 'p \<Rightarrow> ('a, 't, 'p) dict_store \<Rightarrow> unit dict_result \<times> ('a, 't, 'p) dict_store" where
  "insert_into E kvs p H = (case insert_hashed_all E kvs (dc_content (H p)) of (r, m) \<Rightarrow> (r, set_content p m H))"

text \<open>
  \<open>Value::iterate\<close> and the values that it yields. Over a dictionary the iteration borrows the cell and yields the keys; the borrow ends
  with the round of the loop, before the next one.
\<close>

definition iterate_value :: "('a \<Rightarrow> ('a, 'p) iterable) \<Rightarrow> ('a, 't, 'p) dict_store \<Rightarrow> 'a \<Rightarrow> 'a list dict_result" where
  "iterate_value view H v =
     (case view v of
        Yields xs \<Rightarrow> Ok xs
      | DictObj q \<Rightarrow> bind_outcome (dict_iter_start (H q)) (\<lambda>c. Ok (sm_keys (dc_content c)))
      | NotIterable \<Rightarrow> Err ValueNotIterable)"

fun insert_pairs ::
  "('a, 't) map_env \<Rightarrow> ('a \<Rightarrow> bool) \<Rightarrow> ('a \<Rightarrow> ('a, 'p) iterable) \<Rightarrow> 'p \<Rightarrow> 'a list \<Rightarrow> ('a, 't, 'p) dict_store \<Rightarrow>
   unit dict_result \<times> ('a, 't, 'p) dict_store" where
  "insert_pairs E hashable view p [] H = (Ok (), H)"
| "insert_pairs E hashable view p (e # es) H =
     (case iterate_value view H e of
        Ok xs \<Rightarrow>
          (case xs of
             [k, v] \<Rightarrow>
               (case key_hashed E hashable k of
                  Ok h \<Rightarrow>
                    (case sm_insert_hashed E (dc_content (H p)) h v of
                       None \<Rightarrow> (Panic, H)
                     | Some (_, m) \<Rightarrow> insert_pairs E hashable view p es (set_content p m H))
                | Err err \<Rightarrow> (Err err, H)
                | Panic \<Rightarrow> (Panic, H))
           | _ \<Rightarrow> (Err NonPair, H))
      | Err err \<Rightarrow> (Err err, H)
      | Panic \<Rightarrow> (Panic, H))"

text \<open>The first argument; a reference to the dictionary itself is treated as an absent one.\<close>

definition update_pairs ::
  "('a, 't) map_env \<Rightarrow> ('a \<Rightarrow> bool) \<Rightarrow> ('a \<Rightarrow> ('a, 'p) iterable) \<Rightarrow> 'p \<Rightarrow> 'a option \<Rightarrow> ('a, 't, 'p) dict_store \<Rightarrow>
   unit dict_result \<times> ('a, 't, 'p) dict_store" where
  "update_pairs E hashable view p pairs H =
     (case pairs of
        None \<Rightarrow> (Ok (), H)
      | Some v \<Rightarrow>
          (case view v of
             DictObj q \<Rightarrow>
               (case dict_ref (H q) of
                  Ok d \<Rightarrow> insert_into E (sm_iter_hashed d) p H
                | Err err \<Rightarrow> (Err err, H)
                | Panic \<Rightarrow> (Panic, H))
           | Yields es \<Rightarrow> insert_pairs E hashable view p es H
           | NotIterable \<Rightarrow> (Err ValueNotIterable, H)))"

definition dict_update ::
  "('a, 't) map_env \<Rightarrow> ('a \<Rightarrow> bool) \<Rightarrow> ('a \<Rightarrow> ('a, 'p) iterable) \<Rightarrow> ('a, 't, 'p) dict_store \<Rightarrow> 'p \<Rightarrow> 'a option \<Rightarrow>
   ('a, 't) dict_map \<Rightarrow> unit dict_result \<times> ('a, 't, 'p) dict_store" where
  "dict_update E hashable view H p pairs kwargs =
     (let pairs = (case pairs of None \<Rightarrow> None | Some v \<Rightarrow> if view v = DictObj p then None else Some v)
      in case dict_mut (H p) of
           Err e \<Rightarrow> (Err e, H)
         | Panic \<Rightarrow> (Panic, H)
         | Ok _ \<Rightarrow>
             (case update_pairs E hashable view p pairs (set_writing p True H) of
                (Ok _, H') \<Rightarrow> (case insert_into E (sm_iter_hashed kwargs) p H' of (r, H'') \<Rightarrow> (r, set_writing p False H''))
              | (r, H') \<Rightarrow> (r, set_writing p False H')))"

subsection \<open>Operators\<close>

definition dict_at :: "('a, 't) map_env \<Rightarrow> ('a \<Rightarrow> bool) \<Rightarrow> ('a, 't) dict_map \<Rightarrow> 'a \<Rightarrow> 'a dict_result" where
  "dict_at E hashable m key =
     bind_outcome (key_hashed E hashable key) (\<lambda>h. case sm_get_hashed E m h of Some v \<Rightarrow> Ok v | None \<Rightarrow> Err KeyNotFound)"

definition dict_length :: "('a, 't) dict_map \<Rightarrow> int" where
  "dict_length m = wrap_i32 (int (sm_len m))"

definition dict_to_bool :: "('a, 't) dict_map \<Rightarrow> bool" where
  "dict_to_bool m = (\<not> sm_is_empty m)"

definition dict_is_in :: "('a, 't) map_env \<Rightarrow> ('a \<Rightarrow> bool) \<Rightarrow> ('a, 't) dict_map \<Rightarrow> 'a \<Rightarrow> bool dict_result" where
  "dict_is_in E hashable m key = bind_outcome (key_hashed E hashable key) (\<lambda>h. Ok (sm_contains_key_hashed E m h))"

text \<open>The key is hashed before the dictionary is found to be frozen or borrowed.\<close>

definition dict_set_at ::
  "('a, 't) map_env \<Rightarrow> ('a \<Rightarrow> bool) \<Rightarrow> ('a, 't) dict_cell \<Rightarrow> 'a \<Rightarrow> 'a \<Rightarrow> ('a, 't) dict_cell dict_result" where
  "dict_set_at E hashable c key v =
     bind_outcome (key_hashed E hashable key) (\<lambda>h.
     bind_outcome (dict_mut c) (\<lambda>m.
     bind_outcome (or_panic (sm_insert_hashed E m h v)) (\<lambda>(_, m'). Ok (c\<lparr>dc_content := m'\<rparr>))))"

definition dict_bit_or ::
  "('a, 't) map_env \<Rightarrow> ('a, 't) dict_map \<Rightarrow> ('a, 't) dict_map option \<Rightarrow> ('a, 't) dict_map dict_result" where
  "dict_bit_or E m rhs =
     (case rhs of
        None \<Rightarrow> Err UnsupportedDictOperand
      | Some rhs \<Rightarrow>
          if sm_is_empty m then Ok rhs
          else (case insert_hashed_all E (sm_iter_hashed rhs) m of
                  (Ok _, items) \<Rightarrow> Ok items
                | (Err e, _) \<Rightarrow> Err e
                | (Panic, _) \<Rightarrow> Panic))"

fun equals_entries ::
  "('a, 't) map_env \<Rightarrow> ('a \<Rightarrow> 'a \<Rightarrow> bool dict_result) \<Rightarrow> ('a hashed \<times> 'a) list \<Rightarrow> ('a, 't) dict_map \<Rightarrow> bool dict_result" where
  "equals_entries E f [] y = Ok True"
| "equals_entries E f ((xk, xv) # xs) y =
     (case sm_get_hashed E y xk of
        None \<Rightarrow> Ok False
      | Some yv \<Rightarrow> bind_outcome (f xv yv) (\<lambda>b. if \<not> b then Ok False else equals_entries E f xs y))"

definition equals_small_map ::
  "('a, 't) map_env \<Rightarrow> ('a, 't) dict_map \<Rightarrow> ('a, 't) dict_map \<Rightarrow> ('a \<Rightarrow> 'a \<Rightarrow> bool dict_result) \<Rightarrow> bool dict_result" where
  "equals_small_map E x y f = (if sm_len x \<noteq> sm_len y then Ok False else equals_entries E f (sm_iter_hashed x) y)"

definition dict_equals ::
  "('a, 't) map_env \<Rightarrow> ('a \<Rightarrow> 'a \<Rightarrow> bool dict_result) \<Rightarrow> ('a, 't) dict_map \<Rightarrow> ('a, 't) dict_map option \<Rightarrow> bool dict_result" where
  "dict_equals E equals m other = (case other of None \<Rightarrow> Ok False | Some n \<Rightarrow> equals_small_map E m n equals)"

subsection \<open>Contents\<close>

abbreviation inserted :: "('a \<times> 'a) list \<Rightarrow> ('a \<times> 'a) list \<Rightarrow> ('a \<times> 'a) list" where
  "inserted kvs xs \<equiv> fold (\<lambda>(k, v). alist_insert k v) kvs xs"

lemma length_alist_insert: "length (alist_insert k v xs) \<le> Suc (length xs)"
  by (simp add: alist_insert_def split: option.split)

context map_laws
begin

lemma sm_iter_hashed_new: "sm_inv E m \<Longrightarrow> sm_iter_hashed m = map (\<lambda>(k, v). (hashed_new (key_hash E) k, v)) (sm_iter m)"
  using sm_invD(1) [of m] vm_iter_hashed_refines [of "key_hash E" "entries m"]
  by (auto simp: sm_iter_hashed_def sm_iter_def)

lemma sm_get_hashed_map_of: "sm_inv E m \<Longrightarrow> sm_get_hashed E m (hashed_new (key_hash E) k) = map_of (sm_iter m) k"
  using sm_get_list [of m k] by (simp add: sm_get_def)

lemma sm_insert_hashed_total:
  assumes "sm_inv E m" "v2_ample (entry_ty E) (Suc (length (sm_iter m)))"
  obtains old m' where "sm_insert_hashed E m (hashed_new (key_hash E) k) v = Some (old, m')" "sm_inv E m'"
    "sm_iter m' = alist_insert k v (sm_iter m)"
proof -
  obtain old m' where m': "sm_insert E m k v = Some (old, m')" using sm_insert_total [OF assms, of k v] by auto
  with that sm_insert_list [OF assms(1) m'] show ?thesis by (auto simp: sm_insert_def)
qed

lemma insert_hashed_all_ok:
  "sm_inv E m \<Longrightarrow> v2_ample (entry_ty E) (length (sm_iter m) + length kvs) \<Longrightarrow>
   \<exists>m'. insert_hashed_all E (map (\<lambda>(k, v). (hashed_new (key_hash E) k, v)) kvs) m = (Ok (), m') \<and> sm_inv E m' \<and>
     sm_iter m' = inserted kvs (sm_iter m)"
proof (induction kvs arbitrary: m)
  case (Cons kv kvs)
  obtain k v where kv: "kv = (k, v)" by (cases kv)
  have "v2_ample (entry_ty E) (Suc (length (sm_iter m)))" by (rule v2_ample_mono [OF _ Cons.prems(2)]) simp
  then obtain old m' where m': "sm_insert_hashed E m (hashed_new (key_hash E) k) v = Some (old, m')" "sm_inv E m'"
    "sm_iter m' = alist_insert k v (sm_iter m)" using sm_insert_hashed_total [OF Cons.prems(1)] by metis
  have "v2_ample (entry_ty E) (length (sm_iter m') + length kvs)"
    by (rule v2_ample_mono [OF _ Cons.prems(2)]) (use length_alist_insert [of k v "sm_iter m"] m'(3) in simp)
  with Cons.IH [OF m'(2)] m' kv show ?case by auto
qed simp

lemma sm_is_empty_iter: "sm_inv E m \<Longrightarrow> sm_is_empty m \<longleftrightarrow> sm_iter m = []"
  using sm_invD(4) [of m] by (simp add: sm_is_empty_def vm_is_empty_def v2_is_empty_def vm_len_def)

lemma length_inserted: "length (inserted kvs xs) \<le> length xs + length kvs"
proof (induction kvs arbitrary: xs)
  case (Cons kv kvs)
  obtain k v where kv: "kv = (k, v)" by (cases kv)
  with Cons [of "alist_insert k v xs"] length_alist_insert [of k v xs] show ?case by simp
qed simp

end

text \<open>
  What an element of the argument of \<open>update\<close> stands for: a pair, or the failure that it causes. Nothing here depends on the borrows: that
  the dictionary itself is a panic is for \<open>update\<close> to have from the cell that it has borrowed.
\<close>

definition pair_result :: "('a \<Rightarrow> bool) \<Rightarrow> 'a list \<Rightarrow> ('a \<times> 'a) dict_result" where
  "pair_result hashable xs =
     (if length xs = 2 then if hashable (xs ! 0) then Ok (xs ! 0, xs ! 1) else Err KeyNotHashable else Err NonPair)"

definition elem_result ::
  "('a \<Rightarrow> bool) \<Rightarrow> ('a \<Rightarrow> ('a, 'p) iterable) \<Rightarrow> ('a, 't, 'p) dict_store \<Rightarrow> 'p \<Rightarrow> 'a \<Rightarrow> ('a \<times> 'a) dict_result" where
  "elem_result hashable view H p e =
     (case view e of
        Yields xs \<Rightarrow> pair_result hashable xs
      | DictObj q \<Rightarrow> if q = p then Panic else pair_result hashable (map fst (sm_iter (dc_content (H q))))
      | NotIterable \<Rightarrow> Err ValueNotIterable)"

text \<open>\<open>pairs_of pairs kvs\<close>: the first argument of \<open>update\<close> is well formed and gives these entries.\<close>

definition pairs_of ::
  "('a, 't) map_env \<Rightarrow> ('a \<Rightarrow> bool) \<Rightarrow> ('a \<Rightarrow> ('a, 'p) iterable) \<Rightarrow> ('a, 't, 'p) dict_store \<Rightarrow> 'p \<Rightarrow> 'a option \<Rightarrow> ('a \<times> 'a) list \<Rightarrow> bool" where
  "pairs_of E hashable view H p pairs kvs \<longleftrightarrow>
     (case pairs of
        None \<Rightarrow> kvs = []
      | Some v \<Rightarrow>
          (case view v of
             DictObj q \<Rightarrow> if q = p then kvs = [] else sm_inv E (dc_content (H q)) \<and> kvs = sm_iter (dc_content (H q))
           | Yields es \<Rightarrow> map (elem_result hashable view H p) es = map Ok kvs
           | NotIterable \<Rightarrow> False))"

lemma store_simps [simp]:
  "set_content p m H p = (H p)\<lparr>dc_content := m\<rparr>" "q \<noteq> p \<Longrightarrow> set_content p m H q = H q"
  "set_writing p b H p = (H p)\<lparr>dc_writing := b\<rparr>" "q \<noteq> p \<Longrightarrow> set_writing p b H q = H q"
  "set_content p m (set_content p m' H) = set_content p m H"
  by (auto simp: set_content_def set_writing_def)

lemma elem_result_store [simp]:
  "elem_result hashable view (set_content p m H) p = elem_result hashable view H p"
  "elem_result hashable view (set_writing p b H) p = elem_result hashable view H p"
  by (auto simp: elem_result_def fun_eq_iff split: iterable.split)

lemma set_writing_back: "\<not> dc_writing (H p) \<Longrightarrow> set_writing p False (set_content p m (set_writing p True H)) = set_content p m H"
  "\<not> dc_writing (H p) \<Longrightarrow> set_writing p False (set_writing p True H) = H"
  by (auto simp: set_writing_def set_content_def fun_eq_iff)

text \<open>Inside of \<open>update\<close>: only \<open>p\<close> is borrowed for mutation.\<close>

definition updating :: "'p \<Rightarrow> ('a, 't, 'p) dict_store \<Rightarrow> bool" where
  "updating p H \<longleftrightarrow> \<not> dc_frozen (H p) \<and> dc_writing (H p) \<and> (\<forall>q. q \<noteq> p \<longrightarrow> \<not> dc_writing (H q))"

lemma updating_set_content [simp]: "updating p (set_content p m H) = updating p H"
  by (auto simp: updating_def set_content_def)

lemma iterate_value_iff:
  assumes "updating p H"
  shows "iterate_value view H e =
    (case view e of
       Yields xs \<Rightarrow> Ok xs
     | DictObj q \<Rightarrow> if q = p then Panic else Ok (map fst (sm_iter (dc_content (H q))))
     | NotIterable \<Rightarrow> Err ValueNotIterable)"
  using assms by (auto simp: iterate_value_def dict_iter_start_def updating_def sm_keys_def vm_keys_def sm_iter_def split: iterable.split)

lemma insert_pairs_Cons:
  assumes "updating p H"
  shows "insert_pairs E hashable view p (e # es) H =
    (case elem_result hashable view H p e of
       Ok (k, v) \<Rightarrow>
         (case sm_insert_hashed E (dc_content (H p)) (hashed_new (key_hash E) k) v of
            None \<Rightarrow> (Panic, H)
          | Some (_, m) \<Rightarrow> insert_pairs E hashable view p es (set_content p m H))
     | Err err \<Rightarrow> (Err err, H)
     | Panic \<Rightarrow> (Panic, H))"
proof -
  have pair: "(case xs of [k, v] \<Rightarrow> f k v | _ \<Rightarrow> g) = (if length xs = 2 then f (xs ! 0) (xs ! 1) else g)"
    for xs f g
    by (auto split: list.split)
  show ?thesis
    by (auto simp: iterate_value_iff [OF assms] elem_result_def pair_result_def pair key_hashed_def split: iterable.split)
qed

declare insert_pairs.simps(2) [simp del]

definition dict_yields :: "('a, 't) map_env \<Rightarrow> ('a, 't) dict_map \<Rightarrow> ('a \<times> 'a) list \<Rightarrow> bool" where
  "dict_yields E m kvs \<longleftrightarrow> sm_inv E m \<and> sm_iter m = kvs"

context map_laws
begin

lemma dict_get_exact:
  "sm_inv E m \<Longrightarrow> hashable key \<Longrightarrow>
   dict_get E hashable none m key dflt =
     Ok (case map_of (sm_iter m) key of Some x \<Rightarrow> x | None \<Rightarrow> (case dflt of Some d \<Rightarrow> d | None \<Rightarrow> none))"
  by (simp add: dict_get_def key_hashed_def sm_get_hashed_map_of split: option.split)

lemma dict_at_exact:
  "sm_inv E m \<Longrightarrow> hashable key \<Longrightarrow>
   dict_at E hashable m key = (case map_of (sm_iter m) key of Some x \<Rightarrow> Ok x | None \<Rightarrow> Err KeyNotFound)"
  by (simp add: dict_at_def key_hashed_def sm_get_hashed_map_of)

lemma dict_set_at_exact:
  assumes "dict_mut c = Ok m" "sm_inv E m" "hashable key" "v2_ample (entry_ty E) (Suc (length (sm_iter m)))"
  shows "\<exists>m'. dict_set_at E hashable c key v = Ok (c\<lparr>dc_content := m'\<rparr>) \<and> dict_yields E m' (alist_insert key v (sm_iter m))"
proof -
  obtain old m' where "sm_insert_hashed E m (hashed_new (key_hash E) key) v = Some (old, m')" "sm_inv E m'"
    "sm_iter m' = alist_insert key v (sm_iter m)" using sm_insert_hashed_total [OF assms(2,4)] .
  with assms(1,3) show ?thesis by (auto simp: dict_set_at_def key_hashed_def or_panic_def dict_yields_def)
qed

lemma dict_pop_exact:
  assumes "dict_mut c = Ok m" "sm_inv E m" "hashable key"
  shows "case (case map_of (sm_iter m) key of Some v \<Rightarrow> Some v | None \<Rightarrow> dflt) of
      Some v \<Rightarrow> \<exists>m'. dict_pop E hashable c key dflt = Ok (v, c\<lparr>dc_content := m'\<rparr>) \<and> dict_yields E m' (alist_remove key (sm_iter m))
    | None \<Rightarrow> dict_pop E hashable c key dflt = Err KeyNotFound"
proof -
  obtain m' where m': "sm_shift_remove_entry E m key = Some (map_option (\<lambda>v. (key, v)) (map_of (sm_iter m) key), m')" "sm_inv E m'"
    "sm_iter m' = alist_remove key (sm_iter m)" using sm_remove_list [OF assms(2)] by blast
  then have "sm_shift_remove_hashed E m (hashed_new (key_hash E) key) = Some (map_of (sm_iter m) key, m')"
    by (simp add: sm_shift_remove_hashed_def sm_shift_remove_entry_def option.map_comp comp_def option.map_ident)
  with assms m'(2,3) show ?thesis
    by (auto simp: dict_pop_def key_hashed_def or_panic_def dict_yields_def split: option.split)
qed

lemma dict_popitem_exact:
  assumes "dict_mut c = Ok m" "sm_inv E m"
  shows "case sm_iter m of
      [] \<Rightarrow> dict_popitem E c = Err PopitemOnEmpty
    | kv # kvs \<Rightarrow> \<exists>m'. dict_popitem E c = Ok (kv, c\<lparr>dc_content := m'\<rparr>) \<and> dict_yields E m' kvs"
proof -
  obtain m' where "sm_shift_remove_index E m 0 = Some (if 0 < length (sm_iter m) then Some (sm_iter m ! 0) else None, m')" "sm_inv E m'"
    "sm_iter m' = (if 0 < length (sm_iter m) then remove_nth 0 (sm_iter m) else sm_iter m)"
    using sm_remove_index_list [OF assms(2), of 0] by blast
  with assms(1) show ?thesis
    by (auto simp: dict_popitem_def or_panic_def dict_yields_def remove_nth_def split: list.split)
qed

lemma dict_setdefault_exact:
  assumes "dict_mut c = Ok m" "sm_inv E m" "hashable key" "v2_ample (entry_ty E) (Suc (length (sm_iter m)))"
    "d = (case dflt of Some d \<Rightarrow> d | None \<Rightarrow> none)"
  shows "case map_of (sm_iter m) key of
      Some v \<Rightarrow> dict_setdefault E hashable none c key dflt = Ok (v, c)
    | None \<Rightarrow> \<exists>m'. dict_setdefault E hashable none c key dflt = Ok (d, c\<lparr>dc_content := m'\<rparr>) \<and>
        dict_yields E m' (sm_iter m @ [(key, d)])"
proof -
  have entry: "sm_entry_hashed E m (hashed_new (key_hash E) key) =
      (case key_index key (sm_iter m) of Some i \<Rightarrow> Occupied i | None \<Rightarrow> Vacant (hashed_new (key_hash E) key))"
    using sm_search [OF assms(2), of key] by (simp add: sm_entry_hashed_def sm_get_index_of_hashed_def)
  show ?thesis
  proof (cases "key_index key (sm_iter m)")
    case None
    note new = iffD1 [OF key_index_None None]
    obtain m' where m': "sm_insert_hashed_unique_unchecked E m (hashed_new (key_hash E) key) d = Some m'"
      using sm_insert_unique_total [OF assms(2) new assms(4)] by blast
    have "map_of (sm_iter m) key = None" using new by (simp add: map_of_eq_None_iff)
    with None m' sm_insert_unique_inv [OF assms(2) new m'] assms(1,3,5) entry show ?thesis
      by (auto simp: dict_setdefault_def key_hashed_def or_panic_def dict_yields_def)
  next
    case (Some i)
    have "sm_get_hashed E m (hashed_new (key_hash E) key) = Some (snd (vm_get_unchecked (entries m) i))"
      using sm_search [OF assms(2), of key] Some by (simp add: sm_get_hashed_def)
    then have "map_of (sm_iter m) key = Some (snd (vm_get_unchecked (entries m) i))"
      by (simp add: sm_get_hashed_map_of [OF assms(2)])
    with Some entry assms(1,3) show ?thesis by (simp add: dict_setdefault_def key_hashed_def)
  qed
qed

text \<open>Well-formed pairs are inserted one after the other, whatever follows them.\<close>

lemma insert_pairs_prefix:
  "updating p H \<Longrightarrow> sm_inv E (dc_content (H p)) \<Longrightarrow> v2_ample (entry_ty E) (length (sm_iter (dc_content (H p))) + length kvs) \<Longrightarrow>
   map (elem_result hashable view H p) es = map Ok kvs \<Longrightarrow>
   \<exists>m. insert_pairs E hashable view p (es @ rest) H = insert_pairs E hashable view p rest (set_content p m H) \<and>
     dict_yields E m (inserted kvs (sm_iter (dc_content (H p))))"
proof (induction es arbitrary: H kvs)
  case Nil
  have "set_content p (dc_content (H p)) H = H" by (simp add: set_content_def)
  with Nil show ?case by (intro exI [of _ "dc_content (H p)"]) (simp add: dict_yields_def)
next
  case (Cons e es)
  then obtain k v kvs' where kvs: "kvs = (k, v) # kvs'" and e: "elem_result hashable view H p e = Ok (k, v)"
    and es: "map (elem_result hashable view H p) es = map Ok kvs'" by (cases kvs) auto
  let ?m = "dc_content (H p)"
  have "v2_ample (entry_ty E) (Suc (length (sm_iter ?m)))" by (rule v2_ample_mono [OF _ Cons.prems(3)]) (simp add: kvs)
  then obtain old m' where m': "sm_insert_hashed E ?m (hashed_new (key_hash E) k) v = Some (old, m')" "sm_inv E m'"
    "sm_iter m' = alist_insert k v (sm_iter ?m)" using sm_insert_hashed_total [OF Cons.prems(2)] by metis
  let ?H = "set_content p m' H"
  have "v2_ample (entry_ty E) (length (sm_iter m') + length kvs')"
    by (rule v2_ample_mono [OF _ Cons.prems(3)]) (use length_alist_insert [of k v "sm_iter ?m"] m'(3) kvs in simp)
  with Cons.IH [of ?H kvs'] Cons.prems(1) m' es obtain m where
    "insert_pairs E hashable view p (es @ rest) ?H = insert_pairs E hashable view p rest (set_content p m ?H)"
    "dict_yields E m (inserted kvs' (sm_iter m'))" by auto
  with m' e kvs Cons.prems(1) show ?case by (auto simp: insert_pairs_Cons)
qed

lemma insert_into_exact:
  assumes "sm_inv E (dc_content (H p))" "v2_ample (entry_ty E) (length (sm_iter (dc_content (H p))) + length (sm_iter d))" "sm_inv E d"
  shows "\<exists>m. insert_into E (sm_iter_hashed d) p H = (Ok (), set_content p m H) \<and>
    dict_yields E m (inserted (sm_iter d) (sm_iter (dc_content (H p))))"
  using insert_hashed_all_ok [OF assms(1,2)] by (auto simp: insert_into_def sm_iter_hashed_new [OF assms(3)] dict_yields_def)

lemma updating_start:
  "dict_mut (H p) = Ok m \<Longrightarrow> \<forall>q. \<not> dc_writing (H q) \<Longrightarrow> updating p (set_writing p True H) \<and> \<not> dc_writing (H p) \<and> dc_content (H p) = m"
  by (auto simp: updating_def set_writing_def dict_mut_def split: if_splits)

lemma dict_update_exact:
  assumes mut: "dict_mut (H p) = Ok m" and free: "\<forall>q. \<not> dc_writing (H q)" and inv: "sm_inv E m" "sm_inv E kwargs"
    and pairs: "pairs_of E hashable view H p pairs kvs"
    and room: "v2_ample (entry_ty E) (length (sm_iter m) + length kvs + length (sm_iter kwargs))"
  shows "\<exists>m'. dict_update E hashable view H p pairs kwargs = (Ok (), set_content p m' H) \<and>
    dict_yields E m' (inserted (kvs @ sm_iter kwargs) (sm_iter m))"
proof -
  let ?H = "set_writing p True H" and ?pairs = "case pairs of None \<Rightarrow> None | Some v \<Rightarrow> if view v = DictObj p then None else Some v"
  have start: "updating p ?H" "\<not> dc_writing (H p)" "dc_content (H p) = m" using updating_start [of H p m, OF mut free] by auto
  have room1: "v2_ample (entry_ty E) (length (sm_iter m) + length kvs)" by (rule v2_ample_mono [OF _ room]) simp
  have "\<exists>m\<^sub>1. update_pairs E hashable view p ?pairs ?H = (Ok (), set_content p m\<^sub>1 ?H) \<and> dict_yields E m\<^sub>1 (inserted kvs (sm_iter m))"
  proof (cases ?pairs)
    case None
    then have "kvs = []" using pairs by (auto simp: pairs_of_def split: option.splits if_splits)
    moreover have "set_content p m ?H = ?H" using start(3) by (auto simp: set_content_def set_writing_def)
    ultimately show ?thesis
      unfolding None update_pairs_def using inv(1) by (intro exI [of _ m]) (simp add: dict_yields_def)
  next
    case (Some v)
    then have v: "pairs = Some v" "view v \<noteq> DictObj p" by (auto split: option.splits if_splits)
    show ?thesis
    proof (cases "view v")
      case (Yields es)
      with pairs v have "map (elem_result hashable view ?H p) es = map Ok kvs" by (simp add: pairs_of_def)
      from insert_pairs_prefix [OF start(1) _ _ this, of "[]"] inv(1) room1 start(3) Yields Some show ?thesis
        by (auto simp: update_pairs_def)
    next
      case (DictObj q)
      with pairs v free have q: "q \<noteq> p" "sm_inv E (dc_content (H q))" "kvs = sm_iter (dc_content (H q))" "\<not> dc_writing (H q)"
        by (auto simp: pairs_of_def)
      then have "dict_ref (?H q) = Ok (dc_content (H q))" by (simp add: dict_ref_def)
      with insert_into_exact [of ?H p "dc_content (H q)"] q inv(1) room1 start(3) DictObj Some show ?thesis
        by (simp add: update_pairs_def)
    next
      case NotIterable
      with pairs v show ?thesis by (simp add: pairs_of_def)
    qed
  qed
  then obtain m\<^sub>1 where m\<^sub>1: "update_pairs E hashable view p ?pairs ?H = (Ok (), set_content p m\<^sub>1 ?H)"
    "dict_yields E m\<^sub>1 (inserted kvs (sm_iter m))" by blast
  have "v2_ample (entry_ty E) (length (sm_iter m\<^sub>1) + length (sm_iter kwargs))"
    by (rule v2_ample_mono [OF _ room]) (use length_inserted [of kvs "sm_iter m"] m\<^sub>1(2) in \<open>simp add: dict_yields_def\<close>)
  then obtain m\<^sub>2 where "insert_into E (sm_iter_hashed kwargs) p (set_content p m\<^sub>1 ?H) = (Ok (), set_content p m\<^sub>2 ?H)"
    "dict_yields E m\<^sub>2 (inserted (sm_iter kwargs) (sm_iter m\<^sub>1))"
    using insert_into_exact [of "set_content p m\<^sub>1 ?H" p kwargs] inv(2) m\<^sub>1(2) by (auto simp: dict_yields_def)
  with m\<^sub>1 mut set_writing_back(1) [of H p, OF start(2)] show ?thesis
    by (auto simp: dict_update_def Let_def dict_yields_def)
qed

text \<open>An element that stands for no pair ends \<open>update\<close> with its failure; the pairs before it stay.\<close>

lemma dict_update_fault:
  assumes mut: "dict_mut (H p) = Ok m" and free: "\<forall>q. \<not> dc_writing (H q)" and inv: "sm_inv E m"
    and v: "view v = Yields (es @ e # rest)" and es: "map (elem_result hashable view H p) es = map Ok kvs"
    and room: "v2_ample (entry_ty E) (length (sm_iter m) + length kvs)"
    and e: "elem_result hashable view H p e = Err err \<and> r = Err err \<or> elem_result hashable view H p e = Panic \<and> r = Panic"
  shows "\<exists>m'. dict_update E hashable view H p (Some v) kwargs = (r, set_content p m' H) \<and> dict_yields E m' (inserted kvs (sm_iter m))"
proof -
  let ?H = "set_writing p True H"
  have start: "updating p ?H" "\<not> dc_writing (H p)" "dc_content (H p) = m" using updating_start [of H p m, OF mut free] by auto
  have "map (elem_result hashable view ?H p) es = map Ok kvs" using es by simp
  from insert_pairs_prefix [OF start(1) _ _ this, of "e # rest"] inv room start(3) obtain m' where
    m': "insert_pairs E hashable view p (es @ e # rest) ?H = insert_pairs E hashable view p (e # rest) (set_content p m' ?H)"
      "dict_yields E m' (inserted kvs (sm_iter m))" by auto
  have "insert_pairs E hashable view p (e # rest) (set_content p m' ?H) = (r, set_content p m' ?H)"
    using e start(1) by (auto simp: insert_pairs_Cons)
  with m' v mut set_writing_back(1) [of H p, OF start(2)] e show ?thesis
    by (auto simp: dict_update_def update_pairs_def Let_def)
qed

lemma dict_bit_or_exact:
  assumes "sm_inv E m" "sm_inv E n" "v2_ample (entry_ty E) (length (sm_iter m) + length (sm_iter n))"
  shows "\<exists>r. dict_bit_or E m (Some n) = Ok r \<and>
    dict_yields E r (if sm_iter m = [] then sm_iter n else inserted (sm_iter n) (sm_iter m))"
  using insert_hashed_all_ok [OF assms(1,3)] assms
  by (auto simp: dict_bit_or_def sm_is_empty_iter sm_iter_hashed_new dict_yields_def)

lemma dict_is_in_exact:
  "sm_inv E m \<Longrightarrow> hashable key \<Longrightarrow> dict_is_in E hashable m key = Ok (map_of (sm_iter m) key \<noteq> None)"
  using sm_contains_key_iff [of m key] by (auto simp: dict_is_in_def key_hashed_def sm_contains_key_def map_of_eq_None_iff)

lemma dict_clear_exact:
  "dict_mut c = Ok m \<Longrightarrow> sm_inv E m \<Longrightarrow> \<exists>m'. dict_clear E c = Ok (c\<lparr>dc_content := m'\<rparr>) \<and> dict_yields E m' []"
  using sm_clear_inv [of m] by (auto simp: dict_clear_def dict_yields_def)

lemma dict_views_exact:
  "sm_inv E m \<Longrightarrow> dict_items m = sm_iter m \<and> dict_keys m = map fst (sm_iter m) \<and> dict_values m = map snd (sm_iter m) \<and>
     dict_to_bool m = (sm_iter m \<noteq> []) \<and> dict_length m = wrap_i32 (int (length (sm_iter m)))"
  using sm_invD(4) [of m]
  by (simp add: dict_items_def dict_keys_def dict_values_def dict_to_bool_def dict_length_def sm_is_empty_iter sm_len_def
      sm_keys_def vm_keys_def sm_values_def vm_values_def sm_iter_def)

lemma equals_entries_iff:
  assumes "sm_inv E y" "\<And>a b. f a b = Ok (R a b)"
  shows "equals_entries E f (map (\<lambda>(k, v). (hashed_new (key_hash E) k, v)) xs) y =
    Ok (\<forall>(k, v) \<in> set xs. \<exists>w. map_of (sm_iter y) k = Some w \<and> R v w)"
  by (induction xs) (auto simp: sm_get_hashed_map_of [OF assms(1)] assms(2) split: option.split)

lemma dict_equals_iff:
  assumes x: "sm_inv E x" and y: "sm_inv E y" and f: "\<And>a b. f a b = Ok (R a b)"
  shows "dict_equals E f x (Some y) = Ok (\<forall>k. rel_option R (map_of (sm_iter x) k) (map_of (sm_iter y) k))"
proof -
  let ?xs = "sm_iter x" and ?ys = "sm_iter y"
  note dx = sm_invD(3) [OF x] and dy = sm_invD(3) [OF y]
  have len: "sm_len x = card (set (map fst ?xs))" "sm_len y = card (set (map fst ?ys))"
    using sm_invD(4) [OF x] sm_invD(4) [OF y] distinct_card [OF dx] distinct_card [OF dy] by (simp_all add: sm_len_def)
  have xs: "(k, v) \<in> set ?xs \<longleftrightarrow> map_of ?xs k = Some v" for k v using dx by simp
  have all: "(\<forall>(k, v) \<in> set ?xs. \<exists>w. map_of ?ys k = Some w \<and> R v w) \<longleftrightarrow>
      (\<forall>k v. map_of ?xs k = Some v \<longrightarrow> (\<exists>w. map_of ?ys k = Some w \<and> R v w))" using xs by fast
  have "sm_len x = sm_len y \<and> (\<forall>(k, v) \<in> set ?xs. \<exists>w. map_of ?ys k = Some w \<and> R v w) \<longleftrightarrow>
      (\<forall>k. rel_option R (map_of ?xs k) (map_of ?ys k))" (is "?l \<longleftrightarrow> ?r")
  proof
    assume l: ?l
    have "set (map fst ?xs) \<subseteq> set (map fst ?ys)"
    proof
      fix k assume "k \<in> set (map fst ?xs)"
      then obtain v where "map_of ?xs k = Some v" by (metis list.set_map map_of_eq_None_iff not_Some_eq)
      with l all obtain w where "map_of ?ys k = Some w" by blast
      then show "k \<in> set (map fst ?ys)" by (metis list.set_map map_of_eq_None_iff option.distinct(1))
    qed
    then have "set (map fst ?xs) = set (map fst ?ys)" using l len by (intro card_subset_eq) auto
    then have dom: "map_of ?xs k = None \<longleftrightarrow> map_of ?ys k = None" for k by (simp add: map_of_eq_None_iff)
    show ?r
    proof
      fix k show "rel_option R (map_of ?xs k) (map_of ?ys k)"
        using iffD1 [OF all conjunct2 [OF l], THEN spec, of k] dom [of k] by (cases "map_of ?xs k"; cases "map_of ?ys k") auto
    qed
  next
    assume r: ?r
    then have "map_of ?xs k = None \<longleftrightarrow> map_of ?ys k = None" for k
      using option.rel_distinct(1,2) by (metis option.rel_sel)
    then have "set (map fst ?xs) = set (map fst ?ys)" by (auto simp: map_of_eq_None_iff set_eq_iff)
    moreover have "\<exists>w. map_of ?ys k = Some w \<and> R v w" if "map_of ?xs k = Some v" for k v
      using r [THEN spec, of k] that by (auto simp: option_rel_Some1)
    ultimately show ?l using len all by auto
  qed
  then show ?thesis
    by (auto simp: dict_equals_def equals_small_map_def sm_iter_hashed_new [OF x] equals_entries_iff [OF y f])
qed

end
lemma unhashable_key:
  "\<not> hashable key \<Longrightarrow> dict_mut c = Ok m \<Longrightarrow>
     dict_at E hashable m key = Err KeyNotHashable \<and> dict_get E hashable none m key dflt = Err KeyNotHashable \<and>
     dict_is_in E hashable m key = Err KeyNotHashable \<and> dict_set_at E hashable c key x = Err KeyNotHashable \<and>
     dict_pop E hashable c key dflt = Err KeyNotHashable \<and> dict_setdefault E hashable none c key dflt = Err KeyNotHashable"
  by (simp add: dict_at_def dict_get_def dict_is_in_def dict_set_at_def dict_pop_def dict_setdefault_def key_hashed_def)

subsection \<open>Properties\<close>

text \<open>C27. The methods and operators of a dictionary, on one that is neither frozen nor iterated over, refine the operations on the
  list of its entries. \<open>get\<close>, \<open>[k]\<close> and \<open>in\<close> look the key up; \<open>[k] = v\<close> replaces the value of a known key in its place and appends a new one;
  \<open>pop\<close> removes the key and keeps the order of the others, and fails exactly without key and default; \<open>setdefault\<close> changes the dictionary
  only if the key is new; with an unhashable key each of these fails and changes nothing. \<open>popitem\<close> takes the first entry and \<open>clear\<close> all of
  them. \<open>update\<close> inserts the entries of its arguments one after the other, the keyword arguments last, and leaves other dictionaries alone; an
  element that is not iterable, yields no two values or has an unhashable key ends it with an error after the pairs before it. \<open>|\<close> is a
  new dictionary with the entries of the right operand inserted into the left, and an error for another operand; \<open>==\<close> compares the values
  of every key, in any order.\<close>

theorem dict_methods_refine:
  fixes E :: "('a, 't) map_env" and H :: "('a, 't, 'p) dict_store"
  assumes "hash_table_laws (table E)" and "c = H p" and "\<not> dc_frozen c" and "dc_borrows c = 0" and "\<forall>q. \<not> dc_writing (H q)"
    and "m = dc_content c" and "sm_inv E m" and "sm_inv E kwargs" and "xs = sm_iter m" and "pairs_of E hashable view H p pairs kvs"
    and "v2_ample (entry_ty E) (Suc (length xs + length kvs + length (sm_iter kwargs)))" and "\<forall>a b. equals a b = Ok (R a b)"
  shows "(if hashable key then
      dict_at E hashable m key = (case map_of xs key of Some x \<Rightarrow> Ok x | None \<Rightarrow> Err KeyNotFound) \<and>
      dict_get E hashable none m key dflt =
        Ok (case map_of xs key of Some x \<Rightarrow> x | None \<Rightarrow> (case dflt of Some d \<Rightarrow> d | None \<Rightarrow> none)) \<and>
      dict_is_in E hashable m key = Ok (map_of xs key \<noteq> None) \<and>
      (\<exists>m'. dict_set_at E hashable c key x = Ok (c\<lparr>dc_content := m'\<rparr>) \<and> dict_yields E m' (alist_insert key x xs)) \<and>
      (case (case map_of xs key of Some v \<Rightarrow> Some v | None \<Rightarrow> dflt) of
         Some v \<Rightarrow> \<exists>m'. dict_pop E hashable c key dflt = Ok (v, c\<lparr>dc_content := m'\<rparr>) \<and> dict_yields E m' (alist_remove key xs)
       | None \<Rightarrow> dict_pop E hashable c key dflt = Err KeyNotFound) \<and>
      (let d = (case dflt of Some d \<Rightarrow> d | None \<Rightarrow> none) in
       case map_of xs key of
         Some v \<Rightarrow> dict_setdefault E hashable none c key dflt = Ok (v, c)
       | None \<Rightarrow> \<exists>m'. dict_setdefault E hashable none c key dflt = Ok (d, c\<lparr>dc_content := m'\<rparr>) \<and> dict_yields E m' (xs @ [(key, d)]))
    else
      dict_at E hashable m key = Err KeyNotHashable \<and> dict_get E hashable none m key dflt = Err KeyNotHashable \<and>
      dict_is_in E hashable m key = Err KeyNotHashable \<and> dict_set_at E hashable c key x = Err KeyNotHashable \<and>
      dict_pop E hashable c key dflt = Err KeyNotHashable \<and> dict_setdefault E hashable none c key dflt = Err KeyNotHashable) \<and>
    (case xs of
       [] \<Rightarrow> dict_popitem E c = Err PopitemOnEmpty
     | kv # rest \<Rightarrow> \<exists>m'. dict_popitem E c = Ok (kv, c\<lparr>dc_content := m'\<rparr>) \<and> dict_yields E m' rest) \<and>
    (\<exists>m'. dict_clear E c = Ok (c\<lparr>dc_content := m'\<rparr>) \<and> dict_yields E m' []) \<and>
    (\<exists>m'. dict_update E hashable view H p pairs kwargs = (Ok (), set_content p m' H) \<and>
       dict_yields E m' (fold (\<lambda>(k, v). alist_insert k v) (kvs @ sm_iter kwargs) xs)) \<and>
    (view v = Yields (es @ e # rest) \<and> map (elem_result hashable view H p) es = map Ok good \<and>
       v2_ample (entry_ty E) (length xs + length good) \<and> elem_result hashable view H p e = Err err \<longrightarrow>
     (\<exists>m'. dict_update E hashable view H p (Some v) kwargs = (Err err, set_content p m' H) \<and>
        dict_yields E m' (fold (\<lambda>(k, v). alist_insert k v) good xs))) \<and>
    (view v = NotIterable \<longrightarrow> dict_update E hashable view H p (Some v) kwargs = (Err ValueNotIterable, H)) \<and>
    (\<exists>r. dict_bit_or E m (Some kwargs) = Ok r \<and>
       dict_yields E r (if xs = [] then sm_iter kwargs else fold (\<lambda>(k, v). alist_insert k v) (sm_iter kwargs) xs)) \<and>
    dict_bit_or E m None = Err UnsupportedDictOperand \<and>
    dict_equals E equals m (Some kwargs) = Ok (\<forall>k. rel_option R (map_of xs k) (map_of (sm_iter kwargs) k)) \<and>
    dict_equals E equals m None = Ok False \<and>
    (dict_items m = xs \<and> dict_keys m = map fst xs \<and> dict_values m = map snd xs \<and>
       dict_to_bool m = (xs \<noteq> []) \<and> dict_length m = wrap_i32 (int (length xs)))"
proof -
  note laws = map_laws.intro [OF assms(1)] and inv = assms(7,8)
  have writing: "\<not> dc_writing (H p)" using assms(5) by blast
  have mut: "dict_mut c = Ok m" "dict_mut (H p) = Ok m" using assms(2-4,6) writing by (simp_all add: dict_mut_def)
  have room: "v2_ample (entry_ty E) (Suc (length (sm_iter m)))"
    "v2_ample (entry_ty E) (length (sm_iter m) + length kvs + length (sm_iter kwargs))"
    "v2_ample (entry_ty E) (length (sm_iter m) + length (sm_iter kwargs))"
    by (rule v2_ample_mono [OF _ assms(11)], simp add: assms(9))+
  note keyed = map_laws.dict_at_exact [where hashable = hashable and key = key, OF laws inv(1)]
    map_laws.dict_get_exact [where hashable = hashable and key = key, OF laws inv(1)]
    map_laws.dict_is_in_exact [where hashable = hashable and key = key, OF laws inv(1)]
    map_laws.dict_set_at_exact [where hashable = hashable and key = key, OF laws mut(1) inv(1) _ room(1)]
    map_laws.dict_pop_exact [where hashable = hashable and key = key, OF laws mut(1) inv(1)]
    map_laws.dict_setdefault_exact [where hashable = hashable and key = key, OF laws mut(1) inv(1) _ room(1) refl]
  have update: "\<exists>m'. dict_update E hashable view H p pairs kwargs = (Ok (), set_content p m' H) \<and>
      dict_yields E m' (fold (\<lambda>(k, v). alist_insert k v) (kvs @ sm_iter kwargs) (sm_iter m))"
    by (rule map_laws.dict_update_exact [OF laws mut(2) assms(5) inv assms(10) room(2)])
  have fault: "\<exists>m'. dict_update E hashable view H p (Some v) kwargs = (Err err, set_content p m' H) \<and>
      dict_yields E m' (fold (\<lambda>(k, v). alist_insert k v) good (sm_iter m))"
    if "view v = Yields (es @ e # rest) \<and> map (elem_result hashable view H p) es = map Ok good \<and>
      v2_ample (entry_ty E) (length (sm_iter m) + length good) \<and> elem_result hashable view H p e = Err err"
    using map_laws.dict_update_fault [OF laws mut(2) assms(5) inv(1), of view v es e rest hashable good err "Err err" kwargs] that by blast
  have other: "dict_update E hashable view H p (Some v) kwargs = (Err ValueNotIterable, H)" if "view v = NotIterable"
    using that mut(2) set_writing_back(2) [of H p, OF writing] by (simp add: dict_update_def update_pairs_def)
  note views = map_laws.dict_views_exact [OF laws inv(1)]
  have eq: "dict_equals E equals m (Some kwargs) = Ok (\<forall>k. rel_option R (map_of (sm_iter m) k) (map_of (sm_iter kwargs) k))"
    by (rule map_laws.dict_equals_iff [OF laws inv]) (use assms(12) in blast)
  have none: "dict_bit_or E m None = Err UnsupportedDictOperand" "dict_equals E equals m None = Ok False"
    by (simp_all add: dict_bit_or_def dict_equals_def)
  note unhashable = unhashable_key [OF _ mut(1), of hashable key]
  show ?thesis unfolding assms(9) Let_def if_bool_eq_conj
    by (intro conjI impI keyed fault other update eq none map_laws.dict_popitem_exact [OF laws mut(1) inv(1)]
        map_laws.dict_clear_exact [OF laws mut(1) inv(1)] map_laws.dict_bit_or_exact [OF laws inv room(3)]) (use unhashable views in simp_all)
qed

lemma demo_dict:
  assumes "length xs \<le> 1000"
  shows "\<exists>m. sm_from_iter demo_env 0 xs = Some m \<and> sm_inv demo_env m \<and> sm_iter m = fold (\<lambda>(k, v). alist_insert k v) xs []"
  using map_laws.sm_from_iter_get [OF demo_env_laws(2), of 0 xs] demo_env_ample assms by blast

text \<open>Values for the examples: the value 100 yields a pair with the key 1 and then a value that is not iterable; 200 yields that pair and the dictionary.\<close>

definition demo_view :: "nat \<Rightarrow> (nat, unit) iterable" where
  "demo_view n = (if n = 100 then Yields [5, 6] else if n = 200 then Yields [5, 7] else if n = 5 then Yields [1, 30]
     else if n = 7 then DictObj () else NotIterable)"

theorem dict_methods_refine_witness:
  "\<exists>m. sm_from_iter demo_env 0 [(1, 10), (2, 20 :: nat)] = Some m \<and>
    (let c = \<lparr>dc_frozen = False, dc_borrows = 0, dc_writing = False, dc_content = m\<rparr>; H = (\<lambda>_ :: unit. c) in
      dict_at demo_env (\<lambda>k. k < 50) m 2 = Ok 20 \<and>
      (\<exists>m'. dict_pop demo_env (\<lambda>k. k < 50) c 2 None = Ok (20, c\<lparr>dc_content := m'\<rparr>) \<and> dict_yields demo_env m' [(1, 10)]) \<and>
      (\<exists>m'. dict_clear demo_env c = Ok (c\<lparr>dc_content := m'\<rparr>) \<and> dict_yields demo_env m' []) \<and>
      (\<exists>m'. dict_update demo_env (\<lambda>k. k < 50) demo_view H () (Some 100) m = (Err ValueNotIterable, set_content () m' H) \<and>
         dict_yields demo_env m' [(1, 30), (2, 20)]))"
proof -
  from demo_dict [of "[(1, 10), (2, 20 :: nat)]"] obtain m where
    m: "sm_from_iter demo_env 0 [(1, 10), (2, 20 :: nat)] = Some m" "sm_inv demo_env m" "sm_iter m = [(1, 10), (2, 20)]"
    by (auto simp: alist_insert_def)
  define c where "c = \<lparr>dc_frozen = False, dc_borrows = 0, dc_writing = False, dc_content = m\<rparr>"
  define H where "H = (\<lambda>_ :: unit. c)"
  have c: "c = H ()" "\<not> dc_frozen c" "dc_borrows c = 0" "\<forall>q. \<not> dc_writing (H q)" "m = dc_content c" by (simp_all add: c_def H_def)
  have pairs: "pairs_of demo_env (\<lambda>k. k < 50) demo_view H () None []" by (simp add: pairs_of_def)
  have room: "v2_ample (entry_ty demo_env) (Suc (length (sm_iter m) + length ([] :: (nat \<times> nat) list) + length (sm_iter m)))"
    "v2_ample (entry_ty demo_env) (Suc (Suc (Suc 0)))"
    by (rule demo_env_ample [THEN conjunct1]; simp add: m(3))+
  have eq: "\<forall>a b. (\<lambda>a b. Ok (a = b)) a b = Ok (a = (b :: nat))" by simp
  have elems: "demo_view 100 = Yields ([5] @ 6 # [])" "map (elem_result (\<lambda>k. k < 50) demo_view H ()) [5] = map Ok [(1, 30)]"
    "elem_result (\<lambda>k. k < 50) demo_view H () 6 = Err ValueNotIterable"
    by (simp_all add: demo_view_def elem_result_def pair_result_def)
  from dict_methods_refine [where hashable = "\<lambda>k. k < 50" and key = 2 and dflt = None and v = 100 and good = "[(1, 30)]" and
      es = "[5]" and e = 6 and rest = "[]" and err = ValueNotIterable, OF demo_env_laws(1) c m(2,2) refl pairs room(1) eq] elems room(2)
  have "dict_at demo_env (\<lambda>k. k < 50) m 2 = Ok 20"
    "\<exists>m'. dict_pop demo_env (\<lambda>k. k < 50) c 2 None = Ok (20, c\<lparr>dc_content := m'\<rparr>) \<and> dict_yields demo_env m' [(1, 10)]"
    "\<exists>m'. dict_clear demo_env c = Ok (c\<lparr>dc_content := m'\<rparr>) \<and> dict_yields demo_env m' []"
    "\<exists>m'. dict_update demo_env (\<lambda>k. k < 50) demo_view H () (Some 100) m = (Err ValueNotIterable, set_content () m' H) \<and>
       dict_yields demo_env m' [(1, 30), (2, 20)]"
    by (simp_all add: m(3) alist_remove_def remove_nth_def alist_insert_def)
  with m(1) show ?thesis unfolding Let_def c_def H_def by blast
qed

text \<open>C28. Errors of the methods that change a dictionary. On a frozen dictionary, and on one with a running iteration, every one of them fails
  with the error of that case and changes nothing; starting an iteration brings about the second case and its end takes it back.
  \<open>update\<close> with an iterable that contains the dictionary itself, after any number of proper pairs, panics there, with these pairs inserted: the
  cell is borrowed for mutation when the iteration over it starts.\<close>

theorem dict_update_self_panics:
  fixes E :: "('a, 't) map_env" and H :: "('a, 't, 'p) dict_store"
  assumes "hash_table_laws (table E)" and "c = H p" and "\<forall>q. \<not> dc_writing (H q)" and "sm_inv E (dc_content c)"
    and "view v = Yields (es @ e # rest)" and "map (elem_result hashable view H p) es = map Ok kvs" and "view e = DictObj p"
    and "v2_ample (entry_ty E) (length (sm_iter (dc_content c)) + length kvs)"
  shows "(dc_frozen c \<longrightarrow>
      dict_clear E c = Err CannotMutateImmutableDict \<and> dict_pop E hashable c key dflt = Err CannotMutateImmutableDict \<and>
      dict_popitem E c = Err CannotMutateImmutableDict \<and> dict_setdefault E hashable none c key dflt = Err CannotMutateImmutableDict \<and>
      dict_set_at E hashable c key x = Err (if hashable key then CannotMutateImmutableDict else KeyNotHashable) \<and>
      dict_update E hashable view H p pairs kwargs = (Err CannotMutateImmutableDict, H)) \<and>
    (\<not> dc_frozen c \<and> dc_borrows c > 0 \<longrightarrow>
      dict_clear E c = Err DictMutationDuringIteration \<and> dict_pop E hashable c key dflt = Err DictMutationDuringIteration \<and>
      dict_popitem E c = Err DictMutationDuringIteration \<and> dict_setdefault E hashable none c key dflt = Err DictMutationDuringIteration \<and>
      dict_set_at E hashable c key x = Err (if hashable key then DictMutationDuringIteration else KeyNotHashable) \<and>
      dict_update E hashable view H p pairs kwargs = (Err DictMutationDuringIteration, H)) \<and>
    (\<not> dc_frozen c \<longrightarrow> (\<exists>c'. dict_iter_start c = Ok c' \<and> dc_borrows c' > 0 \<and> dict_iter_stop c' = c)) \<and>
    (\<not> dc_frozen c \<and> dc_borrows c = 0 \<longrightarrow>
      (\<exists>m. dict_update E hashable view H p (Some v) kwargs = (Panic, set_content p m H) \<and>
         dict_yields E m (fold (\<lambda>(k, v). alist_insert k v) kvs (sm_iter (dc_content c)))))"
proof -
  have writing: "\<not> dc_writing (H p)" using assms(3) by blast
  have "elem_result hashable view H p e = Panic" using assms(7) by (simp add: elem_result_def)
  with map_laws.dict_update_fault [OF map_laws.intro [OF assms(1)] _ assms(3) _ assms(5,6), where r = Panic and kwargs = kwargs and m = "dc_content c"]
  have panic: "\<exists>m. dict_update E hashable view H p (Some v) kwargs = (Panic, set_content p m H) \<and>
      dict_yields E m (fold (\<lambda>(k, v). alist_insert k v) kvs (sm_iter (dc_content c)))" if "\<not> dc_frozen c \<and> dc_borrows c = 0"
    using that assms(2,4,8) writing by (simp add: dict_mut_def)
  show ?thesis
    using panic assms(2) writing
    by (simp add: dict_clear_def dict_pop_def dict_popitem_def dict_setdefault_def dict_update_def dict_set_at_def key_hashed_def
        dict_mut_def dict_iter_start_def dict_iter_stop_def)
qed

theorem dict_update_self_panics_witness:
  "\<exists>m. sm_from_iter demo_env 0 [(1, 10), (2, 20 :: nat)] = Some m \<and>
    (let c = \<lparr>dc_frozen = False, dc_borrows = 0, dc_writing = False, dc_content = m\<rparr>; H = (\<lambda>_ :: unit. c) in
      \<exists>m'. dict_update demo_env (\<lambda>_. True) demo_view H () (Some 200) m = (Panic, set_content () m' H) \<and>
        dict_yields demo_env m' [(1, 30), (2, 20)])"
proof -
  from demo_dict [of "[(1, 10), (2, 20 :: nat)]"] obtain m where
    m: "sm_from_iter demo_env 0 [(1, 10), (2, 20 :: nat)] = Some m" "sm_inv demo_env m" "sm_iter m = [(1, 10), (2, 20)]"
    by (auto simp: alist_insert_def)
  define c where "c = \<lparr>dc_frozen = False, dc_borrows = 0, dc_writing = False, dc_content = m\<rparr>"
  define H where "H = (\<lambda>_ :: unit. c)"
  have c: "c = H ()" "\<forall>q. \<not> dc_writing (H q)" "sm_inv demo_env (dc_content c)" using m(2) by (simp_all add: c_def H_def)
  have elems: "demo_view 200 = Yields ([5] @ 7 # [])" "map (elem_result (\<lambda>_. True) demo_view H ()) [5] = map Ok [(1, 30)]"
    "demo_view 7 = DictObj ()"
    by (simp_all add: demo_view_def elem_result_def pair_result_def)
  have room: "v2_ample (entry_ty demo_env) (length (sm_iter (dc_content c)) + length [(1 :: nat, 30 :: nat)])"
    by (rule demo_env_ample [THEN conjunct1]) (simp add: c_def m(3))
  from dict_update_self_panics [where kwargs = m, OF demo_env_laws(1) c elems room]
  have "\<exists>m'. dict_update demo_env (\<lambda>_. True) demo_view H () (Some 200) m = (Panic, set_content () m' H) \<and>
      dict_yields demo_env m' [(1, 30), (2, 20)]"
    by (simp add: c_def m(3) alist_insert_def)
  with m(1) show ?thesis unfolding Let_def c_def H_def by blast
qed

end
