(* ===== verification/List_Type.thy ===== *)
theory List_Type
  imports Slice_Index
begin

text \<open>
  Lists of Starlark: \<^verbatim>\<open>values/types/array.rs\<close>, the array of fixed capacity that holds the elements, and
  \<^verbatim>\<open>values/types/list/value.rs\<close>, \<^verbatim>\<open>values/types/list/methods.rs\<close> and the constructors of \<^verbatim>\<open>heap_type.rs\<close>, with the comparison
  of slices of \<^verbatim>\<open>values/comparison.rs\<close>.

  A list points to its array, and an iterator over the list points to that array and not to the list; so the arrays are
  kept in a store, a list is the address of its array, and a list that grows moves to a new address. Address 0 is the empty array
  that is allocated statically. The cells of an array that were not written are \<open>None\<close>. \<open>dbg\<close> is a build with debug assertions and
  overflow checks. A value is of any type \<open>'a\<close>; its comparison is an argument of the operations that use it.
\<close>

subsection \<open>Arrays\<close>

record 'a array =
  ar_len :: nat
  ar_capacity :: nat
  ar_iter_count :: nat
  ar_buf :: "'a option list"

definition u32_max :: nat where
  "u32_max = 2 ^ 32 - 1"

definition debug_assert :: "bool \<Rightarrow> bool \<Rightarrow> ('e, 'b) outcome \<Rightarrow> ('e, 'b) outcome" where
  "debug_assert dbg p r = (if dbg \<and> \<not> p then Panic else r)"

definition assert :: "bool \<Rightarrow> ('e, 'b) outcome \<Rightarrow> ('e, 'b) outcome" where
  "assert p r = (if p then r else Panic)"

definition array_new :: "nat \<Rightarrow> 'a array" where
  "array_new capacity = \<lparr>ar_len = 0, ar_capacity = capacity, ar_iter_count = 0, ar_buf = replicate capacity None\<rparr>"

definition is_statically_allocated :: "'a array \<Rightarrow> bool" where
  "is_statically_allocated a = (ar_capacity a = 0)"

definition iter_count_is_non_zero :: "'a array \<Rightarrow> bool" where
  "iter_count_is_non_zero a = (ar_iter_count a \<noteq> 0)"

definition remaining_capacity :: "bool \<Rightarrow> 'a array \<Rightarrow> ('e, nat) outcome" where
  "remaining_capacity dbg a =
     debug_assert dbg (ar_capacity a \<ge> ar_len a) (debug_assert dbg (\<not> iter_count_is_non_zero a) (Ok (ar_capacity a - ar_len a)))"

definition ar_content :: "'a array \<Rightarrow> 'a list" where
  "ar_content a = map the (take (ar_len a) (ar_buf a))"

definition ar_set_at :: "bool \<Rightarrow> 'a array \<Rightarrow> nat \<Rightarrow> 'a \<Rightarrow> ('e, 'a array) outcome" where
  "ar_set_at dbg a index v =
     debug_assert dbg (\<not> iter_count_is_non_zero a) (assert (index < ar_len a) (Ok (a\<lparr>ar_buf := (ar_buf a)[index := Some v]\<rparr>)))"

definition inc_iter_count :: "bool \<Rightarrow> 'a array \<Rightarrow> ('e, 'a array) outcome" where
  "inc_iter_count dbg a =
     (if is_statically_allocated a then Ok a
      else if ar_iter_count a < u32_max then Ok (a\<lparr>ar_iter_count := ar_iter_count a + 1\<rparr>)
      else if dbg then Panic else Ok (a\<lparr>ar_iter_count := 0\<rparr>))"

definition dec_iter_count :: "bool \<Rightarrow> 'a array \<Rightarrow> ('e, 'a array) outcome" where
  "dec_iter_count dbg a =
     (if \<not> is_statically_allocated a then
        debug_assert dbg (ar_iter_count a \<ge> 1)
          (Ok (a\<lparr>ar_iter_count := (if ar_iter_count a = 0 then u32_max else ar_iter_count a - 1)\<rparr>))
      else debug_assert dbg (ar_iter_count a = 0) (Ok a))"

definition ar_insert :: "bool \<Rightarrow> 'a array \<Rightarrow> nat \<Rightarrow> 'a \<Rightarrow> ('e, 'a array) outcome" where
  "ar_insert dbg a index v =
     bind_outcome (remaining_capacity dbg a) (\<lambda>rem.
     assert (rem \<ge> 1) (assert (index \<le> ar_len a)
       (Ok (a\<lparr>ar_buf := (ptr_copy (ar_buf a) index (index + 1) (ar_len a - index))[index := Some v], ar_len := ar_len a + 1\<rparr>))))"

definition ar_push :: "bool \<Rightarrow> 'a array \<Rightarrow> 'a \<Rightarrow> ('e, 'a array) outcome" where
  "ar_push dbg a v =
     bind_outcome (remaining_capacity dbg a) (\<lambda>rem.
     assert (rem \<ge> 1) (Ok (a\<lparr>ar_buf := (ar_buf a)[ar_len a := Some v], ar_len := ar_len a + 1\<rparr>)))"

definition ar_double :: "bool \<Rightarrow> 'a array \<Rightarrow> ('e, 'a array) outcome" where
  "ar_double dbg a =
     bind_outcome (remaining_capacity dbg a) (\<lambda>rem.
     assert (rem \<ge> ar_len a)
       (Ok (a\<lparr>ar_buf := ptr_copy (ar_buf a) 0 (ar_len a) (ar_len a), ar_len := ar_len a * 2\<rparr>)))"

text \<open>\<open>try_extend\<close>: an item is a value or an error, which ends the loop with the items before it added.\<close>

fun ar_try_extend :: "bool \<Rightarrow> 'a array \<Rightarrow> ('x + 'a) list \<Rightarrow> ('e, 'x option \<times> 'a array) outcome" where
  "ar_try_extend dbg a [] = Ok (None, a)"
| "ar_try_extend dbg a (Inl e # items) = Ok (Some e, a)"
| "ar_try_extend dbg a (Inr v # items) = bind_outcome (ar_push dbg a v) (\<lambda>a'. ar_try_extend dbg a' items)"

definition ar_extend_from_slice :: "bool \<Rightarrow> 'a array \<Rightarrow> 'a list \<Rightarrow> ('e, 'a array) outcome" where
  "ar_extend_from_slice dbg a xs =
     bind_outcome (remaining_capacity dbg a) (\<lambda>rem.
     assert (rem \<ge> length xs)
       (Ok (a\<lparr>ar_buf := take (ar_len a) (ar_buf a) @ map Some xs @ drop (ar_len a + length xs) (ar_buf a),
              ar_len := ar_len a + length xs\<rparr>)))"

definition ar_clear :: "bool \<Rightarrow> 'a array \<Rightarrow> ('e, 'a array) outcome" where
  "ar_clear dbg a = debug_assert dbg (\<not> iter_count_is_non_zero a) (Ok (a\<lparr>ar_len := 0\<rparr>))"

definition ar_remove :: "bool \<Rightarrow> 'a array \<Rightarrow> nat \<Rightarrow> ('e, 'a \<times> 'a array) outcome" where
  "ar_remove dbg a index =
     debug_assert dbg (\<not> iter_count_is_non_zero a) (assert (index < ar_len a)
       (Ok (the (ar_buf a ! index),
            a\<lparr>ar_buf := ptr_copy (ar_buf a) (index + 1) index (ar_len a - 1 - index), ar_len := ar_len a - 1\<rparr>)))"

definition ar_iter_next :: "bool \<Rightarrow> 'a array \<Rightarrow> nat \<Rightarrow> ('e, 'a option) outcome" where
  "ar_iter_next dbg a index =
     debug_assert dbg (ar_len a = 0 \<or> iter_count_is_non_zero a)
       (Ok (if index < length (ar_content a) then Some (ar_content a ! index) else None))"

subsection \<open>Lists in the store\<close>

type_synonym 'a store = "'a array list"

definition empty_store :: "'a store" where
  "empty_store = [array_new 0]"

definition alloc_array :: "'a store \<Rightarrow> nat \<Rightarrow> ('e, nat \<times> 'a store) outcome" where
  "alloc_array h cap =
     (if cap = 0 then Ok (0, h) else if cap > u32_max then Panic else Ok (length h, h @ [array_new cap]))"

definition on_array :: "'a store \<Rightarrow> nat \<Rightarrow> ('e, 'a array) outcome \<Rightarrow> ('e, nat \<times> 'a store) outcome" where
  "on_array h l r = bind_outcome r (\<lambda>a. Ok (l, h[l := a]))"

definition reserve_additional_slow :: "bool \<Rightarrow> 'a store \<Rightarrow> nat \<Rightarrow> nat \<Rightarrow> ('e, nat \<times> 'a store) outcome" where
  "reserve_additional_slow dbg h l additional =
     (let len = ar_len (h ! l); new_cap = max (len + additional) (len * 2); new_cap = max new_cap 4
      in bind_outcome (alloc_array h new_cap) (\<lambda>(l', h').
         on_array h' l' (ar_extend_from_slice dbg (h' ! l') (ar_content (h' ! l)))))"

definition reserve_additional :: "bool \<Rightarrow> 'a store \<Rightarrow> nat \<Rightarrow> nat \<Rightarrow> ('e, nat \<times> 'a store) outcome" where
  "reserve_additional dbg h l additional =
     bind_outcome (remaining_capacity dbg (h ! l)) (\<lambda>rem.
     if rem \<ge> additional then Ok (l, h) else reserve_additional_slow dbg h l additional)"

definition ld_double :: "bool \<Rightarrow> 'a store \<Rightarrow> nat \<Rightarrow> ('e, nat \<times> 'a store) outcome" where
  "ld_double dbg h l =
     bind_outcome (reserve_additional dbg h l (ar_len (h ! l))) (\<lambda>(l, h). on_array h l (ar_double dbg (h ! l)))"

definition ld_push :: "bool \<Rightarrow> 'a store \<Rightarrow> nat \<Rightarrow> 'a \<Rightarrow> ('e, nat \<times> 'a store) outcome" where
  "ld_push dbg h l v = bind_outcome (reserve_additional dbg h l 1) (\<lambda>(l, h). on_array h l (ar_push dbg (h ! l) v))"

definition ld_clear :: "bool \<Rightarrow> 'a store \<Rightarrow> nat \<Rightarrow> ('e, nat \<times> 'a store) outcome" where
  "ld_clear dbg h l = on_array h l (ar_clear dbg (h ! l))"

definition ld_insert :: "bool \<Rightarrow> 'a store \<Rightarrow> nat \<Rightarrow> nat \<Rightarrow> 'a \<Rightarrow> ('e, nat \<times> 'a store) outcome" where
  "ld_insert dbg h l index v =
     bind_outcome (reserve_additional dbg h l 1) (\<lambda>(l, h). on_array h l (ar_insert dbg (h ! l) index v))"

definition ld_remove :: "bool \<Rightarrow> 'a store \<Rightarrow> nat \<Rightarrow> nat \<Rightarrow> ('e, 'a \<times> nat \<times> 'a store) outcome" where
  "ld_remove dbg h l index = bind_outcome (ar_remove dbg (h ! l) index) (\<lambda>(v, a). Ok (v, l, h[l := a]))"

fun push_items :: "bool \<Rightarrow> 'a store \<Rightarrow> nat \<Rightarrow> ('x + 'a) list \<Rightarrow> ('e, 'x option \<times> nat \<times> 'a store) outcome" where
  "push_items dbg h l [] = Ok (None, l, h)"
| "push_items dbg h l (Inl e # items) = Ok (Some e, l, h)"
| "push_items dbg h l (Inr v # items) = bind_outcome (ld_push dbg h l v) (\<lambda>(l, h). push_items dbg h l items)"

text \<open>\<open>try_extend\<close>, with the size hint of the iterator.\<close>

definition ld_try_extend ::
  "bool \<Rightarrow> 'a store \<Rightarrow> nat \<Rightarrow> nat \<times> nat option \<Rightarrow> ('x + 'a) list \<Rightarrow> ('e, 'x option \<times> nat \<times> 'a store) outcome" where
  "ld_try_extend dbg h l hint items =
     (let lo = fst hint;
          fast = (\<lambda>(l, h). bind_outcome (ar_try_extend dbg (h ! l) items) (\<lambda>(e, a). Ok (e, l, h[l := a])));
          slow = bind_outcome (reserve_additional dbg h l lo) (\<lambda>(l, h). push_items dbg h l items)
      in (case snd hint of
            Some hi \<Rightarrow>
              if lo = hi then bind_outcome (reserve_additional dbg h l lo) fast
              else bind_outcome (remaining_capacity dbg (h ! l)) (\<lambda>rem. if rem \<ge> hi then fast (l, h) else slow)
          | None \<Rightarrow> slow))"

definition ld_extend :: "bool \<Rightarrow> 'a store \<Rightarrow> nat \<Rightarrow> nat \<times> nat option \<Rightarrow> 'a list \<Rightarrow> ('e, nat \<times> 'a store) outcome" where
  "ld_extend dbg h l hint items =
     bind_outcome (ld_try_extend dbg h l hint (map Inr items :: (unit + 'a) list)) (\<lambda>(_, l, h). Ok (l, h))"

definition alloc_list :: "bool \<Rightarrow> 'a store \<Rightarrow> 'a list \<Rightarrow> ('e, nat \<times> 'a store) outcome" where
  "alloc_list dbg h elems =
     bind_outcome (alloc_array h (length elems)) (\<lambda>(l, h). on_array h l (ar_extend_from_slice dbg (h ! l) elems))"

definition try_alloc_list_iter ::
  "bool \<Rightarrow> 'a store \<Rightarrow> nat \<times> nat option \<Rightarrow> ('x + 'a) list \<Rightarrow> ('e, 'x option \<times> nat \<times> 'a store) outcome" where
  "try_alloc_list_iter dbg h hint elems = bind_outcome (alloc_array h 0) (\<lambda>(l, h). ld_try_extend dbg h l hint elems)"

definition alloc_list_concat :: "bool \<Rightarrow> 'a store \<Rightarrow> 'a list \<Rightarrow> 'a list \<Rightarrow> ('e, nat \<times> 'a store) outcome" where
  "alloc_list_concat dbg h a b =
     bind_outcome (alloc_array h (length a + length b)) (\<lambda>(l, h).
     bind_outcome (on_array h l (ar_extend_from_slice dbg (h ! l) a)) (\<lambda>(l, h).
     on_array h l (ar_extend_from_slice dbg (h ! l) b)))"

subsection \<open>Methods\<close>

datatype 'a list_val = MutList nat | FrozenList "'a list"

datatype list_error = CannotMutateImmutableList | ListMutationDuringIteration | ElementNotFound | ArgNotIterable | UnsupportedOperation
  | ListValueError value_error | ComparisonError

type_synonym 'b list_result = "(list_error, 'b) outcome"

definition lift_value_error :: "'b value_result \<Rightarrow> 'b list_result" where
  "lift_value_error r = (case r of Ok x \<Rightarrow> Ok x | Err e \<Rightarrow> Err (ListValueError e) | Panic \<Rightarrow> Panic)"

text \<open>The argument of \<open>extend\<close>: the list itself, what another iterable yields with its size hint, or a value that is not iterable.\<close>

datatype 'a extend_arg = SameList | Iterable "nat \<times> nat option" "'a list" | NoIterable

definition lv_content :: "'a store \<Rightarrow> 'a list_val \<Rightarrow> 'a list" where
  "lv_content h v = (case v of MutList l \<Rightarrow> ar_content (h ! l) | FrozenList xs \<Rightarrow> xs)"

definition check_can_mutate :: "'a store \<Rightarrow> nat \<Rightarrow> unit list_result" where
  "check_can_mutate h l = (if iter_count_is_non_zero (h ! l) then Err ListMutationDuringIteration else Ok ())"

definition from_value_mut :: "'a store \<Rightarrow> 'a list_val \<Rightarrow> nat list_result" where
  "from_value_mut h v =
     (case v of
        MutList l \<Rightarrow> bind_outcome (check_can_mutate h l) (\<lambda>_. Ok l)
      | FrozenList _ \<Rightarrow> Err CannotMutateImmutableList)"

definition list_append :: "bool \<Rightarrow> 'a store \<Rightarrow> 'a list_val \<Rightarrow> 'a \<Rightarrow> (nat \<times> 'a store) list_result" where
  "list_append dbg h v el = bind_outcome (from_value_mut h v) (\<lambda>l. ld_push dbg h l el)"

definition list_clear :: "bool \<Rightarrow> 'a store \<Rightarrow> 'a list_val \<Rightarrow> (nat \<times> 'a store) list_result" where
  "list_clear dbg h v = bind_outcome (from_value_mut h v) (\<lambda>l. ld_clear dbg h l)"

definition list_extend :: "bool \<Rightarrow> 'a store \<Rightarrow> 'a list_val \<Rightarrow> 'a extend_arg \<Rightarrow> (nat \<times> 'a store) list_result" where
  "list_extend dbg h v other =
     bind_outcome (from_value_mut h v) (\<lambda>l.
       case other of
         SameList \<Rightarrow> ld_double dbg h l
       | Iterable hint items \<Rightarrow> ld_extend dbg h l hint items
       | NoIterable \<Rightarrow> Err ArgNotIterable)"

fun first_equal :: "('a \<Rightarrow> 'a \<Rightarrow> bool list_result) \<Rightarrow> 'a \<Rightarrow> nat \<Rightarrow> 'a list \<Rightarrow> nat option list_result" where
  "first_equal equals needle i [] = Ok None"
| "first_equal equals needle i (x # xs) =
     bind_outcome (equals x needle) (\<lambda>b. if b then Ok (Some i) else first_equal equals needle (Suc i) xs)"

definition list_index ::
  "bool \<Rightarrow> ('a \<Rightarrow> 'a \<Rightarrow> bool list_result) \<Rightarrow> 'a store \<Rightarrow> 'a list_val \<Rightarrow> 'a \<Rightarrow> int option \<Rightarrow> int option \<Rightarrow> int list_result" where
  "list_index dbg equals h v needle start stop =
     (let xs = lv_content h v in
      bind_outcome (convert_indices dbg (wrap_i32 (int (length xs))) start stop) (\<lambda>(start, stop).
      if start \<le> stop \<and> stop \<le> length xs then
        bind_outcome (first_equal equals needle 0 (take (stop - start) (drop start xs))) (\<lambda>r.
          case r of Some i \<Rightarrow> Ok (wrap_i32 (int (i + start))) | None \<Rightarrow> Err ElementNotFound)
      else Err ElementNotFound))"

definition list_insert :: "bool \<Rightarrow> 'a store \<Rightarrow> 'a list_val \<Rightarrow> int \<Rightarrow> 'a \<Rightarrow> (nat \<times> 'a store) list_result" where
  "list_insert dbg h v index el =
     bind_outcome (from_value_mut h v) (\<lambda>l.
     bind_outcome (ci_convert_index dbg (wrap_i32 (int (ar_len (h ! l)))) index) (\<lambda>index. ld_insert dbg h l index el))"

definition list_pop :: "bool \<Rightarrow> 'a store \<Rightarrow> 'a list_val \<Rightarrow> int option \<Rightarrow> ('a \<times> nat \<times> 'a store) list_result" where
  "list_pop dbg h v index =
     bind_outcome (from_value_mut h v) (\<lambda>l.
     let len = wrap_i32 (int (ar_len (h ! l))) in
     bind_outcome (case index of Some i \<Rightarrow> Ok i | None \<Rightarrow> plain_i32 dbg (len - 1)) (\<lambda>index.
     if index < 0 \<or> index \<ge> len then Err (ListValueError (IndexOutOfBound index)) else ld_remove dbg h l (usize_of_i32 index)))"

text \<open>\<open>==\<close> of two values: a failing comparison counts as different.\<close>

definition value_eq :: "('a \<Rightarrow> 'a \<Rightarrow> bool list_result) \<Rightarrow> 'a \<Rightarrow> 'a \<Rightarrow> bool" where
  "value_eq equals x y = (equals x y = Ok True)"

definition list_remove ::
  "bool \<Rightarrow> ('a \<Rightarrow> 'a \<Rightarrow> bool list_result) \<Rightarrow> 'a store \<Rightarrow> 'a list_val \<Rightarrow> 'a \<Rightarrow> (nat \<times> 'a store) list_result" where
  "list_remove dbg equals h v needle =
     (case find_index (\<lambda>x. value_eq equals x needle) (lv_content h v) of
        None \<Rightarrow> Err ElementNotFound
      | Some position \<Rightarrow>
          bind_outcome (from_value_mut h v) (\<lambda>l. bind_outcome (ld_remove dbg h l position) (\<lambda>(_, l, h). Ok (l, h))))"

subsection \<open>Operators\<close>

definition list_at :: "'a store \<Rightarrow> 'a list_val \<Rightarrow> idx_value \<Rightarrow> 'a list_result" where
  "list_at h v index =
     (let xs = lv_content h v in
      bind_outcome (lift_value_error (convert_index index (wrap_i32 (int (length xs))))) (\<lambda>i.
      assert (usize_of_i32 i < length xs) (Ok (xs ! usize_of_i32 i))))"

definition list_set_at :: "bool \<Rightarrow> 'a store \<Rightarrow> 'a list_val \<Rightarrow> idx_value \<Rightarrow> 'a \<Rightarrow> (nat \<times> 'a store) list_result" where
  "list_set_at dbg h v index x =
     bind_outcome (lift_value_error (convert_index index (wrap_i32 (int (length (lv_content h v)))))) (\<lambda>i.
       case v of
         MutList l \<Rightarrow> bind_outcome (check_can_mutate h l) (\<lambda>_. on_array h l (ar_set_at dbg (h ! l) (usize_of_i32 i) x))
       | FrozenList _ \<Rightarrow> Err CannotMutateImmutableList)"

definition list_length :: "'a store \<Rightarrow> 'a list_val \<Rightarrow> int" where
  "list_length h v = wrap_i32 (int (length (lv_content h v)))"

definition list_to_bool :: "'a store \<Rightarrow> 'a list_val \<Rightarrow> bool" where
  "list_to_bool h v = (lv_content h v \<noteq> [])"

definition list_is_in :: "('a \<Rightarrow> 'a \<Rightarrow> bool list_result) \<Rightarrow> 'a store \<Rightarrow> 'a list_val \<Rightarrow> 'a \<Rightarrow> bool list_result" where
  "list_is_in equals h v other = bind_outcome (first_equal equals other 0 (lv_content h v)) (\<lambda>r. Ok (r \<noteq> None))"

definition list_slice ::
  "bool \<Rightarrow> 'a store \<Rightarrow> 'a list_val \<Rightarrow> idx_value option \<Rightarrow> idx_value option \<Rightarrow> idx_value option \<Rightarrow> (nat \<times> 'a store) list_result" where
  "list_slice dbg h v start stop stride =
     bind_outcome (lift_value_error (apply_slice dbg (lv_content h v) start stop stride)) (\<lambda>res. alloc_list dbg h res)"

definition list_add :: "bool \<Rightarrow> 'a store \<Rightarrow> 'a list_val \<Rightarrow> 'a list_val option \<Rightarrow> (nat \<times> 'a store) list_result option" where
  "list_add dbg h v other = map_option (\<lambda>w. alloc_list_concat dbg h (lv_content h v) (lv_content h w)) other"

definition list_mul :: "bool \<Rightarrow> 'a store \<Rightarrow> 'a list_val \<Rightarrow> idx_value \<Rightarrow> (nat \<times> 'a store) list_result option" where
  "list_mul dbg h v other =
     (case other of
        IdxInt l \<Rightarrow>
          Some (if in_i32 l then alloc_list dbg h (concat (replicate (nat l) (lv_content h v)))
                else Err (ListValueError (IntegerTooBig l)))
      | _ \<Rightarrow> None)"

fun equals_zip :: "('a \<Rightarrow> 'b \<Rightarrow> ('e, bool) outcome) \<Rightarrow> ('a \<times> 'b) list \<Rightarrow> ('e, bool) outcome" where
  "equals_zip f [] = Ok True"
| "equals_zip f ((x, y) # xys) = bind_outcome (f x y) (\<lambda>b. if \<not> b then Ok False else equals_zip f xys)"

definition equals_slice :: "'a list \<Rightarrow> 'b list \<Rightarrow> ('a \<Rightarrow> 'b \<Rightarrow> ('e, bool) outcome) \<Rightarrow> ('e, bool) outcome" where
  "equals_slice xs ys f = (if length xs \<noteq> length ys then Ok False else equals_zip f (zip xs ys))"

fun compare_zip :: "('a \<Rightarrow> 'b \<Rightarrow> ('e, ordering) outcome) \<Rightarrow> ('a \<times> 'b) list \<Rightarrow> ('e, ordering) outcome" where
  "compare_zip f [] = Ok Equal"
| "compare_zip f ((x, y) # xys) = bind_outcome (f x y) (\<lambda>c. if c \<noteq> Equal then Ok c else compare_zip f xys)"

definition compare_slice :: "'a list \<Rightarrow> 'b list \<Rightarrow> ('a \<Rightarrow> 'b \<Rightarrow> ('e, ordering) outcome) \<Rightarrow> ('e, ordering) outcome" where
  "compare_slice xs ys f =
     bind_outcome (compare_zip f (zip xs ys)) (\<lambda>c. Ok (if c \<noteq> Equal then c else cmp_key (length xs) (length ys)))"

definition list_equals :: "('a \<Rightarrow> 'a \<Rightarrow> bool list_result) \<Rightarrow> 'a store \<Rightarrow> 'a list_val \<Rightarrow> 'a list_val option \<Rightarrow> bool list_result" where
  "list_equals equals h v other =
     (case other of None \<Rightarrow> Ok False | Some w \<Rightarrow> equals_slice (lv_content h v) (lv_content h w) equals)"

definition list_compare ::
  "('a \<Rightarrow> 'a \<Rightarrow> ordering list_result) \<Rightarrow> 'a store \<Rightarrow> 'a list_val \<Rightarrow> 'a list_val option \<Rightarrow> ordering list_result" where
  "list_compare compare h v other =
     (case other of None \<Rightarrow> Err UnsupportedOperation | Some w \<Rightarrow> compare_slice (lv_content h v) (lv_content h w) compare)"

text \<open>Iteration: the iterator of a list that is not frozen is its array.\<close>

datatype 'a list_iter = ArrayIter nat | FrozenIter "'a list"

definition new_iter :: "bool \<Rightarrow> 'a store \<Rightarrow> 'a list_val \<Rightarrow> ('e, 'a list_iter \<times> 'a store) outcome" where
  "new_iter dbg h v =
     (case v of
        MutList l \<Rightarrow> bind_outcome (inc_iter_count dbg (h ! l)) (\<lambda>a. Ok (ArrayIter l, h[l := a]))
      | FrozenList xs \<Rightarrow> Ok (FrozenIter xs, h))"

definition list_iter_next :: "bool \<Rightarrow> 'a store \<Rightarrow> 'a list_iter \<Rightarrow> nat \<Rightarrow> ('e, 'a option) outcome" where
  "list_iter_next dbg h it index =
     (case it of
        ArrayIter l \<Rightarrow> ar_iter_next dbg (h ! l) index
      | FrozenIter xs \<Rightarrow> Ok (if index < length xs then Some (xs ! index) else None))"

definition list_iter_stop :: "bool \<Rightarrow> 'a store \<Rightarrow> 'a list_iter \<Rightarrow> ('e, 'a store) outcome" where
  "list_iter_stop dbg h it =
     (case it of
        ArrayIter l \<Rightarrow> bind_outcome (dec_iter_count dbg (h ! l)) (\<lambda>a. Ok (h[l := a]))
      | FrozenIter _ \<Rightarrow> Ok h)"

subsection \<open>Arrays behave as lists\<close>

text \<open>\<open>gives r P\<close>: \<open>r\<close> returns, and what it returns satisfies \<open>P\<close>.\<close>

definition gives :: "('e, 'b) outcome \<Rightarrow> ('b \<Rightarrow> bool) \<Rightarrow> bool" where
  "gives r P \<longleftrightarrow> (case r of Ok x \<Rightarrow> P x | _ \<Rightarrow> False)"

lemma gives_Ok [simp]: "gives (Ok x) P \<longleftrightarrow> P x" "\<not> gives (Err e) P" "\<not> gives Panic P"
  by (simp_all add: gives_def)

lemma gives_bind: "gives r P \<Longrightarrow> (\<And>x. P x \<Longrightarrow> gives (f x) Q) \<Longrightarrow> gives (bind_outcome r f) Q"
  by (cases r) auto

lemma gives_mono: "gives r P \<Longrightarrow> (\<And>x. P x \<Longrightarrow> Q x) \<Longrightarrow> gives r Q"
  by (cases r) auto

lemma givesE: "gives r P \<Longrightarrow> (\<And>x. r = Ok x \<Longrightarrow> P x \<Longrightarrow> thesis) \<Longrightarrow> thesis"
  by (cases r) auto

text \<open>What \<open>Array\<close> promises: the length is within the capacity, the capacity is a \<open>u32\<close>, and the cells up to the length are written.\<close>

definition ar_wf :: "'a array \<Rightarrow> bool" where
  "ar_wf a \<longleftrightarrow> ar_len a \<le> ar_capacity a \<and> ar_capacity a \<le> u32_max \<and> length (ar_buf a) = ar_capacity a \<and>
     list_all (\<lambda>c. c \<noteq> None) (take (ar_len a) (ar_buf a)) \<and> (ar_capacity a = 0 \<longrightarrow> ar_iter_count a = 0)"

text \<open>\<open>ar_holds a cap xs\<close>: a valid array of this capacity with these elements that no iterator uses.\<close>

definition ar_holds :: "'a array \<Rightarrow> nat \<Rightarrow> 'a list \<Rightarrow> bool" where
  "ar_holds a cap xs \<longleftrightarrow> ar_len a = length xs \<and> ar_capacity a = cap \<and> cap \<le> u32_max \<and> ar_iter_count a = 0 \<and>
     (\<exists>rest. ar_buf a = map Some xs @ rest \<and> length xs + length rest = cap)"

lemma ar_wf_buf:
  assumes wf: "ar_wf a"
  shows "\<exists>rest. ar_buf a = map Some (ar_content a) @ rest \<and> length (ar_content a) = ar_len a \<and> ar_len a + length rest = ar_capacity a"
proof -
  have "map Some (ar_content a) = take (ar_len a) (ar_buf a)"
    using wf by (auto simp: ar_wf_def ar_content_def list_all_iff intro: map_idI)
  then have "ar_buf a = map Some (ar_content a) @ drop (ar_len a) (ar_buf a)" by simp
  with wf show ?thesis by (intro exI [of _ "drop (ar_len a) (ar_buf a)"]) (auto simp: ar_wf_def ar_content_def)
qed

lemma ar_wf_holds: "ar_wf a \<Longrightarrow> ar_iter_count a = 0 \<Longrightarrow> ar_holds a (ar_capacity a) (ar_content a)"
  using ar_wf_buf [of a] by (auto simp: ar_holds_def ar_wf_def)

lemma ar_holdsD:
  assumes "ar_holds a cap xs"
  shows "ar_wf a" "ar_content a = xs" "ar_len a = length xs" "ar_capacity a = cap" "ar_iter_count a = 0" "length xs \<le> cap" "cap \<le> u32_max"
  using assms by (auto simp: ar_holds_def ar_wf_def ar_content_def list_all_iff)

lemma ar_holds_remaining: "ar_holds a cap xs \<Longrightarrow> remaining_capacity dbg a = Ok (cap - length xs)"
  by (auto simp: ar_holds_def remaining_capacity_def debug_assert_def iter_count_is_non_zero_def)

lemma ar_holds_room:
  assumes "ar_holds a cap xs" "length xs < cap"
  obtains r rest where "ar_buf a = map Some xs @ r # rest" "length xs + Suc (length rest) = cap"
proof -
  from assms(1) obtain rest where "ar_buf a = map Some xs @ rest" "length xs + length rest = cap" by (auto simp: ar_holds_def)
  with assms(2) that show ?thesis by (cases rest) auto
qed

lemma array_new_holds: "cap \<le> u32_max \<Longrightarrow> ar_holds (array_new cap) cap []"
  by (simp add: ar_holds_def array_new_def)

lemma ar_push_gives:
  assumes "ar_holds a cap xs" "length xs < cap"
  shows "gives (ar_push dbg a v) (\<lambda>a'. ar_holds a' cap (xs @ [v]))"
proof -
  obtain r rest where "ar_buf a = map Some xs @ r # rest" "length xs + Suc (length rest) = cap" using ar_holds_room [OF assms] .
  then show ?thesis using ar_holdsD(3-5,7) [OF assms(1)] assms(2)
    by (simp add: ar_push_def assert_def ar_holds_remaining [OF assms(1)]) (simp add: ar_holds_def list_update_append)
qed

lemma ar_extend_from_slice_gives:
  assumes "ar_holds a cap xs" "length xs + length ys \<le> cap"
  shows "gives (ar_extend_from_slice dbg a ys) (\<lambda>a'. ar_holds a' cap (xs @ ys))"
  using assms by (simp add: ar_extend_from_slice_def assert_def ar_holds_remaining [OF assms(1)]) (auto simp: ar_holds_def)

lemma ar_double_gives:
  assumes "ar_holds a cap xs" "length xs + length xs \<le> cap"
  shows "gives (ar_double dbg a) (\<lambda>a'. ar_holds a' cap (xs @ xs))"
  using assms ar_holdsD(3) [OF assms(1)]
  by (simp add: ar_double_def assert_def ar_holds_remaining [OF assms(1)]) (auto simp: ar_holds_def ptr_copy_def)

lemma insert_buffer:
  assumes "index \<le> length xs"
  shows "(ptr_copy (map Some xs @ r # rest) index (index + 1) (length xs - index))[index := Some v] =
    map Some (take index xs @ v # drop index xs) @ rest"
proof -
  have "take (Suc index) (map Some xs @ r # rest) = map Some (take index xs) @ [(map Some xs @ r # rest) ! index]"
    using assms by (subst take_Suc_conv_app_nth) (auto simp: take_map)
  then show ?thesis using assms by (simp add: ptr_copy_def list_update_append drop_map)
qed

lemma ar_insert_gives:
  assumes "ar_holds a cap xs" "length xs < cap" "index \<le> length xs"
  shows "gives (ar_insert dbg a index v) (\<lambda>a'. ar_holds a' cap (take index xs @ v # drop index xs))"
proof -
  obtain r rest where "ar_buf a = map Some xs @ r # rest" "length xs + Suc (length rest) = cap" using ar_holds_room [OF assms(1,2)] .
  then show ?thesis using ar_holdsD(3-5,7) [OF assms(1)] assms(2,3) insert_buffer [OF assms(3), of r rest v]
    by (simp add: ar_insert_def assert_def ar_holds_remaining [OF assms(1)]) (simp add: ar_holds_def)
qed

lemma ar_remove_gives:
  assumes "ar_holds a cap xs" "index < length xs"
  shows "gives (ar_remove dbg a index) (\<lambda>(v, a'). v = xs ! index \<and> ar_holds a' cap (take index xs @ drop (Suc index) xs))"
proof -
  obtain rest where buf: "ar_buf a = map Some xs @ rest" "length xs + length rest = cap" using assms(1) by (auto simp: ar_holds_def)
  have "ptr_copy (ar_buf a) (index + 1) index (length xs - 1 - index) =
      map Some (take index xs @ drop (Suc index) xs) @ drop (length xs - 1) (ar_buf a)"
    using assms(2) buf by (simp add: ptr_copy_def take_map drop_map)
  then show ?thesis using assms(2) ar_holdsD(3-5,7) [OF assms(1)] buf
    by (simp add: ar_remove_def assert_def debug_assert_def iter_count_is_non_zero_def nth_append) (simp add: ar_holds_def)
qed

lemma ar_clear_gives: "ar_holds a cap xs \<Longrightarrow> gives (ar_clear dbg a) (\<lambda>a'. ar_holds a' cap [])"
  by (auto simp: ar_clear_def debug_assert_def ar_holds_def iter_count_is_non_zero_def)

lemma ar_set_at_gives:
  assumes "ar_holds a cap xs" "index < length xs"
  shows "gives (ar_set_at dbg a index v) (\<lambda>a'. ar_holds a' cap (xs[index := v]))"
  using assms
  by (auto simp: ar_set_at_def assert_def debug_assert_def ar_holds_def iter_count_is_non_zero_def list_update_append map_update)

lemma ar_try_extend_gives:
  "ar_holds a cap xs \<Longrightarrow> length xs + length ys \<le> cap \<Longrightarrow>
   gives (ar_try_extend dbg a (map Inr ys)) (\<lambda>(e, a'). e = None \<and> ar_holds a' cap (xs @ ys))"
proof (induction ys arbitrary: a xs)
  case (Cons y ys)
  show ?case unfolding list.map ar_try_extend.simps
    by (rule gives_bind [OF ar_push_gives [OF Cons.prems(1)]], use Cons.prems(2) in simp, drule Cons.IH)
      (use Cons.prems(2) in simp_all)
qed simp
subsection \<open>Lists behave as lists\<close>

text \<open>A valid store: the empty array is at address 0 and every array is valid.\<close>

definition store_wf :: "'a store \<Rightarrow> bool" where
  "store_wf h \<longleftrightarrow> h \<noteq> [] \<and> ar_capacity (h ! 0) = 0 \<and> list_all ar_wf h"

text \<open>\<open>moved_to h l ys (l', h')\<close>: from the list \<open>l\<close> in the store \<open>h\<close>, the list is now at \<open>l'\<close> in \<open>h'\<close> and has the elements \<open>ys\<close>,
  not iterated over; it is where it was or at a new address, every other array is as before and no array has changed its capacity.\<close>

definition moved_to :: "'a store \<Rightarrow> nat \<Rightarrow> 'a list \<Rightarrow> nat \<times> 'a store \<Rightarrow> bool" where
  "moved_to h l ys r \<longleftrightarrow>
     (case r of (l', h') \<Rightarrow> store_wf h' \<and> l' < length h' \<and> ar_content (h' ! l') = ys \<and> ar_iter_count (h' ! l') = 0 \<and>
        (l' = l \<or> length h \<le> l') \<and> length h \<le> length h' \<and> (\<forall>i < length h. ar_capacity (h' ! i) = ar_capacity (h ! i) \<and> (i \<noteq> l \<longrightarrow> h' ! i = h ! i)))"

lemma store_wfD: "store_wf h \<Longrightarrow> l < length h \<Longrightarrow> ar_wf (h ! l)"
  by (simp add: store_wf_def list_all_length)

lemma moved_to_update:
  assumes "store_wf h" "l < length h" "ar_holds a (ar_capacity (h ! l)) ys"
  shows "moved_to h l ys (l, h[l := a])"
proof -
  have "store_wf (h[l := a])"
    using assms ar_holdsD [OF assms(3)] by (auto simp: store_wf_def list_all_length nth_list_update)
  with assms ar_holdsD [OF assms(3)] show ?thesis by (auto simp: moved_to_def nth_list_update)
qed

lemma moved_to_trans:
  assumes "moved_to h l xs (l\<^sub>1, h\<^sub>1)" "moved_to h\<^sub>1 l\<^sub>1 ys r"
  shows "moved_to h l ys r"
proof (cases r)
  case (Pair l\<^sub>2 h\<^sub>2)
  have "h\<^sub>2 ! i = h ! i" if "i < length h" "i \<noteq> l" for i
    using assms that Pair by (auto simp: moved_to_def)
  moreover have "ar_capacity (h\<^sub>2 ! i) = ar_capacity (h ! i)" if "i < length h" for i
    using assms that Pair by (simp add: moved_to_def)
  ultimately show ?thesis using assms Pair by (auto simp: moved_to_def)
qed

text \<open>A list that is valid and free, as the methods see it.\<close>

definition list_free :: "'a store \<Rightarrow> nat \<Rightarrow> bool" where
  "list_free h l \<longleftrightarrow> store_wf h \<and> l < length h \<and> ar_iter_count (h ! l) = 0"

lemma list_free_holds: "list_free h l \<Longrightarrow> ar_holds (h ! l) (ar_capacity (h ! l)) (ar_content (h ! l))"
  by (simp add: list_free_def ar_wf_holds store_wfD)

lemma moved_to_free: "moved_to h l ys (l', h') \<Longrightarrow> list_free h' l' \<and> ar_content (h' ! l') = ys"
  by (simp add: moved_to_def list_free_def)

lemma moved_to_refl: "list_free h l \<Longrightarrow> moved_to h l (ar_content (h ! l)) (l, h)"
  by (simp add: list_free_def moved_to_def)

lemma on_array_gives:
  assumes "list_free h l" "gives r (\<lambda>a. ar_holds a (ar_capacity (h ! l)) ys)"
  shows "gives (on_array h l r) (moved_to h l ys)"
  unfolding on_array_def using assms
  by (intro gives_bind [OF assms(2)]) (simp add: list_free_def moved_to_update)

lemma alloc_array_gives:
  assumes "store_wf h" "cap \<le> u32_max"
  shows "gives (alloc_array h cap) (\<lambda>(l, h'). list_free h' l \<and> ar_holds (h' ! l) cap [] \<and>
    (l = 0 \<and> h' = h \<or> l = length h \<and> h' = h @ [array_new cap]))"
proof (cases "cap = 0")
  case True
  have wf: "ar_wf (h ! 0)" using assms(1) by (auto simp: store_wf_def intro: store_wfD [OF assms(1)])
  then have "ar_len (h ! 0) = 0" "ar_iter_count (h ! 0) = 0" using assms(1) by (auto simp: ar_wf_def store_wf_def)
  with wf ar_wf_holds [OF wf] assms(1) True show ?thesis
    by (simp add: alloc_array_def list_free_def store_wf_def ar_content_def)
next
  case False
  with assms array_new_holds [OF assms(2)] ar_holdsD(1) [OF array_new_holds [OF assms(2)]] show ?thesis
    by (auto simp: alloc_array_def list_free_def store_wf_def nth_append array_new_def)
qed

lemma reserve_gives:
  assumes free: "list_free h l" and fits: "2 * (length (ar_content (h ! l)) + n) \<le> u32_max"
  shows "gives (reserve_additional dbg h l n) (\<lambda>(l', h'). moved_to h l (ar_content (h ! l)) (l', h') \<and>
    length (ar_content (h ! l)) + n \<le> ar_capacity (h' ! l'))"
proof (cases "ar_capacity (h ! l) - length (ar_content (h ! l)) \<ge> n")
  case True
  with ar_holdsD(6) [OF list_free_holds [OF free]] show ?thesis
    by (simp add: reserve_additional_def ar_holds_remaining [OF list_free_holds [OF free]] moved_to_refl [OF free])
next
  case False
  let ?xs = "ar_content (h ! l)" and ?cap = "max (max (ar_len (h ! l) + n) (ar_len (h ! l) * 2)) 4"
  note len = ar_holdsD(3) [OF list_free_holds [OF free]]
  have room: "max (ar_len (h ! l) + n) (max (ar_len (h ! l) * 2) 4) \<le> u32_max" using fits len by (simp add: u32_max_def)
  have wf: "store_wf h" "l < length h" using free by (auto simp: list_free_def)
  have new: "list_free (h @ [array_new ?cap]) (length h)" "ar_holds (array_new ?cap) ?cap []"
    using wf room array_new_holds [of ?cap] ar_holdsD(1) [OF array_new_holds [of ?cap]]
    by (auto simp: list_free_def store_wf_def nth_append array_new_def)
  have ext: "gives (ar_extend_from_slice dbg (array_new ?cap) ?xs) (\<lambda>a. ar_holds a ?cap ?xs)"
    by (rule gives_mono [OF ar_extend_from_slice_gives [OF new(2)]]) (use len in auto)
  have moved: "moved_to h l ?xs (length h, h @ [a])" if "ar_holds a ?cap ?xs" for a
    using that wf ar_holdsD [OF that] by (auto simp: moved_to_def store_wf_def nth_append)
  have cap: "\<not> u32_max < ?cap" "?cap \<noteq> 0" using room by auto
  have eq: "reserve_additional dbg h l n =
      bind_outcome (ar_extend_from_slice dbg (array_new ?cap) ?xs) (\<lambda>a. Ok (length h, h @ [a]))"
    using False cap wf
    by (simp add: reserve_additional_def ar_holds_remaining [OF list_free_holds [OF free]] reserve_additional_slow_def Let_def
        alloc_array_def on_array_def nth_append)
  show ?thesis unfolding eq
    by (rule gives_bind [OF ext]) (use len in \<open>auto simp: moved dest: ar_holdsD(4)\<close>)
qed
text \<open>After \<open>reserve_additional\<close>, an operation of the array itself.\<close>

lemma reserve_then_gives:
  assumes "list_free h l" "2 * (length (ar_content (h ! l)) + n) \<le> u32_max"
    and "\<And>a cap. ar_holds a cap (ar_content (h ! l)) \<Longrightarrow> length (ar_content (h ! l)) + n \<le> cap \<Longrightarrow>
      gives (f a) (\<lambda>a'. ar_holds a' cap ys)"
  shows "gives (bind_outcome (reserve_additional dbg h l n) (\<lambda>(l, h). on_array h l (f (h ! l)))) (moved_to h l ys)"
proof (rule gives_bind [OF reserve_gives [OF assms(1,2)]], clarify)
  fix l' h' assume m: "moved_to h l (ar_content (h ! l)) (l', h')" and c: "length (ar_content (h ! l)) + n \<le> ar_capacity (h' ! l')"
  note free = moved_to_free [OF m]
  have "gives (f (h' ! l')) (\<lambda>a'. ar_holds a' (ar_capacity (h' ! l')) ys)"
    by (rule assms(3)) (use list_free_holds [OF free [THEN conjunct1]] free c in simp_all)
  from on_array_gives [OF free [THEN conjunct1] this] show "gives (on_array h' l' (f (h' ! l'))) (moved_to h l ys)"
    by (rule gives_mono) (rule moved_to_trans [OF m])
qed

lemma ld_push_gives:
  "list_free h l \<Longrightarrow> 2 * (length (ar_content (h ! l)) + 1) \<le> u32_max \<Longrightarrow>
   gives (ld_push dbg h l v) (moved_to h l (ar_content (h ! l) @ [v]))"
  unfolding ld_push_def by (rule reserve_then_gives) (auto intro: ar_push_gives)

lemma ld_insert_gives:
  "list_free h l \<Longrightarrow> 2 * (length (ar_content (h ! l)) + 1) \<le> u32_max \<Longrightarrow> i \<le> length (ar_content (h ! l)) \<Longrightarrow>
   gives (ld_insert dbg h l i v) (moved_to h l (take i (ar_content (h ! l)) @ v # drop i (ar_content (h ! l))))"
  unfolding ld_insert_def by (rule reserve_then_gives) (auto intro: ar_insert_gives)

lemma ld_double_gives:
  assumes "list_free h l" "4 * length (ar_content (h ! l)) \<le> u32_max"
  shows "gives (ld_double dbg h l) (moved_to h l (ar_content (h ! l) @ ar_content (h ! l)))"
  unfolding ld_double_def ar_holdsD(3) [OF list_free_holds [OF assms(1)]]
  by (rule reserve_then_gives) (use assms in \<open>auto intro: ar_double_gives\<close>)

lemma ld_clear_gives: "list_free h l \<Longrightarrow> gives (ld_clear dbg h l) (moved_to h l [])"
  unfolding ld_clear_def by (rule on_array_gives) (auto intro: ar_clear_gives list_free_holds)

lemma ld_remove_gives:
  assumes "list_free h l" "i < length (ar_content (h ! l))"
  shows "gives (ld_remove dbg h l i) (\<lambda>(v, r). v = ar_content (h ! l) ! i \<and>
    moved_to h l (take i (ar_content (h ! l)) @ drop (Suc i) (ar_content (h ! l))) r)"
  unfolding ld_remove_def
  by (rule gives_bind [OF ar_remove_gives [OF list_free_holds [OF assms(1)] assms(2)]])
    (use assms in \<open>auto simp: list_free_def intro: moved_to_update\<close>)

lemma moved_to_append:
  "moved_to h l xs (l', h') \<Longrightarrow> moved_to h' l' (ar_content (h' ! l') @ ys) r \<Longrightarrow> moved_to h l (xs @ ys) r"
  using moved_to_free [of h l xs l' h'] moved_to_trans [of h l xs l' h'] by simp

lemma moved_to_Cons:
  "moved_to h l (xs @ [y]) (l', h') \<Longrightarrow> moved_to h' l' (ar_content (h' ! l') @ ys) r \<Longrightarrow> moved_to h l (xs @ y # ys) r"
  using moved_to_append [of h l "xs @ [y]" l' h' ys r] by simp

lemma push_items_gives:
  "list_free h l \<Longrightarrow> 2 * (length (ar_content (h ! l)) + length ys) \<le> u32_max \<Longrightarrow>
   gives (push_items dbg h l (map Inr ys)) (\<lambda>(e, r). e = None \<and> moved_to h l (ar_content (h ! l) @ ys) r)"
proof (induction ys arbitrary: h l)
  case (Cons y ys)
  have room: "2 * (length (ar_content (h ! l)) + 1) \<le> u32_max" using Cons.prems(2) by simp
  show ?case unfolding list.map push_items.simps
    by (rule gives_bind [OF ld_push_gives [OF Cons.prems(1) room]], clarify, rule gives_mono [OF Cons.IH])
      (use Cons.prems(2) in \<open>auto dest: moved_to_free intro: moved_to_Cons\<close>)
qed (simp add: moved_to_refl)

text \<open>A size hint is right if the number of items is within it.\<close>

definition hint_ok :: "nat \<times> nat option \<Rightarrow> 'a list \<Rightarrow> bool" where
  "hint_ok hint ys \<longleftrightarrow> fst hint \<le> length ys \<and> (case snd hint of None \<Rightarrow> True | Some hi \<Rightarrow> length ys \<le> hi)"

lemma fast_extend_gives:
  assumes "list_free h l" "length (ar_content (h ! l)) + length ys \<le> ar_capacity (h ! l)"
  shows "gives (bind_outcome (ar_try_extend dbg (h ! l) (map Inr ys)) (\<lambda>(e, a). Ok (e, l, h[l := a])))
    (\<lambda>(e, r). e = None \<and> moved_to h l (ar_content (h ! l) @ ys) r)"
  by (rule gives_bind [OF ar_try_extend_gives [OF list_free_holds [OF assms(1)] assms(2)]])
    (use assms(1) in \<open>auto simp: list_free_def intro: moved_to_update\<close>)

lemma ld_try_extend_gives:
  assumes free: "list_free h l" and room: "2 * (length (ar_content (h ! l)) + length ys) \<le> u32_max" and hint: "hint_ok hint ys"
  shows "gives (ld_try_extend dbg h l hint (map Inr ys)) (\<lambda>(e, r). e = None \<and> moved_to h l (ar_content (h ! l) @ ys) r)"
proof -
  let ?Q = "\<lambda>(e, r). e = None \<and> moved_to h l (ar_content (h ! l) @ ys) r"
  have lo: "2 * (length (ar_content (h ! l)) + fst hint) \<le> u32_max" using room hint by (simp add: hint_ok_def)
  have slow: "gives (bind_outcome (reserve_additional dbg h l (fst hint)) (\<lambda>(l, h). push_items dbg h l (map Inr ys))) ?Q"
    by (rule gives_bind [OF reserve_gives [OF free lo]], clarify, rule gives_mono [OF push_items_gives])
      (use room in \<open>auto dest: moved_to_free intro: moved_to_append\<close>)
  have exact: "gives (bind_outcome (reserve_additional dbg h l (fst hint))
      (\<lambda>(l, h). bind_outcome (ar_try_extend dbg (h ! l) (map Inr ys)) (\<lambda>(e, a). Ok (e, l, h[l := a])))) ?Q"
    if "fst hint = length ys"
    by (rule gives_bind [OF reserve_gives [OF free lo]], clarify, rule gives_mono [OF fast_extend_gives])
      (use that in \<open>auto dest: moved_to_free intro: moved_to_append\<close>)
  have fits: "gives (bind_outcome (ar_try_extend dbg (h ! l) (map Inr ys)) (\<lambda>(e, a). Ok (e, l, h[l := a]))) ?Q"
    if "ar_capacity (h ! l) - length (ar_content (h ! l)) \<ge> hi" "snd hint = Some hi" for hi
    by (rule fast_extend_gives [OF free]) (use that hint ar_holdsD(6) [OF list_free_holds [OF free]] in \<open>auto simp: hint_ok_def\<close>)
  show ?thesis
  proof (cases "snd hint")
    case None
    then show ?thesis unfolding ld_try_extend_def Let_def by (simp add: slow)
  next
    case (Some hi)
    show ?thesis
    proof (cases "fst hint = hi")
      case True
      with hint Some have "fst hint = length ys" by (simp add: hint_ok_def)
      then show ?thesis unfolding ld_try_extend_def Let_def Some option.case if_P [OF True] by (rule exact)
    next
      case False
      then show ?thesis unfolding ld_try_extend_def Let_def
        by (simp add: Some slow fits ar_holds_remaining [OF list_free_holds [OF free]])
    qed
  qed
qed

lemma ld_extend_gives:
  "list_free h l \<Longrightarrow> 2 * (length (ar_content (h ! l)) + length ys) \<le> u32_max \<Longrightarrow> hint_ok hint ys \<Longrightarrow>
   gives (ld_extend dbg h l hint ys) (moved_to h l (ar_content (h ! l) @ ys))"
  unfolding ld_extend_def by (rule gives_bind [OF ld_try_extend_gives]) auto
subsection \<open>Properties\<close>

lemma from_value_mut_free: "list_free h l \<Longrightarrow> from_value_mut h (MutList l) = Ok l"
  by (simp add: from_value_mut_def check_can_mutate_def iter_count_is_non_zero_def list_free_def)

text \<open>The position that \<open>insert\<close> and the bounds of \<open>index\<close> use: a negative one counts from the end, then it is moved into the list.\<close>

definition clamp_index :: "nat \<Rightarrow> int \<Rightarrow> nat" where
  "clamp_index n i = nat (max 0 (min (int n) (if i < 0 then i + int n else i)))"

lemma wrap_i32_len: "int n \<le> i32_max \<Longrightarrow> wrap_i32 (int n) = int n"
  by (simp add: wrap_i32_def i32_defs)

lemma ci_bound_clamp: "int n \<le> i32_max \<Longrightarrow> ci_bound (if i < 0 then i + int n else i) (int n) = clamp_index n i"
  by (auto simp: ci_bound_def clamp_index_def)

lemma ci_convert_index_clamp:
  assumes "int n \<le> i32_max" "in_i32 i"
  shows "ci_convert_index dbg (wrap_i32 (int n)) i = Ok (clamp_index n i)"
proof -
  have "i < 0 \<Longrightarrow> in_i32 (i + int n)" using assms by (auto simp: i32_defs)
  then show ?thesis using ci_bound_clamp [OF assms(1), of i] assms by (auto simp: ci_convert_index_def wrap_i32_len)
qed

lemma list_pop_gives:
  assumes free: "list_free h l" and xs: "ar_content (h ! l) = xs" and len: "int (length xs) \<le> i32_max"
    and i: "(case index of Some i \<Rightarrow> i | None \<Rightarrow> int (length xs) - 1) = i"
  shows "if 0 \<le> i \<and> i < int (length xs)
    then gives (list_pop dbg h (MutList l) index) (\<lambda>(v, r). v = xs ! nat i \<and> moved_to h l (take (nat i) xs @ drop (Suc (nat i)) xs) r)
    else list_pop dbg h (MutList l) index = Err (ListValueError (IndexOutOfBound i))"
proof -
  have l: "ar_len (h ! l) = length xs" using ar_holdsD(3) [OF list_free_holds [OF free]] xs by simp
  have pred: "in_i32 (int (length xs) - 1)" using len by (simp add: i32_defs)
  have "list_pop dbg h (MutList l) index =
      (if i < 0 \<or> i \<ge> int (length xs) then Err (ListValueError (IndexOutOfBound i)) else ld_remove dbg h l (nat i))"
    using len i pred by (cases index) (auto simp: list_pop_def from_value_mut_free [OF free] Let_def l wrap_i32_len plain_i32_def)
  with ld_remove_gives [OF free, of "nat i"] xs show ?thesis by (auto simp: nat_less_iff)
qed

lemma list_remove_gives:
  assumes free: "list_free h l" and xs: "ar_content (h ! l) = xs"
  shows "case find_index (\<lambda>x. equals x v = Ok True) xs of
      None \<Rightarrow> list_remove dbg equals h (MutList l) v = Err ElementNotFound
    | Some i \<Rightarrow> gives (list_remove dbg equals h (MutList l) v) (moved_to h l (take i xs @ drop (Suc i) xs))"
proof (cases "find_index (\<lambda>x. equals x v = Ok True) xs")
  case (Some i)
  then have "i < length xs" by (simp add: find_index_Some_iff)
  then have "gives (bind_outcome (ld_remove dbg h l i) (\<lambda>(_, l, h). Ok (l, h))) (moved_to h l (take i xs @ drop (Suc i) xs))"
    using gives_bind [OF ld_remove_gives [OF free, of i], of "\<lambda>(_, l, h). Ok (l, h)"] xs by auto
  with Some xs show ?thesis by (simp add: list_remove_def lv_content_def value_eq_def from_value_mut_free [OF free])
qed (simp add: list_remove_def lv_content_def value_eq_def xs)

text \<open>A negative index counts from the end.\<close>

lemma list_set_at_gives:
  assumes free: "list_free h l" and xs: "ar_content (h ! l) = xs" and len: "int (length xs) \<le> i32_max" and i: "in_i32 i"
    and k: "k = (if i < 0 then i + int (length xs) else i)"
  shows "if 0 \<le> k \<and> k < int (length xs)
    then gives (list_set_at dbg h (MutList l) (IdxInt i) v) (moved_to h l (xs[nat k := v]))
    else list_set_at dbg h (MutList l) (IdxInt i) v = Err (ListValueError (IndexOutOfBound k))"
proof -
  have conv: "convert_index (IdxInt i) (int (length xs)) = (if 0 \<le> k \<and> k < int (length xs) then Ok k else Err (IndexOutOfBound k))"
    using i len k by (auto simp: convert_index_def i32_unpack_value_err_def checked_i32_def i32_defs)
  have "gives (on_array h l (ar_set_at dbg (h ! l) (nat k) v)) (moved_to h l (xs[nat k := v]))" if "0 \<le> k" "k < int (length xs)"
    by (rule on_array_gives [OF free], fold xs, rule ar_set_at_gives [OF list_free_holds [OF free]]) (use xs that in \<open>auto simp: nat_less_iff\<close>)
  moreover have "check_can_mutate h l = Ok ()" using free by (simp add: check_can_mutate_def list_free_def iter_count_is_non_zero_def)
  ultimately show ?thesis using conv len by (auto simp: list_set_at_def lv_content_def xs wrap_i32_len lift_value_error_def)
qed

lemma list_pop_last:
  assumes "list_free h l" and "ar_content (h ! l) = xs" and "int (length xs) \<le> i32_max"
  shows "if xs = [] then list_pop dbg h (MutList l) None = Err (ListValueError (IndexOutOfBound (- 1)))
    else gives (list_pop dbg h (MutList l) None) (\<lambda>(x, r). x = last xs \<and> moved_to h l (butlast xs) r)"
proof (cases xs rule: rev_cases)
  case Nil
  then show ?thesis using list_pop_gives [OF assms, of None "- 1" dbg] by simp
next
  case (snoc ys y)
  then show ?thesis using list_pop_gives [OF assms, of None "int (length ys)" dbg] by simp
qed

text \<open>C24. The methods that change a list, on a list that is neither frozen nor iterated over and has room to grow: none panics, in a
  build with or without debug assertions; the list has exactly the elements of the abstract operation, whether it stayed in its array
  or moved to a larger one; and every other array of the store is as it was. \<open>insert\<close> clamps its position, \<open>pop\<close> takes the
  element at its index or the last one, and fails exactly outside the list; an item assignment counts a negative index from the end and
  fails exactly outside the list; \<open>remove\<close> fails exactly if no element compares equal; \<open>extend\<close> works with every right size hint and with
  the list itself.\<close>

theorem list_methods_refine:
  fixes h :: "'a store"
  assumes "list_free h l" and "ar_content (h ! l) = xs" and "int (length xs) \<le> i32_max" and "in_i32 i" and "hint_ok hint ys"
    and "4 * (length xs + length ys + 1) \<le> u32_max"
  shows "gives (list_append dbg h (MutList l) v) (moved_to h l (xs @ [v])) \<and>
    gives (list_insert dbg h (MutList l) i v) (moved_to h l (take (clamp_index (length xs) i) xs @ v # drop (clamp_index (length xs) i) xs)) \<and>
    gives (list_extend dbg h (MutList l) (Iterable hint ys)) (moved_to h l (xs @ ys)) \<and>
    gives (list_extend dbg h (MutList l) SameList) (moved_to h l (xs @ xs)) \<and>
    (if 0 \<le> i \<and> i < int (length xs)
     then gives (list_pop dbg h (MutList l) (Some i)) (\<lambda>(x, r). x = xs ! nat i \<and> moved_to h l (take (nat i) xs @ drop (Suc (nat i)) xs) r)
     else list_pop dbg h (MutList l) (Some i) = Err (ListValueError (IndexOutOfBound i))) \<and>
    (case find_index (\<lambda>x. equals x v = Ok True) xs of
       None \<Rightarrow> list_remove dbg equals h (MutList l) v = Err ElementNotFound
     | Some j \<Rightarrow> gives (list_remove dbg equals h (MutList l) v) (moved_to h l (take j xs @ drop (Suc j) xs))) \<and>
    (if xs = [] then list_pop dbg h (MutList l) None = Err (ListValueError (IndexOutOfBound (- 1)))
     else gives (list_pop dbg h (MutList l) None) (\<lambda>(x, r). x = last xs \<and> moved_to h l (butlast xs) r)) \<and>
    (0 \<le> i \<and> i < int (length xs) \<longrightarrow> gives (list_set_at dbg h (MutList l) (IdxInt i) v) (moved_to h l (xs[nat i := v]))) \<and>
    (let k = (if i < 0 then i + int (length xs) else i) in
     if 0 \<le> k \<and> k < int (length xs) then gives (list_set_at dbg h (MutList l) (IdxInt i) v) (moved_to h l (xs[nat k := v]))
     else list_set_at dbg h (MutList l) (IdxInt i) v = Err (ListValueError (IndexOutOfBound k))) \<and>
    gives (list_clear dbg h (MutList l)) (moved_to h l [])"
proof -
  note free = assms(1) and xs = assms(2) and mut = from_value_mut_free [OF assms(1)]
  have len: "ar_len (h ! l) = length xs" using ar_holdsD(3) [OF list_free_holds [OF free]] xs by simp
  have "clamp_index (length xs) i \<le> length xs" by (simp add: clamp_index_def)
  with assms(6) have "gives (list_append dbg h (MutList l) v) (moved_to h l (xs @ [v]))"
    "gives (list_insert dbg h (MutList l) i v) (moved_to h l (take (clamp_index (length xs) i) xs @ v # drop (clamp_index (length xs) i) xs))"
    "gives (list_extend dbg h (MutList l) (Iterable hint ys)) (moved_to h l (xs @ ys))"
    "gives (list_extend dbg h (MutList l) SameList) (moved_to h l (xs @ xs))"
    "gives (list_clear dbg h (MutList l)) (moved_to h l [])"
    using ld_push_gives [OF free, of dbg v] ld_insert_gives [OF free, of "clamp_index (length xs) i" dbg v]
      ld_extend_gives [OF free, of ys hint dbg] ld_double_gives [OF free, of dbg] ld_clear_gives [OF free, of dbg] assms(5)
    by (simp_all add: list_append_def list_insert_def list_extend_def list_clear_def mut xs len ci_convert_index_clamp assms(3,4))
  moreover note list_pop_gives [OF free xs assms(3), of "Some i" i dbg] list_remove_gives [OF free xs, of dbg equals v]
    list_set_at_gives [OF free xs assms(3,4) refl, of dbg v] list_pop_last [OF free xs assms(3), of dbg]
  ultimately show ?thesis unfolding Let_def by (intro conjI) (simp_all split: if_splits)
qed

theorem list_methods_refine_witness:
  "gives (list_append True [array_new 0] (MutList 0) (7 :: nat)) (moved_to [array_new 0] 0 [7])"
  using list_methods_refine [of "[array_new 0]" 0 "[]" 0 "(1, Some 1)" "[7]" True "7 :: nat" "\<lambda>_ _. Ok True"]
  by (simp add: list_free_def store_wf_def ar_wf_def array_new_def ar_content_def i32_defs hint_ok_def u32_max_def)

subsection \<open>Iteration\<close>

text \<open>\<open>if_ok r P\<close>: if \<open>r\<close> returns, what it returns satisfies \<open>P\<close>.\<close>

definition if_ok :: "('e, 'b) outcome \<Rightarrow> ('b \<Rightarrow> bool) \<Rightarrow> bool" where
  "if_ok r P \<longleftrightarrow> (case r of Ok x \<Rightarrow> P x | _ \<Rightarrow> True)"

lemma if_ok_simps [simp]: "if_ok (Ok x) P \<longleftrightarrow> P x" "if_ok (Err e) P" "if_ok Panic P"
  by (simp_all add: if_ok_def)

lemma if_ok_bind: "if_ok r P \<Longrightarrow> (\<And>x. P x \<Longrightarrow> if_ok (f x) Q) \<Longrightarrow> if_ok (bind_outcome r f) Q"
  by (cases r) auto

lemma if_ok_mono: "if_ok r P \<Longrightarrow> (\<And>x. P x \<Longrightarrow> Q x) \<Longrightarrow> if_ok r Q"
  by (cases r) auto

lemma gives_if_ok: "gives r P \<Longrightarrow> (\<And>x. P x \<Longrightarrow> Q x) \<Longrightarrow> if_ok r Q"
  by (cases r) auto

definition holds_some :: "nat \<Rightarrow> 'a array \<Rightarrow> bool" where
  "holds_some cap a \<longleftrightarrow> (\<exists>xs. ar_holds a cap xs)"

definition moved :: "'a store \<Rightarrow> nat \<Rightarrow> nat \<times> 'a store \<Rightarrow> bool" where
  "moved h l r \<longleftrightarrow> (\<exists>ys. moved_to h l ys r)"

lemma moved_refl: "list_free h l \<Longrightarrow> moved h l (l, h)"
  using moved_to_refl by (auto simp: moved_def)

lemma moved_trans: "moved h l (l', h') \<Longrightarrow> moved h' l' r \<Longrightarrow> moved h l r"
  unfolding moved_def by (blast intro: moved_to_trans)

lemma moved_free: "moved h l (l', h') \<Longrightarrow> list_free h' l'"
  unfolding moved_def by (blast dest: moved_to_free)

lemma moved_update: "list_free h l \<Longrightarrow> holds_some (ar_capacity (h ! l)) a \<Longrightarrow> moved h l (l, h[l := a])"
  unfolding moved_def holds_some_def list_free_def by (blast intro: moved_to_update)

lemma free_holds_some: "list_free h l \<Longrightarrow> holds_some (ar_capacity (h ! l)) (h ! l)"
  using list_free_holds by (auto simp: holds_some_def)

lemma array_ops_if_ok:
  assumes "holds_some cap a"
  shows "if_ok (ar_push dbg a v) (holds_some cap)" "if_ok (ar_insert dbg a i v) (holds_some cap)"
    "if_ok (ar_double dbg a) (holds_some cap)" "if_ok (ar_clear dbg a) (holds_some cap)" "if_ok (ar_set_at dbg a i v) (holds_some cap)"
    "if_ok (ar_remove dbg a i) (\<lambda>(_, a'). holds_some cap a')"
proof -
  obtain xs where xs: "ar_holds a cap xs" using assms by (auto simp: holds_some_def)
  note len = ar_holdsD(3) [OF xs] and rem = ar_holds_remaining [OF xs]
  show "if_ok (ar_push dbg a v) (holds_some cap)"
    by (cases "length xs < cap", rule gives_if_ok [OF ar_push_gives [OF xs]]) (auto simp: holds_some_def ar_push_def rem assert_def)
  show "if_ok (ar_insert dbg a i v) (holds_some cap)"
    by (cases "length xs < cap \<and> i \<le> length xs", rule gives_if_ok [OF ar_insert_gives [OF xs]])
      (auto simp: holds_some_def ar_insert_def rem assert_def len)
  show "if_ok (ar_double dbg a) (holds_some cap)"
    by (cases "length xs + length xs \<le> cap", rule gives_if_ok [OF ar_double_gives [OF xs]])
      (use ar_holdsD(6) [OF xs] in \<open>auto simp: holds_some_def ar_double_def rem assert_def len\<close>)
  show "if_ok (ar_clear dbg a) (holds_some cap)"
    by (rule gives_if_ok [OF ar_clear_gives [OF xs]]) (auto simp: holds_some_def)
  show "if_ok (ar_set_at dbg a i v) (holds_some cap)"
    by (cases "i < length xs", rule gives_if_ok [OF ar_set_at_gives [OF xs]])
      (auto simp: holds_some_def ar_set_at_def debug_assert_def assert_def len)
  show "if_ok (ar_remove dbg a i) (\<lambda>(_, a'). holds_some cap a')"
    by (cases "i < length xs", rule gives_if_ok [OF ar_remove_gives [OF xs]])
      (auto simp: holds_some_def ar_remove_def debug_assert_def assert_def len)
qed

lemma ar_try_extend_if_ok: "holds_some cap a \<Longrightarrow> if_ok (ar_try_extend dbg a items) (\<lambda>(_, a'). holds_some cap a')"
proof (induction dbg a items rule: ar_try_extend.induct)
  case (3 dbg a v items)
  show ?case unfolding ar_try_extend.simps by (rule if_ok_bind [OF array_ops_if_ok(1) [OF 3(2)]]) (rule 3(1))
qed auto

lemma on_array_if_ok:
  "list_free h l \<Longrightarrow> if_ok r (holds_some (ar_capacity (h ! l))) \<Longrightarrow> if_ok (on_array h l r) (moved h l)"
  unfolding on_array_def by (erule if_ok_bind) (simp add: moved_update)
lemma reserve_if_ok:
  assumes free: "list_free h l"
  shows "if_ok (reserve_additional dbg h l n) (moved h l)"
proof (cases "ar_capacity (h ! l) - length (ar_content (h ! l)) \<ge> n")
  case True
  then show ?thesis
    by (simp add: reserve_additional_def ar_holds_remaining [OF list_free_holds [OF free]] moved_refl [OF free])
next
  case False
  let ?xs = "ar_content (h ! l)" and ?cap = "max (max (ar_len (h ! l) + n) (ar_len (h ! l) * 2)) 4"
  note len = ar_holdsD(3) [OF list_free_holds [OF free]]
  have wf: "store_wf h" "l < length h" using free by (auto simp: list_free_def)
  have eq: "reserve_additional dbg h l n =
      (if u32_max < ?cap then Panic
       else bind_outcome (ar_extend_from_slice dbg (array_new ?cap) ?xs) (\<lambda>a. Ok (length h, h @ [a])))"
    using False wf
    by (simp add: reserve_additional_def ar_holds_remaining [OF list_free_holds [OF free]] reserve_additional_slow_def Let_def
        alloc_array_def on_array_def nth_append)
  show ?thesis
  proof (cases "u32_max < ?cap")
    case False
    have ext: "gives (ar_extend_from_slice dbg (array_new ?cap) ?xs) (\<lambda>a. ar_holds a ?cap ([] @ ?xs))"
      by (rule ar_extend_from_slice_gives [OF array_new_holds]) (use False len in auto)
    have "moved h l (length h, h @ [a])" if "ar_holds a ?cap ?xs" for a
      using that wf ar_holdsD [OF that] by (auto simp: moved_def moved_to_def store_wf_def nth_append)
    then have all: "moved h l (length h, h @ [a])" if "ar_holds a ?cap ([] @ ?xs)" for a using that by simp
    show ?thesis unfolding eq if_not_P [OF False]
      by (rule if_ok_bind [OF gives_if_ok [OF ext]]) (auto intro: all)
  qed (simp add: eq)
qed

lemma reserve_then_if_ok:
  assumes "list_free h l" "\<And>a cap. holds_some cap a \<Longrightarrow> if_ok (f a) (holds_some cap)"
  shows "if_ok (bind_outcome (reserve_additional dbg h l n) (\<lambda>(l, h). on_array h l (f (h ! l)))) (moved h l)"
  by (rule if_ok_bind [OF reserve_if_ok [OF assms(1)]], clarify, rule if_ok_mono [OF on_array_if_ok])
    (auto intro: assms(2) free_holds_some dest: moved_free moved_trans)

lemma list_ops_if_ok:
  assumes "list_free h l"
  shows "if_ok (ld_push dbg h l v) (moved h l)" "if_ok (ld_insert dbg h l i v) (moved h l)" "if_ok (ld_double dbg h l) (moved h l)"
    "if_ok (ld_clear dbg h l) (moved h l)" "if_ok (ld_remove dbg h l i) (\<lambda>(_, r). moved h l r)"
proof -
  note some = free_holds_some [OF assms]
  show "if_ok (ld_push dbg h l v) (moved h l)" unfolding ld_push_def by (rule reserve_then_if_ok [OF assms array_ops_if_ok(1)])
  show "if_ok (ld_insert dbg h l i v) (moved h l)" unfolding ld_insert_def by (rule reserve_then_if_ok [OF assms array_ops_if_ok(2)])
  show "if_ok (ld_double dbg h l) (moved h l)" unfolding ld_double_def by (rule reserve_then_if_ok [OF assms array_ops_if_ok(3)])
  show "if_ok (ld_clear dbg h l) (moved h l)" unfolding ld_clear_def by (rule on_array_if_ok [OF assms array_ops_if_ok(4) [OF some]])
  show "if_ok (ld_remove dbg h l i) (\<lambda>(_, r). moved h l r)" unfolding ld_remove_def
    by (rule if_ok_bind [OF array_ops_if_ok(6) [OF some]]) (auto intro: moved_update [OF assms])
qed

lemma push_items_if_ok: "list_free h l \<Longrightarrow> if_ok (push_items dbg h l items) (\<lambda>(_, r). moved h l r)"
proof (induction dbg h l items rule: push_items.induct)
  case (3 dbg h l v items)
  show ?case unfolding push_items.simps
    by (rule if_ok_bind [OF list_ops_if_ok(1) [OF 3(2)]], clarify, rule if_ok_mono [OF 3(1)])
      (auto dest: moved_free moved_trans)
qed (auto intro: moved_refl)

lemma fast_extend_if_ok:
  assumes "list_free h l"
  shows "if_ok (bind_outcome (ar_try_extend dbg (h ! l) items) (\<lambda>(e, a). Ok (e, l, h[l := a]))) (\<lambda>(_, r). moved h l r)"
  by (rule if_ok_bind [OF ar_try_extend_if_ok [OF free_holds_some [OF assms]]]) (auto intro: moved_update [OF assms])

lemma ld_extend_if_ok:
  assumes free: "list_free h l"
  shows "if_ok (ld_extend dbg h l hint ys) (moved h l)"
proof -
  have slow: "if_ok (bind_outcome (reserve_additional dbg h l n) (\<lambda>(l, h). push_items dbg h l items)) (\<lambda>(_, r). moved h l r)" for n items
    by (rule if_ok_bind [OF reserve_if_ok [OF free]], clarify, rule if_ok_mono [OF push_items_if_ok])
      (auto dest: moved_free moved_trans)
  have fast: "if_ok (bind_outcome (reserve_additional dbg h l n)
      (\<lambda>(l, h). bind_outcome (ar_try_extend dbg (h ! l) items) (\<lambda>(e, a). Ok (e, l, h[l := a])))) (\<lambda>(_, r). moved h l r)" for n items
    by (rule if_ok_bind [OF reserve_if_ok [OF free]], clarify, rule if_ok_mono [OF fast_extend_if_ok])
      (auto dest: moved_free moved_trans)
  have ext: "if_ok (ld_try_extend dbg h l hint items) (\<lambda>(_, r). moved h l r)" for items
    unfolding ld_try_extend_def Let_def ar_holds_remaining [OF list_free_holds [OF free]]
    by (simp add: slow fast fast_extend_if_ok [OF free] split: option.split)
  show ?thesis unfolding ld_extend_def by (rule if_ok_bind [OF ext]) auto
qed
text \<open>The steps of a program on a list: an iteration starts, an iterator over some array stops, or a method changes the list. A method
  that fails leaves everything as it is, and one that panics ends the program. No program has \<open>2 ^ 32\<close> iterators.\<close>

inductive list_step :: "bool \<Rightarrow> ('a \<Rightarrow> 'a \<Rightarrow> bool list_result) \<Rightarrow> nat \<times> 'a store \<Rightarrow> nat \<times> 'a store \<Rightarrow> bool" for dbg equals where
  lstep_iterate: "(new_iter dbg h (MutList l) :: ('a list_iter \<times> 'a store) list_result) = Ok (it, h') \<Longrightarrow> ar_iter_count (h ! l) < u32_max \<Longrightarrow>
    list_step dbg equals (l, h) (l, h')"
| lstep_stop: "a < length h \<Longrightarrow> ar_iter_count (h ! a) > 0 \<Longrightarrow> (list_iter_stop dbg h (ArrayIter a) :: 'a store list_result) = Ok h' \<Longrightarrow>
    list_step dbg equals (l, h) (l, h')"
| lstep_append: "list_append dbg h (MutList l) v = Ok s \<Longrightarrow> list_step dbg equals (l, h) s"
| lstep_clear: "list_clear dbg h (MutList l) = Ok s \<Longrightarrow> list_step dbg equals (l, h) s"
| lstep_extend: "list_extend dbg h (MutList l) other = Ok s \<Longrightarrow> list_step dbg equals (l, h) s"
| lstep_insert: "list_insert dbg h (MutList l) i v = Ok s \<Longrightarrow> list_step dbg equals (l, h) s"
| lstep_pop: "list_pop dbg h (MutList l) index = Ok (v, s) \<Longrightarrow> list_step dbg equals (l, h) s"
| lstep_remove: "list_remove dbg equals h (MutList l) v = Ok s \<Longrightarrow> list_step dbg equals (l, h) s"
| lstep_set_at: "list_set_at dbg h (MutList l) index v = Ok s \<Longrightarrow> list_step dbg equals (l, h) s"

text \<open>A method that returns has found the list free and has moved it.\<close>

lemma mut_if_ok:
  "store_wf h \<Longrightarrow> l < length h \<Longrightarrow> if_ok (from_value_mut h (MutList l)) (\<lambda>k. k = l \<and> list_free h l)"
  by (simp add: from_value_mut_def check_can_mutate_def iter_count_is_non_zero_def list_free_def)

lemma methods_if_ok:
  assumes "store_wf h" "l < length h"
  shows "if_ok (list_append dbg h (MutList l) v) (\<lambda>s. list_free h l \<and> moved h l s)"
    "if_ok (list_clear dbg h (MutList l)) (\<lambda>s. list_free h l \<and> moved h l s)"
    "if_ok (list_extend dbg h (MutList l) other) (\<lambda>s. list_free h l \<and> moved h l s)"
    "if_ok (list_insert dbg h (MutList l) i v) (\<lambda>s. list_free h l \<and> moved h l s)"
    "if_ok (list_pop dbg h (MutList l) index) (\<lambda>(_, s). list_free h l \<and> moved h l s)"
    "if_ok (list_remove dbg equals h (MutList l) v) (\<lambda>s. list_free h l \<and> moved h l s)"
    "if_ok (list_set_at dbg h (MutList l) idx v) (\<lambda>s. list_free h l \<and> moved h l s)"
proof -
  note mut = if_ok_bind [OF mut_if_ok [OF assms]]
  show "if_ok (list_append dbg h (MutList l) v) (\<lambda>s. list_free h l \<and> moved h l s)"
    unfolding list_append_def by (rule mut, clarify, rule if_ok_mono [OF list_ops_if_ok(1)]) auto
  show "if_ok (list_clear dbg h (MutList l)) (\<lambda>s. list_free h l \<and> moved h l s)"
    unfolding list_clear_def by (rule mut, clarify, rule if_ok_mono [OF list_ops_if_ok(4)]) auto
  show "if_ok (list_extend dbg h (MutList l) other) (\<lambda>s. list_free h l \<and> moved h l s)"
    unfolding list_extend_def
    by (rule mut, cases other) (auto intro: if_ok_mono [OF list_ops_if_ok(3)] if_ok_mono [OF ld_extend_if_ok])
  show "if_ok (list_insert dbg h (MutList l) i v) (\<lambda>s. list_free h l \<and> moved h l s)"
    unfolding list_insert_def
    by (rule mut, clarify, rule if_ok_bind [where P = "\<lambda>_. True"], simp add: if_ok_def split: outcome.split, rule if_ok_mono [OF list_ops_if_ok(2)]) auto
  show "if_ok (list_pop dbg h (MutList l) index) (\<lambda>(_, s). list_free h l \<and> moved h l s)"
    unfolding list_pop_def Let_def
    by (rule mut, clarify, rule if_ok_bind [where P = "\<lambda>_. True"], simp add: if_ok_def split: outcome.split)
      (auto intro: if_ok_mono [OF list_ops_if_ok(5)])
  have "if_ok (bind_outcome (ld_remove dbg h l j) (\<lambda>(_, l, h). Ok (l, h))) (\<lambda>s. list_free h l \<and> moved h l s)" if "list_free h l" for j
    by (rule if_ok_bind [OF list_ops_if_ok(5) [OF that]]) (use that in auto)
  then show "if_ok (list_remove dbg equals h (MutList l) v) (\<lambda>s. list_free h l \<and> moved h l s)"
    unfolding list_remove_def by (auto split: option.split intro!: mut)
  have set_at: "if_ok (on_array h l (ar_set_at dbg (h ! l) j v)) (\<lambda>s. list_free h l \<and> moved h l s)" if "list_free h l" for j
    by (rule if_ok_mono [OF on_array_if_ok [OF that array_ops_if_ok(5) [OF free_holds_some [OF that]]]]) (use that in auto)
  have check: "if_ok (check_can_mutate h l) (\<lambda>_. list_free h l)"
    using assms by (simp add: check_can_mutate_def iter_count_is_non_zero_def list_free_def)
  show "if_ok (list_set_at dbg h (MutList l) idx v) (\<lambda>s. list_free h l \<and> moved h l s)"
    unfolding list_set_at_def
    by (cases "lift_value_error (convert_index idx (wrap_i32 (int (length (lv_content h (MutList l))))))")
      (auto intro!: if_ok_bind [OF check] intro: set_at)
qed

lemma if_okD: "if_ok r P \<Longrightarrow> r = Ok x \<Longrightarrow> P x"
  by simp

lemmas methods_Ok = methods_if_ok [THEN if_okD, rotated 2]

text \<open>\<open>recount a h h'\<close>: only the number of iterators of the array \<open>a\<close> changes.\<close>

definition recount :: "nat \<Rightarrow> 'a store \<Rightarrow> 'a store \<Rightarrow> bool" where
  "recount a h h' \<longleftrightarrow> a < length h \<and> ar_capacity (h ! a) \<noteq> 0 \<and> (\<exists>n. h' = h[a := (h ! a)\<lparr>ar_iter_count := n\<rparr>])"

lemma list_step_cases:
  assumes "list_step dbg equals (l, h) s" "store_wf h" "l < length h"
  shows "(\<exists>a h'. s = (l, h') \<and> recount a h h') \<or> s = (l, h) \<or> list_free h l \<and> moved h l s"
  using assms(1)
proof (cases rule: list_step.cases)
  case lstep_iterate
  then show ?thesis using assms(3)
    by (auto simp: new_iter_def inc_iter_count_def is_statically_allocated_def recount_def split: if_splits)
next
  case lstep_stop
  then show ?thesis
    by (auto simp: list_iter_stop_def dec_iter_count_def is_statically_allocated_def recount_def debug_assert_def split: if_splits)
qed (use assms(2,3) in \<open>auto dest!: methods_Ok\<close>)
text \<open>The array is in use: an iterator counts, or it is the empty array, which is shared and does not count.\<close>

definition iterated :: "'a store \<Rightarrow> nat \<Rightarrow> bool" where
  "iterated h a \<longleftrightarrow> ar_iter_count (h ! a) > 0 \<or> ar_capacity (h ! a) = 0"

definition kept :: "'a store \<Rightarrow> 'a store \<Rightarrow> nat \<Rightarrow> bool" where
  "kept h h' a \<longleftrightarrow> a < length h \<and> length h \<le> length h' \<and> store_wf h' \<and> ar_capacity (h' ! a) = ar_capacity (h ! a) \<and>
     ar_content (h' ! a) = ar_content (h ! a)"

lemma kept_trans: "kept h h' a \<Longrightarrow> kept h' h'' a \<Longrightarrow> kept h h'' a"
  by (auto simp: kept_def)

lemma empty_content: "store_wf h \<Longrightarrow> a < length h \<Longrightarrow> ar_capacity (h ! a) = 0 \<Longrightarrow> ar_content (h ! a) = [] \<and> ar_len (h ! a) = 0"
  using store_wfD [of h a] by (simp add: ar_wf_def ar_content_def)

lemma recount_kept:
  assumes "recount b h h'" "store_wf h" "a < length h"
  shows "kept h h' a"
proof -
  obtain n where h': "h' = h[b := (h ! b)\<lparr>ar_iter_count := n\<rparr>]" and b: "b < length h" "ar_capacity (h ! b) \<noteq> 0"
    using assms(1) by (auto simp: recount_def)
  have "store_wf h'"
    using assms(2) b by (auto simp: h' store_wf_def list_all_length nth_list_update ar_wf_def)
  with assms(3) b show ?thesis by (auto simp: kept_def h' nth_list_update ar_content_def)
qed

lemma moved_kept:
  assumes "moved h l (l', h')" "list_free h l" "a < length h" "iterated h a"
  shows "kept h h' a"
proof -
  have m: "store_wf h'" "length h \<le> length h'" "ar_capacity (h' ! a) = ar_capacity (h ! a)" "a \<noteq> l \<Longrightarrow> h' ! a = h ! a"
    using assms(1,3) by (auto simp: moved_def moved_to_def)
  show ?thesis
  proof (cases "a = l")
    case True
    with assms have "ar_capacity (h ! a) = 0" by (auto simp: iterated_def list_free_def)
    with m assms(2,3) empty_content [of h a] empty_content [of h' a] show ?thesis by (simp add: kept_def list_free_def)
  qed (use m assms(3) in \<open>simp add: kept_def\<close>)
qed

lemma list_step_kept:
  assumes "list_step dbg equals (l, h) (l', h')" "store_wf h" "l < length h" "a < length h" "iterated h a"
  shows "kept h h' a \<and> l' < length h'"
proof -
  have "l' < length h'" if "moved h l (l', h')" using that by (auto simp: moved_def moved_to_def)
  with list_step_cases [OF assms(1-3)] recount_kept [OF _ assms(2,4)] moved_kept [OF _ _ assms(4,5)] assms(2-4) show ?thesis
    by (fastforce simp: kept_def recount_def)
qed

lemma list_steps_kept:
  assumes "(\<lambda>s t. list_step dbg equals s t \<and> iterated (snd s) a)\<^sup>*\<^sup>* (l, h) (l', h')" "store_wf h" "l < length h" "a < length h"
  shows "kept h h' a \<and> l' < length h'"
  using assms(1)
proof (induction rule: rtranclp_induct2)
  case refl
  then show ?case using assms by (simp add: kept_def)
next
  case (step l\<^sub>1 h\<^sub>1 l\<^sub>2 h\<^sub>2)
  then have "kept h\<^sub>1 h\<^sub>2 a \<and> l\<^sub>2 < length h\<^sub>2" by (intro list_step_kept) (auto simp: kept_def)
  with step.IH show ?case using kept_trans by blast
qed

text \<open>C25. Iteration over a list is stable. The iterator holds the array of the list; whatever iterations are started and stopped and
  whatever methods are called on the list while the iterator is alive, its array keeps its elements, so the iterator finds the same
  element at every position, and reading it passes the debug assertion; the store stays valid. While the array of the list is under
  iteration, the methods that change the list fail with the error for a mutation during iteration.\<close>

theorem list_iteration_stable:
  fixes h :: "'a store"
  assumes "store_wf h" and "l < length h" and "(new_iter dbg h (MutList l) :: ('a list_iter \<times> 'a store) list_result) = Ok (it, h\<^sub>1)"
    and "(\<lambda>s t. list_step dbg equals s t \<and> iterated (snd s) l)\<^sup>*\<^sup>* (l, h\<^sub>1) (l\<^sub>2, h\<^sub>2)" and "xs = ar_content (h ! l)"
  shows "store_wf h\<^sub>2 \<and> l\<^sub>2 < length h\<^sub>2 \<and>
    (iterated h\<^sub>2 l \<longrightarrow>
      (list_iter_next dbg h\<^sub>2 it i :: 'a option list_result) = Ok (if i < length xs then Some (xs ! i) else None)) \<and>
    (ar_iter_count (h\<^sub>2 ! l\<^sub>2) > 0 \<longrightarrow>
      list_append dbg h\<^sub>2 (MutList l\<^sub>2) v = Err ListMutationDuringIteration \<and>
      list_clear dbg h\<^sub>2 (MutList l\<^sub>2) = Err ListMutationDuringIteration \<and>
      list_extend dbg h\<^sub>2 (MutList l\<^sub>2) other = Err ListMutationDuringIteration \<and>
      list_insert dbg h\<^sub>2 (MutList l\<^sub>2) j v = Err ListMutationDuringIteration \<and>
      list_pop dbg h\<^sub>2 (MutList l\<^sub>2) index = Err ListMutationDuringIteration \<and>
      list_remove dbg equals h\<^sub>2 (MutList l\<^sub>2) v \<in> {Err ElementNotFound, Err ListMutationDuringIteration})"
proof -
  have it: "it = ArrayIter l" and "h\<^sub>1 = h \<or> recount l h h\<^sub>1"
    using assms(2,3)
    by (auto simp: new_iter_def inc_iter_count_def is_statically_allocated_def recount_def bind_outcome_Ok_iff split: if_splits)
  then have k\<^sub>1: "kept h h\<^sub>1 l" using recount_kept [OF _ assms(1,2)] assms(1,2) by (auto simp: kept_def)
  then have k\<^sub>2: "kept h\<^sub>1 h\<^sub>2 l \<and> l\<^sub>2 < length h\<^sub>2"
    using list_steps_kept [OF assms(4)] by (auto simp: kept_def)
  with k\<^sub>1 have k: "kept h h\<^sub>2 l" by (blast intro: kept_trans)
  have len: "iterated h\<^sub>2 l \<Longrightarrow> ar_len (h\<^sub>2 ! l) = 0 \<or> ar_iter_count (h\<^sub>2 ! l) > 0"
    using k empty_content [of h\<^sub>2 l] by (auto simp: iterated_def kept_def)
  have "(list_iter_next dbg h\<^sub>2 it i :: 'a option list_result) = Ok (if i < length xs then Some (xs ! i) else None)" if "iterated h\<^sub>2 l"
    using len [OF that] k assms(5)
    by (auto simp: it list_iter_next_def ar_iter_next_def debug_assert_def iter_count_is_non_zero_def kept_def)
  moreover have "from_value_mut h\<^sub>2 (MutList l\<^sub>2) = Err ListMutationDuringIteration" if "ar_iter_count (h\<^sub>2 ! l\<^sub>2) > 0"
    using that by (simp add: from_value_mut_def check_can_mutate_def iter_count_is_non_zero_def)
  ultimately show ?thesis using k k\<^sub>2
    by (simp add: kept_def list_append_def list_clear_def list_extend_def list_insert_def list_pop_def list_remove_def split: option.split)
qed

text \<open>A list with one element and one iterator.\<close>

definition demo_array :: "nat \<Rightarrow> nat array" where
  "demo_array n = \<lparr>ar_len = 1, ar_capacity = 4, ar_iter_count = n, ar_buf = [Some 7, None, None, None]\<rparr>"

theorem list_iteration_stable_witness:
  "(list_iter_next True [array_new 0, demo_array 2] (ArrayIter 1) 0 :: nat option list_result) = Ok (Some 7) \<and>
   list_append True [array_new 0, demo_array 2] (MutList 1) 8 = Err ListMutationDuringIteration"
proof -
  let ?h = "\<lambda>n. [array_new 0, demo_array n]"
  have new: "(new_iter True (?h 0) (MutList 1) :: (nat list_iter \<times> nat store) list_result) = Ok (ArrayIter 1, ?h 1)"
    "(new_iter True (?h 1) (MutList 1) :: (nat list_iter \<times> nat store) list_result) = Ok (ArrayIter 1, ?h 2)"
    by (simp_all add: new_iter_def inc_iter_count_def is_statically_allocated_def demo_array_def u32_max_def)
  have wf: "store_wf (?h 0)" by (simp add: store_wf_def ar_wf_def array_new_def demo_array_def u32_max_def)
  have "list_step True (\<lambda>_ _. Ok True) (1, ?h 1) (1, ?h 2)"
    by (rule lstep_iterate [OF new(2)]) (simp add: u32_max_def demo_array_def)
  then have "(\<lambda>s t. list_step True (\<lambda>_ _. Ok True) s t \<and> iterated (snd s) 1)\<^sup>*\<^sup>* (1, ?h 1) (1, ?h 2)"
    by (intro r_into_rtranclp) (simp add: iterated_def demo_array_def)
  moreover have "ar_content (?h 0 ! 1) = [7]" by (simp add: ar_content_def demo_array_def)
  ultimately show ?thesis
    using list_iteration_stable [OF wf, of 1 True "ArrayIter 1" "?h 1" "\<lambda>_ _. Ok True" 1 "?h 2" "[7]" 0 8] new(1)
    by (simp add: u32_max_def iterated_def demo_array_def)
qed

subsection \<open>Reading and building lists\<close>

lemma alloc_array_moved:
  assumes "store_wf h" "cap \<le> u32_max"
  shows "gives (alloc_array h cap) (\<lambda>(l, h'). moved_to h 0 [] (l, h') \<and> ar_capacity (h' ! l) = cap)"
proof (cases "cap = 0")
  case True
  have "ar_capacity (h ! 0) = 0" "0 < length h" using assms(1) by (auto simp: store_wf_def)
  with empty_content [OF assms(1), of 0] store_wfD [OF assms(1), of 0] True assms(1) show ?thesis
    by (simp add: alloc_array_def moved_to_def ar_wf_def)
next
  case False
  have new: "ar_holds (array_new cap) cap []" using array_new_holds assms(2) .
  then have "store_wf (h @ [array_new cap])" using assms(1) ar_holdsD(1) [OF new] by (auto simp: store_wf_def nth_append)
  with False assms ar_holdsD [OF new] show ?thesis by (auto simp: alloc_array_def moved_to_def nth_append)
qed

lemma alloc_extend_gives:
  assumes m: "moved_to h k xs (l, h')" and room: "length xs + length ys \<le> ar_capacity (h' ! l)"
  shows "gives (on_array h' l (ar_extend_from_slice dbg (h' ! l) ys))
    (\<lambda>r. moved_to h k (xs @ ys) r \<and> ar_capacity (snd r ! fst r) = ar_capacity (h' ! l))"
proof -
  have free: "list_free h' l" "ar_content (h' ! l) = xs" using moved_to_free [OF m] by auto
  have ext: "gives (ar_extend_from_slice dbg (h' ! l) ys) (\<lambda>a. ar_holds a (ar_capacity (h' ! l)) (xs @ ys))"
    by (rule ar_extend_from_slice_gives) (use list_free_holds [OF free(1)] free(2) room in simp_all)
  have "moved_to h k (xs @ ys) (l, h'[l := a]) \<and> ar_capacity (h'[l := a] ! l) = ar_capacity (h' ! l)"
    if "ar_holds a (ar_capacity (h' ! l)) (xs @ ys)" for a
    using moved_to_trans [OF m moved_to_update [OF _ _ that]] free(1) ar_holdsD(4) [OF that] by (simp add: list_free_def)
  then show ?thesis unfolding on_array_def by (intro gives_bind [OF ext]) simp
qed

lemma alloc_list_gives:
  assumes "store_wf h" "length ys \<le> u32_max"
  shows "gives (alloc_list dbg h ys) (moved_to h 0 ys)"
  unfolding alloc_list_def
  by (rule gives_bind [OF alloc_array_moved [OF assms]], clarify, rule gives_mono [OF alloc_extend_gives]) auto

lemma alloc_list_concat_gives:
  assumes "store_wf h" "length xs + length ys \<le> u32_max"
  shows "gives (alloc_list_concat dbg h xs ys) (moved_to h 0 (xs @ ys))"
  unfolding alloc_list_concat_def
  by (rule gives_bind [OF alloc_array_moved [OF assms]], clarify, rule gives_bind [OF alloc_extend_gives], assumption, simp,
      clarify, rule gives_mono [OF alloc_extend_gives]) auto

lemma first_equal_total:
  assumes "\<And>x y. equals x y = Ok (E x y)"
  shows "first_equal equals v i xs = Ok (map_option (\<lambda>j. i + j) (find_index (\<lambda>x. E x v) xs))"
  by (induction xs arbitrary: i) (auto simp: assms option.map_comp comp_def intro: option.map_cong)

lemma equals_zip_total:
  assumes "\<And>x y. f x y = Ok (E x y)"
  shows "equals_zip f xys = Ok (list_all (\<lambda>(x, y). E x y) xys)"
  by (induction xys) (auto simp: assms)

lemma equals_slice_total:
  assumes "\<And>x y. f x y = Ok (E x y)"
  shows "equals_slice xs ys f = Ok (list_all2 E xs ys)"
  by (auto simp: equals_slice_def equals_zip_total [OF assms] list_all2_iff list_all_iff)

lemma compare_slice_total:
  fixes xs ys :: "'a::linorder list"
  assumes "\<And>x y. f x y = Ok (cmp_key x y)"
  shows "compare_slice xs ys f =
    Ok (if (xs, ys) \<in> lexord {(x, y). x < y} then Less else if xs = ys then Equal else Greater)"
proof (induction xs arbitrary: ys)
  case Nil
  show ?case by (cases ys) (auto simp: compare_slice_def cmp_key_def)
next
  case (Cons x xs)
  show ?case
  proof (cases ys)
    case (Cons y ys')
    with Cons.IH [of ys'] show ?thesis
      by (auto simp: compare_slice_def assms cmp_key_def bind_outcome_Ok_iff split: if_splits)
  qed (simp add: compare_slice_def cmp_key_def)
qed
lemma convert_indices_clamp:
  assumes "int n \<le> i32_max" "pred_option in_i32 start" "pred_option in_i32 stop"
  shows "convert_indices dbg (wrap_i32 (int n)) start stop =
    Ok (case start of None \<Rightarrow> 0 | Some s \<Rightarrow> clamp_index n s, case stop of None \<Rightarrow> n | Some e \<Rightarrow> clamp_index n e)"
proof -
  have sum: "i < 0 \<Longrightarrow> in_i32 i \<Longrightarrow> in_i32 (i + int n)" for i using assms(1) by (auto simp: i32_defs)
  have ends: "clamp_index n 0 = 0" "clamp_index n (int n) = n" by (simp_all add: clamp_index_def)
  have clamp: "i < 0 \<Longrightarrow> ci_bound (i + int n) (int n) = clamp_index n i" "\<not> i < 0 \<Longrightarrow> ci_bound i (int n) = clamp_index n i" for i
    using ci_bound_clamp [OF assms(1), of i] by simp_all
  show ?thesis
    using assms sum
    by (auto simp: clamp ends convert_indices_def wrap_i32_len Let_def split: option.split)
qed

lemma list_index_first:
  assumes len: "int (length xs) \<le> i32_max" and xs: "lv_content h w = xs" and "pred_option in_i32 start" "pred_option in_i32 stop"
    and eq: "\<And>x y. equals x y = Ok (E x y)" and s: "s = (case start of None \<Rightarrow> 0 | Some s \<Rightarrow> clamp_index (length xs) s)"
    and e: "e = (case stop of None \<Rightarrow> length xs | Some e \<Rightarrow> clamp_index (length xs) e)"
  shows "list_index dbg equals h w v start stop =
    (case find_index (\<lambda>x. E x v) (take (e - s) (drop s xs)) of None \<Rightarrow> Err ElementNotFound | Some j \<Rightarrow> Ok (int (s + j)))"
proof -
  have "e \<le> length xs" by (auto simp: e clamp_index_def split: option.split)
  moreover have "wrap_i32 (int (j + s)) = int (s + j)" if "find_index (\<lambda>x. E x v) (take (e - s) (drop s xs)) = Some j" for j
    using that len by (auto simp: find_index_Some_iff wrap_i32_def i32_defs)
  ultimately show ?thesis
    unfolding list_index_def xs Let_def convert_indices_clamp [OF len assms(3,4)] bind_outcome.simps prod.case s [symmetric] e [symmetric]
    by (auto simp: first_equal_total [OF eq] split: option.split)
qed

text \<open>C26. Reading lists and building new ones. With a comparison that decides the relation \<open>E\<close>, \<open>index\<close> returns the first position within the
  clamped bounds whose element is related to the needle, \<open>in\<close> asks whether there is one, and \<open>==\<close> compares element by element; \<open>[i]\<close>
  returns the element counted from the start or the end and fails exactly outside the list. \<open>+\<close> and \<open>*\<close> build a new list with the
  concatenation and the repetition, in an array of its own or in the shared empty one, and leave every list as it is.\<close>

theorem list_reads_exact:
  fixes h :: "'a store" and equals :: "'a \<Rightarrow> 'a \<Rightarrow> bool list_result"
  assumes "store_wf h" and "lv_content h w = xs" and "lv_content h w' = ys" and "int (length xs) \<le> i32_max" and "in_i32 i"
    and "pred_option in_i32 start" and "pred_option in_i32 stop" and "\<And>x y. equals x y = Ok (E x y)"
    and "s = (case start of None \<Rightarrow> 0 | Some s \<Rightarrow> clamp_index (length xs) s)"
    and "e = (case stop of None \<Rightarrow> length xs | Some e \<Rightarrow> clamp_index (length xs) e)"
    and "length xs + length ys \<le> u32_max" and "nat i * length xs \<le> u32_max"
  shows "list_index dbg equals h w v start stop =
      (case find_index (\<lambda>x. E x v) (take (e - s) (drop s xs)) of None \<Rightarrow> Err ElementNotFound | Some j \<Rightarrow> Ok (int (s + j))) \<and>
    list_is_in equals h w v = Ok (\<exists>x\<in>set xs. E x v) \<and>
    list_equals equals h w (Some w') = Ok (list_all2 E xs ys) \<and>
    list_at h w (IdxInt i) =
      (let j = (if i < 0 then int (length xs) + i else i)
       in if 0 \<le> j \<and> j < int (length xs) then Ok (xs ! nat j) else Err (ListValueError (IndexOutOfBound j))) \<and>
    (\<exists>r. list_add dbg h w (Some w') = Some r \<and> gives r (moved_to h 0 (xs @ ys))) \<and>
    (\<exists>r. list_mul dbg h w (IdxInt i) = Some r \<and> gives r (moved_to h 0 (concat (replicate (nat i) xs))))"
proof -
  note index = list_index_first [where dbg = dbg and v = v, OF assms(4,2,6-10)]
  have "list_is_in equals h w v = Ok (\<exists>x\<in>set xs. E x v)"
    using find_index_None_iff [of "\<lambda>x. E x v" xs] by (auto simp: list_is_in_def first_equal_total [OF assms(8)] assms(2))
  moreover have "list_equals equals h w (Some w') = Ok (list_all2 E xs ys)"
    by (simp add: list_equals_def equals_slice_total [OF assms(8)] assms(2,3))
  moreover have "list_at h w (IdxInt i) =
      (let j = (if i < 0 then int (length xs) + i else i)
       in if 0 \<le> j \<and> j < int (length xs) then Ok (xs ! nat j) else Err (ListValueError (IndexOutOfBound j)))"
    using assms(4,5)
    by (auto simp: list_at_def assms(2) Let_def wrap_i32_len lift_value_error_def convert_index_def i32_unpack_value_err_def
        checked_i32_def i32_defs assert_def usize_of_i32_def as_u64_def nat_less_iff)
  moreover have "length (concat (replicate (nat i) xs)) = nat i * length xs" by (simp add: length_concat sum_list_replicate)
  then have "gives (alloc_list dbg h (concat (replicate (nat i) xs)) :: (nat \<times> 'a store) list_result) (moved_to h 0 (concat (replicate (nat i) xs)))"
    using alloc_list_gives [OF assms(1)] assms(12) by metis
  moreover have "gives (alloc_list_concat dbg h xs ys :: (nat \<times> 'a store) list_result) (moved_to h 0 (xs @ ys))"
    by (rule alloc_list_concat_gives [OF assms(1,11)])
  ultimately show ?thesis using index assms(5) by (simp add: list_add_def list_mul_def assms(2,3))
qed

theorem list_reads_exact_witness:
  "list_index True (\<lambda>x y. Ok (x = y)) [array_new 0] (FrozenList [5, 7, 5, 7]) (7 :: nat) (Some (-2)) None = Ok 3 \<and>
   list_at [array_new 0] (FrozenList [5, 7, 5, 7 :: nat]) (IdxInt (-2)) = Ok 5"
proof -
  let ?h = "[array_new 0] :: nat store" and ?xs = "[5, 7, 5, 7 :: nat]"
  have facts: "store_wf ?h" "lv_content ?h (FrozenList ?xs) = ?xs" "lv_content ?h (FrozenList []) = []" "int (length ?xs) \<le> i32_max"
    "in_i32 (-2)" "pred_option in_i32 (Some (-2))" "pred_option in_i32 None"
    "2 = (case Some (-2) of None \<Rightarrow> 0 | Some s \<Rightarrow> clamp_index (length ?xs) s)"
    "4 = (case None of None \<Rightarrow> length ?xs | Some e \<Rightarrow> clamp_index (length ?xs) e)"
    "length ?xs + length ([] :: nat list) \<le> u32_max" "nat (-2) * length ?xs \<le> u32_max"
    by (simp_all add: store_wf_def ar_wf_def array_new_def lv_content_def i32_defs clamp_index_def u32_max_def)
  note all = list_reads_exact [where dbg = True and v = 7 and equals = "\<lambda>x y. Ok (x = y)" and E = "(=)",
      OF facts(1-7) refl facts(8-11)]
  have "find_index (\<lambda>x. x = 7) (take (4 - 2) (drop 2 ?xs)) = Some 1" by simp
  with all [THEN conjunct1] all [THEN conjunct2, THEN conjunct2, THEN conjunct2, THEN conjunct1] show ?thesis
    by (simp add: Let_def)
qed

end
