(* ===== verification/Spec2Isabelle.thy ===== *)
theory Spec2Isabelle
  imports Small_Map_Props Small_Set Range_Type Starlark_Int Def_Props Call_Args Percent_Format Lexer_Props String_Split Code_Map Dict_Type List_Type
begin

text \<open>
  A verification development of starlark-rust, an interpreter for Starlark written in Rust.

  \<^bold>\<open>The program.\<close> \<^verbatim>\<open>starlark_syntax\<close> lexes, parses and validates a module into a syntax tree; \<^verbatim>\<open>starlark\<close>
  compiles the tree to bytecode and evaluates it over a heap of values; \<^verbatim>\<open>starlark_map\<close> is the library of insertion-ordered
  hash maps and sets under dicts, sets, structs, modules and keyword arguments. Around them are derive macros,
  a type checker, lints, documentation, a language server and a command line. The development models the core on which
  the meaning of a program rests: the lexer, the collections, the numbers, indexing and slicing, strings, lists, sets, dictionaries and format strings, and
  the path of a function from its parameter list in the source to the binding of the arguments of a call.

  \<^bold>\<open>Theories and the code they model.\<close>
  \<^item> \<open>Prelude\<close>: sizes of \<open>usize\<close>, list surgery (\<open>remove_nth\<close>, \<open>ptr_copy\<close>, \<open>move_down\<close>), stable sorting, \<open>find_index\<close>.
    \<open>Rust_Int\<close>: the type \<open>outcome\<close> of fallible functions (value, error, panic), \<open>i32\<close>/\<open>i64\<close>/\<open>u64\<close> arithmetic with its wrap-around,
    truncating division, arithmetic sequences.
  \<^item> \<open>Insertion_Sort\<close> (\<^verbatim>\<open>starlark_map/src/sorting/insertion.rs\<close>): the sort over an abstract array, the locale
    \<open>swap_array\<close>, interpreted on slices and on \<open>Vec2\<close>.
  \<^item> \<open>Vec2\<close> (\<^verbatim>\<open>vec2.rs\<close>): two arrays in one allocation; its state is the capacity, the length and the two buffers with
    holes as \<open>None\<close>, so reading an uninitialised cell or writing past the capacity is visible. \<open>Vec_Map\<close> (\<^verbatim>\<open>vec_map.rs\<close>,
    \<^verbatim>\<open>vec_map/simd.rs\<close>, \<^verbatim>\<open>hash_value.rs\<close>, \<^verbatim>\<open>hashed.rs\<close>): entries with their hashes and the linear search for a hash.
  \<^item> \<open>Ordered_Alist\<close>: the abstract value of the collections, an association list with distinct keys, and the locale
    \<open>ordered_map\<close>. \<open>Small_Map\<close>, \<open>Small_Map_Laws\<close>, \<open>Small_Map_Props\<close> (\<^verbatim>\<open>small_map.rs\<close>): \<open>SmallMap\<close> over \<open>VecMap\<close> and an optional hash table;
    the table of \<open>hashbrown\<close> is a parameter with the laws of the locale \<open>map_laws\<close>, which a concrete table satisfies.
    \<open>Small_Set\<close> (\<^verbatim>\<open>small_set.rs\<close>, \<^verbatim>\<open>ordered_map.rs\<close>, \<^verbatim>\<open>sorted_map.rs\<close>, \<^verbatim>\<open>sorted_set.rs\<close>, \<^verbatim>\<open>sorted_vec.rs\<close>).
  \<^item> \<open>Slice_Index\<close> (\<^verbatim>\<open>values/index.rs\<close>, \<^verbatim>\<open>convert_indices.rs\<close>), \<open>Range_Type\<close> (\<^verbatim>\<open>range_type.rs\<close>), \<open>Starlark_Int\<close> (\<^verbatim>\<open>inline_int.rs\<close>,
    \<^verbatim>\<open>int_or_big.rs\<close>, \<^verbatim>\<open>bigint.rs\<close>; \<open>num_bigint\<close> is a parameter with exact laws, locale \<open>int_env\<close>, interpreted for both widths of inline integers).
  \<^item> \<open>Def_Params\<close> (\<^verbatim>\<open>syntax/def.rs\<close>), \<open>Call_Args\<close> (\<^verbatim>\<open>syntax/call.rs\<close>): validation of parameter lists and call arguments. \<open>Def_Instr\<close>,
    \<open>Def_Props\<close> (\<^verbatim>\<open>eval/compiler/def.rs\<close>, \<^verbatim>\<open>eval/bc/compiler/def.rs\<close>, \<^verbatim>\<open>eval/bc/instr_impl.rs\<close>, \<^verbatim>\<open>typing/callable_param.rs\<close>): a validated list becomes a run-time
    specification and a type. \<open>Parameters\<close>, \<open>Parameter_Props\<close> (\<^verbatim>\<open>eval/runtime/params/spec.rs\<close>): the builder of the
    specification and \<open>collect\<close>, which moves arguments into slots.
  \<^item> \<open>Format_String\<close> (\<^verbatim>\<open>dot_format_parser.rs\<close>), \<open>Dot_Format\<close> (\<^verbatim>\<open>dot_format.rs\<close>), \<open>Percent_Format\<close> (\<^verbatim>\<open>interpolation.rs\<close>):
    \<open>str.format\<close> and the operator \<open>%\<close>.
  \<^item> \<open>Utf8\<close>: strings of Rust as bytes and as characters. \<open>String_Repr\<close> (\<^verbatim>\<open>values/types/string/repr.rs\<close>, \<^verbatim>\<open>simd.rs\<close>): \<open>repr\<close> with its vectorised
    loop. \<open>Lexer_String\<close>, \<open>Lexer\<close>, \<open>Lexer_Props\<close> (\<^verbatim>\<open>starlark_syntax/src/lexer.rs\<close>, \<^verbatim>\<open>cursors.rs\<close>): string literals, integer literals,
    comments and indentation over the scanner that \<open>logos\<close> generates, which is a parameter with the promises \<open>logos_ok\<close>.
  \<^item> \<open>Fast_String\<close> (\<^verbatim>\<open>starlark_syntax/src/fast_string.rs\<close>): positions in a string by character, with the scan by words over the
    ASCII prefix. \<open>String_Type\<close> (\<^verbatim>\<open>values/types/string/str_type.rs\<close>, \<^verbatim>\<open>iter.rs\<close>, \<^verbatim>\<open>aligned_padded_str.rs\<close>): string values, their equality by words,
    cached hash, indexing, slicing and iteration. \<open>String_Methods\<close>, \<open>String_Search\<close>, \<open>String_Split\<close> (\<^verbatim>\<open>values/types/string/methods.rs\<close>):
    the methods of strings; the tables of Unicode are a parameter. \<open>Code_Map\<close> (\<^verbatim>\<open>starlark_syntax/src/codemap.rs\<close>): spans, lines and
    columns.
  \<^item> \<open>Set_Type\<close> (\<^verbatim>\<open>values/types/set/value.rs\<close>, \<^verbatim>\<open>refs.rs\<close>, \<^verbatim>\<open>methods.rs\<close>, \<^verbatim>\<open>set.rs\<close>): sets of Starlark over \<open>SmallSet\<close>. A set is a cell with its
    content, whether it is frozen and how many iterations borrow it; the inductive relation \<open>set_step\<close> is what a program does to it.
    \<open>Dict_Type\<close> (\<^verbatim>\<open>values/types/dict/value.rs\<close>, \<^verbatim>\<open>refs.rs\<close>, \<^verbatim>\<open>methods.rs\<close>): dictionaries over \<open>SmallMap\<close>, in the same way;
    \<open>update\<close>, which can meet the dictionary that it changes among its arguments, works on a store of cells with their borrows.
  \<^item> \<open>List_Type\<close> (\<^verbatim>\<open>values/types/array.rs\<close>, \<^verbatim>\<open>values/types/list/value.rs\<close>, \<^verbatim>\<open>methods.rs\<close>, the constructors of \<^verbatim>\<open>heap_type.rs\<close>): lists over arrays of fixed capacity
    in a store, since an iterator shares the array of its list and a list that grows moves to a new one; \<open>list_step\<close> is what a program
    does to a list.

  \<^bold>\<open>What is shown.\<close> Collections: every sequence of \<open>SmallMap\<close> operations behaves as the association list in insertion
  order and keeps the invariant that ties the table to the entries; sorting is stable, \<open>retain\<close> is right even when the closure
  unwinds, allocations are large enough. Numbers: arithmetic is exact whatever the mix of inline and big operands,
  division floors, slices and ranges select exactly the elements of the arithmetic sequence, within the
  bounds stated. Functions: validation accepts exactly its grammar, every validated list yields a well-formed
  specification without a failing assertion, and \<open>collect\<close> succeeds exactly on the acceptable calls with every slot as
  specified. Format strings: on every UTF-8 string the parser returns exactly the token lists that it spells and no slice panics, \<open>format\<close>
  and \<open>%\<close> compute their rendering, the compiled shortcuts agree with the general path, and printed integers read back.
  Lexer: the blocks of every error-free token stream are balanced, lexing ends on every source, without a panic when it is smaller than 4 GiB, and
  the literal that \<open>repr\<close> prints is lexed back to the same string. Strings: indexing, slicing and the bounds of the methods
  agree with the list of characters on every path, fast or slow; searching returns the first or last occurrence, splitting and
  joining are inverse, splitting at white space and at line ends gives the words and the lines; the position of every character
  resolves to its line and column. Sets: methods and operators compute the set operations in a definite order, and a set that
  is frozen or iterated over does not change. Dictionaries: the methods refine the operations on the list of entries, their errors included, and \<open>update\<close> with the
  dictionary itself among the pairs panics. Lists: the methods refine the operations on sequences through every growth of the
  array, and an iterator sees the same elements until it stops.

  \<^bold>\<open>Loops.\<close> Every loop is a total recursive function, with a measure where the recursion is not structural (the
  rest of the input, the distance to an index, the length of the range of a binary search); no fuel is used. The loop of \<open>Lexer::next\<close> depends on the progress of the
  scanner, so it is a partial function, and that it returns is a theorem.

  \<^bold>\<open>Not modelled.\<close> The heap with its garbage collector, the bytecode interpreter but for \<open>InstrDef\<close>, the optimising
  compiler, scopes, the generated grammar, the type checker, floats (their printing is an argument of \<open>percent\<close>),
  tuples, structs, records and enums, library functions, debugging and profiling, macros, the language server and the
  command line: they are I/O, depend on code generated at build time, or rest on the unsafe object layout. Borrowing
  iterators, display and serialisation of the modelled types are left out as well. A slice of a vector or of the source that a length
  check in front of it guards is written with \<open>take\<close> and \<open>drop\<close> (call arguments, literals and comments in the lexer), and so are the reads of
  \<open>skip_at_most_1byte\<close>, where a read past the end is \<open>None\<close>; the slices of the parser of format strings can panic in the model.
\<close>

end
